(* ===== verification/Prelude.thy ===== *)
theory Prelude
  imports Main "HOL-Library.Word" "HOL-Library.Product_Lexorder"
begin

text \<open>
  Shared vocabulary of the development: machine integers and byte strings, the result type
  of fallible Rust code, checked indexing and slicing, the big-endian byte codecs of
  \<open>from_be_bytes\<close> and \<open>to_be_bytes\<close>, saturating and checked arithmetic, and the two generic
  interfaces (streams of self-delimiting items, invariants of operation sequences) that the
  components instantiate.

  A Rust value of type \<open>Result<T, E>\<close> is an \<open>outcome\<close>. Its third constructor \<open>Panic\<close> is the
  unwinding of a failed index, slice, \<open>unwrap\<close> or checked arithmetic operation, so that the
  absence of panics is a theorem and not a convention. \<open>usize\<close> is \<open>nat\<close>: every such value is
  the length of an object in memory or a bounded sum of a few of them.
\<close>

unbundle bit_operations_syntax

named_theorems outcome_simps \<open>evaluation of checked reads and result chaining\<close>
named_theorems byte_simps \<open>lengths and elements of encoded fields\<close>
named_theorems wp \<open>weakest preconditions of checked operations\<close>

type_synonym u8 = "8 word"
type_synonym u16 = "16 word"
type_synonym u32 = "32 word"
type_synonym u64 = "64 word"
type_synonym u128 = "128 word"
type_synonym bytes = "8 word list"

text \<open>An \<open>Ipv6Addr\<close> or \<open>Ipv4Addr\<close> is the integer that its octets spell in network order.\<close>

type_synonym ipv6 = "128 word"
type_synonym ipv4 = "32 word"

section \<open>Definitions\<close>

subsection \<open>Results\<close>

datatype ('e, 'a) outcome = Ok 'a | Err 'e | Panic

text \<open>The question-mark operator and \<open>and_then\<close>: an error or a panic ends the computation.\<close>

fun and_then :: "('e, 'a) outcome \<Rightarrow> ('a \<Rightarrow> ('e, 'b) outcome) \<Rightarrow> ('e, 'b) outcome" where
  "and_then (Ok x) f = f x"
| "and_then (Err e) f = Err e"
| "and_then Panic f = Panic"

fun map_ok :: "('a \<Rightarrow> 'b) \<Rightarrow> ('e, 'a) outcome \<Rightarrow> ('e, 'b) outcome" where
  "map_ok f (Ok x) = Ok (f x)"
| "map_ok f (Err e) = Err e"
| "map_ok f Panic = Panic"

fun map_err :: "('e \<Rightarrow> 'f) \<Rightarrow> ('e, 'a) outcome \<Rightarrow> ('f, 'a) outcome" where
  "map_err f (Ok x) = Ok x"
| "map_err f (Err e) = Err (f e)"
| "map_err f Panic = Panic"

fun ok_or :: "'e \<Rightarrow> 'a option \<Rightarrow> ('e, 'a) outcome" where
  "ok_or e None = Err e"
| "ok_or e (Some x) = Ok x"

fun unwrap :: "'a option \<Rightarrow> ('e, 'a) outcome" where
  "unwrap None = Panic"
| "unwrap (Some x) = Ok x"

fun is_ok :: "('e, 'a) outcome \<Rightarrow> bool" where
  "is_ok (Ok x) = True"
| "is_ok (Err e) = False"
| "is_ok Panic = False"

text \<open>
  \<open>ensures r Q\<close>: the computation does not panic and its result, unless it is an error,
  satisfies \<open>Q\<close>. The equations in the collection \<open>wp\<close> compute it for composed code.
\<close>

fun ensures :: "('e, 'a) outcome \<Rightarrow> ('a \<Rightarrow> bool) \<Rightarrow> bool" where
  "ensures (Ok x) Q = Q x"
| "ensures (Err e) Q = True"
| "ensures Panic Q = False"

text \<open>\<open>io::Error\<close> by its kind; \<open>io::Error::other\<close> is the last.\<close>

datatype io_error = InvalidData | InvalidInput | WouldBlock | OtherError

subsection \<open>Checked reads\<close>

text \<open>\<open>b[i]\<close> and \<open>&b[i..j]\<close>: out of range is a panic.\<close>

definition idx :: "'a list \<Rightarrow> nat \<Rightarrow> ('e, 'a) outcome" where
  "idx b i = (if i < length b then Ok (b ! i) else Panic)"

definition slice_r :: "'a list \<Rightarrow> nat \<Rightarrow> nat \<Rightarrow> ('e, 'a list) outcome" where
  "slice_r b i j = (if i \<le> j \<and> j \<le> length b then Ok (take (j - i) (drop i b)) else Panic)"

definition slice_from :: "'a list \<Rightarrow> nat \<Rightarrow> ('e, 'a list) outcome" where
  "slice_from b i = (if i \<le> length b then Ok (drop i b) else Panic)"

text \<open>\<open>b[i..i + v.len()].copy_from_slice(v)\<close>.\<close>

definition put :: "'a list \<Rightarrow> nat \<Rightarrow> 'a list \<Rightarrow> 'a list" where
  "put b i v = take i b @ v @ drop (i + length v) b"

definition put_r :: "'a list \<Rightarrow> nat \<Rightarrow> 'a list \<Rightarrow> ('e, 'a list) outcome" where
  "put_r b i v = (if i + length v \<le> length b then Ok (put b i v) else Panic)"

subsection \<open>Network byte order\<close>

definition from_be :: "bytes \<Rightarrow> 'a::len word" where
  "from_be bs = foldl (\<lambda>acc b. push_bit 8 acc OR ucast b) 0 bs"

fun to_be :: "nat \<Rightarrow> 'a::len word \<Rightarrow> bytes" where
  "to_be 0 w = []"
| "to_be (Suc n) w = ucast (drop_bit (8 * n) w) # to_be n w"

text \<open>\<open>u16::from_be_bytes([b[i], b[i + 1]])\<close> and \<open>u32_at(b, i)\<close>.\<close>

definition u16_at :: "bytes \<Rightarrow> nat \<Rightarrow> ('e, u16) outcome" where
  "u16_at b i = map_ok from_be (slice_r b i (i + 2))"

definition u32_at :: "bytes \<Rightarrow> nat \<Rightarrow> ('e, u32) outcome" where
  "u32_at b n = map_ok from_be (slice_r b n (n + 4))"

definition ipv4_at :: "bytes \<Rightarrow> nat \<Rightarrow> ('e, ipv4) outcome" where
  "ipv4_at b i = map_ok from_be (slice_r b i (i + 4))"

definition ipv6_at :: "bytes \<Rightarrow> nat \<Rightarrow> ('e, ipv6) outcome" where
  "ipv6_at b i = map_ok from_be (slice_r b i (i + 16))"

subsection \<open>Arithmetic of the standard library\<close>

definition saturating_add :: "'a::len word \<Rightarrow> 'a word \<Rightarrow> 'a word" where
  "saturating_add a b = (if unat a + unat b < 2 ^ LENGTH('a) then a + b else - 1)"

definition saturating_sub :: "'a::len word \<Rightarrow> 'a word \<Rightarrow> 'a word" where
  "saturating_sub a b = (if b \<le> a then a - b else 0)"

text \<open>Plain \<open>+\<close> on an unsigned integer, which panics on overflow where checks are enabled.\<close>

definition add_chk :: "'a::len word \<Rightarrow> 'a word \<Rightarrow> ('e, 'a word) outcome" where
  "add_chk a b = (if unat a + unat b < 2 ^ LENGTH('a) then Ok (a + b) else Panic)"

text \<open>Plain \<open>-\<close> on a \<open>usize\<close>.\<close>

definition sub_chk :: "nat \<Rightarrow> nat \<Rightarrow> ('e, nat) outcome" where
  "sub_chk a b = (if b \<le> a then Ok (a - b) else Panic)"

text \<open>\<open>a - b\<close> on an unsigned integer, which panics on underflow.\<close>

definition word_sub_chk :: "'a::len word \<Rightarrow> 'a word \<Rightarrow> ('e, 'a word) outcome" where
  "word_sub_chk a b = (if b \<le> a then Ok (a - b) else Panic)"

text \<open>\<open>a * b\<close> on an unsigned integer.\<close>

definition mul_chk :: "'a::len word \<Rightarrow> 'a word \<Rightarrow> ('e, 'a word) outcome" where
  "mul_chk a b = (if unat a * unat b < 2 ^ LENGTH('a) then Ok (a * b) else Panic)"

text \<open>\<open>u16::try_from(n)\<close> for a \<open>usize\<close>, and the truncating \<open>n as u16\<close>.\<close>

definition u16_try_from :: "nat \<Rightarrow> u16 option" where
  "u16_try_from n = (if n < 65536 then Some (of_nat n) else None)"

definition div_ceil :: "nat \<Rightarrow> nat \<Rightarrow> nat" where
  "div_ceil a b = (a + b - 1) div b"

text \<open>\<open>b.chunks(n)\<close> for a positive \<open>n\<close>: consecutive pieces, the last one possibly shorter.\<close>

function chunks :: "nat \<Rightarrow> 'a list \<Rightarrow> 'a list list" where
  "chunks n b = (if n = 0 \<or> b = [] then [] else take n b # chunks n (drop n b))"
  by pat_completeness auto
termination
  by (relation "measure (\<lambda>(n, b). length b)") auto

declare chunks.simps [simp del]

text \<open>\<open>split(|c| *c == b'.')\<close> on octets: always at least one piece.\<close>

fun split_dots :: "bytes \<Rightarrow> bytes list" where
  "split_dots [] = [[]]"
| "split_dots (c # cs) = (if c = 46 then [] # split_dots cs
     else case split_dots cs of [] \<Rightarrow> [[c]] | l # ls \<Rightarrow> (c # l) # ls)"

section \<open>Lemmas\<close>

subsection \<open>Results\<close>

lemma and_then_Ok_iff: "and_then r f = Ok y \<longleftrightarrow> (\<exists>x. r = Ok x \<and> f x = Ok y)"
  by (cases r) auto

lemma and_then_Panic_iff: "and_then r f = Panic \<longleftrightarrow> r = Panic \<or> (\<exists>x. r = Ok x \<and> f x = Panic)"
  by (cases r) auto

lemma and_then_Err_iff: "and_then r f = Err e \<longleftrightarrow> r = Err e \<or> (\<exists>x. r = Ok x \<and> f x = Err e)"
  by (cases r) auto

lemma map_ok_Ok_iff [simp]: "map_ok f r = Ok y \<longleftrightarrow> (\<exists>x. r = Ok x \<and> y = f x)"
  by (cases r) auto

lemma map_ok_Panic_iff [simp]: "map_ok f r = Panic \<longleftrightarrow> r = Panic"
  by (cases r) auto

lemma map_err_Ok_iff [simp]: "map_err f r = Ok y \<longleftrightarrow> r = Ok y"
  by (cases r) auto

lemma map_err_Panic_iff [simp]: "map_err f r = Panic \<longleftrightarrow> r = Panic"
  by (cases r) auto

lemma ok_or_not_Panic [simp]: "ok_or e x \<noteq> Panic"
  by (cases x) auto

lemma ok_or_Ok_iff [simp]: "ok_or e x = Ok y \<longleftrightarrow> x = Some y"
  by (cases x) auto

lemma unwrap_Ok_iff [simp]: "unwrap x = Ok y \<longleftrightarrow> x = Some y"
  by (cases x) auto

lemma unwrap_Panic_iff [simp]: "unwrap x = Panic \<longleftrightarrow> x = None"
  by (cases x) auto

lemma unwrap_not_Err [simp]: "unwrap x \<noteq> Err e"
  by (cases x) auto

lemma and_then_not_PanicI [intro]:
  "r \<noteq> Panic \<Longrightarrow> (\<And>x. r = Ok x \<Longrightarrow> f x \<noteq> Panic) \<Longrightarrow> and_then r f \<noteq> Panic"
  by (cases r) auto

lemmas outcome_iffs = and_then_Ok_iff and_then_Panic_iff and_then_Err_iff

subsection \<open>Checked reads\<close>

lemma idx_in [simp, outcome_simps]: "i < length b \<Longrightarrow> idx b i = Ok (b ! i)"
  by (simp add: idx_def)

lemma idx_Panic_iff [simp]: "idx b i = Panic \<longleftrightarrow> length b \<le> i"
  by (simp add: idx_def)

lemma idx_Ok_iff: "idx b i = Ok v \<longleftrightarrow> i < length b \<and> v = b ! i"
  by (auto simp: idx_def)

lemma slice_r_in [simp, outcome_simps]:
  "i \<le> j \<Longrightarrow> j \<le> length b \<Longrightarrow> slice_r b i j = Ok (take (j - i) (drop i b))"
  by (simp add: slice_r_def)

lemma slice_r_Panic_iff [simp]: "slice_r b i j = Panic \<longleftrightarrow> \<not> (i \<le> j \<and> j \<le> length b)"
  by (simp add: slice_r_def)

lemma slice_r_Ok_iff: "slice_r b i j = Ok v \<longleftrightarrow> i \<le> j \<and> j \<le> length b \<and> v = take (j - i) (drop i b)"
  by (auto simp: slice_r_def)

lemma slice_from_in [simp, outcome_simps]: "i \<le> length b \<Longrightarrow> slice_from b i = Ok (drop i b)"
  by (simp add: slice_from_def)

lemma slice_from_Panic_iff [simp]: "slice_from b i = Panic \<longleftrightarrow> length b < i"
  by (auto simp: slice_from_def)

lemma u16_at_in [simp, outcome_simps]:
  "i + 2 \<le> length b \<Longrightarrow> u16_at b i = Ok (from_be (take 2 (drop i b)))"
  by (simp add: u16_at_def)

lemma u16_at_Panic_iff [simp]: "u16_at b i = Panic \<longleftrightarrow> length b < i + 2"
  by (auto simp: u16_at_def)

lemma u32_at_in [simp, outcome_simps]:
  "i + 4 \<le> length b \<Longrightarrow> u32_at b i = Ok (from_be (take 4 (drop i b)))"
  by (simp add: u32_at_def)

lemma u32_at_Panic_iff [simp]: "u32_at b i = Panic \<longleftrightarrow> length b < i + 4"
  by (auto simp: u32_at_def)

lemma ipv4_at_in [simp, outcome_simps]:
  "i + 4 \<le> length b \<Longrightarrow> ipv4_at b i = Ok (from_be (take 4 (drop i b)))"
  by (simp add: ipv4_at_def)

lemma ipv4_at_Panic_iff [simp]: "ipv4_at b i = Panic \<longleftrightarrow> length b < i + 4"
  by (auto simp: ipv4_at_def)

lemma ipv6_at_in [simp, outcome_simps]:
  "i + 16 \<le> length b \<Longrightarrow> ipv6_at b i = Ok (from_be (take 16 (drop i b)))"
  by (simp add: ipv6_at_def)

lemma ipv6_at_Panic_iff [simp]: "ipv6_at b i = Panic \<longleftrightarrow> length b < i + 16"
  by (auto simp: ipv6_at_def)

lemma length_put [simp, byte_simps]: "i + length v \<le> length b \<Longrightarrow> length (put b i v) = length b"
  by (simp add: put_def)

lemma put_r_in [simp, outcome_simps]: "i + length v \<le> length b \<Longrightarrow> put_r b i v = Ok (put b i v)"
  by (simp add: put_r_def)

lemma put_r_Panic_iff [simp]: "put_r b i v = Panic \<longleftrightarrow> length b < i + length v"
  by (auto simp: put_r_def)

lemma nth_put:
  "i + length v \<le> length b \<Longrightarrow> k < length b \<Longrightarrow>
     put b i v ! k = (if k < i then b ! k else if k < i + length v then v ! (k - i) else b ! k)"
  by (auto simp: put_def nth_append min_def)

lemma put_append_left [simp]: "i + length v \<le> length a \<Longrightarrow> put (a @ b) i v = put a i v @ b"
  by (simp add: put_def)

lemma put_append_exact [simp]: "length a = i \<Longrightarrow> length w = length v \<Longrightarrow> put (a @ w @ b) i v = a @ v @ b"
  by (simp add: put_def)

subsection \<open>Weakest preconditions\<close>

lemma no_panic_ensures: "r \<noteq> Panic \<longleftrightarrow> ensures r (\<lambda>_. True)"
  by (cases r) auto

lemma ensuresD: "ensures r Q \<Longrightarrow> r = Ok x \<Longrightarrow> Q x"
  by simp

lemma ensures_mono: "ensures r Q \<Longrightarrow> (\<And>x. Q x \<Longrightarrow> R x) \<Longrightarrow> ensures r R"
  by (cases r) auto

lemma ensures_iff: "ensures r Q \<longleftrightarrow> r \<noteq> Panic \<and> (\<forall>x. r = Ok x \<longrightarrow> Q x)"
  by (cases r) auto

text \<open>The rule for a call of a function already known not to panic.\<close>

lemma ensures_call: "ensures r P \<Longrightarrow> ensures r Q \<longleftrightarrow> (\<forall>x. r = Ok x \<longrightarrow> Q x)"
  by (cases r) auto

lemma ensures_and_then [wp]: "ensures (and_then r f) Q \<longleftrightarrow> ensures r (\<lambda>x. ensures (f x) Q)"
  by (cases r) auto

lemma ensures_map_ok [wp]: "ensures (map_ok f r) Q \<longleftrightarrow> ensures r (\<lambda>x. Q (f x))"
  by (cases r) auto

lemma ensures_map_err [wp]: "ensures (map_err f r) Q \<longleftrightarrow> ensures r Q"
  by (cases r) auto

lemma ensures_if [wp]: "ensures (if P then a else b) Q \<longleftrightarrow> (if P then ensures a Q else ensures b Q)"
  by simp

lemma ensures_ok_or [wp]: "ensures (ok_or e x) Q \<longleftrightarrow> (\<forall>y. x = Some y \<longrightarrow> Q y)"
  by (cases x) auto

lemma ensures_unwrap [wp]: "ensures (unwrap x) Q \<longleftrightarrow> (\<exists>y. x = Some y \<and> Q y)"
  by (cases x) auto

lemma ensures_idx [wp]: "ensures (idx b i) Q \<longleftrightarrow> i < length b \<and> Q (b ! i)"
  by (simp add: idx_def)

lemma ensures_slice_r [wp]:
  "ensures (slice_r b i j) Q \<longleftrightarrow> i \<le> j \<and> j \<le> length b \<and> Q (take (j - i) (drop i b))"
  by (auto simp: slice_r_def)

lemma ensures_slice_from [wp]: "ensures (slice_from b i) Q \<longleftrightarrow> i \<le> length b \<and> Q (drop i b)"
  by (simp add: slice_from_def)

lemma ensures_put_r [wp]: "ensures (put_r b i v) Q \<longleftrightarrow> i + length v \<le> length b \<and> Q (put b i v)"
  by (simp add: put_r_def)

lemma ensures_u16_at [wp]: "ensures (u16_at b i) Q \<longleftrightarrow> i + 2 \<le> length b \<and> Q (from_be (take 2 (drop i b)))"
  by (simp add: u16_at_def wp)

lemma ensures_u32_at [wp]: "ensures (u32_at b i) Q \<longleftrightarrow> i + 4 \<le> length b \<and> Q (from_be (take 4 (drop i b)))"
  by (simp add: u32_at_def wp)

lemma ensures_ipv4_at [wp]: "ensures (ipv4_at b i) Q \<longleftrightarrow> i + 4 \<le> length b \<and> Q (from_be (take 4 (drop i b)))"
  by (simp add: ipv4_at_def wp)

lemma ensures_ipv6_at [wp]: "ensures (ipv6_at b i) Q \<longleftrightarrow> i + 16 \<le> length b \<and> Q (from_be (take 16 (drop i b)))"
  by (simp add: ipv6_at_def wp)

lemma ensures_sub_chk [wp]: "ensures (sub_chk a b) Q \<longleftrightarrow> b \<le> a \<and> Q (a - b)"
  by (simp add: sub_chk_def)

lemma ensures_add_chk [wp]:
  "ensures (add_chk a b) Q \<longleftrightarrow> unat a + unat b < 2 ^ LENGTH('a) \<and> Q (a + b)" for a b :: "'a::len word"
  by (simp add: add_chk_def)

lemma ensures_mul_chk [wp]:
  "ensures (mul_chk a b) Q \<longleftrightarrow> unat a * unat b < 2 ^ LENGTH('a) \<and> Q (a * b)" for a b :: "'a::len word"
  by (simp add: mul_chk_def)

lemma ensures_word_sub_chk [wp]: "ensures (word_sub_chk a b) Q \<longleftrightarrow> b \<le> a \<and> Q (a - b)"
  by (simp add: word_sub_chk_def)

subsection \<open>Network byte order\<close>

lemma from_be_Nil [simp]: "from_be [] = 0"
  by (simp add: from_be_def)

lemma from_be_snoc: "from_be (bs @ [b]) = (push_bit 8 (from_be bs) OR ucast b :: 'a::len word)"
  by (simp add: from_be_def)

lemma bit_from_be:
  "bit (from_be bs :: 'a::len word) k \<longleftrightarrow>
     k < LENGTH('a) \<and> k div 8 < length bs \<and> bit (rev bs ! (k div 8)) (k mod 8)"
proof (induction bs arbitrary: k rule: rev_induct)
  case Nil
  then show ?case by simp
next
  case (snoc b bs)
  show ?case
  proof (cases "k < 8")
    case True
    then show ?thesis
      by (auto simp: from_be_snoc bit_simps dest: bit_imp_le_length)
  next
    case False
    then obtain j where k: "k = j + 8" by (metis add.commute le_Suc_ex not_less)
    have "\<not> bit b (j + 8)"
      using bit_imp_le_length [of b "j + 8"] by auto
    moreover have "(j + 8) div 8 = Suc (j div 8)" by simp
    ultimately show ?thesis
      using snoc.IH [of j] by (auto simp: k from_be_snoc bit_simps)
  qed
qed

lemma length_to_be [simp, byte_simps]: "length (to_be n w) = n"
  by (induction n) auto

lemma nth_rev_to_be: "j < n \<Longrightarrow> rev (to_be n w) ! j = ucast (drop_bit (8 * j) w)"
proof (induction n)
  case 0
  then show ?case by simp
next
  case (Suc n)
  then show ?case by (cases "j = n") (auto simp: nth_append)
qed

lemma from_be_to_be:
  fixes w :: "'a::len word"
  assumes "LENGTH('a) \<le> 8 * n"
  shows "from_be (to_be n w) = w"
proof (rule bit_word_eqI)
  fix k assume "k < LENGTH('a)"
  moreover from this assms have "k div 8 < n" by auto
  ultimately show "bit (from_be (to_be n w) :: 'a word) k \<longleftrightarrow> bit w k"
    by (simp add: bit_from_be nth_rev_to_be bit_simps)
qed

lemma to_be_from_be:
  assumes "length bs = n" and "8 * n \<le> LENGTH('a::len)"
  shows "to_be n (from_be bs :: 'a word) = bs"
proof -
  have "rev (to_be n (from_be bs :: 'a word)) = rev bs"
  proof (rule nth_equalityI)
    show "length (rev (to_be n (from_be bs :: 'a word))) = length (rev bs)"
      using assms by simp
  next
    fix j assume "j < length (rev (to_be n (from_be bs :: 'a word)))"
    then have j: "j < n" by simp
    show "rev (to_be n (from_be bs :: 'a word)) ! j = rev bs ! j"
    proof (rule bit_word_eqI)
      fix k :: nat assume k: "k < LENGTH(8)"
      with j assms(2) have "8 * j + k < LENGTH('a)" by simp
      with j k assms(1) show "bit (rev (to_be n (from_be bs :: 'a word)) ! j) k \<longleftrightarrow> bit (rev bs ! j) k"
        by (simp add: nth_rev_to_be bit_simps bit_from_be)
    qed
  qed
  then show ?thesis by simp
qed

lemma to_be_octets:
  "to_be 2 w = [ucast (drop_bit 8 w), ucast w]"
  "to_be 4 w = [ucast (drop_bit 24 w), ucast (drop_bit 16 w), ucast (drop_bit 8 w), ucast w]"
  "replicate 2 x = [x, x]"
  by (simp_all add: numeral_2_eq_2 numeral_eq_Suc)

lemma from_be_to_be_u16 [simp]: "from_be (to_be 2 (w :: u16)) = w"
  by (rule from_be_to_be) simp

lemma from_be_to_be_u32 [simp]: "from_be (to_be 4 (w :: u32)) = w"
  by (rule from_be_to_be) simp

lemma from_be_to_be_u128 [simp]: "from_be (to_be 16 (w :: u128)) = w"
  by (rule from_be_to_be) simp

lemma to_be_from_be_u16 [simp]: "length bs = 2 \<Longrightarrow> to_be 2 (from_be bs :: u16) = bs"
  by (rule to_be_from_be) simp_all

lemma to_be_from_be_u32 [simp]: "length bs = 4 \<Longrightarrow> to_be 4 (from_be bs :: u32) = bs"
  by (rule to_be_from_be) simp_all

lemma to_be_from_be_u128 [simp]: "length bs = 16 \<Longrightarrow> to_be 16 (from_be bs :: u128) = bs"
  by (rule to_be_from_be) simp_all

lemma to_be_0 [simp]: "to_be n 0 = replicate n 0"
  by (induction n) auto

subsection \<open>Words read as numbers\<close>

lemma u8_less: "unat (x :: u8) < 256"
  using unsigned_less [of x, where ?'a = nat] by simp

lemma unat_ucast_up:
  fixes x :: "'a::len word"
  assumes "LENGTH('a) \<le> LENGTH('b::len)"
  shows "unat (ucast x :: 'b word) = unat x"
proof -
  have "unat x < 2 ^ LENGTH('a)" by (rule unsigned_less)
  also have "\<dots> \<le> 2 ^ LENGTH('b)" using assms by simp
  finally show ?thesis by (simp add: unsigned_ucast_eq take_bit_nat_eq_self_iff)
qed

lemma unat_ucast_u8_u32 [simp]: "unat (ucast (x :: u8) :: u32) = unat x"
  by (rule unat_ucast_up) simp

lemma unat_ucast_u8_u16 [simp]: "unat (ucast (x :: u8) :: u16) = unat x"
  by (rule unat_ucast_up) simp

lemma unat_ucast_u16_u32 [simp]: "unat (ucast (x :: u16) :: u32) = unat x"
  by (rule unat_ucast_up) simp

lemma unat_ucast_u32_u64 [simp]: "unat (ucast (x :: u32) :: u64) = unat x"
  by (rule unat_ucast_up) simp

lemma unat_from_be2: "unat (from_be [a, b] :: u16) = 256 * unat a + unat b"
proof -
  have "from_be [a, b] = (word_cat a b :: u16)"
    by (simp add: from_be_def word_cat_eq_push_bit_or)
  then have "unat (from_be [a, b] :: u16) = unat (push_bit 8 (ucast a) + ucast b :: u16)"
    by (simp add: word_cat_eq)
  also have "\<dots> = 256 * unat a + unat b"
    using u8_less [of a] u8_less [of b]
    by (simp add: push_bit_eq_mult unat_word_ariths)
  finally show ?thesis .
qed

lemma u16_less: "unat (x :: u16) < 65536"
  using unsigned_less [of x, where ?'a = nat] by simp

lemma u16_le: "unat (x :: u16) \<le> 65535"
  using u16_less [of x] by linarith

lemma u16_try_from_Some_iff: "u16_try_from n = Some w \<longleftrightarrow> n < 65536 \<and> w = of_nat n"
  by (auto simp: u16_try_from_def)

lemma unat_of_nat_u16 [simp]: "n < 65536 \<Longrightarrow> unat (of_nat n :: u16) = n"
  by (simp add: unat_of_nat take_bit_nat_eq_self_iff)

lemma unat_of_nat_u8: "n < 256 \<Longrightarrow> unat (of_nat n :: u8) = n"
  by (simp add: unat_of_nat take_bit_nat_eq_self_iff)

lemma unat_of_nat_u32: "n < 2 ^ 32 \<Longrightarrow> unat (of_nat n :: u32) = n"
  by (simp add: unat_of_nat take_bit_nat_eq_self_iff)

lemma unat_saturating_add:
  "unat (saturating_add a b) = min (unat a + unat b) (2 ^ LENGTH('a) - 1)"
  for a b :: "'a::len word"
  by (auto simp: saturating_add_def unat_word_ariths unsigned_minus_1_eq_mask mask_eq_exp_minus_1)

lemma saturating_add_ge [simp]: "a \<le> saturating_add a b"
  for a b :: "'a::len word"
proof -
  have "unat a < 2 ^ LENGTH('a)" by (rule unsigned_less)
  then have "unat a \<le> 2 ^ LENGTH('a) - 1" by linarith
  then show ?thesis by (simp add: word_le_nat_alt unat_saturating_add)
qed

lemma saturating_add_mono: "a \<le> a' \<Longrightarrow> saturating_add a b \<le> saturating_add a' b"
  by (auto simp: word_le_nat_alt unat_saturating_add)

lemma unat_saturating_sub: "unat (saturating_sub a b) = unat a - unat b"
  by (auto simp: saturating_sub_def unat_sub word_le_nat_alt)

lemma add_chk_Ok_iff:
  "add_chk a b = Ok c \<longleftrightarrow> unat a + unat b < 2 ^ LENGTH('a) \<and> c = a + b \<and> unat c = unat a + unat b"
  for a b :: "'a::len word"
  by (auto simp: add_chk_def unat_word_ariths)

lemma ucast_u32_u64_u32 [simp]: "ucast (ucast (x :: u32) :: u64) = x"
  by (rule bit_word_eqI) (simp add: bit_simps)

subsection \<open>Chunks\<close>

lemma chunks_Nil [simp]: "chunks n [] = []"
  by (simp add: chunks.simps)

lemma concat_chunks: "0 < n \<Longrightarrow> concat (chunks n b) = b"
  by (induction n b rule: chunks.induct) (subst chunks.simps, auto)

lemma chunks_le: "c \<in> set (chunks n b) \<Longrightarrow> length c \<le> n \<and> c \<noteq> []"
proof (induction n b rule: chunks.induct)
  case (1 n b)
  then show ?case by (auto simp: chunks.simps [of n b] split: if_splits)
qed

subsection \<open>Recursion under a question mark\<close>

text \<open>The congruence that lets a loop recurse on what a checked read returned.\<close>

lemma and_then_cong [fundef_cong]:
  "r = r' \<Longrightarrow> (\<And>x. r' = Ok x \<Longrightarrow> f x = g x) \<Longrightarrow> and_then r f = and_then r' g"
  by (cases r') auto

section \<open>Interfaces\<close>

text \<open>
  A stream of self-delimiting items (Neighbour Discovery options, DHCPv6 options): parsing an
  encoded item in front of any rest yields that item and then the items of the rest. The
  client lemma is the round trip for a whole stream.
\<close>

locale item_stream =
  fixes parse :: "bytes \<Rightarrow> ('e, 'i list) outcome"
    and enc :: "'x \<Rightarrow> bytes"
    and item :: "'x \<Rightarrow> 'i"
    and wf :: "'x \<Rightarrow> bool"
  assumes parse_nil: "parse [] = Ok []"
    and parse_cons: "wf x \<Longrightarrow> parse (enc x @ rest) = map_ok ((#) (item x)) (parse rest)"
begin

lemma parse_prefix:
  "list_all wf xs \<Longrightarrow> parse (concat (map enc xs) @ rest) = map_ok ((@) (map item xs)) (parse rest)"
proof (induction xs)
  case Nil
  then show ?case by (cases "parse rest") auto
next
  case (Cons x xs)
  then show ?case by (cases "parse rest") (auto simp: parse_cons)
qed

lemma parse_stream: "list_all wf xs \<Longrightarrow> parse (concat (map enc xs)) = Ok (map item xs)"
  using parse_prefix [of xs "[]"] by (simp add: parse_nil)

end

subsection \<open>Calls that change a state and may fail\<close>

text \<open>
  A method on \<open>&mut self\<close> returns its result with the state it leaves behind, also after an
  error; \<open>then_do\<close> is the question mark between two such steps.
\<close>

fun then_do :: "(io_error, 'a) outcome \<times> 's \<Rightarrow> ('a \<Rightarrow> 's \<Rightarrow> (io_error, 'b) outcome \<times> 's) \<Rightarrow> (io_error, 'b) outcome \<times> 's" where
  "then_do (Ok x, s) f = f x s"
| "then_do (Err e, s) f = (Err e, s)"
| "then_do (Panic, s) f = (Panic, s)"

text \<open>A step that fails only by a panic, and one that reads without changing anything.\<close>

definition modify :: "('s \<Rightarrow> (io_error, 's) outcome) \<Rightarrow> 's \<Rightarrow> (io_error, unit) outcome \<times> 's" where
  "modify f s = (case f s of Ok s' \<Rightarrow> (Ok (), s') | Err e \<Rightarrow> (Err e, s) | Panic \<Rightarrow> (Panic, s))"

definition inspect :: "(io_error, 'a) outcome \<Rightarrow> 's \<Rightarrow> (io_error, 'a) outcome \<times> 's" where
  "inspect r s = (r, s)"

definition on_fst :: "('s \<Rightarrow> (io_error, 'a) outcome \<times> 's) \<Rightarrow> 's \<times> 'r \<Rightarrow> (io_error, 'a) outcome \<times> 's \<times> 'r" where
  "on_fst f sr = (case f (fst sr) of (x, s) \<Rightarrow> (x, s, snd sr))"

text \<open>
  \<open>holds r Q\<close>: a call does not panic, and its result and final state satisfy \<open>Q\<close>; after an
  error the state satisfies \<open>E\<close>.
\<close>

fun holds :: "(io_error, 'a) outcome \<times> 's \<Rightarrow> ('a \<Rightarrow> 's \<Rightarrow> bool) \<Rightarrow> ('s \<Rightarrow> bool) \<Rightarrow> bool" where
  "holds (Ok x, s) Q E = Q x s"
| "holds (Err e, s) Q E = E s"
| "holds (Panic, s) Q E = False"

lemma holds_then_do:
  assumes "holds r P E" and "\<And>x s. P x s \<Longrightarrow> holds (f x s) Q E"
  shows "holds (then_do r f) Q E"
proof -
  obtain x s where "r = (x, s)" by (cases r)
  with assms show ?thesis by (cases x) auto
qed

lemma holds_mono:
  assumes "holds r P E" and "\<And>x s. P x s \<Longrightarrow> Q x s" and "\<And>s. E s \<Longrightarrow> F s"
  shows "holds r Q F"
proof -
  obtain x s where "r = (x, s)" by (cases r)
  with assms show ?thesis by (cases x) auto
qed

lemma holds_conj: "holds z P E \<Longrightarrow> holds z Q F \<Longrightarrow> holds z (\<lambda>x s. P x s \<and> Q x s) E"
  by (cases z; cases "fst z") auto

lemma holds_Ok: "holds z Q E \<Longrightarrow> (\<And>x s. z = (Ok x, s) \<Longrightarrow> Q x s \<Longrightarrow> P x s) \<Longrightarrow> (\<And>s. E s \<Longrightarrow> F s) \<Longrightarrow> holds z P F"
  by (cases z; cases "fst z") auto

lemma then_do_Ok_iff: "fst (then_do z f) = Ok v \<longleftrightarrow> (\<exists>x s. z = (Ok x, s) \<and> fst (f x s) = Ok v)"
  by (cases z; cases "fst z") auto

lemma then_do_eq_Ok: "then_do z f = (Ok v, t) \<longleftrightarrow> (\<exists>x s. z = (Ok x, s) \<and> f x s = (Ok v, t))"
  by (cases z; cases "fst z") auto

lemma holds_on_fst:
  assumes "holds (f s) (\<lambda>x s. Q x (s, r)) (\<lambda>s. E (s, r))"
  shows "holds (on_fst f (s, r)) Q E"
proof -
  obtain x t where "f s = (x, t)" by (cases "f s")
  with assms show ?thesis by (cases x) (auto simp: on_fst_def)
qed

lemma holds_modify: "f s = Ok s' \<Longrightarrow> Q () s' \<Longrightarrow> holds (modify f s) Q E"
  by (simp add: modify_def)

lemma holds_inspect: "r \<noteq> Panic \<Longrightarrow> E s \<Longrightarrow> (\<And>x. r = Ok x \<Longrightarrow> Q x s) \<Longrightarrow> holds (inspect r s) Q E"
  by (cases r) (simp_all add: inspect_def)

lemma holds_snd: "holds r (\<lambda>_. I) E \<Longrightarrow> (\<And>s. E s \<Longrightarrow> I s) \<Longrightarrow> I (snd r)"
  by (cases r; cases "fst r") auto

lemma holds_no_panic: "holds r Q E \<Longrightarrow> fst r \<noteq> Panic"
  by (cases r; cases "fst r") auto

text \<open>
  A component run by a sequence of calls: an invariant of the initial states that every call
  keeps holds after any number of calls.
\<close>

locale call_invariant =
  fixes start :: "'s \<Rightarrow> bool"
    and call :: "'s \<Rightarrow> 's \<Rightarrow> bool"
    and inv :: "'s \<Rightarrow> bool"
  assumes start_inv: "start s \<Longrightarrow> inv s"
    and call_inv: "call s t \<Longrightarrow> inv s \<Longrightarrow> inv t"
begin

lemma run_inv: "call\<^sup>*\<^sup>* s t \<Longrightarrow> inv s \<Longrightarrow> inv t"
  by (induction rule: rtranclp_induct) (auto intro: call_inv)

lemma reachable_inv: "start s \<Longrightarrow> call\<^sup>*\<^sup>* s t \<Longrightarrow> inv t"
  by (rule run_inv) (auto intro: start_inv)

end

text \<open>
  The calls of a component implement a step relation on an abstract state: a call is any number of
  abstract steps.
\<close>

locale call_refinement = call_invariant start call inv
  for start :: "'s \<Rightarrow> bool" and call :: "'s \<Rightarrow> 's \<Rightarrow> bool" and inv :: "'s \<Rightarrow> bool" +
  fixes abs :: "'s \<Rightarrow> 'a"
    and step :: "'a \<Rightarrow> 'a \<Rightarrow> bool"
  assumes simulates: "inv s \<Longrightarrow> call s t \<Longrightarrow> step\<^sup>*\<^sup>* (abs s) (abs t)"
begin

lemma run_simulated: "call\<^sup>*\<^sup>* s t \<Longrightarrow> inv s \<Longrightarrow> step\<^sup>*\<^sup>* (abs s) (abs t)"
proof (induction rule: rtranclp_induct)
  case (step t u)
  then show ?case using simulates [OF run_inv [OF step(1)] step(2)] by (meson rtranclp_trans)
qed simp

lemma reachable_simulated: "start s \<Longrightarrow> call\<^sup>*\<^sup>* s t \<Longrightarrow> call\<^sup>*\<^sup>* t u \<Longrightarrow> step\<^sup>*\<^sup>* (abs t) (abs u)"
  by (rule run_simulated [OF _ reachable_inv])

end

end
