(* ===== verification/Checksum.thy ===== *)
theory Checksum
  imports Prelude
begin

text \<open>
  The Internet checksum in its two source forms, \<open>wire::checksum\<close> (with the IPv6 pseudo
  header) and \<open>ipv4::wire::checksum\<close>, over 32-bit accumulators, and its specification: the
  one's-complement sum of the 16-bit words. The locale \<open>internet_checksum\<close> is what the packet
  builders rely on: a packet whose checksum field was filled in verifies.
\<close>

section \<open>Definitions\<close>

text \<open>The nested \<open>fn add\<close>: big-endian 16-bit words, an odd last octet padded with zero.\<close>

fun sum16 :: "u32 \<Rightarrow> bytes \<Rightarrow> u32" where
  "sum16 n [] = n"
| "sum16 n [a] = n + push_bit 8 (ucast a)"
| "sum16 n (a # b # bs) = sum16 (n + (push_bit 8 (ucast a) OR ucast b)) bs"

lemma unat_low16: "unat (n AND 65535) = unat n mod 65536" for n :: u32
proof -
  have "n AND 65535 = take_bit 16 n"
    by (simp add: take_bit_eq_mask mask_eq_exp_minus_1)
  then show ?thesis
    by (simp add: take_bit_eq_mod unat_mod_distrib)
qed

lemma unat_high16: "unat (drop_bit 16 n) = unat n div 65536" for n :: u32
  by (simp add: drop_bit_eq_div unat_div_distrib)

lemma drop_bit16_iff: "drop_bit 16 (n :: u32) \<noteq> 0 \<longleftrightarrow> 65535 < n"
proof -
  have "drop_bit 16 n \<noteq> 0 \<longleftrightarrow> unat n div 65536 \<noteq> 0"
    unfolding unat_high16 [symmetric] by (simp only: unsigned_eq_0_iff)
  then show ?thesis
    by (auto simp: word_less_nat_alt)
qed

lemma carry_decreases:
  fixes n :: u32
  assumes "drop_bit 16 n \<noteq> 0"
  shows "unat ((n AND 65535) + drop_bit 16 n) = unat n mod 65536 + unat n div 65536"
    and "unat n mod 65536 + unat n div 65536 < unat n"
proof -
  have "unat n < 2 ^ 32"
    using unsigned_less [of n, where ?'a = nat] by simp
  then show "unat ((n AND 65535) + drop_bit 16 n) = unat n mod 65536 + unat n div 65536"
    by (simp add: unat_word_ariths unat_low16 unat_high16)
  from assms have "0 < unat n div 65536"
    by (simp add: drop_bit16_iff word_less_nat_alt)
  moreover have "unat n = 65536 * (unat n div 65536) + unat n mod 65536" by simp
  ultimately show "unat n mod 65536 + unat n div 65536 < unat n" by linarith
qed

text \<open>\<open>while n >> 16 != 0\<close> of \<open>wire::checksum\<close>.\<close>

function fold16 :: "u32 \<Rightarrow> u32" where
  "fold16 n = (if drop_bit 16 n \<noteq> 0 then fold16 ((n AND 65535) + drop_bit 16 n) else n)"
  by pat_completeness auto
termination
proof (relation "measure unat")
  fix n :: u32
  assume "drop_bit 16 n \<noteq> 0"
  from carry_decreases [OF this] show "((n AND 65535) + drop_bit 16 n, n) \<in> measure unat"
    by simp
qed simp

declare fold16.simps [simp del]

definition checksum :: "ipv6 \<Rightarrow> ipv6 \<Rightarrow> u8 \<Rightarrow> bytes \<Rightarrow> u16" where
  "checksum source destination nxt data =
     (let n = sum16 0 (to_be 16 source);
          n = sum16 n (to_be 16 destination);
          n = sum16 n (to_be 4 (of_nat (length data) :: u32));
          n = n + ucast nxt;
          n = sum16 n data
      in NOT (ucast (fold16 n)))"

text \<open>\<open>while sum > 65535\<close> of \<open>ipv4::wire::checksum\<close>: the same loop, its guard written on the value.\<close>

function fold16_v4 :: "u32 \<Rightarrow> u32" where
  "fold16_v4 n = (if 65535 < n then fold16_v4 ((n AND 65535) + drop_bit 16 n) else n)"
  by pat_completeness auto
termination
proof (relation "measure unat")
  fix n :: u32
  assume "65535 < n"
  then have "drop_bit 16 n \<noteq> 0" by (simp add: drop_bit16_iff)
  from carry_decreases [OF this] show "((n AND 65535) + drop_bit 16 n, n) \<in> measure unat"
    by simp
qed simp

declare fold16_v4.simps [simp del]

definition ipv4_checksum :: "bytes \<Rightarrow> u16" where
  "ipv4_checksum bs = NOT (ucast (fold16_v4 (sum16 0 bs)))"

subsection \<open>Specification\<close>

fun word_sum :: "bytes \<Rightarrow> nat" where
  "word_sum [] = 0"
| "word_sum [a] = 256 * unat a"
| "word_sum (a # b # bs) = 256 * unat a + unat b + word_sum bs"

text \<open>The representative in \<open>1 \<dots> 65535\<close> of a positive number modulo 65535.\<close>

definition ones_sum :: "nat \<Rightarrow> nat" where
  "ones_sum n = (if n = 0 then 0 else (n - 1) mod 65535 + 1)"

lemma ones_sum_le [simp]: "ones_sum n \<le> 65535"
proof -
  have "(n - 1) mod 65535 < 65535" by simp
  then show ?thesis unfolding ones_sum_def by (cases "n = 0") auto
qed

lemma ones_sum_complement: "ones_sum n + c = 65535 \<Longrightarrow> ones_sum (n + c) = 65535"
proof (cases "n = 0")
  case True
  assume "ones_sum n + c = 65535"
  with True show ?thesis by (simp add: ones_sum_def)
next
  case False
  assume "ones_sum n + c = 65535"
  with False have c: "(n - 1) mod 65535 + c = 65534" by (simp add: ones_sum_def)
  have "(n + c - 1) mod 65535 = ((n - 1) mod 65535 + c) mod 65535"
    using False by (simp add: mod_add_left_eq)
  with c False show ?thesis by (simp add: ones_sum_def)
qed

lemma ones_sum_add_ones: "ones_sum n = 65535 \<Longrightarrow> ones_sum (n + 65535) = 65535"
proof -
  assume n: "ones_sum n = 65535"
  then have "n \<noteq> 0" by (intro notI) (simp add: ones_sum_def)
  then have "n + 65535 - 1 = (n - 1) + 65535" by simp
  then have "(n + 65535 - 1) mod 65535 = (n - 1) mod 65535" by (metis mod_add_self2)
  with n \<open>n \<noteq> 0\<close> show ?thesis unfolding ones_sum_def by simp
qed

lemma word_sum_append: "even (length xs) \<Longrightarrow> word_sum (xs @ ys) = word_sum xs + word_sum ys"
  by (induction xs rule: word_sum.induct) auto

lemma word_sum_be2 [simp]: "word_sum (to_be 2 (w :: u16)) = unat w"
proof -
  have "to_be 2 w = [ucast (drop_bit 8 w), ucast w]"
    by (simp add: numeral_2_eq_2)
  then show ?thesis
    using unat_from_be2 [of "ucast (drop_bit 8 w)" "ucast w"] from_be_to_be_u16 [of w] by simp
qed

lemma word_sum_put:
  assumes "even i" and "i + 2 \<le> length bs" and "take 2 (drop i bs) = [0, 0]"
  shows "word_sum (put bs i (to_be 2 (w :: u16))) = word_sum bs + unat w"
proof -
  have bs: "bs = take i bs @ take 2 (drop i bs) @ drop (i + 2) bs"
    by (metis append_take_drop_id drop_drop add.commute)
  have "word_sum bs = word_sum (take i bs) + word_sum (take 2 (drop i bs) @ drop (i + 2) bs)"
    using assms(1,2) by (subst bs, subst word_sum_append) auto
  moreover have "word_sum (take 2 (drop i bs) @ drop (i + 2) bs) = word_sum (drop (i + 2) bs)"
    using assms(3) by simp
  moreover have "word_sum (put bs i (to_be 2 w)) = word_sum (take i bs) + (unat w + word_sum (drop (i + 2) bs))"
    using assms(1,2) by (simp add: put_def word_sum_append)
  ultimately show ?thesis by simp
qed

locale internet_checksum =
  fixes ck :: "'c \<Rightarrow> bytes \<Rightarrow> u16"
    and pseudo :: "'c \<Rightarrow> nat \<Rightarrow> nat"
    and limit :: nat
  assumes spec: "length bs \<le> limit \<Longrightarrow>
    unat (ck c bs) = 65535 - ones_sum (pseudo c (length bs) + word_sum bs)"
begin

lemma limit_len: "length bs \<le> limit \<Longrightarrow> ones_sum (pseudo c (length bs) + word_sum bs) + unat (ck c bs) = 65535"
  using spec [of bs c] ones_sum_le [of "pseudo c (length bs) + word_sum bs"] by simp

text \<open>Filling a zeroed, aligned checksum field makes the packet verify.\<close>

lemma filled_verifies:
  assumes "length bs \<le> limit" and "even i" and "i + 2 \<le> length bs"
    and "take 2 (drop i bs) = [0, 0]"
  shows "ck c (put bs i (to_be 2 (ck c bs))) = 0"
proof -
  let ?new = "put bs i (to_be 2 (ck c bs))"
  have "word_sum ?new = word_sum bs + unat (ck c bs)"
    using assms by (simp add: word_sum_put)
  moreover have "length ?new = length bs" using assms by simp
  ultimately have "unat (ck c ?new) = 65535 - ones_sum (pseudo c (length bs) + word_sum bs + unat (ck c bs))"
    using assms(1) spec [of ?new c] by (simp add: add.assoc)
  also have "\<dots> = 0"
    using limit_len [OF assms(1), of c] by (simp add: ones_sum_complement)
  finally show ?thesis by (simp add: unsigned_eq_0_iff)
qed

text \<open>A UDP sender transmits 65535 in place of a zero checksum, which verifies as well.\<close>

lemma filled_ones_verifies:
  assumes "length bs \<le> limit" and "even i" and "i + 2 \<le> length bs"
    and "take 2 (drop i bs) = [0, 0]" and "ck c bs = 0"
  shows "ck c (put bs i (to_be 2 (65535 :: u16))) = 0"
proof -
  let ?new = "put bs i (to_be 2 (65535 :: u16))"
  have "word_sum ?new = word_sum bs + 65535"
    using assms by (simp add: word_sum_put)
  moreover have "length ?new = length bs" using assms by simp
  ultimately have "unat (ck c ?new) = 65535 - ones_sum (pseudo c (length bs) + word_sum bs + 65535)"
    using assms(1) spec [of ?new c] by (simp add: add.assoc)
  also have "\<dots> = 0"
    using limit_len [OF assms(1), of c] assms(5)
    by (simp add: ones_sum_add_ones)
  finally show ?thesis by (simp add: unsigned_eq_0_iff)
qed

end

section \<open>The source loops compute the specification\<close>

lemma fold16_v4_eq: "fold16_v4 n = fold16 n"
  by (induction n rule: fold16.induct)
    (subst fold16_v4.simps, subst fold16.simps, simp add: drop_bit16_iff)

lemma ones_sum_carry: "ones_sum (n mod 65536 + n div 65536) = ones_sum n"
proof (cases "n = 0")
  case False
  have n: "n = (n mod 65536 + n div 65536) + 65535 * (n div 65536)"
    using div_mult_mod_eq [of n 65536] by simp
  have pos: "0 < n mod 65536 + n div 65536"
    using False n by (metis add_0 gr0I mult_0_right add_is_0)
  then have "n - 1 = (n mod 65536 + n div 65536 - 1) + 65535 * (n div 65536)"
    using n by linarith
  then have "(n - 1) mod 65535 = (n mod 65536 + n div 65536 - 1) mod 65535"
    by (metis mod_mult_self2)
  with pos False show ?thesis by (simp add: ones_sum_def)
qed simp

lemma unat_fold16: "unat (fold16 n) = ones_sum (unat n)"
proof (induction n rule: fold16.induct)
  case (1 n)
  show ?case
  proof (cases "drop_bit 16 n \<noteq> 0")
    case True
    with 1 carry_decreases(1) [OF True] show ?thesis
      by (simp add: fold16.simps [of n] ones_sum_carry)
  next
    case False
    then have "unat n \<le> 65535" by (simp add: drop_bit16_iff word_less_nat_alt not_less)
    then show ?thesis
      using False by (auto simp: fold16.simps [of n] ones_sum_def)
  qed
qed

lemma unat_word16: "unat (push_bit 8 (ucast a) OR ucast b :: u32) = 256 * unat a + unat b" for a b :: u8
proof -
  have "(push_bit 8 (ucast a) OR ucast b :: u32) = word_cat a b"
    by (simp add: word_cat_eq_push_bit_or)
  then show ?thesis
    using u8_less [of a] u8_less [of b]
    by (simp add: word_cat_eq push_bit_eq_mult unat_word_ariths)
qed

lemma unat_sum16:
  "unat n + word_sum bs < 2 ^ 32 \<Longrightarrow> unat (sum16 n bs) = unat n + word_sum bs"
proof (induction n bs rule: sum16.induct)
  case (1 n)
  then show ?case by simp
next
  case (2 n a)
  then show ?case
    using unat_word16 [of a 0] by (simp add: unat_word_ariths)
next
  case (3 n a b bs)
  then have "unat (n + (push_bit 8 (ucast a) OR ucast b)) = unat n + (256 * unat a + unat b)"
    by (simp add: unat_word_ariths unat_word16)
  with 3 show ?case by simp
qed

lemma word_sum_le: "word_sum bs \<le> 65535 * ((length bs + 1) div 2)"
proof (induction bs rule: word_sum.induct)
  case 1
  then show ?case by simp
next
  case (2 a)
  then show ?case using u8_less [of a] by simp
next
  case (3 a b bs)
  then show ?case using u8_less [of a] u8_less [of b] by simp
qed

lemma unat_not_ucast: "unat n \<le> 65535 \<Longrightarrow> unat (NOT (ucast n) :: u16) = 65535 - unat n" for n :: u32
proof -
  assume "unat n \<le> 65535"
  then have u: "unat (ucast n :: u16) = unat n"
    by (simp add: unsigned_ucast_eq take_bit_nat_eq_self_iff)
  have "NOT (ucast n :: u16) = - 1 - ucast n" by (simp add: not_eq_complement)
  then show ?thesis
    by (simp add: unat_sub u unsigned_minus_1_eq_mask mask_eq_exp_minus_1)
qed

definition pseudo6 :: "ipv6 \<times> ipv6 \<times> u8 \<Rightarrow> nat \<Rightarrow> nat" where
  "pseudo6 c n = (case c of (source, destination, nxt) \<Rightarrow>
     word_sum (to_be 16 source) + word_sum (to_be 16 destination)
       + word_sum (to_be 4 (of_nat n :: u32)) + unat nxt)"

text \<open>
  The limit of 131000 octets is far above any IPv6 packet; below it the 32-bit accumulator
  cannot wrap around.
\<close>

interpretation ck6: internet_checksum "\<lambda>(s, d, nxt). checksum s d nxt" pseudo6 131000
proof unfold_locales
  fix bs :: bytes and c :: "ipv6 \<times> ipv6 \<times> u8"
  assume len: "length bs \<le> 131000"
  obtain s d nxt where c: "c = (s, d, nxt)" by (cases c)
  let ?l = "of_nat (length bs) :: u32"
  have "65535 * ((length bs + 1) div 2) \<le> 65535 * 65500" using len by simp
  then have b: "word_sum (to_be 16 s) \<le> 65535 * 8" "word_sum (to_be 16 d) \<le> 65535 * 8"
    "word_sum (to_be 4 ?l) \<le> 65535 * 2" "word_sum bs \<le> 65535 * 65500"
    using word_sum_le [of "to_be 16 s"] word_sum_le [of "to_be 16 d"] word_sum_le [of "to_be 4 ?l"]
      word_sum_le [of bs] by simp_all
  have n1: "unat (sum16 0 (to_be 16 s)) = word_sum (to_be 16 s)"
    using b unat_sum16 [of 0 "to_be 16 s"] by simp
  have n2: "unat (sum16 (sum16 0 (to_be 16 s)) (to_be 16 d)) = word_sum (to_be 16 s) + word_sum (to_be 16 d)"
    using b n1 unat_sum16 [of "sum16 0 (to_be 16 s)" "to_be 16 d"] by simp
  let ?n3 = "sum16 (sum16 (sum16 0 (to_be 16 s)) (to_be 16 d)) (to_be 4 ?l)"
  have n3: "unat ?n3 = word_sum (to_be 16 s) + word_sum (to_be 16 d) + word_sum (to_be 4 ?l)"
    using b n2 unat_sum16 [of "sum16 (sum16 0 (to_be 16 s)) (to_be 16 d)" "to_be 4 ?l"] by simp
  have n4: "unat (?n3 + ucast nxt) = pseudo6 c (length bs)"
    using b u8_less [of nxt]
    by (simp add: unat_word_ariths n3 c pseudo6_def)
  have "pseudo6 c (length bs) + word_sum bs < 2 ^ 32"
    using b u8_less [of nxt] by (simp add: c pseudo6_def)
  then have n5: "unat (sum16 (?n3 + ucast nxt) bs) = pseudo6 c (length bs) + word_sum bs"
    using unat_sum16 [of "?n3 + ucast nxt" bs] n4 by simp
  show "unat ((case c of (s, d, nxt) \<Rightarrow> checksum s d nxt) bs)
      = 65535 - ones_sum (pseudo6 c (length bs) + word_sum bs)"
    using ones_sum_le
    by (simp add: c checksum_def Let_def unat_not_ucast unat_fold16 n5 [unfolded c])
qed

interpretation ck4: internet_checksum "\<lambda>_ :: unit. ipv4_checksum" "\<lambda>_ _. 0" 131000
proof unfold_locales
  fix bs :: bytes and c :: unit
  assume len: "length bs \<le> 131000"
  have "65535 * ((length bs + 1) div 2) \<le> 65535 * 65500" using len by simp
  then have "word_sum bs \<le> 65535 * 65500"
    using word_sum_le [of bs] by linarith
  then have "unat (sum16 0 bs) = word_sum bs"
    using unat_sum16 [of 0 bs] by simp
  then show "unat (ipv4_checksum bs) = 65535 - ones_sum (0 + word_sum bs)"
    using ones_sum_le by (simp add: ipv4_checksum_def fold16_v4_eq unat_not_ucast unat_fold16)
qed

end
