(* ===== verification/Wire.thy ===== *)
theory Wire
  imports Checksum
begin

text \<open>
  \<open>src/wire.rs\<close>: the IPv6 envelope, extension-header traversal, Neighbour Discovery messages
  and options, prefixes, the prefix, route and PREF64 options, and the Router Advertisement
  encoder. A decoder that returns \<open>Option<T>\<close> but indexes its input is an \<open>outcome\<close> with
  error \<open>()\<close>, so that \<open>None\<close> and a panic stay apart.
\<close>

section \<open>Definitions\<close>

datatype link = Ail | Stub

datatype frame_kind = Ethernet | RawIpv6

datatype wire_error = Truncated | Invalid | Unsupported | Capacity

record envelope =
  e_packet :: bytes
  e_payload :: bytes
  e_source :: ipv6
  e_destination :: ipv6
  e_next_header :: u8
  e_hop_limit :: u8

subsection \<open>Addresses of the standard library\<close>

definition is_multicast :: "ipv6 \<Rightarrow> bool" where
  "is_multicast a \<longleftrightarrow> to_be 16 a ! 0 = 0xff"

definition is_unspecified :: "ipv6 \<Rightarrow> bool" where
  "is_unspecified a \<longleftrightarrow> a = 0"

definition is_loopback :: "ipv6 \<Rightarrow> bool" where
  "is_loopback a \<longleftrightarrow> a = 1"

text \<open>\<open>segments()[i]\<close> of an IPv6 address.\<close>

definition segment :: "ipv6 \<Rightarrow> nat \<Rightarrow> u16" where
  "segment a i = ucast (drop_bit (112 - 16 * i) a)"

subsection \<open>Envelope and extension headers\<close>

definition envelope :: "frame_kind \<Rightarrow> bytes \<Rightarrow> (wire_error, envelope) outcome" where
  "envelope kind frame =
     and_then
       (case kind of
          RawIpv6 \<Rightarrow> Ok frame
        | Ethernet \<Rightarrow>
            if length frame < 14 then Err Truncated
            else and_then (slice_r frame 12 14) (\<lambda>t.
              if t \<noteq> [0x86, 0xdd] then Err Unsupported else slice_from frame 14)) (\<lambda>p.
     if length p < 40 then Err Truncated
     else and_then (idx p 0) (\<lambda>b0.
     if drop_bit 4 b0 \<noteq> 6 then Err Invalid
     else and_then (u16_at p 4) (\<lambda>len.
     let fin = 40 + unat len in
     if length p < fin then Err Truncated
     else let packet = take fin p in
     and_then (slice_from packet 40) (\<lambda>payload.
     and_then (ipv6_at p 8) (\<lambda>source.
     and_then (ipv6_at p 24) (\<lambda>destination.
     and_then (idx p 6) (\<lambda>next_header.
     and_then (idx p 7) (\<lambda>hop_limit.
     Ok \<lparr>e_packet = packet, e_payload = payload, e_source = source, e_destination = destination,
         e_next_header = next_header, e_hop_limit = hop_limit\<rparr>))))))))"

definition link_local :: "ipv6 \<Rightarrow> bool" where
  "link_local a \<longleftrightarrow> segment a 0 AND 0xffc0 = 0xfe80"

definition solicited_node :: "ipv6 \<Rightarrow> ipv6" where
  "solicited_node a = 0xff0200000000000000000001ff000000 OR (a AND 0xffffff)"

record transport =
  t_protocol :: u8
  t_bytes :: bytes
  t_fragmented :: bool
  t_non_initial :: bool

text \<open>The \<open>match next\<close> of the traversal: the length of an extension header, if it is one.\<close>

definition ext_len :: "u8 \<Rightarrow> bytes \<Rightarrow> (wire_error, nat option) outcome" where
  "ext_len nxt p =
     (if nxt \<in> {0, 43, 60} then
        if length p < 2 then Err Truncated
        else map_ok (\<lambda>l. Some ((unat l + 1) * 8)) (idx p 1)
      else if nxt = 44 then Ok (Some 8)
      else if nxt = 51 then
        if length p < 2 then Err Truncated
        else map_ok (\<lambda>l. Some ((unat l + 2) * 4)) (idx p 1)
      else Ok None)"

fun transport_loop :: "nat \<Rightarrow> u8 \<Rightarrow> bytes \<Rightarrow> bool \<Rightarrow> (wire_error, transport) outcome" where
  "transport_loop 0 nxt p fragmented = Err Invalid"
| "transport_loop (Suc k) nxt p fragmented =
     and_then (ext_len nxt p) (\<lambda>n. case n of
       None \<Rightarrow> Ok \<lparr>t_protocol = nxt, t_bytes = p, t_fragmented = fragmented, t_non_initial = False\<rparr>
     | Some n \<Rightarrow>
         let fragmented = (fragmented \<or> nxt = 44) in
         if length p < n then Err Truncated
         else and_then (if nxt = 44 then map_ok (\<lambda>w. w AND 0xfff8 \<noteq> 0) (u16_at p 2) else Ok False) (\<lambda>nonfirst.
         and_then (idx p 0) (\<lambda>nxt'.
         and_then (slice_from p n) (\<lambda>p'.
         if nonfirst
         then Ok \<lparr>t_protocol = nxt', t_bytes = p', t_fragmented = fragmented, t_non_initial = True\<rparr>
         else transport_loop k nxt' p' fragmented))))"

definition transport :: "envelope \<Rightarrow> (wire_error, transport) outcome" where
  "transport e = transport_loop 16 (e_next_header e) (e_payload e) False"

subsection \<open>Neighbour Discovery\<close>

record nd_option =
  o_kind :: u8
  o_bytes :: bytes

record nd =
  nd_kind :: u8
  nd_body :: bytes
  nd_opts :: "nd_option list"

function nd_options :: "bytes \<Rightarrow> (wire_error, nd_option list) outcome" where
  "nd_options rest =
     (if rest = [] then Ok []
      else if length rest < 2 then Err Truncated
      else and_then (idx rest 1) (\<lambda>l.
        let n = unat l * 8 in
        if n = 0 \<or> length rest < n then Err Invalid
        else and_then (idx rest 0) (\<lambda>k.
          and_then (slice_r rest 0 n) (\<lambda>b.
          and_then (slice_from rest n) (\<lambda>rest'.
          map_ok ((#) \<lparr>o_kind = k, o_bytes = b\<rparr>) (nd_options rest'))))))"
  by pat_completeness auto
termination
  by (relation "measure length") (auto simp: slice_from_def split: if_splits)

declare nd_options.simps [simp del]

text \<open>The fixed part of each supported message type, and the checks on a solicited target.\<close>

definition nd_base :: "u8 \<Rightarrow> (wire_error, nat) outcome" where
  "nd_base kind =
     (if kind = 133 then Ok 8 else if kind = 134 then Ok 16
      else if kind = 135 \<or> kind = 136 then Ok 24 else Err Unsupported)"

definition nd_target :: "envelope \<Rightarrow> u8 \<Rightarrow> bytes \<Rightarrow> (wire_error, unit) outcome" where
  "nd_target e kind b =
     (if 135 \<le> kind then
        and_then (ipv6_at b 8) (\<lambda>target.
        if is_multicast target \<or> is_unspecified target then Err Invalid
        else if kind = 135 \<and> is_unspecified (e_source e) \<and> e_destination e \<noteq> solicited_node target
        then Err Invalid
        else and_then (idx b 4) (\<lambda>b4.
          if kind = 136 \<and> (is_unspecified (e_source e) \<or> (is_multicast (e_destination e) \<and> b4 AND 0x40 \<noteq> 0))
          then Err Invalid else Ok ()))
      else Ok ())"

definition decode_nd :: "envelope \<Rightarrow> (wire_error, nd) outcome" where
  "decode_nd e =
     and_then (transport e) (\<lambda>t.
     let b = t_bytes t in
     if t_protocol t \<noteq> 58 \<or> t_fragmented t \<or> e_hop_limit e \<noteq> 255 \<or> length b < 4 then Err Invalid
     else and_then (idx b 1) (\<lambda>b1.
     if b1 \<noteq> 0 \<or> checksum (e_source e) (e_destination e) 58 b \<noteq> 0 then Err Invalid
     else and_then (idx b 0) (\<lambda>kind.
     and_then (nd_base kind) (\<lambda>base.
     if length b < base then Err Truncated
     else if kind = 134 \<and> \<not> link_local (e_source e) then Err Invalid
     else if is_multicast (e_source e) then Err Invalid
     else and_then (slice_from b base) (\<lambda>rest.
     and_then (nd_options rest) (\<lambda>opts.
     if (kind = 133 \<or> kind = 135) \<and> is_unspecified (e_source e) \<and> list_ex (\<lambda>o1. o_kind o1 = 1) opts
     then Err Invalid
     else and_then (nd_target e kind b) (\<lambda>_.
     Ok \<lparr>nd_kind = kind, nd_body = b, nd_opts = opts\<rparr>)))))))"

subsection \<open>Prefixes\<close>

datatype prefix = Prefix (px_address: ipv6) (px_length: u8)

definition prefix_new :: "ipv6 \<Rightarrow> u8 \<Rightarrow> prefix option" where
  "prefix_new addr len =
     (if 128 < len then None
      else let mask = (if len = 0 then 0 else push_bit (128 - unat len) (- 1))
           in Some (Prefix (addr AND mask) len))"

definition prefix_contains :: "prefix \<Rightarrow> ipv6 \<Rightarrow> bool" where
  "prefix_contains p addr \<longleftrightarrow> prefix_new addr (px_length p) = Some p"

definition prefix_ula :: "prefix \<Rightarrow> bool" where
  "prefix_ula p \<longleftrightarrow> to_be 16 (px_address p) ! 0 AND 0xfe = 0xfc"

definition prefix_routable :: "prefix \<Rightarrow> bool" where
  "prefix_routable p \<longleftrightarrow>
     0 < px_length p \<and> \<not> link_local (px_address p) \<and> \<not> is_multicast (px_address p)
     \<and> \<not> is_unspecified (px_address p) \<and> \<not> is_loopback (px_address p)"

text \<open>The derived order: field by field.\<close>

instantiation prefix :: linorder
begin

definition less_eq_prefix :: "prefix \<Rightarrow> prefix \<Rightarrow> bool" where
  "less_eq_prefix p q \<longleftrightarrow> (px_address p, px_length p) \<le> (px_address q, px_length q)"

definition less_prefix :: "prefix \<Rightarrow> prefix \<Rightarrow> bool" where
  "less_prefix p q \<longleftrightarrow> (px_address p, px_length p) < (px_address q, px_length q)"

instance
  by standard (auto simp: less_eq_prefix_def less_prefix_def prefix.expand)

end

subsection \<open>Prefix information, route information and PREF64 options\<close>

record pio =
  pio_prefix :: prefix
  pio_flags :: u8
  pio_preferred :: u32
  pio_valid :: u32

definition pio_decode :: "bytes \<Rightarrow> (unit, pio) outcome" where
  "pio_decode b =
     (if length b \<noteq> 32 then Err ()
      else and_then (idx b 0) (\<lambda>b0. and_then (idx b 1) (\<lambda>b1.
      if b0 \<noteq> 3 \<or> b1 \<noteq> 4 then Err ()
      else and_then (ipv6_at b 16) (\<lambda>addr. and_then (idx b 2) (\<lambda>len.
      and_then (ok_or () (prefix_new addr len)) (\<lambda>p.
      and_then (idx b 3) (\<lambda>flags.
      and_then (u32_at b 8) (\<lambda>preferred.
      and_then (u32_at b 4) (\<lambda>valid.
      Ok \<lparr>pio_prefix = p, pio_flags = flags, pio_preferred = preferred, pio_valid = valid\<rparr>)))))))))"

definition pio_on_link :: "pio \<Rightarrow> bool" where
  "pio_on_link p \<longleftrightarrow> pio_flags p AND 0x80 \<noteq> 0"

definition pio_suitable :: "pio \<Rightarrow> bool" where
  "pio_suitable p \<longleftrightarrow>
     px_length (pio_prefix p) = 64 \<and> prefix_routable (pio_prefix p) \<and> pio_on_link p
     \<and> pio_flags p AND 0x50 \<noteq> 0 \<and> 1800 \<le> pio_preferred p \<and> pio_preferred p \<le> pio_valid p"

definition pio_encode :: "pio \<Rightarrow> bytes" where
  "pio_encode p =
     [3, 4, px_length (pio_prefix p), pio_flags p] @ to_be 4 (pio_valid p) @ to_be 4 (pio_preferred p)
       @ [0, 0, 0, 0] @ to_be 16 (px_address (pio_prefix p))"

datatype preference = Low | Medium | High

definition preference_decode :: "u8 \<Rightarrow> preference option" where
  "preference_decode flags =
     (if flags AND 0x18 = 0 then Some Medium
      else if flags AND 0x18 = 8 then Some High
      else if flags AND 0x18 = 24 then Some Low
      else None)"

fun preference_bits :: "preference \<Rightarrow> u8" where
  "preference_bits Low = 24"
| "preference_bits Medium = 0"
| "preference_bits High = 8"

record rio =
  rio_prefix :: prefix
  rio_preference :: preference
  rio_lifetime :: u32

definition rio_decode :: "bytes \<Rightarrow> (unit, rio) outcome" where
  "rio_decode b =
     (if length b < 8 then Err ()
      else and_then (idx b 0) (\<lambda>b0. and_then (idx b 1) (\<lambda>b1. and_then (idx b 2) (\<lambda>b2.
      if b0 \<noteq> 24 \<or> \<not> (1 \<le> b1 \<and> b1 \<le> 3) \<or> length b \<noteq> unat b1 * 8 \<or> 128 < b2
         \<or> (0 < b2 \<and> b1 < 2) \<or> (64 < b2 \<and> b1 < 3)
      then Err ()
      else and_then (slice_from b 8) (\<lambda>tail.
      and_then (put_r (replicate 16 0) 0 tail) (\<lambda>a.
      and_then (ok_or () (prefix_new (from_be a) b2)) (\<lambda>p.
      and_then (idx b 3) (\<lambda>b3.
      and_then (ok_or () (preference_decode b3)) (\<lambda>pref.
      and_then (u32_at b 4) (\<lambda>life.
      Ok \<lparr>rio_prefix = p, rio_preference = pref, rio_lifetime = life\<rparr>))))))))))"

definition rio_encode :: "rio \<Rightarrow> bytes" where
  "rio_encode r =
     (let n :: nat = (if px_length (rio_prefix r) = 0 then 1
                      else if px_length (rio_prefix r) \<le> 64 then 2 else 3)
      in [24, of_nat n, px_length (rio_prefix r), preference_bits (rio_preference r)]
           @ to_be 4 (rio_lifetime r) @ take ((n - 1) * 8) (to_be 16 (px_address (rio_prefix r))))"

record pref64 =
  p64_prefix :: prefix
  p64_lifetime :: u32

definition plc_lengths :: "u8 list" where
  "plc_lengths = [96, 64, 56, 48, 40, 32]"

text \<open>\<open>iter().position(|n| *n == x)\<close>.\<close>

fun position :: "'a \<Rightarrow> 'a list \<Rightarrow> nat option" where
  "position x [] = None"
| "position x (y # ys) = (if y = x then Some 0 else map_option Suc (position x ys))"

definition pref64_encode :: "pref64 \<Rightarrow> (wire_error, bytes) outcome" where
  "pref64_encode p =
     and_then (ok_or Invalid (position (px_length (p64_prefix p)) plc_lengths)) (\<lambda>plc.
     if prefix_new (px_address (p64_prefix p)) (px_length (p64_prefix p)) \<noteq> Some (p64_prefix p)
     then Err Invalid
     else
       let scaled = push_bit 3 (of_nat (div_ceil (unat (min (p64_lifetime p) 65528)) 8) :: u16);
           word = scaled OR of_nat plc
       in Ok ([38, 2] @ to_be 2 word @ take 12 (to_be 16 (px_address (p64_prefix p)))))"

definition pref64_decode :: "bytes \<Rightarrow> (unit, pref64) outcome" where
  "pref64_decode b =
     (if length b \<noteq> 16 then Err ()
      else and_then (idx b 0) (\<lambda>b0. and_then (idx b 1) (\<lambda>b1.
      if b0 \<noteq> 38 \<or> b1 \<noteq> 2 then Err ()
      else and_then (u16_at b 2) (\<lambda>word.
      if length plc_lengths \<le> unat (word AND 7) then Err ()
      else let len = plc_lengths ! unat (word AND 7) in
      and_then (slice_from b 4) (\<lambda>tail.
      and_then (put_r (replicate 16 0) 0 tail) (\<lambda>a.
      and_then (ok_or () (prefix_new (from_be a) len)) (\<lambda>p.
      Ok \<lparr>p64_prefix = p, p64_lifetime = ucast (word AND 0xfff8)\<rparr>)))))))"

subsection \<open>Packet builders\<close>

definition ipv6_packet :: "ipv6 \<Rightarrow> ipv6 \<Rightarrow> u8 \<Rightarrow> u8 \<Rightarrow> bytes \<Rightarrow> (wire_error, bytes) outcome" where
  "ipv6_packet source destination nxt hop payload =
     and_then (ok_or Capacity (u16_try_from (length payload))) (\<lambda>len.
     Ok ([0x60, 0, 0, 0] @ to_be 2 len @ [nxt, hop] @ to_be 16 source @ to_be 16 destination @ payload))"

definition icmp_packet :: "ipv6 \<Rightarrow> ipv6 \<Rightarrow> u8 \<Rightarrow> bytes \<Rightarrow> (wire_error, bytes) outcome" where
  "icmp_packet source destination hop body =
     (if length body < 4 then Err Invalid
      else
        let body = put body 2 [0, 0];
            c = checksum source destination 58 body;
            body = put body 2 (to_be 2 c)
        in ipv6_packet source destination 58 hop body)"

record advertisement =
  ra_link :: link
  ra_source :: ipv6
  ra_destination :: ipv6
  ra_mac :: "bytes option"
  ra_mtu :: u32
  ra_mo :: u8
  ra_default_lifetime :: u16
  ra_pios :: "pio list"
  ra_rios :: "rio list"

text \<open>\<open>dedup_by_key\<close>: of consecutive elements with equal keys the first stays.\<close>

fun dedup_by :: "('a \<Rightarrow> 'k) \<Rightarrow> 'a list \<Rightarrow> 'a list" where
  "dedup_by f [] = []"
| "dedup_by f (x # xs) =
     x # (case dedup_by f xs of [] \<Rightarrow> [] | y # ys \<Rightarrow> if f y = f x then ys else y # ys)"

text \<open>The loops that append RDNSS options and PREF64 options.\<close>

fun encode_resolvers :: "(ipv6 \<times> u32) list \<Rightarrow> (wire_error, bytes) outcome" where
  "encode_resolvers [] = Ok []"
| "encode_resolvers ((addr, life) # rs) =
     (if is_unspecified addr \<or> is_multicast addr \<or> is_loopback addr then Err Invalid
      else map_ok ((@) ([25, 3, 0, 0] @ to_be 4 life @ to_be 16 addr)) (encode_resolvers rs))"

fun encode_pref64s :: "pref64 list \<Rightarrow> (wire_error, bytes) outcome" where
  "encode_pref64s [] = Ok []"
| "encode_pref64s (p # ps) = and_then (pref64_encode p) (\<lambda>b. map_ok ((@) b) (encode_pref64s ps))"

definition encode_services ::
  "advertisement \<Rightarrow> (ipv6 \<times> u32) list \<Rightarrow> pref64 list \<Rightarrow> (wire_error, bytes) outcome" where
  "encode_services ra resolvers pref64 =
     (if 2 < length resolvers \<or> 8 < length pref64 then Err Capacity
      else if ra_link ra = Ail \<and> (resolvers \<noteq> [] \<or> pref64 \<noteq> []) then Err Invalid
      else if ra_mtu ra < 1280 \<or> \<not> link_local (ra_source ra) then Err Invalid
      else
        let ail = (ra_link ra = Ail);
            b = [134, 0, 0, 0, 0, if ail then 2 OR (ra_mo ra AND 0xc0) else 0]
              @ to_be 2 (if ail then 0 else min (ra_default_lifetime ra) 1800)
              @ replicate 8 0
              @ (case ra_mac ra of None \<Rightarrow> [] | Some mac \<Rightarrow> [1, 1] @ mac)
              @ (if ail then [] else [5, 1, 0, 0] @ to_be 4 (ra_mtu ra))
              @ concat (map pio_encode (sort_key pio_prefix (ra_pios ra)))
              @ concat (map rio_encode (dedup_by rio_prefix (sort_key rio_prefix (ra_rios ra))))
        in and_then (encode_resolvers resolvers) (\<lambda>rs.
           and_then (encode_pref64s pref64) (\<lambda>ps.
           let b = b @ rs @ ps in
           if 1280 < length b + 40 then Err Capacity
           else icmp_packet (ra_source ra) (ra_destination ra) 255 b)))"

definition advertisement_encode :: "advertisement \<Rightarrow> (wire_error, bytes) outcome" where
  "advertisement_encode ra = encode_services ra [] []"

subsection \<open>Hop-by-hop options\<close>

function hop_loop :: "ipv6 \<Rightarrow> bytes \<Rightarrow> nat \<Rightarrow> nat \<Rightarrow> (wire_error, u32 option) outcome" where
  "hop_loop destination p fin at =
     (if fin \<le> at then Ok None
      else and_then (idx p at) (\<lambda>kind.
      if kind = 0 then hop_loop destination p fin (at + 1)
      else if fin < at + 2 then Err Truncated
      else and_then (idx p (at + 1)) (\<lambda>l.
      let len = unat l in
      if fin < at + 2 + len then Err Truncated
      else if kind = 1 then
        and_then (slice_r p (at + 2) (at + 2 + len)) (\<lambda>pad.
        if list_ex (\<lambda>b. b \<noteq> 0) pad then Err Invalid else hop_loop destination p fin (at + 2 + len))
      else if kind = 5 then
        if len \<noteq> 2 then Err Invalid else hop_loop destination p fin (at + 2 + len)
      else if drop_bit 6 kind = 0 then hop_loop destination p fin (at + 2 + len)
      else if drop_bit 6 kind = 1 then Err Unsupported
      else if drop_bit 6 kind = 3 \<and> is_multicast destination then Err Unsupported
      else Ok (Some (of_nat (40 + at))))))"
  by pat_completeness auto
termination
  by (relation "measure (\<lambda>(d, p, fin, at). fin - at)") auto

declare hop_loop.simps [simp del]

definition hop_options :: "envelope \<Rightarrow> (wire_error, u32 option) outcome" where
  "hop_options e =
     (if e_next_header e \<noteq> 0 then Ok None
      else let p = e_payload e in
        if length p < 2 then Err Truncated
        else and_then (idx p 1) (\<lambda>l.
          let fin = (unat l + 1) * 8 in
          if length p < fin then Err Truncated
          else hop_loop (e_destination e) p fin 2))"

section \<open>Lemmas\<close>

subsection \<open>The envelope\<close>

text \<open>What a well-formed packet decodes to; octets after the declared length are padding.\<close>

lemma envelope_raw:
  assumes "40 \<le> length p" and "drop_bit 4 (p ! 0) = 6"
    and "40 + unat (from_be (take 2 (drop 4 p)) :: u16) \<le> length p"
  shows "envelope RawIpv6 p =
    (let packet = take (40 + unat (from_be (take 2 (drop 4 p)) :: u16)) p in
     Ok \<lparr>e_packet = packet, e_payload = drop 40 packet, e_source = from_be (take 16 (drop 8 p)),
         e_destination = from_be (take 16 (drop 24 p)), e_next_header = p ! 6, e_hop_limit = p ! 7\<rparr>)"
proof -
  from assms(1) have "p \<noteq> []" by auto
  with assms show ?thesis by (simp add: envelope_def Let_def)
qed

lemma envelope_ipv6_packet:
  assumes "ipv6_packet s d nxt hop payload = Ok b"
  shows "envelope RawIpv6 (b @ padding) =
    Ok \<lparr>e_packet = b, e_payload = payload, e_source = s, e_destination = d,
        e_next_header = nxt, e_hop_limit = hop\<rparr>"
proof -
  from assms have len: "length payload < 65536"
    and b: "b = [0x60, 0, 0, 0] @ to_be 2 (of_nat (length payload) :: u16) @ [nxt, hop]
      @ to_be 16 s @ to_be 16 d @ payload"
    by (auto simp: ipv6_packet_def u16_try_from_Some_iff and_then_Ok_iff)
  define P where "P = b @ padding"
  have lb: "length b = 40 + length payload" by (simp add: b P_def)
  have d40: "drop 40 b = payload" by (simp add: b P_def)
  have f0: "P ! 0 = 0x60" by (simp add: b P_def)
  have f4: "take 2 (drop 4 P) = to_be 2 (of_nat (length payload) :: u16)" by (simp add: b P_def)
  have f6: "P ! 6 = nxt" "P ! 7 = hop" by (simp_all add: b P_def nth_append)
  have f8: "take 16 (drop 8 P) = to_be 16 s" "take 16 (drop 24 P) = to_be 16 d"
    by (simp_all add: b P_def)
  have "take (40 + length payload) P = b" "40 + length payload \<le> length P" using lb by (simp_all add: P_def)
  with len show ?thesis
    unfolding P_def [symmetric] by (subst envelope_raw) (simp_all add: f0 f4 f6 f8 d40 Let_def)
qed

lemma envelope_ensures:
  "ensures (envelope kind f) (\<lambda>e. length (e_packet e) = 40 + length (e_payload e)
     \<and> e_payload e = drop 40 (e_packet e) \<and> length (e_payload e) \<le> 65535)"
  by (auto simp: envelope_def Let_def wp u16_le split: frame_kind.splits)

lemmas envelope_shape = ensuresD [OF envelope_ensures]

subsection \<open>Traversal and option loops\<close>

lemma ext_len_ensures: "ensures (ext_len nxt p) (\<lambda>n. \<forall>k. n = Some k \<longrightarrow> 8 \<le> k)"
  by (auto simp: ext_len_def wp)

lemmas ext_len_wp [wp] = ensures_call [OF ext_len_ensures]

lemma ext_len_ge: "ext_len nxt p = Ok (Some n) \<Longrightarrow> 8 \<le> n"
  using ensuresD [OF ext_len_ensures] by blast

lemma transport_loop_ensures: "ensures (transport_loop k nxt p fr) (\<lambda>t. length (t_bytes t) \<le> length p)"
proof (induction k arbitrary: nxt p fr)
  case (Suc k)
  have IH: "ensures (transport_loop k nxt' (drop n p) fr') (\<lambda>t. length (t_bytes t) \<le> length p)" for nxt' n fr'
    using Suc by (rule ensures_mono) simp
  show ?case
    by (auto simp: wp Let_def IH dest: ext_len_ge split: option.split)
qed simp

lemmas transport_loop_wp [wp] = ensures_call [OF transport_loop_ensures]

lemma nd_options_ensures:
  "ensures (nd_options rest) (\<lambda>os. concat (map o_bytes os) = rest \<and> list_all (\<lambda>o1. 8 \<le> length (o_bytes o1)) os)"
proof (induction rest rule: length_induct)
  case (1 rest)
  have IH: "ensures (nd_options (drop n rest)) (\<lambda>os. take n rest @ concat (map o_bytes os) = rest
      \<and> list_all (\<lambda>o1. 8 \<le> length (o_bytes o1)) os)" if "0 < n" "n \<le> length rest" for n
  proof -
    from that have "length (drop n rest) < length rest" by simp
    with 1 have "ensures (nd_options (drop n rest)) (\<lambda>os. concat (map o_bytes os) = drop n rest
        \<and> list_all (\<lambda>o1. 8 \<le> length (o_bytes o1)) os)" by blast
    then show ?thesis by (rule ensures_mono) simp
  qed
  show ?case
    by (subst nd_options.simps) (auto simp: wp Let_def intro!: ensures_mono [OF IH])
qed

lemmas nd_options_wp [wp] = ensures_call [OF nd_options_ensures]

lemma nd_base_ensures: "ensures (nd_base kind) (\<lambda>n. 8 \<le> n \<and> (135 \<le> kind \<longrightarrow> n = 24))"
  by (simp add: nd_base_def wp)

lemmas nd_base_wp [wp] = ensures_call [OF nd_base_ensures]

lemma nd_target_ensures: "(135 \<le> kind \<Longrightarrow> 24 \<le> length b) \<Longrightarrow> ensures (nd_target e kind b) (\<lambda>_. True)"
  by (auto simp: nd_target_def wp)

lemma decode_nd_ensures: "ensures (decode_nd e) (\<lambda>_. True)"
proof -
  have "ensures (nd_target e kind b) (\<lambda>_. True)" if "nd_base kind = Ok n" "\<not> length b < n" for kind b n
    using that ensuresD [OF nd_base_ensures, of kind n] by (intro nd_target_ensures) auto
  then show ?thesis
    unfolding decode_nd_def transport_def Let_def by (auto simp: wp)
qed

lemma hop_loop_ensures: "fin \<le> length p \<Longrightarrow> ensures (hop_loop d p fin at) (\<lambda>_. True)"
proof (induction "fin - at" arbitrary: at rule: less_induct)
  case less
  then have IH: "ensures (hop_loop d p fin n) (\<lambda>_. True)" if "at < n" "at < fin" for n
    using that by simp
  show ?case
    using less.prems IH by (subst hop_loop.simps) (auto simp: Let_def wp)
qed

lemma hop_options_ensures: "ensures (hop_options e) (\<lambda>_. True)"
  by (auto simp: hop_options_def Let_def wp hop_loop_ensures)

lemma nd_options_cons:
  assumes "length b = 8 * unat (b ! 1)" and "b \<noteq> []"
  shows "nd_options (b @ rest) = map_ok ((#) \<lparr>o_kind = b ! 0, o_bytes = b\<rparr>) (nd_options rest)"
proof -
  from assms have "8 \<le> length b" by (cases "unat (b ! 1)") auto
  with assms have "b @ rest \<noteq> []" "\<not> length (b @ rest) < 2" "(b @ rest) ! 1 = b ! 1"
    "(b @ rest) ! 0 = b ! 0" "unat (b ! 1) * 8 = length b" "length b \<noteq> 0"
    by (auto simp: nth_append)
  then show ?thesis
    by (subst nd_options.simps) (auto simp: Let_def)
qed

text \<open>An option is well formed when its second octet counts its length in units of eight.\<close>

definition nd_wf :: "bytes \<Rightarrow> bool" where
  "nd_wf b \<longleftrightarrow> b \<noteq> [] \<and> length b = 8 * unat (b ! 1)"

interpretation ndo: item_stream nd_options "\<lambda>b. b" "\<lambda>b. \<lparr>o_kind = b ! 0, o_bytes = b\<rparr>" nd_wf
  by unfold_locales (simp_all add: nd_options.simps [of "[]"] nd_options_cons nd_wf_def)

subsection \<open>Prefixes\<close>

lemma prefix_new_bits:
  assumes "prefix_new a len = Some p" 
  shows "bit (px_address p) k \<longleftrightarrow> bit a k \<and> 128 - unat len \<le> k"
  using assms bit_imp_le_length [of a k]
  by (auto simp: prefix_new_def Let_def bit_simps split: if_splits)

lemma prefix_new_Some_iff: "(\<exists>p. prefix_new a len = Some p) \<longleftrightarrow> unat len \<le> 128"
  by (auto simp: prefix_new_def word_less_nat_alt)

lemma prefix_new_length: "prefix_new a len = Some p \<Longrightarrow> px_length p = len"
  by (auto simp: prefix_new_def Let_def split: if_splits)

lemma prefix_new_idem:
  assumes "prefix_new a len = Some p"
  shows "prefix_new (px_address p) (px_length p) = Some p"
  using assms by (auto simp: prefix_new_def Let_def split: if_splits)

text \<open>The network part of an address, as a number: the abstract meaning of a prefix.\<close>

definition canonical :: "prefix \<Rightarrow> bool" where
  "canonical p \<longleftrightarrow> prefix_new (px_address p) (px_length p) = Some p"

lemma prefix_contains_iff:
  assumes "canonical p"
  shows "prefix_contains p a \<longleftrightarrow>
    drop_bit (128 - unat (px_length p)) a = drop_bit (128 - unat (px_length p)) (px_address p)"
proof -
  let ?n = "128 - unat (px_length p)"
  from assms have len: "unat (px_length p) \<le> 128"
    unfolding canonical_def using prefix_new_Some_iff by blast
  then obtain q where q: "prefix_new a (px_length p) = Some q"
    using prefix_new_Some_iff by blast
  have pb: "?n \<le> k" if "bit (px_address p) k" for k
    using that prefix_new_bits [OF assms [unfolded canonical_def], of k] by simp
  have "prefix_contains p a \<longleftrightarrow> px_address q = px_address p"
    using q prefix_new_length [OF q] by (auto simp: prefix_contains_def prefix.expand)
  also have "\<dots> \<longleftrightarrow> (\<forall>k. bit (px_address q) k \<longleftrightarrow> bit (px_address p) k)"
    by (auto intro: bit_word_eqI)
  also have "\<dots> \<longleftrightarrow> (\<forall>k. bit a k \<and> ?n \<le> k \<longleftrightarrow> bit (px_address p) k)"
    by (simp only: prefix_new_bits [OF q])
  also have "\<dots> \<longleftrightarrow> (\<forall>k. ?n \<le> k \<longrightarrow> (bit a k \<longleftrightarrow> bit (px_address p) k))"
    using pb by blast
  also have "\<dots> \<longleftrightarrow> (\<forall>j. bit a (?n + j) \<longleftrightarrow> bit (px_address p) (?n + j))"
    by (auto simp: le_iff_add)
  also have "\<dots> \<longleftrightarrow> drop_bit ?n a = drop_bit ?n (px_address p)"
  proof
    assume "\<forall>j. bit a (?n + j) \<longleftrightarrow> bit (px_address p) (?n + j)"
    then show "drop_bit ?n a = drop_bit ?n (px_address p)"
      by (intro bit_word_eqI) (simp add: bit_drop_bit_eq)
  next
    assume "drop_bit ?n a = drop_bit ?n (px_address p)"
    then have "bit (drop_bit ?n a) j \<longleftrightarrow> bit (drop_bit ?n (px_address p)) j" for j by simp
    then show "\<forall>j. bit a (?n + j) \<longleftrightarrow> bit (px_address p) (?n + j)"
      by (simp add: bit_drop_bit_eq)
  qed
  finally show ?thesis .
qed


lemma canonical_new: "prefix_new a n = Some p \<Longrightarrow> canonical p"
  by (auto simp: canonical_def dest: prefix_new_idem)

lemma canonical_prefix_new: "canonical p \<Longrightarrow> prefix_new (px_address p) (px_length p) = Some p"
  by (simp add: canonical_def)

lemma canonical_low_zero: "canonical p \<Longrightarrow> bit (px_address p) k \<Longrightarrow> 128 - unat (px_length p) \<le> k"
  using prefix_new_bits [of "px_address p" "px_length p" p k] by (simp add: canonical_def)

lemma canonical_length: "canonical p \<Longrightarrow> unat (px_length p) \<le> 128"
  using prefix_new_Some_iff by (auto simp: canonical_def)

subsection \<open>Option codecs\<close>

lemma pio_roundtrip: "canonical (pio_prefix p) \<Longrightarrow> pio_decode (pio_encode p) = Ok p"
  by (simp add: pio_encode_def pio_decode_def nth_append canonical_prefix_new)

lemma nd_wf_pio: "nd_wf (pio_encode p)"
  by (simp add: nd_wf_def pio_encode_def)

text \<open>The octets of a canonical address beyond the prefix are zero, so they need not be sent.\<close>

lemma take_octets_pad:
  assumes "canonical p" and "unat (px_length p) \<le> 8 * m" and "m \<le> 16"
  shows "take m (to_be 16 (px_address p)) @ replicate (16 - m) 0 = to_be 16 (px_address p)"
proof (rule nth_equalityI)
  fix i assume "i < length (take m (to_be 16 (px_address p)) @ replicate (16 - m) 0)"
  then have i: "i < 16" using assms(3) by simp
  have nth: "to_be 16 w ! i = ucast (drop_bit (8 * (15 - i)) w)" for w :: u128
    using i nth_rev_to_be [of "15 - i" 16 w] rev_nth [of "15 - i" "to_be 16 w"] by simp
  show "(take m (to_be 16 (px_address p)) @ replicate (16 - m) 0) ! i = to_be 16 (px_address p) ! i"
  proof (cases "i < m")
    case True
    with assms(3) show ?thesis by (simp add: nth_append)
  next
    case False
    have "ucast (drop_bit (8 * (15 - i)) (px_address p)) = (0 :: u8)"
    proof (rule bit_word_eqI)
      fix k :: nat assume "k < LENGTH(8)"
      then have "k < 8" by simp
      have "\<not> bit (px_address p) (8 * (15 - i) + k)"
      proof
        assume "bit (px_address p) (8 * (15 - i) + k)"
        then have "128 - unat (px_length p) \<le> 8 * (15 - i) + k"
          by (rule canonical_low_zero [OF assms(1)])
        with assms(2) False \<open>k < 8\<close> i show False by linarith
      qed
      then show "bit (ucast (drop_bit (8 * (15 - i)) (px_address p)) :: u8) k \<longleftrightarrow> bit (0 :: u8) k"
        by (simp add: bit_simps)
    qed
    with False i nth [of "px_address p"] show ?thesis by (simp add: nth_append)
  qed
qed (use assms(3) in simp)

lemma preference_roundtrip: "preference_decode (preference_bits p) = Some p"
  by (cases p) (simp_all add: preference_decode_def)

lemma rio_shape:
  obtains n :: nat where "n \<in> {1, 2, 3}"
    and "rio_encode r = [24, of_nat n, px_length (rio_prefix r), preference_bits (rio_preference r)]
           @ to_be 4 (rio_lifetime r) @ take ((n - 1) * 8) (to_be 16 (px_address (rio_prefix r)))"
    and "unat (px_length (rio_prefix r)) \<le> 8 * ((n - 1) * 8) \<or> n = 3"
    and "n < 2 \<longrightarrow> px_length (rio_prefix r) = 0" and "n < 3 \<longrightarrow> px_length (rio_prefix r) \<le> 64"
proof -
  let ?l = "px_length (rio_prefix r)"
  let ?n = "if ?l = 0 then 1 else if ?l \<le> 64 then 2 else 3 :: nat"
  have "?n \<in> {1, 2, 3}" "unat ?l \<le> 8 * ((?n - 1) * 8) \<or> ?n = 3" "?n < 2 \<longrightarrow> ?l = 0" "?n < 3 \<longrightarrow> ?l \<le> 64"
    by (auto simp: word_le_nat_alt)
  then show ?thesis by (intro that [of ?n]) (simp_all only: rio_encode_def Let_def)
qed

lemma rio_roundtrip: "canonical (rio_prefix r) \<Longrightarrow> rio_decode (rio_encode r) = Ok r"
proof -
  assume c: "canonical (rio_prefix r)"
  let ?l = "px_length (rio_prefix r)"
  obtain n :: nat where n: "n \<in> {1, 2, 3}"
    and e: "rio_encode r = [24, of_nat n, ?l, preference_bits (rio_preference r)]
           @ to_be 4 (rio_lifetime r) @ take ((n - 1) * 8) (to_be 16 (px_address (rio_prefix r)))"
    and fits: "unat ?l \<le> 8 * ((n - 1) * 8) \<or> n = 3"
    and lo: "n < 2 \<longrightarrow> ?l = 0" "n < 3 \<longrightarrow> ?l \<le> 64"
    by (rule rio_shape)
  have l128: "unat ?l \<le> 128" using c by (rule canonical_length)
  with n fits have "unat ?l \<le> 8 * ((n - 1) * 8)" by auto
  then have pad: "take ((n - 1) * 8) (to_be 16 (px_address (rio_prefix r))) @ replicate (16 - (n - 1) * 8) 0
      = to_be 16 (px_address (rio_prefix r))"
    using n by (intro take_octets_pad [OF c]) auto
  have len: "length (rio_encode r) = n * 8" using n by (auto simp: e)
  have put: "put (replicate 16 0) 0 (take ((n - 1) * 8) (to_be 16 (px_address (rio_prefix r))))
      = to_be 16 (px_address (rio_prefix r))"
    using pad n by (simp add: put_def min_def)
  have guards: "\<not> (0 < ?l \<and> (of_nat n :: u8) < 2)" "\<not> (64 < ?l \<and> (of_nat n :: u8) < 3)" "\<not> 128 < ?l"
    "1 \<le> (of_nat n :: u8)" "(of_nat n :: u8) \<le> 3" "unat (of_nat n :: u8) = n"
    using n lo l128 by (auto simp: word_less_nat_alt word_le_nat_alt)
  show ?thesis
    using n guards len put c
    by (auto simp: rio_decode_def e canonical_prefix_new preference_roundtrip)
qed

lemma nd_wf_rio: "nd_wf (rio_encode r)"
  by (rule rio_shape [of r]) (auto simp: nd_wf_def)

lemma low3_or:
  fixes w :: u16
  assumes "w < 8"
  shows "(push_bit 3 x OR w) AND 7 = w" and "(push_bit 3 x OR w) AND 0xfff8 = push_bit 3 x"
proof -
  have w: "take_bit 3 w = w"
    using assms by (simp add: word_unat_eq_iff unsigned_take_bit_eq take_bit_nat_eq_self_iff word_less_nat_alt)
  have bw: "k < 3" if "bit w k" for k
    using that w by (metis bit_take_bit_iff)
  have seven: "(7 :: u16) = mask 3" by (simp add: mask_eq_exp_minus_1)
  show "(push_bit 3 x OR w) AND 7 = w"
    unfolding seven by (rule bit_word_eqI) (auto simp: bit_simps dest: bw)
  have upper: "(0xfff8 :: u16) = NOT (mask 3)" by (simp add: mask_eq_exp_minus_1)
  show "(push_bit 3 x OR w) AND 0xfff8 = push_bit 3 x"
    unfolding upper by (rule bit_word_eqI) (auto simp: bit_simps dest: bw)
qed

lemma position_Some: "position x xs = Some i \<Longrightarrow> i < length xs \<and> xs ! i = x"
  by (induction xs arbitrary: i) (auto split: if_splits)

text \<open>The lifetime that a PREF64 option carries: capped, in units of eight seconds, rounded up.\<close>

definition pref64_scaled :: "u32 \<Rightarrow> u32" where
  "pref64_scaled life = of_nat (8 * div_ceil (unat (min life 65528)) 8)"

lemma div_ceil8: "n \<le> 8 * div_ceil n 8 \<and> 8 * div_ceil n 8 < n + 8"
  by (simp add: div_ceil_def) linarith

lemma pref64_shape:
  assumes "pref64_encode p = Ok b"
  obtains plc c where "plc < 6" and "plc_lengths ! plc = px_length (p64_prefix p)"
    and "canonical (p64_prefix p)" and "c \<le> 8191" and "8 * c = unat (pref64_scaled (p64_lifetime p))"
    and "b = [38, 2] @ to_be 2 (push_bit 3 (of_nat c) OR of_nat plc :: u16)
          @ take 12 (to_be 16 (px_address (p64_prefix p)))"
proof -
  let ?c = "div_ceil (unat (min (p64_lifetime p) 65528)) 8"
  from assms obtain plc where plc: "position (px_length (p64_prefix p)) plc_lengths = Some plc"
    and c: "canonical (p64_prefix p)"
    and b: "b = [38, 2] @ to_be 2 (push_bit 3 (of_nat ?c) OR of_nat plc :: u16)
          @ take 12 (to_be 16 (px_address (p64_prefix p)))"
    by (auto simp: pref64_encode_def and_then_Ok_iff Let_def canonical_def split: if_splits)
  have "unat (min (p64_lifetime p) 65528) \<le> 65528"
    by (simp add: min_def word_le_nat_alt)
  with div_ceil8 [of "unat (min (p64_lifetime p) 65528)"] have cc: "?c \<le> 8191" by linarith
  then have "8 * ?c = unat (pref64_scaled (p64_lifetime p))"
    unfolding pref64_scaled_def by (subst unat_of_nat_u32) simp_all
  with plc c b cc position_Some [OF plc] show ?thesis
    by (intro that [of plc ?c]) (auto simp: plc_lengths_def)
qed

lemma pref64_roundtrip:
  assumes "pref64_encode p = Ok b"
  shows "pref64_decode b = Ok \<lparr>p64_prefix = p64_prefix p, p64_lifetime = pref64_scaled (p64_lifetime p)\<rparr>"
  using assms
proof (rule pref64_shape)
  fix plc c
  assume plc: "plc < 6" "plc_lengths ! plc = px_length (p64_prefix p)"
    and can: "canonical (p64_prefix p)" and c: "c \<le> 8191" "8 * c = unat (pref64_scaled (p64_lifetime p))"
    and b: "b = [38, 2] @ to_be 2 (push_bit 3 (of_nat c) OR of_nat plc :: u16)
          @ take 12 (to_be 16 (px_address (p64_prefix p)))"
  let ?w = "push_bit 3 (of_nat c) OR of_nat plc :: u16"
  have pu: "unat (of_nat plc :: u16) = plc" using plc by simp
  then have plc8: "(of_nat plc :: u16) < 8" using plc by (simp add: word_less_nat_alt)
  have "px_length (p64_prefix p) \<le> 96"
  proof -
    have "plc_lengths ! plc \<in> set plc_lengths" by (rule nth_mem) (use plc(1) in \<open>simp add: plc_lengths_def\<close>)
    then show ?thesis using plc(2) by (auto simp: plc_lengths_def)
  qed
  then have "unat (px_length (p64_prefix p)) \<le> 8 * 12" by (simp add: word_le_nat_alt)
  then have pad: "take 12 (to_be 16 (px_address (p64_prefix p))) @ replicate 4 0 = to_be 16 (px_address (p64_prefix p))"
    using take_octets_pad [OF can, of 12] by simp
  then have put: "put (replicate 16 0) 0 (take 12 (to_be 16 (px_address (p64_prefix p)))) = to_be 16 (px_address (p64_prefix p))"
    by (simp add: put_def)
  have "unat (push_bit 3 (of_nat c) :: u16) = 8 * c"
    using c(1) by (simp add: push_bit_eq_mult unat_word_ariths)
  then have life: "(ucast (push_bit 3 (of_nat c) :: u16) :: u32) = pref64_scaled (p64_lifetime p)"
    using c(2) by (simp add: word_unat_eq_iff)
  have tk: "take 2 (drop 2 b) = to_be 2 ?w" "drop 4 b = take 12 (to_be 16 (px_address (p64_prefix p)))"
    "length b = 16" "b ! 0 = 38" "b ! 1 = 2" "b \<noteq> []"
    by (simp_all add: b)
  show ?thesis
    using plc pu canonical_prefix_new [OF can]
    by (simp add: pref64_decode_def Let_def tk [simplified] low3_or [OF plc8] plc_lengths_def put life)
qed

lemma nd_wf_pref64: "pref64_encode p = Ok b \<Longrightarrow> nd_wf b \<and> b ! 0 = 38"
  by (erule pref64_shape) (simp add: nd_wf_def)

lemma unat_pref64_scaled:
  assumes "life \<le> 65528"
  shows "unat (pref64_scaled life) = 8 * div_ceil (unat life) 8"
proof -
  have m: "min life 65528 = life" "unat life \<le> 65528"
    using assms by (simp_all add: word_le_nat_alt)
  have "8 * div_ceil (unat life) 8 < 2 ^ 32" using div_ceil8 [of "unat life"] m by simp
  then show ?thesis unfolding pref64_scaled_def m by (rule unat_of_nat_u32)
qed

lemma pref64_scaled_ge: "life \<le> 65528 \<Longrightarrow> life \<le> pref64_scaled life"
  using div_ceil8 [of "unat life"] by (simp add: word_le_nat_alt unat_pref64_scaled)

subsection \<open>ICMPv6 packets and Router Advertisements\<close>

lemma icmp_packet_verifies:
  assumes "icmp_packet s d hop body = Ok b"
  obtains body' where "4 \<le> length body" and "length body' = length body" and "take 2 body' = take 2 body"
    and "drop 4 body' = drop 4 body" and "checksum s d 58 body' = 0"
    and "ipv6_packet s d 58 hop body' = Ok b"
proof -
  let ?z = "put body 2 [0, 0]"
  let ?c = "checksum s d 58 ?z"
  let ?f = "put ?z 2 (to_be 2 ?c)"
  from assms have len: "4 \<le> length body" and pkt: "ipv6_packet s d 58 hop ?f = Ok b"
    by (auto simp: icmp_packet_def Let_def split: if_splits)
  from len have l: "length ?f = length body" by simp
  from pkt l have "length body \<le> 131000"
    by (auto simp: ipv6_packet_def u16_try_from_Some_iff and_then_Ok_iff)
  moreover have "take 2 (drop 2 ?z) = [0, 0]" using len by (simp add: put_def)
  ultimately have "checksum s d 58 ?f = 0"
    using len ck6.filled_verifies [of ?z 2 "(s, d, 58)"] by simp
  moreover have "take 2 ?f = take 2 body" "drop 4 ?f = drop 4 body"
    using len by (simp_all add: put_def)
  ultimately show ?thesis using that [of ?f] len l pkt by blast
qed

lemma link_local_not_multicast: "link_local a \<Longrightarrow> \<not> is_multicast a \<and> \<not> is_unspecified a"
proof -
  assume ll: "link_local a"
  then have "bit (segment a 0 AND 0xffc0) 8 = bit (0xfe80 :: u16) 8"
    by (simp add: link_local_def)
  then have "\<not> bit (segment a 0) 8" by (simp add: bit_simps)
  then have "\<not> bit a 120" by (simp add: segment_def bit_simps)
  moreover have "bit a 120" if "is_multicast a"
  proof -
    have "to_be 16 a ! 0 = ucast (drop_bit 120 a)"
      by (simp add: numeral_eq_Suc)
    with that have "bit (ucast (drop_bit 120 a) :: u8) 0 = bit (0xff :: u8) 0"
      by (simp add: is_multicast_def)
    then show ?thesis by (simp add: bit_simps)
  qed
  moreover have "a \<noteq> 0" using ll by (auto simp: link_local_def segment_def)
  ultimately show ?thesis by (auto simp: is_unspecified_def)
qed

definition rdnss_encode :: "ipv6 \<times> u32 \<Rightarrow> bytes" where
  "rdnss_encode r = [25, 3, 0, 0] @ to_be 4 (snd r) @ to_be 16 (fst r)"

lemma encode_resolvers_Ok: "encode_resolvers rs = Ok b \<Longrightarrow> b = concat (map rdnss_encode rs)"
  by (induction rs arbitrary: b rule: encode_resolvers.induct) (auto simp: rdnss_encode_def split: if_splits)

lemma encode_resolvers_no_panic: "encode_resolvers rs \<noteq> Panic"
  by (induction rs rule: encode_resolvers.induct) auto

lemma nd_wf_rdnss: "nd_wf (rdnss_encode r)"
  by (simp add: nd_wf_def rdnss_encode_def)

lemma encode_pref64s_Ok:
  "encode_pref64s ps = Ok b \<Longrightarrow> \<exists>bs. b = concat bs \<and> list_all2 (\<lambda>p x. pref64_encode p = Ok x) ps bs"
proof (induction ps arbitrary: b)
  case (Cons p ps)
  then obtain x y where "pref64_encode p = Ok x" "encode_pref64s ps = Ok y" "b = x @ y"
    by (auto simp: and_then_Ok_iff)
  moreover with Cons.IH obtain bs where "y = concat bs" "list_all2 (\<lambda>p x. pref64_encode p = Ok x) ps bs"
    by blast
  ultimately show ?case by (intro exI [of _ "x # bs"]) simp
qed simp

lemma transport_icmp:
  assumes "e_next_header e = 58"
  shows "transport e =
    Ok \<lparr>t_protocol = 58, t_bytes = e_payload e, t_fragmented = False, t_non_initial = False\<rparr>"
proof -
  have "(16 :: nat) = Suc 15" by simp
  then show ?thesis
    unfolding transport_def assms by (simp only: transport_loop.simps) (simp add: ext_len_def)
qed

text \<open>The optional link-layer address and MTU options of an advertisement.\<close>

definition ra_head_options :: "advertisement \<Rightarrow> bytes list" where
  "ra_head_options ra =
     (case ra_mac ra of None \<Rightarrow> [] | Some mac \<Rightarrow> [[1, 1] @ mac])
     @ (if ra_link ra = Ail then [] else [[5, 1, 0, 0] @ to_be 4 (ra_mtu ra)])"

definition ra_options :: "advertisement \<Rightarrow> (ipv6 \<times> u32) list \<Rightarrow> bytes list \<Rightarrow> bytes list" where
  "ra_options ra rs pbs = ra_head_options ra @ map pio_encode (sort_key pio_prefix (ra_pios ra))
     @ map rio_encode (dedup_by rio_prefix (sort_key rio_prefix (ra_rios ra))) @ map rdnss_encode rs @ pbs"

lemma encode_services_Ok:
  assumes "encode_services ra rs ps = Ok pkt"
  obtains pbs head body where "list_all2 (\<lambda>p x. pref64_encode p = Ok x) ps pbs"
    and "length head = 16" and "head ! 0 = 134" and "head ! 1 = 0" and "link_local (ra_source ra)"
    and "body = head @ concat (ra_options ra rs pbs)" and "length body + 40 \<le> 1280"
    and "icmp_packet (ra_source ra) (ra_destination ra) 255 body = Ok pkt"
proof -
  let ?head = "[134, 0, 0, 0, 0, if ra_link ra = Ail then 2 OR (ra_mo ra AND 0xc0) else 0]
              @ to_be 2 (if ra_link ra = Ail then 0 else min (ra_default_lifetime ra) 1800) @ replicate 8 (0 :: u8)"
  from assms obtain r p where rs: "encode_resolvers rs = Ok r" and p: "encode_pref64s ps = Ok p"
    and ll: "link_local (ra_source ra)"
    and len: "length (?head @ concat (ra_head_options ra)
       @ concat (map pio_encode (sort_key pio_prefix (ra_pios ra)))
       @ concat (map rio_encode (dedup_by rio_prefix (sort_key rio_prefix (ra_rios ra)))) @ r @ p) + 40 \<le> 1280"
    and pkt: "icmp_packet (ra_source ra) (ra_destination ra) 255 (?head @ concat (ra_head_options ra)
       @ concat (map pio_encode (sort_key pio_prefix (ra_pios ra)))
       @ concat (map rio_encode (dedup_by rio_prefix (sort_key rio_prefix (ra_rios ra)))) @ r @ p) = Ok pkt"
    by (cases "ra_mac ra")
      (auto simp: encode_services_def ra_head_options_def Let_def and_then_Ok_iff split: if_splits)
  from encode_pref64s_Ok [OF p] obtain pbs
    where pbs: "p = concat pbs" "list_all2 (\<lambda>p x. pref64_encode p = Ok x) ps pbs" by blast
  show ?thesis
    using len pkt encode_resolvers_Ok [OF rs] pbs ll
    by (intro that [of pbs ?head]) (auto simp: ra_options_def)
qed

lemma ra_options_wf:
  assumes "\<forall>mac. ra_mac ra = Some mac \<longrightarrow> length mac = 6"
    and "list_all2 (\<lambda>p x. pref64_encode p = Ok x) ps pbs"
  shows "list_all nd_wf (ra_options ra rs pbs)"
proof -
  have "list_all nd_wf (ra_head_options ra)"
    using assms(1) by (auto simp: ra_head_options_def nd_wf_def split: option.splits)
  moreover have "list_all nd_wf pbs"
    using assms(2) by (induction rule: list_all2_induct) (auto dest: nd_wf_pref64)
  ultimately show ?thesis
    by (auto simp: ra_options_def list_all_iff nd_wf_pio nd_wf_rio nd_wf_rdnss)
qed

lemma decode_advertisement:
  assumes "encode_services ra rs ps = Ok pkt"
    and "\<forall>mac. ra_mac ra = Some mac \<longrightarrow> length mac = 6"
  obtains pbs e body where "list_all2 (\<lambda>p x. pref64_encode p = Ok x) ps pbs"
    and "envelope RawIpv6 (pkt @ padding) = Ok e" and "e_source e = ra_source ra"
    and "e_destination e = ra_destination ra" and "length pkt \<le> 1280"
    and "decode_nd e = Ok \<lparr>nd_kind = 134, nd_body = body,
           nd_opts = map (\<lambda>b. \<lparr>o_kind = b ! 0, o_bytes = b\<rparr>) (ra_options ra rs pbs)\<rparr>"
proof -
  obtain pbs head body where pbs: "list_all2 (\<lambda>p x. pref64_encode p = Ok x) ps pbs"
    and head: "length head = 16" "head ! 0 = 134" "head ! 1 = 0" and ll: "link_local (ra_source ra)"
    and body: "body = head @ concat (ra_options ra rs pbs)" and len: "length body + 40 \<le> 1280"
    and pkt: "icmp_packet (ra_source ra) (ra_destination ra) 255 body = Ok pkt"
    by (rule encode_services_Ok [OF assms(1)])
  obtain body' where b': "length body' = length body" "take 2 body' = take 2 body" "drop 4 body' = drop 4 body"
    and ck: "checksum (ra_source ra) (ra_destination ra) 58 body' = 0"
    and ip: "ipv6_packet (ra_source ra) (ra_destination ra) 58 255 body' = Ok pkt"
    by (rule icmp_packet_verifies [OF pkt]) blast
  let ?e = "\<lparr>e_packet = pkt, e_payload = body', e_source = ra_source ra, e_destination = ra_destination ra,
        e_next_header = 58, e_hop_limit = 255\<rparr>"
  have env: "envelope RawIpv6 (pkt @ padding) = Ok ?e"
    by (rule envelope_ipv6_packet [OF ip])
  have lp: "length pkt \<le> 1280"
    using ip len b'(1) by (auto simp: ipv6_packet_def and_then_Ok_iff)
  have l16: "16 \<le> length body'" using b'(1) body head by simp
  have "drop 16 body' = drop 12 (drop 4 body')" by simp
  also have "\<dots> = drop 16 body" unfolding b'(3) by simp
  finally have d16: "drop 16 body' = concat (ra_options ra rs pbs)" using body head by simp
  have "take 2 body' ! i = take 2 body ! i" for i using b'(2) by simp
  from this [of 0] this [of 1] have b01: "body' ! 0 = 134" "body' ! Suc 0 = 0"
    using head body l16 b'(1) by (simp_all add: nth_append)
  have opts: "nd_options (drop 16 body') = Ok (map (\<lambda>b. \<lparr>o_kind = b ! 0, o_bytes = b\<rparr>) (ra_options ra rs pbs))"
    unfolding d16 using ndo.parse_stream [OF ra_options_wf [OF assms(2) pbs]] by simp
  have ne: "body' \<noteq> []" using l16 by auto
  have "decode_nd ?e = Ok \<lparr>nd_kind = 134, nd_body = body',
           nd_opts = map (\<lambda>b. \<lparr>o_kind = b ! 0, o_bytes = b\<rparr>) (ra_options ra rs pbs)\<rparr>"
    using l16 ll link_local_not_multicast [OF ll] ck ne
    by (simp add: decode_nd_def transport_icmp b01 opts nd_base_def nd_target_def)
  with env lp pbs show ?thesis by (intro that [of pbs ?e]) simp_all
qed

lemma ra_head_kinds: "filter (\<lambda>b. b ! 0 = k) (ra_head_options ra) = []" if "k \<notin> {1, 5}" for k
  using that by (auto simp: ra_head_options_def split: option.splits)

lemma option_kinds [simp]: "pio_encode p ! 0 = 3" "rio_encode r ! 0 = 24" "rdnss_encode q ! 0 = 25"
  by (simp_all add: pio_encode_def rio_encode_def rdnss_encode_def Let_def)

lemma ra_options_by_kind:
  assumes "list_all2 (\<lambda>p x. pref64_encode p = Ok x) ps pbs"
  shows "filter (\<lambda>b. b ! 0 = 3) (ra_options ra rs pbs) = map pio_encode (sort_key pio_prefix (ra_pios ra))"
    and "filter (\<lambda>b. b ! 0 = 24) (ra_options ra rs pbs)
       = map rio_encode (dedup_by rio_prefix (sort_key rio_prefix (ra_rios ra)))"
    and "filter (\<lambda>b. b ! 0 = 25) (ra_options ra rs pbs) = map rdnss_encode rs"
    and "filter (\<lambda>b. b ! 0 = 38) (ra_options ra rs pbs) = pbs"
proof -
  have "\<forall>x \<in> set pbs. x ! 0 = 38"
    using assms by (induction rule: list_all2_induct) (auto dest: nd_wf_pref64)
  then have pb: "filter (\<lambda>b. b ! 0 = k) pbs = (if k = 38 then pbs else [])" for k
    by (auto simp: filter_empty_conv)
  show "filter (\<lambda>b. b ! 0 = 3) (ra_options ra rs pbs) = map pio_encode (sort_key pio_prefix (ra_pios ra))"
    and "filter (\<lambda>b. b ! 0 = 24) (ra_options ra rs pbs)
       = map rio_encode (dedup_by rio_prefix (sort_key rio_prefix (ra_rios ra)))"
    and "filter (\<lambda>b. b ! 0 = 25) (ra_options ra rs pbs) = map rdnss_encode rs"
    and "filter (\<lambda>b. b ! 0 = 38) (ra_options ra rs pbs) = pbs"
    by (simp_all add: ra_options_def ra_head_kinds filter_map comp_def pb)
qed

lemma set_dedup_by: "set (dedup_by f xs) \<subseteq> set xs"
proof (induction xs)
  case (Cons x xs)
  then show ?case by (cases "dedup_by f xs") auto
qed simp

text \<open>The options of one kind in a decoded message, in order.\<close>

definition opts_of :: "u8 \<Rightarrow> nd \<Rightarrow> bytes list" where
  "opts_of k m = map o_bytes (filter (\<lambda>x. o_kind x = k) (nd_opts m))"

section \<open>Properties\<close>


text \<open>A stub advertisement with one prefix, one route, a resolver and a NAT64 prefix.\<close>

definition sample_ra :: advertisement where
  "sample_ra = \<lparr>ra_link = Stub, ra_source = 0xfe800000000000000000000000000001,
     ra_destination = 0xff020000000000000000000000000001, ra_mac = Some [2, 0, 0, 0, 0, 1],
     ra_mtu = 1500, ra_mo = 0, ra_default_lifetime = 1800,
     ra_pios = [\<lparr>pio_prefix = Prefix 0xfd000000000000010000000000000000 64, pio_flags = 0xc0,
                pio_preferred = 1800, pio_valid = 1800\<rparr>],
     ra_rios = [\<lparr>rio_prefix = Prefix 0xfd000000000000020000000000000000 64,
                rio_preference = Medium, rio_lifetime = 1800\<rparr>]\<rparr>"

definition sample_resolvers :: "(ipv6 \<times> u32) list" where
  "sample_resolvers = [(0xfd000000000000010000000000000001, 600)]"

definition sample_pref64s :: "pref64 list" where
  "sample_pref64s = [\<lparr>p64_prefix = Prefix 0xfd00000000000000ffff000000000000 96, p64_lifetime = 601\<rparr>]"

lemma sample_ra_encodes: "is_ok (encode_services sample_ra sample_resolvers sample_pref64s)"
proof -
  have "\<not> is_multicast 0xfd000000000000010000000000000001" "link_local 0xfe800000000000000000000000000001"
    by code_simp+
  then have rs: "encode_resolvers sample_resolvers = Ok (rdnss_encode (0xfd000000000000010000000000000001, 600))"
    by (simp add: sample_resolvers_def is_unspecified_def is_loopback_def rdnss_encode_def)
  have "is_ok (encode_pref64s sample_pref64s)" by code_simp
  then obtain b where ps: "encode_pref64s sample_pref64s = Ok b"
    by (cases "encode_pref64s sample_pref64s") auto
  then have "length b = 16"
    by (auto simp: sample_pref64s_def and_then_Ok_iff elim!: pref64_shape)
  with rs ps \<open>link_local _\<close> show ?thesis
    by (simp add: encode_services_def sample_ra_def Let_def sample_resolvers_def sample_pref64s_def
        icmp_packet_def ipv6_packet_def u16_try_from_def pio_encode_def rio_encode_def rdnss_encode_def)
qed


text \<open>
  C36: No input makes a wire decoder panic: every index and slice of the envelope decoder, the
  extension-header traversal, the Neighbour Discovery decoder, the hop-by-hop option scan and
  the three option decoders is in range, for arbitrary octets.
\<close>

theorem wire_decoders_never_panic:
  "envelope kind f \<noteq> Panic \<and> transport e \<noteq> Panic \<and> decode_nd e \<noteq> Panic \<and> hop_options e \<noteq> Panic
   \<and> pio_decode b \<noteq> Panic \<and> rio_decode b \<noteq> Panic \<and> pref64_decode b \<noteq> Panic"
proof -
  have "ensures (pio_decode b) (\<lambda>_. True)"
    by (auto simp: pio_decode_def wp)
  moreover have "ensures (rio_decode b) (\<lambda>_. True)"
    by (auto simp: rio_decode_def wp word_le_nat_alt)
  moreover have "ensures (pref64_decode b) (\<lambda>_. True)"
    by (auto simp: pref64_decode_def wp Let_def)
  ultimately show ?thesis
    using envelope_ensures decode_nd_ensures hop_options_ensures transport_loop_ensures
    by (auto simp: ensures_iff transport_def)
qed

text \<open>
  A prefix made from an address contains exactly the addresses that agree with it on the
  leading bits that the prefix length counts; it exists exactly for lengths up to 128.
\<close>

theorem prefix_membership:
  assumes "prefix_new a n = Some p"
  shows "unat n \<le> 128 \<and> px_length p = n
    \<and> (prefix_contains p b \<longleftrightarrow> drop_bit (128 - unat n) b = drop_bit (128 - unat n) a)"
proof -
  have "drop_bit (128 - unat n) (px_address p) = drop_bit (128 - unat n) a"
    by (rule bit_word_eqI) (simp add: bit_drop_bit_eq prefix_new_bits [OF assms])
  then show ?thesis
    using assms prefix_new_Some_iff prefix_new_length [OF assms]
      prefix_contains_iff [OF canonical_new [OF assms], of b] by auto
qed

theorem prefix_membership_witness:
  "prefix_contains (Prefix 0xfd000000000000010000000000000000 64) 0xfd000000000000010000000000000007
   \<and> \<not> prefix_contains (Prefix 0xfd000000000000010000000000000000 64) 0xfd000000000000020000000000000007"
proof -
  have "prefix_new 0xfd000000000000010000000000000009 64 = Some (Prefix 0xfd000000000000010000000000000000 64)"
    by code_simp
  from prefix_membership [OF this] show ?thesis by simp
qed

text \<open>
  A PREF64 option is accepted by its decoder with the same prefix, and its lifetime is
  never shortened below the value it was built from (up to the 65528 seconds the field can
  carry) and never lengthened by eight seconds or more.
\<close>

theorem pref64_lifetime_rounds_up:
  assumes "pref64_encode p = Ok b" and "p64_lifetime p \<le> 65528"
  shows "\<exists>q. pref64_decode b = Ok q \<and> p64_prefix q = p64_prefix p
    \<and> p64_lifetime p \<le> p64_lifetime q \<and> unat (p64_lifetime q) < unat (p64_lifetime p) + 8"
proof -
  have "unat (pref64_scaled (p64_lifetime p)) < unat (p64_lifetime p) + 8"
    using div_ceil8 [of "unat (p64_lifetime p)"] unat_pref64_scaled [OF assms(2)] by simp
  with pref64_roundtrip [OF assms(1)] pref64_scaled_ge [OF assms(2)] show ?thesis by simp
qed

theorem pref64_lifetime_rounds_up_witness:
  "\<exists>b q. pref64_encode \<lparr>p64_prefix = Prefix 0xfd00000000000000ffff000000000000 96, p64_lifetime = 601\<rparr> = Ok b
     \<and> pref64_decode b = Ok q \<and> 601 \<le> p64_lifetime q"
proof -
  let ?p = "\<lparr>p64_prefix = Prefix 0xfd00000000000000ffff000000000000 96, p64_lifetime = 601\<rparr>"
  have "is_ok (pref64_encode ?p)" by code_simp
  then obtain b where "pref64_encode ?p = Ok b" by (cases "pref64_encode ?p") auto
  with pref64_lifetime_rounds_up [OF this] show ?thesis by auto
qed

end
