(* ===== verification/Dhcpv6_Wire.thy ===== *)
theory Dhcpv6_Wire
  imports Wire
begin

text \<open>
  \<open>src/wire/dhcpv6.rs\<close>: DHCPv6 options, UDP framing and the decoder for prefix-delegation replies.
  The option stream is an instance of the interface \<open>item_stream\<close>.
\<close>

section \<open>Definitions\<close>

text \<open>\<open>option\<close>: the length field is the truncating \<open>as u16\<close>.\<close>

definition dhcp6_option :: "u16 \<Rightarrow> bytes \<Rightarrow> bytes" where
  "dhcp6_option code val = to_be 2 code @ to_be 2 (of_nat (length val) :: u16) @ val"

function dhcp6_options :: "bytes \<Rightarrow> (wire_error, (u16 \<times> bytes) list) outcome" where
  "dhcp6_options b =
     (if b = [] then Ok []
      else if length b < 4 then Err Truncated
      else and_then (u16_at b 2) (\<lambda>l.
        let n = unat l in
        if length b - 4 < n then Err Truncated
        else and_then (u16_at b 0) (\<lambda>code.
          and_then (slice_r b 4 (4 + n)) (\<lambda>val.
          and_then (slice_from b (4 + n)) (\<lambda>rest.
          map_ok ((#) (code, val)) (dhcp6_options rest))))))"
  by pat_completeness auto
termination
  by (relation "measure length") (auto simp: slice_from_def split: if_splits)

declare dhcp6_options.simps [simp del]

definition udp_packet :: "ipv6 \<Rightarrow> ipv6 \<Rightarrow> u16 \<Rightarrow> u16 \<Rightarrow> bytes \<Rightarrow> (wire_error, bytes) outcome" where
  "udp_packet source dest sport dport body =
     and_then (ok_or Capacity (u16_try_from (length body + 8))) (\<lambda>len.
     let b = to_be 2 sport @ to_be 2 dport @ to_be 2 len @ [0, 0] @ body;
         sum = checksum source dest 17 b;
         b = put b 6 (to_be 2 (if sum = 0 then 65535 else sum))
     in ipv6_packet source dest 17 1 b)"

definition udp_payload :: "envelope \<Rightarrow> (wire_error, bytes) outcome" where
  "udp_payload e =
     and_then (transport e) (\<lambda>t.
     let b = t_bytes t in
     if t_protocol t \<noteq> 17 \<or> t_fragmented t \<or> length b < 12 then Err Invalid
     else and_then (slice_r b 0 4) (\<lambda>ports.
     and_then (slice_r b 6 8) (\<lambda>ck.
     and_then (u16_at b 4) (\<lambda>len.
     if ports \<noteq> [2, 35, 2, 34] \<or> ck = [0, 0] \<or> unat len \<noteq> length b
        \<or> checksum (e_source e) (e_destination e) 17 b \<noteq> 0
     then Err Invalid
     else slice_from b 8))))"

record delegation =
  d_iaid :: u32
  d_t1 :: u32
  d_t2 :: u32
  d_prefix :: prefix
  d_preferred :: u32
  d_valid :: u32

record dhcp6_message =
  m6_kind :: u8
  m6_xid :: bytes
  m6_client :: bytes
  m6_server :: bytes
  m6_preference :: u8
  m6_sol_max_rt :: "u32 option"
  m6_status :: u16
  m6_delegations :: "delegation list"

definition single :: "(u16 \<times> bytes) list \<Rightarrow> u16 \<Rightarrow> (wire_error, bytes option) outcome" where
  "single opts code =
     (case filter (\<lambda>o1. fst o1 = code) opts of
        [] \<Rightarrow> Ok None
      | [o1] \<Rightarrow> Ok (Some (snd o1))
      | _ \<Rightarrow> Err Invalid)"

text \<open>The innermost loop: the IA Prefix options of one IA\_PD.\<close>

primrec prefix_loop ::
  "u32 \<Rightarrow> u32 \<Rightarrow> u32 \<Rightarrow> (u16 \<times> bytes) list \<Rightarrow> delegation list \<Rightarrow> (wire_error, delegation list) outcome" where
  "prefix_loop iaid t1 t2 [] ds = Ok ds"
| "prefix_loop iaid t1 t2 (o1 # os) ds =
     (let p = snd o1 in
      if length p < 25 then Err Truncated
      else and_then (slice_from p 25) (\<lambda>tail. and_then (dhcp6_options tail) (\<lambda>_.
      and_then (u32_at p 0) (\<lambda>preferred. and_then (u32_at p 4) (\<lambda>valid.
      and_then (ipv6_at p 9) (\<lambda>addr. and_then (idx p 8) (\<lambda>len.
      case prefix_new addr len of
        None \<Rightarrow> prefix_loop iaid t1 t2 os ds
      | Some prefix \<Rightarrow>
          if valid < preferred then prefix_loop iaid t1 t2 os ds
          else if 16 \<le> length ds then Err Capacity
          else prefix_loop iaid t1 t2 os
            (ds @ [\<lparr>d_iaid = iaid, d_t1 = t1, d_t2 = t2, d_prefix = prefix,
                    d_preferred = preferred, d_valid = valid\<rparr>]))))))))"

text \<open>The loop over the IA\_PD options; \<open>iaids\<close> is the set of identifiers already seen.\<close>

primrec ia_loop ::
  "(u16 \<times> bytes) list \<Rightarrow> u32 list \<Rightarrow> u16 \<Rightarrow> delegation list \<Rightarrow> (wire_error, u16 \<times> delegation list) outcome" where
  "ia_loop [] iaids status ds = Ok (status, ds)"
| "ia_loop (o1 # os) iaids status ds =
     (let ia = snd o1 in
      if length ia < 12 then Err Truncated
      else and_then (u32_at ia 0) (\<lambda>iaid.
      if iaid \<in> set iaids then Err Invalid
      else and_then (u32_at ia 4) (\<lambda>t1. and_then (u32_at ia 8) (\<lambda>t2.
      and_then (slice_from ia 12) (\<lambda>tail.
      and_then (dhcp6_options tail) (\<lambda>nested.
      if iaid \<notin> {1, 2} \<or> (t1 \<noteq> 0 \<and> t2 \<noteq> 0 \<and> t2 < t1) then ia_loop os (iaid # iaids) status ds
      else case find (\<lambda>n. fst n = 13 \<and> 2 \<le> length (snd n) \<and> take 2 (snd n) \<noteq> [0, 0]) nested of
        Some code \<Rightarrow>
          ia_loop os (iaid # iaids)
            (if status = 0 \<and> take 2 (snd code) = [0, 3] then 3 else status) ds
      | None \<Rightarrow>
          and_then (prefix_loop iaid t1 t2 (filter (\<lambda>n. fst n = 26) nested) ds) (\<lambda>ds'.
          ia_loop os (iaid # iaids) status ds')))))))"

definition dhcp6_decode :: "bytes \<Rightarrow> (wire_error, dhcp6_message) outcome" where
  "dhcp6_decode b =
     (if length b < 4 then Err Truncated
      else and_then (slice_from b 4) (\<lambda>tail. and_then (dhcp6_options tail) (\<lambda>opts.
      and_then (and_then (single opts 1) (ok_or Invalid)) (\<lambda>client.
      and_then (and_then (single opts 2) (ok_or Invalid)) (\<lambda>server.
      if server = [] \<or> 128 < length server \<or> 128 < length client then Err Invalid
      else and_then (single opts 7) (\<lambda>o7. and_then (single opts 82) (\<lambda>o82. and_then (single opts 13) (\<lambda>o13.
      let preference = (case o7 of Some [p] \<Rightarrow> p | _ \<Rightarrow> 0);
          sol_max_rt = (case o82 of
              Some v \<Rightarrow> if length v = 4 \<and> 60 \<le> (from_be v :: u32) \<and> (from_be v :: u32) \<le> 86400
                        then Some (from_be v) else None
            | None \<Rightarrow> None);
          status = (case o13 of Some (s0 # s1 # _) \<Rightarrow> from_be [s0, s1] | _ \<Rightarrow> 0)
      in and_then (ia_loop (filter (\<lambda>o1. fst o1 = 25) opts) [] status []) (\<lambda>(status, ds).
         and_then (idx b 0) (\<lambda>kind. and_then (slice_r b 1 4) (\<lambda>xid.
         Ok \<lparr>m6_kind = kind, m6_xid = xid, m6_client = client, m6_server = server,
             m6_preference = preference, m6_sol_max_rt = sol_max_rt, m6_status = status,
             m6_delegations = ds\<rparr>)))))))))))"

definition delegation_option :: "delegation \<Rightarrow> bytes" where
  "delegation_option d =
     dhcp6_option 26 (to_be 4 (d_preferred d) @ to_be 4 (d_valid d) @ [px_length (d_prefix d)]
       @ to_be 16 (px_address (d_prefix d)))"

section \<open>Lemmas\<close>

lemma dhcp6_options_cons:
  assumes "length val < 65536"
  shows "dhcp6_options (dhcp6_option code val @ rest) = map_ok ((#) (code, val)) (dhcp6_options rest)"
proof -
  define B where "B = dhcp6_option code val @ rest"
  have "B \<noteq> []" "\<not> length B < 4" "take 2 (drop 2 B) = to_be 2 (of_nat (length val) :: u16)"
    "take 2 B = to_be 2 code" "length B - 4 = length val + length rest"
    "take (length val) (drop 4 B) = val" "drop (4 + length val) B = rest"
    "4 + length val \<le> length B"
    by (simp_all add: B_def dhcp6_option_def)
  then show ?thesis
    using assms unfolding B_def [symmetric]
    by (subst dhcp6_options.simps) (simp add: Let_def not_less)
qed

interpretation d6o: item_stream dhcp6_options "\<lambda>o1. dhcp6_option (fst o1) (snd o1)" "\<lambda>o1. o1"
  "\<lambda>o1. length (snd o1) < 65536"
  by unfold_locales (simp_all add: dhcp6_options.simps [of "[]"] dhcp6_options_cons)

lemma dhcp6_options_ensures: "ensures (dhcp6_options b) (\<lambda>_. True)"
proof (induction b rule: length_induct)
  case (1 b)
  have IH: "ensures (dhcp6_options (drop (4 + n) b)) (\<lambda>_. True)" if "b \<noteq> []" for n
    using 1 that by simp
  show ?case
    using IH by (subst dhcp6_options.simps) (auto simp: wp Let_def)
qed

lemmas dhcp6_options_wp [wp] = ensures_call [OF dhcp6_options_ensures]

text \<open>What every delegation that the decoder lets through satisfies.\<close>

definition delegation_ok :: "delegation \<Rightarrow> bool" where
  "delegation_ok d \<longleftrightarrow> d_iaid d \<in> {1, 2} \<and> canonical (d_prefix d) \<and> d_preferred d \<le> d_valid d
     \<and> (d_t1 d \<noteq> 0 \<and> d_t2 d \<noteq> 0 \<longrightarrow> d_t1 d \<le> d_t2 d)"

definition delegations_ok :: "delegation list \<Rightarrow> bool" where
  "delegations_ok ds \<longleftrightarrow> length ds \<le> 16 \<and> list_all delegation_ok ds"

lemma prefix_loop_ensures:
  assumes "iaid \<in> {1, 2}" and "t1 \<noteq> 0 \<and> t2 \<noteq> 0 \<longrightarrow> t1 \<le> t2"
  shows "delegations_ok ds \<Longrightarrow> ensures (prefix_loop iaid t1 t2 os ds) delegations_ok"
proof (induction os arbitrary: ds)
  case Nil
  then show ?case by simp
next
  case (Cons o1 os)
  obtain c p where o1: "o1 = (c, p)" by (cases o1)
  have step: "delegations_ok (ds @ [\<lparr>d_iaid = iaid, d_t1 = t1, d_t2 = t2, d_prefix = px,
      d_preferred = pr, d_valid = v\<rparr>])"
    if "prefix_new a l = Some px" "\<not> v < pr" "\<not> 16 \<le> length ds" for a l px v pr
    using that assms Cons.prems canonical_new [OF that(1)]
    by (auto simp: delegations_ok_def delegation_ok_def)
  show ?case
    using Cons step by (auto simp: o1 wp Let_def split: option.split)
qed

lemma ia_loop_ensures:
  "delegations_ok ds \<Longrightarrow> ensures (ia_loop os iaids status ds) (\<lambda>r. delegations_ok (snd r))"
proof (induction os arbitrary: iaids status ds)
  case Nil
  then show ?case by simp
next
  case (Cons o1 os)
  obtain c ia where o1: "o1 = (c, ia)" by (cases o1)
  have inner: "ensures (and_then (prefix_loop iaid t1 t2 xs ds) (\<lambda>ds'. ia_loop os (iaid # iaids) status ds'))
      (\<lambda>r. delegations_ok (snd r))"
    if "iaid \<in> {1, 2}" "\<not> (t1 \<noteq> 0 \<and> t2 \<noteq> 0 \<and> t2 < t1)" for iaid t1 t2 xs
    unfolding ensures_and_then
  proof (rule ensures_mono [OF prefix_loop_ensures])
    show "ensures (ia_loop os (iaid # iaids) status ds') (\<lambda>r. delegations_ok (snd r))"
      if "delegations_ok ds'" for ds'
      using that by (rule Cons.IH)
  qed (use that Cons.prems in auto)
  show ?case
    using Cons inner by (auto simp: o1 wp Let_def split: option.split)
qed

lemma ia_loop_start: "ensures (ia_loop os [] st []) (\<lambda>r. delegations_ok (snd r))"
  by (rule ia_loop_ensures) (simp add: delegations_ok_def)

lemmas ia_loop_wp [wp] = ensures_call [OF ia_loop_start]

lemma ia_loop_delegations_ok: "ia_loop os [] st [] = Ok (s, ds) \<Longrightarrow> delegations_ok ds"
  using ensuresD [OF ia_loop_start] by fastforce

lemma single_ensures: "ensures (single opts code) (\<lambda>_. True)"
  by (auto simp: single_def split: list.split)

lemmas single_wp [wp] = ensures_call [OF single_ensures]

text \<open>The value part of an IA Prefix option.\<close>

definition delegation_value :: "delegation \<Rightarrow> bytes" where
  "delegation_value d = to_be 4 (d_preferred d) @ to_be 4 (d_valid d) @ [px_length (d_prefix d)]
     @ to_be 16 (px_address (d_prefix d))"

lemma delegation_option_value: "delegation_option = (\<lambda>d. dhcp6_option 26 (delegation_value d))"
  by (rule ext) (simp add: delegation_option_def delegation_value_def)

lemma prefix_loop_delegations:
  assumes "list_all delegation_ok ds" and "\<forall>d \<in> set ds. d_iaid d = iaid \<and> d_t1 d = t1 \<and> d_t2 d = t2"
    and "length acc + length ds \<le> 16"
  shows "prefix_loop iaid t1 t2 (map (\<lambda>d. (26, delegation_value d)) ds) acc = Ok (acc @ ds)"
  using assms
proof (induction ds arbitrary: acc)
  case Nil
  then show ?case by simp
next
  case (Cons d ds)
  have d: "\<lparr>d_iaid = iaid, d_t1 = t1, d_t2 = t2, d_prefix = d_prefix d, d_preferred = d_preferred d,
      d_valid = d_valid d\<rparr> = d"
    using Cons.prems(2) by simp
  have "delegation_value d ! 8 = px_length (d_prefix d)"
    by (simp add: delegation_value_def nth_append)
  then have rd: "take 4 (delegation_value d) = to_be 4 (d_preferred d)"
    "take 4 (drop 4 (delegation_value d)) = to_be 4 (d_valid d)"
    "take 16 (drop 9 (delegation_value d)) = to_be 16 (px_address (d_prefix d))"
    "drop 25 (delegation_value d) = []" "length (delegation_value d) = 25"
    "delegation_value d ! 8 = px_length (d_prefix d)"
    by (simp_all add: delegation_value_def)
  have new: "prefix_new (px_address (d_prefix d)) (px_length (d_prefix d)) = Some (d_prefix d)"
    "\<not> d_valid d < d_preferred d"
    using Cons.prems(1) by (simp_all add: delegation_ok_def canonical_def not_less)
  show ?case
    using Cons.prems new Cons.IH [of "acc @ [d]"]
    by (simp add: Let_def rd dhcp6_options.simps [of "[]"] d)
qed

lemma dhcp6_decode_ensures:
  "ensures (dhcp6_decode b) (\<lambda>m. m6_server m \<noteq> [] \<and> length (m6_server m) \<le> 128
     \<and> length (m6_client m) \<le> 128 \<and> delegations_ok (m6_delegations m)
     \<and> (\<forall>n. m6_sol_max_rt m = Some n \<longrightarrow> 60 \<le> n \<and> n \<le> 86400))"
  by (auto simp: dhcp6_decode_def wp Let_def not_less dest: ia_loop_delegations_ok
      split: option.splits if_splits list.splits prod.splits)

definition ia_pd_value :: "u32 \<Rightarrow> u32 \<Rightarrow> u32 \<Rightarrow> delegation list \<Rightarrow> bytes" where
  "ia_pd_value iaid t1 t2 ds = to_be 4 iaid @ to_be 4 t1 @ to_be 4 t2 @ concat (map delegation_option ds)"

lemma length_delegation_option [simp]: "length (delegation_option d) = 29"
  by (simp add: delegation_option_def dhcp6_option_def)

lemma ia_pd_options:
  "dhcp6_options (concat (map delegation_option ds)) = Ok (map (\<lambda>d. (26, delegation_value d)) ds)"
proof -
  have "concat (map delegation_option ds)
      = concat (map (\<lambda>o1. dhcp6_option (fst o1) (snd o1)) (map (\<lambda>d. (26, delegation_value d)) ds))"
    by (simp add: delegation_option_value comp_def)
  moreover have wf: "list_all (\<lambda>o1. length (snd o1) < 65536) (map (\<lambda>d. (26, delegation_value d)) ds)"
    by (simp add: list_all_iff delegation_value_def)
  ultimately show ?thesis
    using d6o.parse_stream [OF wf] by simp
qed

lemma ia_loop_ia_pd:
  assumes "iaid \<in> {1, 2}" and "t1 = 0 \<or> t2 = 0 \<or> t1 \<le> t2" and "length ds \<le> 16"
    and "list_all delegation_ok ds" and "\<forall>d \<in> set ds. d_iaid d = iaid \<and> d_t1 d = t1 \<and> d_t2 d = t2"
  shows "ia_loop [(25, ia_pd_value iaid t1 t2 ds)] [] 0 [] = Ok (0, ds)"
proof -
  let ?ia = "ia_pd_value iaid t1 t2 ds"
  have rd: "12 \<le> length ?ia" "take 4 ?ia = to_be 4 iaid" "take 4 (drop 4 ?ia) = to_be 4 t1"
    "take 4 (drop 8 ?ia) = to_be 4 t2" "drop 12 ?ia = concat (map delegation_option ds)"
    by (simp_all add: ia_pd_value_def)
  have "find (\<lambda>n. fst n = 13 \<and> P n) (map (\<lambda>d. (26 :: u16, delegation_value d)) ds) = None" for P
    by (auto simp: find_None_iff)
  moreover have "filter (\<lambda>n. fst n = 26) (map (\<lambda>d. (26 :: u16, delegation_value d)) ds)
      = map (\<lambda>d. (26, delegation_value d)) ds"
    by (simp add: filter_map comp_def)
  moreover have "\<not> (iaid \<notin> {1, 2} \<or> t1 \<noteq> 0 \<and> t2 \<noteq> 0 \<and> t2 < t1)" using assms(1,2) by auto
  moreover have "\<not> length ?ia < 12" "4 \<le> length ?ia" "8 \<le> length ?ia" using rd(1) by simp_all
  ultimately show ?thesis
    using prefix_loop_delegations [OF assms(4,5), of "[]"] assms(3) rd
    by (auto simp: Let_def ia_pd_options)
qed

lemma udp_packet_checksum:
  assumes "udp_packet s d sp dp body = Ok pkt"
  obtains b where "ipv6_packet s d 17 1 b = Ok pkt" and "checksum s d 17 b = 0"
    and "length b = length body + 8" and "take 4 b = to_be 2 sp @ to_be 2 dp"
    and "take 2 (drop 4 b) = to_be 2 (of_nat (length body + 8) :: u16)" and "take 2 (drop 6 b) \<noteq> [0, 0]"
    and "drop 8 b = body" and "length body + 8 < 65536"
proof -
  define z where "z = to_be 2 sp @ to_be 2 dp @ to_be 2 (of_nat (length body + 8) :: u16) @ [0, 0] @ body"
  define c where "c = (if checksum s d 17 z = 0 then 65535 else checksum s d 17 z)"
  have len: "length body + 8 < 65536" and ip: "ipv6_packet s d 17 1 (put z 6 (to_be 2 c)) = Ok pkt"
    using assms by (auto simp: udp_packet_def and_then_Ok_iff u16_try_from_Some_iff Let_def z_def c_def)
  have z: "length z \<le> 131000" "take 2 (drop 6 z) = [0, 0]" "6 + 2 \<le> length z" "even (6 :: nat)"
    using len by (simp_all add: z_def)
  have ck: "checksum s d 17 (put z 6 (to_be 2 c)) = 0"
    using ck6.filled_verifies [of z 6 "(s, d, 17)"] ck6.filled_ones_verifies [of z 6 "(s, d, 17)"] z
    by (simp add: c_def)
  have "c \<noteq> 0" by (simp add: c_def)
  then have c2: "to_be 2 c \<noteq> [0, 0]"
    by (metis from_be_to_be_u16 from_be_Nil to_be_0 numeral_2_eq_2 replicate.simps)
  show ?thesis
    by (rule that [OF ip ck]) (use len c2 in \<open>simp_all add: z_def put_def\<close>)
qed

lemma transport_udp:
  assumes "e_next_header e = 17"
  shows "transport e =
    Ok \<lparr>t_protocol = 17, t_bytes = e_payload e, t_fragmented = False, t_non_initial = False\<rparr>"
proof -
  have "(16 :: nat) = Suc 15" by simp
  then show ?thesis
    unfolding transport_def assms by (simp only: transport_loop.simps) (simp add: ext_len_def)
qed

section \<open>Properties\<close>

text \<open>
  C39: The DHCPv6 decoder never panics, and whatever it accepts is usable: a bounded non-empty
  server identifier, at most sixteen delegations, each for one of the two requested
  associations, canonical, with preferred at most valid lifetime and T1 at most T2 unless one
  of them is zero, and a \<open>SOL_MAX_RT\<close> within its legal range.
\<close>

theorem dhcp6_decode_sound:
  "ensures (dhcp6_decode b) (\<lambda>m. m6_server m \<noteq> [] \<and> length (m6_server m) \<le> 128
     \<and> length (m6_client m) \<le> 128 \<and> length (m6_delegations m) \<le> 16
     \<and> list_all (\<lambda>d. (d_iaid d = 1 \<or> d_iaid d = 2) \<and> canonical (d_prefix d)
          \<and> d_preferred d \<le> d_valid d \<and> (d_t1 d = 0 \<or> d_t2 d = 0 \<or> d_t1 d \<le> d_t2 d)) (m6_delegations m)
     \<and> (case m6_sol_max_rt m of None \<Rightarrow> True | Some n \<Rightarrow> 60 \<le> n \<and> n \<le> 86400))"
  using dhcp6_decode_ensures [of b]
  by (rule ensures_mono)
    (auto simp: delegations_ok_def delegation_ok_def list_all_iff split: option.split)

text \<open>
  C40: A reply built from a client and a server identifier and one IA\_PD that carries the
  encoded delegations decodes to exactly those identifiers and delegations, with the defaults
  for everything absent.
\<close>

theorem dhcp6_reply_roundtrip:
  assumes "length xid = 3" and "length client \<le> 128" and "server \<noteq> []" and "length server \<le> 128"
    and "iaid \<in> {1, 2}" and "t1 = 0 \<or> t2 = 0 \<or> t1 \<le> t2" and "length ds \<le> 16"
    and "list_all delegation_ok ds" and "\<forall>d \<in> set ds. d_iaid d = iaid \<and> d_t1 d = t1 \<and> d_t2 d = t2"
  shows "dhcp6_decode ([kind] @ xid @ dhcp6_option 1 client @ dhcp6_option 2 server
        @ dhcp6_option 25 (ia_pd_value iaid t1 t2 ds))
      = Ok \<lparr>m6_kind = kind, m6_xid = xid, m6_client = client, m6_server = server, m6_preference = 0,
            m6_sol_max_rt = None, m6_status = 0, m6_delegations = ds\<rparr>"
proof -
  let ?ia = "ia_pd_value iaid t1 t2 ds"
  let ?os = "[(1, client), (2, server), (25, ?ia)]"
  have "length ?ia \<le> 12 + 29 * 16" using assms(7) by (simp add: ia_pd_value_def length_concat comp_def sum_list_triv)
  then have "list_all (\<lambda>o1. length (snd o1) < 65536) ?os" using assms by simp
  from d6o.parse_stream [OF this]
  have opts: "dhcp6_options (dhcp6_option 1 client @ dhcp6_option 2 server @ dhcp6_option 25 ?ia) = Ok ?os"
    by simp
  have rd: "drop 4 ([kind] @ xid @ tail) = tail" "take 3 (drop 1 ([kind] @ xid @ tail)) = xid"
    "4 \<le> length ([kind] @ xid @ tail)" for tail
    using assms(1) by simp_all
  show ?thesis
    using assms(2-4) ia_loop_ia_pd [OF assms(5-9)] assms(1) opts
    by (simp add: dhcp6_decode_def single_def)
qed

theorem dhcp6_reply_roundtrip_witness:
  "dhcp6_decode ([7] @ [1, 2, 3] @ dhcp6_option 1 [9, 9] @ dhcp6_option 2 [8]
       @ dhcp6_option 25 (ia_pd_value 1 300 480
           [\<lparr>d_iaid = 1, d_t1 = 300, d_t2 = 480, d_prefix = Prefix 0x20010db8000100000000000000000000 48,
             d_preferred = 600, d_valid = 900\<rparr>]))
     = Ok \<lparr>m6_kind = 7, m6_xid = [1, 2, 3], m6_client = [9, 9], m6_server = [8], m6_preference = 0,
           m6_sol_max_rt = None, m6_status = 0,
           m6_delegations = [\<lparr>d_iaid = 1, d_t1 = 300, d_t2 = 480,
             d_prefix = Prefix 0x20010db8000100000000000000000000 48, d_preferred = 600, d_valid = 900\<rparr>]\<rparr>"
proof -
  have "canonical (Prefix 0x20010db8000100000000000000000000 48)" by code_simp
  then show ?thesis
    by (intro dhcp6_reply_roundtrip) (simp_all add: delegation_ok_def)
qed

text \<open>
  A DHCPv6 datagram built by the UDP encoder with the server and client ports is accepted by
  the receiver with its body unchanged: lengths, ports and the never-zero checksum agree.
\<close>

theorem dhcp6_udp_roundtrip:
  assumes "udp_packet s d 547 546 body = Ok pkt" and "4 \<le> length body"
  shows "\<exists>e. envelope RawIpv6 (pkt @ padding) = Ok e \<and> e_source e = s \<and> e_destination e = d
    \<and> udp_payload e = Ok body"
proof -
  obtain b where ip: "ipv6_packet s d 17 1 b = Ok pkt" and ck: "checksum s d 17 b = 0"
    and len: "length b = length body + 8" and ports: "take 4 b = to_be 2 (547 :: u16) @ to_be 2 (546 :: u16)"
    and lf: "take 2 (drop 4 b) = to_be 2 (of_nat (length body + 8) :: u16)" and c: "take 2 (drop 6 b) \<noteq> [0, 0]"
    and body: "drop 8 b = body" and small: "length body + 8 < 65536"
    by (rule udp_packet_checksum [OF assms(1)])
  have "unat (of_nat (length body) + 8 :: u16) = length body + 8"
    using unat_of_nat_u16 [OF small] by simp
  moreover have "to_be 2 (547 :: u16) @ to_be 2 (546 :: u16) = [2, 35, 2, 34]" by code_simp
  ultimately show ?thesis using ip ck len ports lf c body small assms(2)
    by (subst envelope_ipv6_packet [OF ip]) (simp add: udp_payload_def transport_udp Let_def)
qed

theorem dhcp6_udp_roundtrip_witness:
  "\<exists>pkt e. udp_packet 1 2 547 546 [7, 1, 2, 3] = Ok pkt \<and> envelope RawIpv6 (pkt @ []) = Ok e
     \<and> udp_payload e = Ok [7, 1, 2, 3]"
proof -
  have "is_ok (udp_packet 1 2 547 546 [7, 1, 2, 3])"
    by (simp add: udp_packet_def u16_try_from_def ipv6_packet_def Let_def)
  then obtain pkt where "udp_packet 1 2 547 546 [7, 1, 2, 3] = Ok pkt"
    by (cases "udp_packet 1 2 547 546 [7, 1, 2, 3]") auto
  with dhcp6_udp_roundtrip [OF this, of "[]"] show ?thesis by auto
qed

end
