(* ===== verification/BTree_Map.thy ===== *)
theory BTree_Map
  imports Prelude
begin

text \<open>
  \<open>std::collections::BTreeMap\<close>: a finite map iterated in ascending key order. A value of the
  model is the list of its entries in iteration order, kept strictly sorted by a type
  definition, so two maps with the same lookups are equal and iteration is deterministic.
  The contract that the components use (lookup after insert and remove, entry counts and
  sums over the entries) is the locale \<open>ordered_map\<close>, interpreted here on the operations.
\<close>

section \<open>Definitions\<close>

fun ins_entry :: "'k::linorder \<Rightarrow> 'v \<Rightarrow> ('k \<times> 'v) list \<Rightarrow> ('k \<times> 'v) list" where
  "ins_entry k v [] = [(k, v)]"
| "ins_entry k v ((a, w) # es) =
     (if k < a then (k, v) # (a, w) # es
      else if k = a then (k, v) # es
      else (a, w) # ins_entry k v es)"

lemma ins_entry_set: "fst ` set (ins_entry k v es) = insert k (fst ` set es)"
  by (induction k v es rule: ins_entry.induct) auto

lemma ins_entry_sorted:
  fixes es :: "('k::linorder \<times> 'v) list"
  shows "sorted_wrt (<) (map fst es) \<Longrightarrow> sorted_wrt (<) (map fst (ins_entry k v es))"
proof (induction k v es rule: ins_entry.induct)
  case (1 k v)
  then show ?case by simp
next
  case (2 k v a w es)
  have keys: "set (map fst (ins_entry k v es)) = insert k (set (map fst es))"
    by (simp add: ins_entry_set)
  from 2(2) have es: "sorted_wrt (<) (map fst es)" and lo: "\<forall>x \<in> set (map fst es). a < x"
    by simp_all
  show ?case
  proof (cases "k < a")
    case True
    with lo have "\<forall>x \<in> set (map fst es). k < x" by (meson less_trans)
    with True 2(2) show ?thesis by simp
  next
    case False
    show ?thesis
    proof (cases "k = a")
      case True
      with 2(2) show ?thesis by simp
    next
      case ne: False
      with False have "a < k" by simp
      with lo keys have "\<forall>x \<in> set (map fst (ins_entry k v es)). a < x" by simp
      moreover have "sorted_wrt (<) (map fst (ins_entry k v es))"
        using 2(1) False ne es by simp
      ultimately show ?thesis using False ne by simp
    qed
  qed
qed

lemma sorted_filter_keys:
  "sorted_wrt (<) (map fst es) \<Longrightarrow> sorted_wrt (<) (map fst (filter P es))"
  by (induction es) auto

typedef (overloaded) ('k::linorder, 'v) btree = "{es :: ('k \<times> 'v) list. sorted_wrt (<) (map fst es)}"
  morphisms entries Abs_btree
  by (rule exI [of _ "[]"]) simp

setup_lifting type_definition_btree

lift_definition bt_empty :: "('k::linorder, 'v) btree" is "[]"
  by simp

lift_definition bt_insert :: "'k::linorder \<Rightarrow> 'v \<Rightarrow> ('k, 'v) btree \<Rightarrow> ('k, 'v) btree" is ins_entry
  by (rule ins_entry_sorted)

lift_definition bt_remove :: "'k::linorder \<Rightarrow> ('k, 'v) btree \<Rightarrow> ('k, 'v) btree"
  is "\<lambda>k. filter (\<lambda>e. fst e \<noteq> k)"
  by (rule sorted_filter_keys)

lift_definition bt_retain :: "('k::linorder \<Rightarrow> 'v \<Rightarrow> bool) \<Rightarrow> ('k, 'v) btree \<Rightarrow> ('k, 'v) btree"
  is "\<lambda>P. filter (\<lambda>e. P (fst e) (snd e))"
  by (rule sorted_filter_keys)

text \<open>A loop over \<open>values_mut()\<close> (or \<open>iter_mut()\<close>) that assigns to every value.\<close>

lift_definition bt_map :: "('k::linorder \<Rightarrow> 'v \<Rightarrow> 'w) \<Rightarrow> ('k, 'v) btree \<Rightarrow> ('k, 'w) btree"
  is "\<lambda>f. map (\<lambda>e. (fst e, f (fst e) (snd e)))"
  by (simp add: comp_def)

definition bt_get :: "('k::linorder, 'v) btree \<Rightarrow> 'k \<Rightarrow> 'v option" where
  "bt_get m k = map_of (entries m) k"

definition bt_contains :: "('k::linorder, 'v) btree \<Rightarrow> 'k \<Rightarrow> bool" where
  "bt_contains m k = (bt_get m k \<noteq> None)"

definition bt_len :: "('k::linorder, 'v) btree \<Rightarrow> nat" where
  "bt_len m = length (entries m)"

definition bt_keys :: "('k::linorder, 'v) btree \<Rightarrow> 'k list" where
  "bt_keys m = map fst (entries m)"

definition bt_values :: "('k::linorder, 'v) btree \<Rightarrow> 'v list" where
  "bt_values m = map snd (entries m)"

text \<open>\<open>iter().map(f).sum()\<close>.\<close>

definition bt_sum :: "('k::linorder \<Rightarrow> 'v \<Rightarrow> nat) \<Rightarrow> ('k, 'v) btree \<Rightarrow> nat" where
  "bt_sum f m = sum_list (map (\<lambda>e. f (fst e) (snd e)) (entries m))"

text \<open>\<open>iter().min()\<close> of a list of keys or deadlines.\<close>

fun list_min :: "'a::linorder list \<Rightarrow> 'a option" where
  "list_min [] = None"
| "list_min (x # xs) = (case list_min xs of None \<Rightarrow> Some x | Some y \<Rightarrow> Some (min x y))"

instantiation btree :: (linorder, type) equal
begin

definition equal_btree :: "('a, 'b) btree \<Rightarrow> ('a, 'b) btree \<Rightarrow> bool" where
  "equal_btree m m' \<longleftrightarrow> entries m = entries m'"

instance
  by standard (simp add: equal_btree_def entries_inject)

end

section \<open>The contract of an ordered map\<close>

text \<open>
  What a component may rely on: lookups are those of a finite map, and a sum over the
  entries changes by exactly the touched entry. Sizes, charges and counters are such sums.
\<close>

locale ordered_map =
  fixes get :: "'m \<Rightarrow> 'k \<Rightarrow> 'v option"
    and ins :: "'k \<Rightarrow> 'v \<Rightarrow> 'm \<Rightarrow> 'm"
    and del :: "'k \<Rightarrow> 'm \<Rightarrow> 'm"
    and total :: "('k \<Rightarrow> 'v \<Rightarrow> nat) \<Rightarrow> 'm \<Rightarrow> nat"
  assumes get_ins: "get (ins k v m) = (get m)(k \<mapsto> v)"
    and get_del: "get (del k m) = (get m)(k := None)"
    and total_split: "total f m = total f (del k m) + (case get m k of None \<Rightarrow> 0 | Some v \<Rightarrow> f k v)"
    and total_ins_fresh: "get m k = None \<Longrightarrow> total f (ins k v m) = total f m + f k v"
    and ext: "get m = get m' \<Longrightarrow> m = m'"
begin

lemma del_fresh: "get m k = None \<Longrightarrow> del k m = m"
  by (rule ext) (auto simp: get_del)

lemma ins_del: "ins k v (del k m) = ins k v m"
  by (rule ext) (simp add: get_ins get_del)

lemma del_ins: "del k (ins k v m) = del k m"
  by (rule ext) (simp add: get_ins get_del)

lemma ins_same: "get m k = Some v \<Longrightarrow> ins k v m = m"
  by (rule ext) (auto simp: get_ins)

lemma total_ins:
  "total f (ins k v m) + (case get m k of None \<Rightarrow> 0 | Some w \<Rightarrow> f k w) = total f m + f k v"
proof -
  have "total f (ins k v m) = total f (ins k v (del k m))"
    by (simp add: ins_del)
  also have "\<dots> = total f (del k m) + f k v"
    by (rule total_ins_fresh) (simp add: get_del)
  finally show ?thesis
    using total_split [of f m k] by simp
qed

lemma total_ins_present:
  "get m k = Some w \<Longrightarrow> total f (ins k v m) = total f m - f k w + f k v"
  using total_ins [of f k v m] total_split [of f m k] by simp

lemma total_del: "total f (del k m) = total f m - (case get m k of None \<Rightarrow> 0 | Some v \<Rightarrow> f k v)"
  using total_split [of f m k] by simp

lemma total_ge: "get m k = Some v \<Longrightarrow> f k v \<le> total f m"
  using total_split [of f m k] by simp

end

section \<open>Lemmas\<close>

lemma entries_sorted: "sorted_wrt (<) (map fst (entries m))"
  using entries [of m] by simp

lemma entries_distinct: "distinct (map fst (entries m))"
  using entries_sorted [of m] by (simp add: strict_sorted_iff)

lemma entries_get: "(k, v) \<in> set (entries m) \<longleftrightarrow> bt_get m k = Some v"
  by (simp add: bt_get_def entries_distinct)

lemma sorted_keys_unique:
  fixes es es' :: "('k::linorder \<times> 'v) list"
  assumes "sorted_wrt (<) (map fst es)" and "sorted_wrt (<) (map fst es')"
    and "map_of es = map_of es'"
  shows "es = es'"
proof -
  have d: "distinct (map fst es)" "distinct (map fst es')"
    using assms(1,2) by (simp_all add: strict_sorted_iff)
  then have s: "set es = set es'"
    using map_of_inject_set [OF d] assms(3) by simp
  have "map fst es = map fst es'"
    using assms(1,2) s by (metis set_map strict_sorted_equal)
  moreover have "map (\<lambda>k. (k, the (map_of xs k))) (map fst xs) = xs"
    if "distinct (map fst xs)" for xs :: "('k \<times> 'v) list"
    using that by (auto intro!: map_idI)
  ultimately show ?thesis using d assms(3) by metis
qed

lemma bt_ext: "bt_get m = bt_get m' \<Longrightarrow> m = m'"
  by (metis bt_get_def entries_inject entries_sorted ext sorted_keys_unique)

lemma map_of_ins_entry:
  "sorted_wrt (<) (map fst es) \<Longrightarrow> map_of (ins_entry k v es) = (map_of es)(k \<mapsto> v)"
  by (induction k v es rule: ins_entry.induct) auto

lemma map_of_filter_key: "map_of (filter (\<lambda>e. fst e \<noteq> k) es) = (map_of es)(k := None)"
  by (induction es) (auto simp: fun_eq_iff)

lemma sum_ins_entry_fresh:
  fixes f :: "'k::linorder \<times> 'v \<Rightarrow> nat"
  shows "k \<notin> fst ` set es \<Longrightarrow> sum_list (map f (ins_entry k v es)) = sum_list (map f es) + f (k, v)"
  by (induction k v es rule: ins_entry.induct) auto

lemma sum_filter_key:
  fixes f :: "'k \<times> 'v \<Rightarrow> nat"
  shows "distinct (map fst es) \<Longrightarrow>
    sum_list (map f es) = sum_list (map f (filter (\<lambda>e. fst e \<noteq> k) es)) +
      (case map_of es k of None \<Rightarrow> 0 | Some v \<Rightarrow> f (k, v))"
proof (induction es)
  case Nil
  then show ?case by simp
next
  case (Cons e es)
  show ?case
  proof (cases "fst e = k")
    case True
    with Cons.prems have "filter (\<lambda>e. fst e \<noteq> k) es = es"
      by (auto simp: filter_id_conv dest: image_eqI [of _ fst, OF sym])
    with True show ?thesis by (cases e) simp
  next
    case False
    with Cons show ?thesis by (cases e) simp
  qed
qed

lemma bt_get_empty [simp]: "bt_get bt_empty k = None"
  by (simp add: bt_get_def bt_empty.rep_eq)

interpretation bt: ordered_map
  "bt_get :: ('k::linorder, 'v) btree \<Rightarrow> _" bt_insert bt_remove bt_sum
proof unfold_locales
  fix k :: "'k::linorder" and v :: 'v and m :: "('k, 'v) btree"
  show "bt_get (bt_insert k v m) = (bt_get m)(k \<mapsto> v)"
    by (simp add: fun_eq_iff bt_get_def bt_insert.rep_eq map_of_ins_entry entries_sorted)
next
  fix k :: "'k::linorder" and m :: "('k, 'v) btree"
  show "bt_get (bt_remove k m) = (bt_get m)(k := None)"
    by (simp add: fun_eq_iff bt_get_def bt_remove.rep_eq map_of_filter_key)
next
  fix f and m :: "('k::linorder, 'v) btree" and k
  show "bt_sum f m = bt_sum f (bt_remove k m) + (case bt_get m k of None \<Rightarrow> 0 | Some v \<Rightarrow> f k v)"
    using sum_filter_key [OF entries_distinct [of m], of "\<lambda>e. f (fst e) (snd e)" k]
    by (simp add: bt_sum_def bt_get_def bt_remove.rep_eq cong: option.case_cong)
next
  fix m :: "('k::linorder, 'v) btree" and k v f
  assume "bt_get m k = None"
  then have "k \<notin> fst ` set (entries m)"
    by (simp add: bt_get_def map_of_eq_None_iff)
  then show "bt_sum f (bt_insert k v m) = bt_sum f m + f k v"
    using sum_ins_entry_fresh [of k "entries m" "\<lambda>e. f (fst e) (snd e)" v]
    by (simp add: bt_sum_def bt_insert.rep_eq)
next
  fix m m' :: "('k::linorder, 'v) btree"
  assume "bt_get m = bt_get m'"
  then show "m = m'" by (rule bt_ext)
qed

lemmas bt_get_simps [simp] = bt.get_ins bt.get_del

lemma bt_contains_insert [simp]: "bt_contains (bt_insert k v m) j \<longleftrightarrow> j = k \<or> bt_contains m j"
  by (simp add: bt_contains_def)

lemma bt_contains_remove [simp]: "bt_contains (bt_remove k m) j \<longleftrightarrow> j \<noteq> k \<and> bt_contains m j"
  by (simp add: bt_contains_def)

lemma bt_contains_empty [simp]: "\<not> bt_contains bt_empty j"
  by (simp add: bt_contains_def)

lemma bt_get_retain [simp]:
  "bt_get (bt_retain P m) k = (case bt_get m k of None \<Rightarrow> None | Some v \<Rightarrow> if P k v then Some v else None)"
proof -
  have "distinct (map fst es) \<Longrightarrow>
    map_of (filter (\<lambda>e. P (fst e) (snd e)) es) k =
      (case map_of es k of None \<Rightarrow> None | Some v \<Rightarrow> if P k v then Some v else None)" for es
    by (induction es) (auto split: option.splits simp: map_of_eq_None_iff image_iff)
  then show ?thesis
    by (simp add: bt_get_def bt_retain.rep_eq entries_distinct)
qed

lemma bt_get_map [simp]: "bt_get (bt_map f m) k = map_option (f k) (bt_get m k)"
proof -
  have "map_of (map (\<lambda>e. (fst e, f (fst e) (snd e))) es) k = map_option (f k) (map_of es k)" for es
    by (induction es) auto
  then show ?thesis by (simp add: bt_get_def bt_map.rep_eq)
qed

lemma bt_len_sum: "bt_len m = bt_sum (\<lambda>_ _. 1) m"
proof -
  have "length es = sum_list (map (\<lambda>e. 1::nat) es)" for es :: "('a \<times> 'b) list"
    by (induction es) auto
  then show ?thesis by (simp add: bt_len_def bt_sum_def)
qed

lemma bt_len_empty [simp]: "bt_len bt_empty = 0"
  by (simp add: bt_len_def bt_empty.rep_eq)

lemma bt_sum_empty [simp]: "bt_sum f bt_empty = 0"
  by (simp add: bt_sum_def bt_empty.rep_eq)

lemma bt_len_insert: "bt_len (bt_insert k v m) = (if bt_contains m k then bt_len m else Suc (bt_len m))"
  using bt.total_ins [of "\<lambda>_ _. 1" k v m]
  by (auto simp: bt_len_sum bt_contains_def split: option.splits)

lemma bt_len_remove: "bt_len (bt_remove k m) = (if bt_contains m k then bt_len m - 1 else bt_len m)"
  using bt.total_del [of "\<lambda>_ _. 1" k m]
  by (auto simp: bt_len_sum bt_contains_def split: option.splits)

lemma bt_len_retain_le: "bt_len (bt_retain P m) \<le> bt_len m"
  by (simp add: bt_len_def bt_retain.rep_eq)

lemma bt_sum_retain_le: "bt_sum f (bt_retain P m) \<le> bt_sum f m"
proof -
  have "sum_list (map (\<lambda>e. f (fst e) (snd e)) (filter Q es)) \<le> sum_list (map (\<lambda>e. f (fst e) (snd e)) es)"
    for es :: "('a \<times> 'b) list" and Q
    by (induction es) auto
  then show ?thesis by (simp add: bt_sum_def bt_retain.rep_eq)
qed

lemma bt_sum_map: "bt_sum f (bt_map g m) = bt_sum (\<lambda>k v. f k (g k v)) m"
  by (simp add: bt_sum_def bt_map.rep_eq comp_def)

lemma bt_sum_cong:
  "(\<And>k v. bt_get m k = Some v \<Longrightarrow> f k v = g k v) \<Longrightarrow> bt_sum f m = bt_sum g m"
  unfolding bt_sum_def by (rule arg_cong [where f = sum_list]) (auto simp: entries_get)

lemma bt_keys_set: "k \<in> set (bt_keys m) \<longleftrightarrow> bt_contains m k"
  by (auto simp: bt_keys_def bt_contains_def bt_get_def map_of_eq_None_iff)

lemma bt_values_set: "v \<in> set (bt_values m) \<longleftrightarrow> (\<exists>k. bt_get m k = Some v)"
proof -
  have "v \<in> set (bt_values m) \<longleftrightarrow> (\<exists>k. (k, v) \<in> set (entries m))"
    by (force simp: bt_values_def)
  then show ?thesis by (simp add: entries_get)
qed

lemma list_min_None_iff [simp]: "list_min xs = None \<longleftrightarrow> xs = []"
  by (cases xs) (auto split: option.splits)

lemma list_min_Some: "list_min xs = Some m \<Longrightarrow> m \<in> set xs \<and> (\<forall>x \<in> set xs. m \<le> x)"
proof (induction xs arbitrary: m)
  case Nil
  then show ?case by simp
next
  case (Cons x xs)
  then show ?case
    by (cases "list_min xs") (auto simp: min_def intro: order_trans split: if_splits)
qed

subsection \<open>Counting keys\<close>

text \<open>The number of entries whose key satisfies a predicate.\<close>

definition bt_count :: "('k::linorder \<Rightarrow> bool) \<Rightarrow> ('k, 'v) btree \<Rightarrow> nat" where
  "bt_count P m = bt_sum (\<lambda>k _. if P k then 1 else 0) m"

lemma bt_get_None_iff: "bt_get m k = None \<longleftrightarrow> \<not> bt_contains m k"
  by (cases "bt_get m k") (auto simp: bt_contains_def)

lemma bt_get_Some_contains: "bt_get m k = Some v \<Longrightarrow> bt_contains m k"
  by (simp add: bt_contains_def)

lemma bt_count_empty [simp]: "bt_count P bt_empty = 0"
  by (simp add: bt_count_def)

lemma bt_count_insert:
  "bt_count P (bt_insert k v m) = bt_count P m + (if bt_contains m k then 0 else if P k then 1 else 0)"
  using bt.total_ins [of "\<lambda>k _. if P k then 1 else 0" k v m]
  by (auto simp: bt_count_def bt_contains_def split: option.splits)

lemma bt_count_remove:
  "bt_count P (bt_remove k m) = bt_count P m - (if bt_contains m k \<and> P k then 1 else 0)"
  using bt.total_del [of "\<lambda>k _. if P k then 1 else 0" k m]
  by (auto simp: bt_count_def bt_contains_def split: option.splits)

lemma bt_count_pos: "bt_contains m k \<Longrightarrow> P k \<Longrightarrow> 0 < bt_count P m"
  using bt.total_ge [of m k _ "\<lambda>k _. if P k then 1 else 0"]
  by (fastforce simp: bt_count_def bt_contains_def)

lemma bt_count_zero_iff: "bt_count P m = 0 \<longleftrightarrow> (\<forall>k. bt_contains m k \<longrightarrow> \<not> P k)"
proof
  assume "\<forall>k. bt_contains m k \<longrightarrow> \<not> P k"
  then have "(if P (fst e) then 1 else 0) = (0 :: nat)" if "e \<in> set (entries m)" for e
    using that entries_get [of "fst e" "snd e" m] by (auto simp: bt_contains_def)
  then show "bt_count P m = 0" by (simp add: bt_count_def bt_sum_def)
qed (metis bt_count_pos less_numeral_extra(3))

lemma bt_count_map [simp]: "bt_count P (bt_map f m) = bt_count P m"
  by (simp add: bt_count_def bt_sum_map)

lemma bt_count_le_len: "bt_count P m \<le> bt_len m"
  unfolding bt_count_def bt_len_sum bt_sum_def by (rule sum_list_mono) simp

lemma bt_count_retain_le: "bt_count P (bt_retain Q m) \<le> bt_count P m"
  unfolding bt_count_def by (rule bt_sum_retain_le)

lemma bt_contains_map [simp]: "bt_contains (bt_map f m) k \<longleftrightarrow> bt_contains m k"
  by (simp add: bt_contains_def)

lemma bt_len_map [simp]: "bt_len (bt_map f m) = bt_len m"
  by (simp add: bt_len_sum bt_sum_map)

lemma bt_count_keys: "bt_count P m = length (filter P (bt_keys m))"
proof -
  have "sum_list (map (\<lambda>e. if P (fst e) then 1 else 0) es) = length (filter P (map fst es))" for es :: "('a \<times> 'b) list"
    by (induction es) auto
  then show ?thesis by (simp add: bt_count_def bt_sum_def bt_keys_def)
qed

lemma bt_len_keys: "bt_len m = length (bt_keys m)"
  by (simp add: bt_len_def bt_keys_def)

lemma bt_contains_retain: "bt_contains (bt_retain P m) k \<Longrightarrow> bt_contains m k"
  by (auto simp: bt_contains_def split: option.splits)

end
