(* ===== verification/Ports.thy ===== *)
theory Ports
  imports BTree_Map
begin

text \<open>
  The port and identifier registry of \<open>service_io/ports.rs\<close>: \<open>claim\<close>, the \<open>drop\<close> of a lease, and the
  queries. The mutex is modelled by its only visible effect, poisoning; a run of the registry is
  its state together with the leases still held, and the ownership invariant is proved of every
  run through the interface \<open>call_invariant\<close>.
\<close>

section \<open>Definitions\<close>

datatype owner = Local | Translation

record ports =
  po_entries :: "(u8 \<times> u16, u64 \<times> owner) btree"
  po_local :: nat
  po_translation :: nat
  po_next :: u64
  po_poisoned :: bool

text \<open>The token behind a \<open>Lease\<close>: its last clone going out of scope runs \<open>drop\<close>.\<close>

record held =
  h_key :: "u8 \<times> u16"
  h_id :: u64

definition ports_new :: ports where
  "ports_new = \<lparr>po_entries = bt_empty, po_local = 0, po_translation = 0, po_next = 0, po_poisoned = False\<rparr>"

text \<open>The counter of an owner: a decrement below zero is a panic, which poisons the lock.\<close>

fun dec_owner :: "owner \<Rightarrow> ports \<Rightarrow> (io_error, unit) outcome \<times> ports" where
  "dec_owner Local s = (if po_local s = 0 then (Panic, s\<lparr>po_poisoned := True\<rparr>)
     else (Ok (), s\<lparr>po_local := po_local s - 1\<rparr>))"
| "dec_owner Translation s = (if po_translation s = 0 then (Panic, s\<lparr>po_poisoned := True\<rparr>)
     else (Ok (), s\<lparr>po_translation := po_translation s - 1\<rparr>))"

fun inc_owner :: "owner \<Rightarrow> ports \<Rightarrow> ports" where
  "inc_owner Local s = s\<lparr>po_local := po_local s + 1\<rparr>"
| "inc_owner Translation s = s\<lparr>po_translation := po_translation s + 1\<rparr>"

definition held_drop :: "held \<Rightarrow> ports \<Rightarrow> (io_error, unit) outcome \<times> ports" where
  "held_drop h s =
     (if po_poisoned s then (Ok (), s)
      else case bt_get (po_entries s) (h_key h) of
        None \<Rightarrow> (Ok (), s)
      | Some (i, owner) \<Rightarrow>
          if i = h_id h then dec_owner owner (s\<lparr>po_entries := bt_remove (h_key h) (po_entries s)\<rparr>)
          else (Ok (), s))"

definition ports_occupied :: "ports \<Rightarrow> u8 \<Rightarrow> u16 \<Rightarrow> bool" where
  "ports_occupied s protocol port \<longleftrightarrow> po_poisoned s \<or> bt_contains (po_entries s) (protocol, port)"

definition ports_counts :: "ports \<Rightarrow> nat \<times> nat" where
  "ports_counts s = (if po_poisoned s then (256, 4096) else (po_local s, po_translation s))"

definition owner_full :: "owner \<Rightarrow> ports \<Rightarrow> bool" where
  "owner_full owner s = (case owner of Local \<Rightarrow> 256 \<le> po_local s | Translation \<Rightarrow> 4096 \<le> po_translation s)"

definition ports_claim :: "ports \<Rightarrow> u8 \<Rightarrow> u16 \<Rightarrow> owner \<Rightarrow> (io_error, held) outcome \<times> ports" where
  "ports_claim s protocol port owner =
     (if \<not> List.member [1, 6, 17] protocol \<or> protocol \<noteq> 1 \<and> port = 0 then (Err InvalidInput, s)
      else if po_poisoned s then (Err OtherError, s)
      else if bt_contains (po_entries s) (protocol, port) \<or> owner_full owner s then (Err WouldBlock, s)
      else if po_next s = - 1 then (Err OtherError, s)
      else let id = po_next s + 1;
               s = s\<lparr>po_next := id, po_entries := bt_insert (protocol, port) (id, owner) (po_entries s)\<rparr>
           in (Ok \<lparr>h_key = (protocol, port), h_id = id\<rparr>, inc_owner owner s))"

text \<open>
  The registry in use, together with the leases that are still held: a successful claim adds
  one, a drop gives one back.
\<close>

inductive ports_call :: "ports \<times> held list \<Rightarrow> ports \<times> held list \<Rightarrow> bool" where
  claim: "ports_claim s protocol port owner = (Ok h, s') \<Longrightarrow> ports_call (s, hs) (s', h # hs)"
| drop: "h \<in> set hs \<Longrightarrow> held_drop h s = (r, s') \<Longrightarrow> ports_call (s, hs) (s', remove1 h hs)"

definition ports_start :: "ports \<times> held list \<Rightarrow> bool" where
  "ports_start c \<longleftrightarrow> c = (ports_new, [])"

section \<open>Lemmas\<close>

text \<open>The number of entries of an owner.\<close>

definition owned :: "owner \<Rightarrow> (u8 \<times> u16, u64 \<times> owner) btree \<Rightarrow> nat" where
  "owned w m = bt_sum (\<lambda>_ e. if snd e = w then 1 else 0) m"

text \<open>
  The invariant: the held leases and the entries of the registry are in bijection, the counters
  count the entries of each owner and respect the capacities.
\<close>

definition leases_match :: "(u8 \<times> u16, u64 \<times> owner) btree \<Rightarrow> held list \<Rightarrow> bool" where
  "leases_match m hs \<longleftrightarrow> (\<forall>k i. (\<exists>w. bt_get m k = Some (i, w)) \<longleftrightarrow> \<lparr>h_key = k, h_id = i\<rparr> \<in> set hs)"

definition ports_inv :: "ports \<times> held list \<Rightarrow> bool" where
  "ports_inv c \<longleftrightarrow> (case c of (s, hs) \<Rightarrow>
     \<not> po_poisoned s
     \<and> po_local s = owned Local (po_entries s) \<and> po_translation s = owned Translation (po_entries s)
     \<and> po_local s \<le> 256 \<and> po_translation s \<le> 4096
     \<and> distinct (map h_key hs)
     \<and> leases_match (po_entries s) hs)"

lemma owned_insert:
  "\<not> bt_contains m k \<Longrightarrow> owned w (bt_insert k (i, v) m) = owned w m + (if v = w then 1 else 0)"
proof -
  assume "\<not> bt_contains m k"
  then have "bt_get m k = None" by (cases "bt_get m k") (auto simp: bt_contains_def)
  then show ?thesis by (simp add: owned_def bt.total_ins_fresh)
qed

lemma owned_remove:
  "bt_get m k = Some (i, v) \<Longrightarrow> owned w (bt_remove k m) = owned w m - (if v = w then 1 else 0)"
  by (simp add: owned_def bt.total_del)

lemma owned_pos: "bt_get m k = Some (i, w) \<Longrightarrow> 0 < owned w m"
  using bt.total_ge [of m k "(i, w)" "\<lambda>_ e. if snd e = w then 1 else 0"] by (simp add: owned_def)

lemma owned_total: "owned Local m + owned Translation m = bt_len m"
proof -
  have "(if snd e = Local then 1 else 0) + (if snd e = Translation then 1 else 0) = (1 :: nat)" for e :: "u64 \<times> owner"
    by (cases "snd e") simp_all
  then show ?thesis
    unfolding owned_def bt_len_sum bt_sum_def by (simp only: sum_list_addf [symmetric])
qed

lemma ports_claim_inv:
  assumes "ports_claim s protocol port owner = (Ok h, s')" and "ports_inv (s, hs)"
  shows "ports_inv (s', h # hs)"
proof -
  let ?k = "(protocol, port)"
  from assms(1) have fresh: "\<not> bt_contains (po_entries s) ?k" and room: "\<not> owner_full owner s"
    and h: "h = \<lparr>h_key = ?k, h_id = po_next s + 1\<rparr>"
    and s': "s' = inc_owner owner (s\<lparr>po_next := po_next s + 1,
        po_entries := bt_insert ?k (po_next s + 1, owner) (po_entries s)\<rparr>)"
    by (auto simp: ports_claim_def Let_def split: if_splits)
  have bij: "(\<exists>w. bt_get (po_entries s) k = Some (i, w)) \<longleftrightarrow> \<lparr>h_key = k, h_id = i\<rparr> \<in> set hs" for k i
    using assms(2) unfolding ports_inv_def prod.case leases_match_def by blast
  have "g \<in> set hs \<Longrightarrow> h_key g \<noteq> ?k" for g
    using bij [of "h_key g" "h_id g"] fresh by (cases g) (auto simp: bt_contains_def)
  then have "?k \<notin> h_key ` set hs" by (metis imageE)
  then have "distinct (map h_key (h # hs))" using assms(2) by (simp add: ports_inv_def h)
  moreover have "leases_match (po_entries s') (h # hs)"
    unfolding leases_match_def
  proof (intro allI)
    fix k i show "(\<exists>w. bt_get (po_entries s') k = Some (i, w)) \<longleftrightarrow> \<lparr>h_key = k, h_id = i\<rparr> \<in> set (h # hs)"
      using bij [of k i] fresh by (cases owner) (auto simp: s' h bt_contains_def)
  qed
  ultimately show ?thesis
    using assms(2) room
    by (cases owner) (auto simp: ports_inv_def s' owned_insert [OF fresh] owner_full_def)
qed

lemma ports_drop_inv:
  assumes "h \<in> set hs" and "ports_inv (s, hs)"
  shows "\<exists>s'. held_drop h s = (Ok (), s') \<and> ports_inv (s', remove1 h hs)
    \<and> po_entries s' = bt_remove (h_key h) (po_entries s) \<and> \<not> po_poisoned s'"
proof -
  have bij: "(\<exists>w. bt_get (po_entries s) k = Some (i, w)) \<longleftrightarrow> \<lparr>h_key = k, h_id = i\<rparr> \<in> set hs" for k i
    using assms(2) unfolding ports_inv_def prod.case leases_match_def by blast
  have "\<lparr>h_key = h_key h, h_id = h_id h\<rparr> = h" by simp
  with assms(1) bij obtain w where w: "bt_get (po_entries s) (h_key h) = Some (h_id h, w)" by metis
  let ?s = "s\<lparr>po_entries := bt_remove (h_key h) (po_entries s)\<rparr>"
  have dist: "distinct (map h_key hs)" using assms(2) by (simp add: ports_inv_def)
  then have "distinct hs" by (simp add: distinct_map)
  then have set: "set (remove1 h hs) = set hs - {h}" by simp
  have "distinct (map h_key (remove1 h hs))"
    using dist by (simp add: distinct_map) (metis DiffD1 inj_on_subset set subsetI)
  moreover have "leases_match (po_entries ?s) (remove1 h hs)"
    unfolding leases_match_def
  proof (intro allI)
    fix k i
    show "(\<exists>w. bt_get (po_entries ?s) k = Some (i, w)) \<longleftrightarrow> \<lparr>h_key = k, h_id = i\<rparr> \<in> set (remove1 h hs)"
  proof (cases "k = h_key h")
    case True
    then have "\<lparr>h_key = k, h_id = i\<rparr> \<in> set hs \<Longrightarrow> \<lparr>h_key = k, h_id = i\<rparr> = h"
      using dist assms(1) inj_onD [of h_key "set hs" "\<lparr>h_key = k, h_id = i\<rparr>" h] by (simp add: distinct_map)
    with True show ?thesis by (auto simp: set)
  next
    case False
    with bij [of k i] show ?thesis by (auto simp: set)
  qed
  qed
  moreover have pos: "0 < owned w (po_entries s)" using w by (rule owned_pos)
  ultimately show ?thesis
    using assms(2) w
    by (cases w) (auto simp: ports_inv_def held_drop_def owned_remove [OF w])
qed

interpretation ports: call_invariant ports_start ports_call ports_inv
proof unfold_locales
  show "ports_inv c" if "ports_start c" for c
    using that by (simp add: ports_start_def ports_inv_def ports_new_def owned_def leases_match_def)
  show "ports_inv d" if "ports_call c d" "ports_inv c" for c d
    using that
  proof (cases rule: ports_call.cases)
    case (claim s protocol port owner h s' hs)
    then show ?thesis using ports_claim_inv that(2) by simp
  next
    case (drop h hs s r s')
    then show ?thesis using ports_drop_inv [of h hs s] that(2) by auto
  qed
qed

section \<open>Properties\<close>

text \<open>
  C27: Port ownership is exclusive and accounted for. In every state that claims and drops can reach,
  no two held leases are for the same protocol and port, a port is occupied exactly when some
  lease for it is held, and the counters stay within 256 local and 4096 translation entries and
  count the leases.
\<close>

theorem port_ownership_exclusive:
  assumes "ports_start c" and "ports_call\<^sup>*\<^sup>* c (s, hs)"
  shows "distinct (map h_key hs)
    \<and> (ports_occupied s protocol port \<longleftrightarrow> (protocol, port) \<in> set (map h_key hs))
    \<and> fst (ports_counts s) \<le> 256 \<and> snd (ports_counts s) \<le> 4096
    \<and> fst (ports_counts s) + snd (ports_counts s) = bt_len (po_entries s)"
proof -
  have inv: "ports_inv (s, hs)" using assms by (rule ports.reachable_inv)
  have "bt_contains (po_entries s) (protocol, port) \<longleftrightarrow> (protocol, port) \<in> set (map h_key hs)"
  proof -
    have "bt_contains (po_entries s) k \<longleftrightarrow> (\<exists>i. \<lparr>h_key = k, h_id = i\<rparr> \<in> set hs)" for k
      using inv unfolding ports_inv_def prod.case leases_match_def bt_contains_def
      by (metis not_None_eq surj_pair)
    moreover have "(\<exists>i. \<lparr>h_key = k, h_id = i\<rparr> \<in> set hs) \<longleftrightarrow> k \<in> set (map h_key hs)" for k
    proof
      assume "\<exists>i. \<lparr>h_key = k, h_id = i\<rparr> \<in> set hs"
      then obtain i where "\<lparr>h_key = k, h_id = i\<rparr> \<in> set hs" ..
      then have "h_key \<lparr>h_key = k, h_id = i\<rparr> \<in> set (map h_key hs)" unfolding set_map by (rule imageI)
      then show "k \<in> set (map h_key hs)" by simp
    next
      assume "k \<in> set (map h_key hs)"
      then obtain g where g: "g \<in> set hs" "k = h_key g" by auto
      then have "\<lparr>h_key = k, h_id = h_id g\<rparr> = g" by simp
      with g(1) show "\<exists>i. \<lparr>h_key = k, h_id = i\<rparr> \<in> set hs" by metis
    qed
    ultimately show ?thesis by simp
  qed
  then show ?thesis
    using inv by (simp add: ports_inv_def ports_occupied_def ports_counts_def owned_total)
qed

text \<open>Two leases held, one of each owner; a third claim of a held port is refused.\<close>

definition two_leases :: "ports \<times> held list" where
  "two_leases = (\<lparr>po_entries = bt_insert (6, 443) (2, Translation) (bt_insert (17, 53) (1, Local) bt_empty),
      po_local = 1, po_translation = 1, po_next = 2, po_poisoned = False\<rparr>,
     [\<lparr>h_key = (6, 443), h_id = 2\<rparr>, \<lparr>h_key = (17, 53), h_id = 1\<rparr>])"

lemma two_leases_run: "ports_call\<^sup>*\<^sup>* (ports_new, []) two_leases"
proof -
  let ?s = "\<lparr>po_entries = bt_insert (17, 53) (1, Local) bt_empty, po_local = 1, po_translation = 0,
    po_next = 1, po_poisoned = False\<rparr>"
  have "ports_claim ports_new 17 53 Local = (Ok \<lparr>h_key = (17, 53), h_id = 1\<rparr>, ?s)"
    by (simp add: ports_claim_def ports_new_def owner_full_def)
  then have "ports_call (ports_new, []) (?s, [\<lparr>h_key = (17, 53), h_id = 1\<rparr>])" by (rule ports_call.claim)
  moreover have "ports_claim ?s 6 443 Translation = (Ok \<lparr>h_key = (6, 443), h_id = 2\<rparr>, fst two_leases)"
    by (simp add: ports_claim_def owner_full_def two_leases_def)
  then have "ports_call (?s, [\<lparr>h_key = (17, 53), h_id = 1\<rparr>]) (fst two_leases, snd two_leases)"
    unfolding two_leases_def snd_conv by (rule ports_call.claim)
  ultimately show ?thesis by (simp add: rtranclp.rtrancl_into_rtrancl)
qed

theorem port_ownership_exclusive_witness:
  "ports_occupied (fst two_leases) 6 443 \<and> ports_counts (fst two_leases) = (1, 1)
   \<and> distinct (map h_key (snd two_leases))"
proof -
  have "ports_start (ports_new, [])" by (simp add: ports_start_def)
  moreover have "ports_call\<^sup>*\<^sup>* (ports_new, []) (fst two_leases, snd two_leases)"
    using two_leases_run by simp
  ultimately have "distinct (map h_key (snd two_leases))" "ports_occupied (fst two_leases) 6 443"
    using port_ownership_exclusive [of "(ports_new, [])" "fst two_leases" "snd two_leases" 6 443]
    by (simp_all add: two_leases_def)
  then show ?thesis by (simp add: ports_counts_def two_leases_def)
qed

text \<open>
  Giving a lease back is safe and exact: in every reachable state, dropping a held lease does
  not panic, frees the port it was for and leaves every other port as it was.
\<close>

theorem port_release:
  assumes "ports_start c" and "ports_call\<^sup>*\<^sup>* c (s, hs)" and "h \<in> set hs"
  shows "\<exists>s'. held_drop h s = (Ok (), s')
    \<and> (ports_occupied s' protocol port \<longleftrightarrow> ports_occupied s protocol port \<and> (protocol, port) \<noteq> h_key h)"
proof -
  have inv: "ports_inv (s, hs)" using assms(1,2) by (rule ports.reachable_inv)
  then have "\<not> po_poisoned s" by (simp add: ports_inv_def)
  with ports_drop_inv [OF assms(3) inv] show ?thesis by (auto simp: ports_occupied_def)
qed

theorem port_release_witness:
  "\<exists>s'. held_drop \<lparr>h_key = (6, 443), h_id = 2\<rparr> (fst two_leases) = (Ok (), s') \<and> \<not> ports_occupied s' 6 443"
proof -
  have "ports_start (ports_new, [])" by (simp add: ports_start_def)
  moreover have "ports_call\<^sup>*\<^sup>* (ports_new, []) (fst two_leases, snd two_leases)"
    using two_leases_run by simp
  moreover have "\<lparr>h_key = (6, 443), h_id = 2\<rparr> \<in> set (snd two_leases)" by (simp add: two_leases_def)
  ultimately show ?thesis using port_release [of _ _ _ _ 6 443] by fastforce
qed

end
