(* ===== verification/Ipv4_Wire.thy ===== *)
theory Ipv4_Wire
  imports Checksum
begin

text \<open>
  IPv4 packets, ARP and ICMP of \<open>ipv4/wire.rs\<close>, with the address classes of \<open>ipv4/mod.rs\<close>. The
  parsers read with checked indexing, so that their totality is a theorem; \<open>packet_wf\<close> is what the
  rest of the router may assume of an accepted packet.
\<close>

section \<open>Definitions\<close>

subsection \<open>Addresses\<close>

definition octet0 :: "ipv4 \<Rightarrow> u8" where
  "octet0 ip = ucast (drop_bit 24 ip)"

definition unspecified4 :: "ipv4 \<Rightarrow> bool" where
  "unspecified4 ip \<longleftrightarrow> ip = 0"

definition multicast4 :: "ipv4 \<Rightarrow> bool" where
  "multicast4 ip \<longleftrightarrow> 224 \<le> octet0 ip \<and> octet0 ip \<le> 239"

definition broadcast4 :: "ipv4 \<Rightarrow> bool" where
  "broadcast4 ip \<longleftrightarrow> ip = - 1"

definition loopback4 :: "ipv4 \<Rightarrow> bool" where
  "loopback4 ip \<longleftrightarrow> octet0 ip = 127"

definition unicast :: "ipv4 \<Rightarrow> bool" where
  "unicast ip \<longleftrightarrow> \<not> unspecified4 ip \<and> \<not> multicast4 ip \<and> \<not> broadcast4 ip \<and> \<not> loopback4 ip
     \<and> octet0 ip \<noteq> 0 \<and> octet0 ip < 240"

subsection \<open>Packets\<close>

record packet4 =
  p_source :: ipv4
  p_destination :: ipv4
  p_ttl :: u8
  p_protocol :: u8
  p_payload :: bytes
  p_bytes :: bytes
  p_header_len :: nat
  p_fragment_offset :: nat
  p_more_fragments :: bool
  p_dont_fragment :: bool
  p_id :: u16
  p_traffic_class :: u8

text \<open>The walk over the header options: end of list, no-operation, and length-prefixed ones.\<close>

function option_loop :: "bytes \<Rightarrow> nat \<Rightarrow> nat \<Rightarrow> (io_error, unit) outcome" where
  "option_loop b h at =
     (if at < h then
        and_then (idx b at) (\<lambda>t.
          if t = 0 then
            and_then (slice_r b (at + 1) h) (\<lambda>s. if list_ex (\<lambda>v. v \<noteq> 0) s then Err InvalidData else Ok ())
          else if t = 1 then option_loop b h (at + 1)
          else if h < at + 2 then Err InvalidData
          else and_then (idx b (at + 1)) (\<lambda>l.
            if unat l < 2 \<or> h < at + unat l then Err InvalidData else option_loop b h (at + unat l)))
      else Ok ())"
  by pat_completeness auto
termination
  by (relation "measure (\<lambda>(b, h, at). h - at)") auto

declare option_loop.simps [simp del]

text \<open>
  The part of \<open>parse_inner\<close> after the header checks; \<open>n\<close> is the total length and \<open>h\<close> the header
  length, with \<open>h \<le> n\<close>, so the subtraction \<open>n - h\<close> is the program's.
\<close>

definition parse_fields :: "bytes \<Rightarrow> nat \<Rightarrow> nat \<Rightarrow> (io_error, packet4) outcome" where
  "parse_fields b h n =
     and_then (u16_at b 6) (\<lambda>flags.
       let offset = unat (flags AND 0x1fff) * 8; more = (flags AND 0x2000 \<noteq> 0); df = (flags AND 0x4000 \<noteq> 0) in
       if flags AND 0x8000 \<noteq> 0 \<or> df \<and> (more \<or> offset \<noteq> 0) \<or> more \<and> ((n - h) mod 8 \<noteq> 0 \<or> n = h)
          \<or> 65535 < offset + n - h
       then Err InvalidData
       else let n = min n (length b) in
         and_then (ipv4_at b 12) (\<lambda>source. and_then (ipv4_at b 16) (\<lambda>destination.
         and_then (idx b 8) (\<lambda>ttl. and_then (idx b 9) (\<lambda>protocol.
         and_then (slice_r b h n) (\<lambda>payload. and_then (slice_r b 0 n) (\<lambda>bs.
         and_then (u16_at b 4) (\<lambda>id. and_then (idx b 1) (\<lambda>tc.
           Ok \<lparr>p_source = source, p_destination = destination, p_ttl = ttl, p_protocol = protocol,
               p_payload = payload, p_bytes = bs, p_header_len = h, p_fragment_offset = offset,
               p_more_fragments = more, p_dont_fragment = df, p_id = id, p_traffic_class = tc\<rparr>)))))))))"

definition parse_inner :: "bytes \<Rightarrow> bool \<Rightarrow> (io_error, packet4) outcome" where
  "parse_inner b quoted =
     (if length b < 20 then Err InvalidData
      else and_then (idx b 0) (\<lambda>b0.
        if drop_bit 4 b0 \<noteq> 4 then Err InvalidData
        else let h = unat (b0 AND 15) * 4 in
          and_then (u16_at b 2) (\<lambda>total.
            let n = unat total in
            if h < 20 \<or> length b < h \<or> n < h \<or> (\<not> quoted \<and> length b < n) then Err InvalidData
            else and_then (slice_r b 0 h) (\<lambda>header.
              if ipv4_checksum header \<noteq> 0 then Err InvalidData
              else and_then (option_loop b h 20) (\<lambda>_. parse_fields b h n)))))"

definition packet_parse :: "bytes \<Rightarrow> (io_error, packet4) outcome" where
  "packet_parse b = parse_inner b False"

definition packet_quoted :: "bytes \<Rightarrow> (io_error, packet4) outcome" where
  "packet_quoted b = parse_inner b True"

text \<open>The header of \<open>encode\<close> before its checksum is written.\<close>

definition header4 :: "ipv4 \<Rightarrow> ipv4 \<Rightarrow> u8 \<Rightarrow> u8 \<Rightarrow> u16 \<Rightarrow> bytes" where
  "header4 source destination protocol ttl n =
     [0x45, 0] @ to_be 2 n @ [0, 0, 0, 0, ttl, protocol, 0, 0] @ to_be 4 source @ to_be 4 destination"

definition encode4 :: "ipv4 \<Rightarrow> ipv4 \<Rightarrow> u8 \<Rightarrow> u8 \<Rightarrow> bytes \<Rightarrow> (io_error, bytes) outcome" where
  "encode4 source destination protocol ttl payload =
     and_then (ok_or InvalidData (u16_try_from (20 + length payload))) (\<lambda>n.
       let b = header4 source destination protocol ttl n; c = ipv4_checksum b in
       and_then (put_r b 10 (to_be 2 c)) (\<lambda>b. Ok (b @ payload)))"

subsection \<open>ARP\<close>

record arp =
  a_operation :: u16
  a_sender_mac :: bytes
  a_sender :: ipv4
  a_target_mac :: bytes
  a_target :: ipv4

definition arp_parse :: "bytes \<Rightarrow> (io_error, arp) outcome" where
  "arp_parse frame =
     (if length frame < 42 then Err InvalidData
      else and_then (slice_r frame 12 22) (\<lambda>fixed.
        if fixed \<noteq> [8, 6, 0, 1, 8, 0, 6, 4, 0, 1] \<and> fixed \<noteq> [8, 6, 0, 1, 8, 0, 6, 4, 0, 2]
        then Err InvalidData
        else
          and_then (slice_r frame 22 28) (\<lambda>sender_mac.
          and_then (ipv4_at frame 28) (\<lambda>sender.
          and_then (ipv4_at frame 38) (\<lambda>target.
          and_then (u16_at frame 20) (\<lambda>operation.
          and_then (idx sender_mac 0) (\<lambda>m0.
          and_then (slice_r frame 6 12) (\<lambda>source.
          and_then (idx frame 0) (\<lambda>f0.
          and_then (slice_r frame 0 6) (\<lambda>dest.
          and_then (slice_r frame 32 38) (\<lambda>target_mac.
            if m0 AND 1 \<noteq> 0 \<or> sender_mac = replicate 6 0 \<or> source \<noteq> sender_mac
               \<or> operation = 2 \<and> unspecified4 sender
               \<or> operation = 2 \<and> f0 AND 1 = 0 \<and> dest \<noteq> target_mac
               \<or> \<not> unspecified4 sender \<and> \<not> unicast sender
               \<or> \<not> (unicast target \<or> operation = 2 \<and> unspecified4 target)
            then Err InvalidData
            else Ok \<lparr>a_operation = operation, a_sender_mac = sender_mac, a_sender = sender,
                     a_target_mac = target_mac, a_target = target\<rparr>)))))))))))"

definition arp_encode :: "arp \<Rightarrow> bytes \<Rightarrow> bytes" where
  "arp_encode a destination =
     destination @ a_sender_mac a @ [8, 6, 0, 1, 8, 0, 6, 4] @ to_be 2 (a_operation a)
       @ a_sender_mac a @ to_be 4 (a_sender a) @ a_target_mac a @ to_be 4 (a_target a)"

subsection \<open>ICMP\<close>

record icmp4 =
  i_kind :: u8
  i_code :: u8
  i_bytes :: bytes

definition max_code :: "u8 \<Rightarrow> u8" where
  "max_code kind = (if kind = 3 then 15 else if kind = 4 then 0 else if kind = 5 then 3
     else if kind = 11 then 1 else 2)"

text \<open>The \<open>match\<close> on the first octet: echo messages have code zero, errors quote a packet.\<close>

definition icmp4_body :: "bytes \<Rightarrow> u8 \<Rightarrow> u8 \<Rightarrow> (io_error, unit) outcome" where
  "icmp4_body b kind code =
     (if kind \<in> {0, 8} \<and> code \<noteq> 0 then Err InvalidData
      else if kind \<in> {3, 4, 5, 11, 12} then
        if max_code kind < code then Err InvalidData
        else if length b < 36 then Err InvalidData
        else and_then (slice_from b 8) (\<lambda>quote. and_then (packet_quoted quote) (\<lambda>q.
          if length (p_payload q) < 8 then Err InvalidData else Ok ()))
      else Ok ())"

definition icmp4_parse :: "bytes \<Rightarrow> (io_error, icmp4) outcome" where
  "icmp4_parse b =
     (if \<not> (8 \<le> length b \<and> length b \<le> 65515) \<or> ipv4_checksum b \<noteq> 0 then Err InvalidData
      else and_then (idx b 0) (\<lambda>kind. and_then (idx b 1) (\<lambda>code.
        and_then (icmp4_body b kind code) (\<lambda>_. Ok \<lparr>i_kind = kind, i_code = code, i_bytes = b\<rparr>))))"

section \<open>Lemmas\<close>

lemma option_loop_ensures: "h \<le> length b \<Longrightarrow> ensures (option_loop b h at) (\<lambda>_. True)"
proof (induction b h at rule: option_loop.induct)
  case (1 b h at)
  then show ?case
    by (subst option_loop.simps) (auto simp: wp)
qed

lemmas option_loop_wp [wp] = ensures_call [OF option_loop_ensures]

lemma option_loop_none [simp]: "option_loop b h h = Ok ()"
  by (simp add: option_loop.simps)

text \<open>What every accepted packet satisfies; a quoted one may be truncated.\<close>

definition packet_wf :: "bytes \<Rightarrow> bool \<Rightarrow> packet4 \<Rightarrow> bool" where
  "packet_wf b quoted p \<longleftrightarrow>
     20 \<le> p_header_len p \<and> p_header_len p \<le> 60 \<and> p_header_len p mod 4 = 0
     \<and> ipv4_checksum (take (p_header_len p) b) = 0
     \<and> p_header_len p + length (p_payload p) = length (p_bytes p)
     \<and> p_bytes p = take (length (p_bytes p)) b \<and> length (p_bytes p) \<le> length b
     \<and> p_payload p = drop (p_header_len p) (p_bytes p)
     \<and> p_fragment_offset p mod 8 = 0
     \<and> p_fragment_offset p + length (p_payload p) \<le> 65535
     \<and> (p_dont_fragment p \<longrightarrow> \<not> p_more_fragments p \<and> p_fragment_offset p = 0)
     \<and> (\<not> quoted \<longrightarrow> length (p_bytes p) = unat (from_be (take 2 (drop 2 b)) :: u16)
         \<and> (p_more_fragments p \<longrightarrow> p_payload p \<noteq> [] \<and> length (p_payload p) mod 8 = 0))"

lemma unat_and15: "unat (x AND 15 :: u8) < 16"
proof -
  have "x AND 15 = take_bit 4 x"
    by (simp add: take_bit_eq_mask mask_eq_exp_minus_1)
  then show ?thesis by (simp add: take_bit_eq_mod unat_mod_distrib)
qed

text \<open>The record that \<open>parse_fields\<close> builds, and the check it makes on the fragmentation fields.\<close>

definition flags_of :: "bytes \<Rightarrow> u16" where
  "flags_of b = from_be (take 2 (drop 6 b))"

definition fields_of :: "bytes \<Rightarrow> nat \<Rightarrow> nat \<Rightarrow> packet4" where
  "fields_of b h n = \<lparr>p_source = from_be (take 4 (drop 12 b)), p_destination = from_be (take 4 (drop 16 b)),
     p_ttl = b ! 8, p_protocol = b ! 9, p_payload = take (min n (length b) - h) (drop h b),
     p_bytes = take (min n (length b)) b, p_header_len = h,
     p_fragment_offset = unat (flags_of b AND 0x1fff) * 8,
     p_more_fragments = (flags_of b AND 0x2000 \<noteq> 0), p_dont_fragment = (flags_of b AND 0x4000 \<noteq> 0),
     p_id = from_be (take 2 (drop 4 b)), p_traffic_class = b ! 1\<rparr>"

definition fragment_ok :: "u16 \<Rightarrow> nat \<Rightarrow> bool" where
  "fragment_ok flags len \<longleftrightarrow> flags AND 0x8000 = 0
     \<and> (flags AND 0x4000 \<noteq> 0 \<longrightarrow> flags AND 0x2000 = 0 \<and> flags AND 0x1fff = 0)
     \<and> (flags AND 0x2000 \<noteq> 0 \<longrightarrow> len mod 8 = 0 \<and> len \<noteq> 0)
     \<and> unat (flags AND 0x1fff) * 8 + len \<le> 65535"

lemma fragment_prop:
  "(\<not> P \<or> \<not> Q \<and> (\<not> R \<or> \<not> S) \<or> \<not> R \<and> (\<not> E \<or> F) \<or> \<not> G)
    \<longleftrightarrow> \<not> (P \<and> (\<not> Q \<longrightarrow> R \<and> S) \<and> (\<not> R \<longrightarrow> E \<and> \<not> F) \<and> G)"
  by blast

lemma parse_fields_eq:
  assumes "20 \<le> h" "h \<le> length b" "h \<le> n"
  shows "parse_fields b h n =
    (if fragment_ok (flags_of b) (n - h) then Ok (fields_of b h n) else Err InvalidData)"
proof -
  let ?f = "flags_of b"
  have z: "unat (?f AND 0x1fff) * 8 \<noteq> 0 \<longleftrightarrow> ?f AND 0x1fff \<noteq> 0" by (simp add: unsigned_eq_0_iff)
  have s: "unat (?f AND 0x1fff) * 8 + n - h = unat (?f AND 0x1fff) * 8 + (n - h)" using assms by simp
  have e: "n = h \<longleftrightarrow> n - h = 0" using assms by linarith
  have cond: "(?f AND 0x8000 \<noteq> 0 \<or> ?f AND 0x4000 \<noteq> 0 \<and> (?f AND 0x2000 \<noteq> 0 \<or> unat (?f AND 0x1fff) * 8 \<noteq> 0)
      \<or> ?f AND 0x2000 \<noteq> 0 \<and> ((n - h) mod 8 \<noteq> 0 \<or> n = h) \<or> 65535 < unat (?f AND 0x1fff) * 8 + n - h)
    \<longleftrightarrow> \<not> fragment_ok ?f (n - h)"
    unfolding fragment_ok_def z s e not_le [symmetric] by (rule fragment_prop)
  have reads: "u16_at b 6 = Ok ?f" "ipv4_at b 12 = Ok (p_source (fields_of b h n))" "ipv4_at b 16 = Ok (p_destination (fields_of b h n))"
    "idx b 8 = Ok (p_ttl (fields_of b h n))" "idx b 9 = Ok (p_protocol (fields_of b h n))"
    "slice_r b h (min n (length b)) = Ok (p_payload (fields_of b h n))"
    "slice_r b 0 (min n (length b)) = Ok (p_bytes (fields_of b h n))"
    "u16_at b 4 = Ok (p_id (fields_of b h n))" "idx b 1 = Ok (p_traffic_class (fields_of b h n))"
    using assms by (simp_all add: fields_of_def flags_of_def)
  show ?thesis
    unfolding parse_fields_def Let_def reads and_then.simps cond by (simp add: fields_of_def)
qed

lemma fields_of_wf:
  assumes "20 \<le> h" "h \<le> 60" "h mod 4 = 0" "h \<le> length b" "h \<le> n"
    and "ipv4_checksum (take h b) = 0" and "fragment_ok (flags_of b) (n - h)"
    and "\<not> quoted \<longrightarrow> n \<le> length b" and "n = unat (from_be (take 2 (drop 2 b)) :: u16)"
  shows "packet_wf b quoted (fields_of b h n)"
proof -
  have "p_fragment_offset (fields_of b h n) + length (p_payload (fields_of b h n)) \<le> 65535"
  proof -
    have "min n (length b) - h \<le> n - h" by simp
    then show ?thesis using assms(7) unfolding fragment_ok_def fields_of_def by simp
  qed
  moreover have "p_payload (fields_of b h n) = drop h (p_bytes (fields_of b h n))"
    by (simp add: fields_of_def drop_take)
  moreover have "p_dont_fragment (fields_of b h n) \<longrightarrow>
      \<not> p_more_fragments (fields_of b h n) \<and> p_fragment_offset (fields_of b h n) = 0"
    using assms(7) by (simp add: fields_of_def fragment_ok_def)
  moreover have "\<not> quoted \<longrightarrow> p_more_fragments (fields_of b h n) \<longrightarrow>
      p_payload (fields_of b h n) \<noteq> [] \<and> length (p_payload (fields_of b h n)) mod 8 = 0"
    using assms(4,7,8) by (auto simp: fields_of_def fragment_ok_def)
  moreover have "\<not> quoted \<longrightarrow> length (p_bytes (fields_of b h n)) = unat (from_be (take 2 (drop 2 b)) :: u16)"
    using assms(8,9) by (simp add: fields_of_def)
  moreover have "p_header_len (fields_of b h n) = h" "p_fragment_offset (fields_of b h n) mod 8 = 0"
      "length (p_bytes (fields_of b h n)) \<le> length b"
      "p_bytes (fields_of b h n) = take (length (p_bytes (fields_of b h n))) b"
      "h + length (p_payload (fields_of b h n)) = length (p_bytes (fields_of b h n))"
    using assms(4,5) by (simp_all add: fields_of_def)
  ultimately show ?thesis
    using assms(1-3,6) unfolding packet_wf_def by simp
qed

lemma parse_inner_eq:
  "parse_inner b quoted =
    (let h = unat (b ! 0 AND 15) * 4; n = unat (from_be (take 2 (drop 2 b)) :: u16) in
     if length b < 20 \<or> drop_bit 4 (b ! 0) \<noteq> 4 \<or> h < 20 \<or> length b < h \<or> n < h \<or> (\<not> quoted \<and> length b < n)
        \<or> ipv4_checksum (take h b) \<noteq> 0
     then Err InvalidData
     else and_then (option_loop b h 20) (\<lambda>_.
       if fragment_ok (flags_of b) (n - h) then Ok (fields_of b h n) else Err InvalidData))"
proof (cases "length b < 20")
  case True
  then show ?thesis by (simp add: parse_inner_def)
next
  case False
  let ?h = "unat (b ! 0 AND 15) * 4" and ?n = "unat (from_be (take 2 (drop 2 b)) :: u16)"
  have reads: "idx b 0 = Ok (b ! 0)" "u16_at b 2 = Ok (from_be (take 2 (drop 2 b)))"
    using False by (auto simp: idx_def)
  show ?thesis
  proof (cases "?h < 20 \<or> length b < ?h \<or> ?n < ?h")
    case True
    then show ?thesis using False unfolding parse_inner_def Let_def reads and_then.simps by auto
  next
    case h: False
    then have "slice_r b 0 ?h = Ok (take ?h b)"
      and "parse_fields b ?h ?n = (if fragment_ok (flags_of b) (?n - ?h) then Ok (fields_of b ?h ?n) else Err InvalidData)"
      using parse_fields_eq [of ?h b ?n] by simp_all
    with False h show ?thesis unfolding parse_inner_def Let_def reads and_then.simps by auto
  qed
qed

lemma parse_inner_ensures: "ensures (parse_inner b quoted) (packet_wf b quoted)"
proof -
  let ?h = "unat (b ! 0 AND 15) * 4" and ?n = "unat (from_be (take 2 (drop 2 b)) :: u16)"
  have "?h \<le> 60" using unat_and15 [of "b ! 0"] by simp
  then show ?thesis
    by (auto simp: parse_inner_eq wp Let_def intro!: fields_of_wf)
qed

lemmas packet_parse_ensures = parse_inner_ensures [where quoted = False, folded packet_parse_def]
lemmas packet_quoted_ensures = parse_inner_ensures [where quoted = True, folded packet_quoted_def]
lemmas packet_parse_wp [wp] = ensures_call [OF packet_parse_ensures]
lemmas packet_quoted_wp [wp] = ensures_call [OF packet_quoted_ensures]

lemma icmp4_body_ensures:
  "ensures (icmp4_body b kind code) (\<lambda>_. kind \<in> {3, 4, 5, 11, 12} \<longrightarrow>
     code \<le> max_code kind \<and> (\<exists>q. packet_quoted (drop 8 b) = Ok q \<and> 8 \<le> length (p_payload q)))"
  unfolding icmp4_body_def
  by (simp only: wp split: if_split) (auto simp: not_less)

lemmas icmp4_body_wp [wp] = ensures_call [OF icmp4_body_ensures]

text \<open>The packet that \<open>encode4\<close> builds.\<close>

definition encoded4 :: "ipv4 \<Rightarrow> ipv4 \<Rightarrow> u8 \<Rightarrow> u8 \<Rightarrow> bytes \<Rightarrow> bytes" where
  "encoded4 source destination protocol ttl payload =
     (let b = header4 source destination protocol ttl (of_nat (20 + length payload)) in
      put b 10 (to_be 2 (ipv4_checksum b)) @ payload)"

lemma length_header4 [simp]: "length (header4 s d p t n) = 20"
  by (simp add: header4_def)

lemma encode4_eq:
  "encode4 s d p t payload =
     (if length payload \<le> 65515 then Ok (encoded4 s d p t payload) else Err InvalidData)"
  by (auto simp: encode4_def encoded4_def u16_try_from_def Let_def)

lemma header4_put: "put (header4 s d p t n) 10 (to_be 2 c) =
    [0x45, 0] @ to_be 2 n @ [0, 0, 0, 0, t, p] @ to_be 2 c @ to_be 4 s @ to_be 4 d"
proof -
  have "header4 s d p t n = ([0x45, 0] @ to_be 2 n @ [0, 0, 0, 0, t, p]) @ [0, 0] @ to_be 4 s @ to_be 4 d"
    by (simp add: header4_def)
  then show ?thesis
    using put_append_exact [of "[0x45, 0] @ to_be 2 n @ [0, 0, 0, 0, t, p]" 10 "[0, 0]" "to_be 2 c"] by simp
qed

lemma encoded4_verifies: "ipv4_checksum (put (header4 s d p t n) 10 (to_be 2 (ipv4_checksum (header4 s d p t n)))) = 0"
  using ck4.filled_verifies [of "header4 s d p t n" 10] by (simp add: header4_def)


lemma option_loop_twenty [simp]: "option_loop b 20 20 = Ok ()"
  by (rule option_loop_none)

lemma encoded4_bytes: "encoded4 s d p t payload =
    [0x45, 0] @ to_be 2 (of_nat (20 + length payload) :: u16) @ [0, 0, 0, 0, t, p]
      @ to_be 2 (ipv4_checksum (header4 s d p t (of_nat (20 + length payload)))) @ to_be 4 s @ to_be 4 d @ payload"
  by (simp add: encoded4_def Let_def header4_put del: of_nat_add)

lemma to_be_nth: "to_be 2 (w :: u16) = [ucast (drop_bit 8 w), ucast w]"
  by (simp add: numeral_2_eq_2)

lemma from_be_zeros: "from_be [0, 0] = (0 :: u16)"
  by (simp add: from_be_def)

lemma encoded4_parse:
  assumes "length payload \<le> 65515"
  shows "packet_parse (encoded4 s d p t payload) = Ok \<lparr>p_source = s, p_destination = d, p_ttl = t,
    p_protocol = p, p_payload = payload, p_bytes = encoded4 s d p t payload, p_header_len = 20,
    p_fragment_offset = 0, p_more_fragments = False, p_dont_fragment = False, p_id = 0, p_traffic_class = 0\<rparr>"
proof -
  let ?b = "encoded4 s d p t payload" and ?n = "of_nat (20 + length payload) :: u16"
  have len: "length ?b = 20 + length payload" by (simp add: encoded4_bytes)
  have n: "unat ?n = 20 + length payload" using assms by (intro unat_of_nat_u16) simp
  have b0: "?b ! 0 = 0x45" by (simp add: encoded4_bytes)
  have total: "from_be (take 2 (drop 2 ?b)) = ?n" by (simp add: encoded4_bytes del: of_nat_add)
  have flags: "flags_of ?b = 0" by (simp add: encoded4_bytes flags_of_def from_be_def)
  have sum: "ipv4_checksum (take 20 ?b) = 0"
    using encoded4_verifies [of s d p t ?n] by (simp add: encoded4_def Let_def del: of_nat_add)
  have frag: "fragment_ok 0 (unat ?n - 20)" using assms unfolding n by (simp add: fragment_ok_def)
  have h: "unat (?b ! 0 AND 15) * 4 = 20" unfolding b0 by simp
  have f: "fields_of ?b 20 (unat ?n) = \<lparr>p_source = s, p_destination = d, p_ttl = t, p_protocol = p,
    p_payload = payload, p_bytes = ?b, p_header_len = 20, p_fragment_offset = 0, p_more_fragments = False,
    p_dont_fragment = False, p_id = 0, p_traffic_class = 0\<rparr>"
    unfolding n fields_of_def flags len by (simp add: encoded4_bytes to_be_nth from_be_zeros)
  show ?thesis
    unfolding packet_parse_def parse_inner_eq Let_def h total flags sum f
    using frag by (simp add: len b0 n f del: of_nat_add)
qed

lemma arp_parse_ensures:
  "ensures (arp_parse frame) (\<lambda>a. a_operation a \<in> {1, 2} \<and> length (a_sender_mac a) = 6
     \<and> length (a_target_mac a) = 6 \<and> a_sender_mac a \<noteq> replicate 6 0 \<and> a_sender_mac a ! 0 AND 1 = 0
     \<and> take 6 (drop 6 frame) = a_sender_mac a
     \<and> (unspecified4 (a_sender a) \<or> unicast (a_sender a))
     \<and> (a_operation a = 2 \<longrightarrow> unicast (a_sender a)))"
proof -
  have op: "from_be (take 2 (drop 20 frame)) \<in> {1, 2 :: u16}"
    if "42 \<le> length frame"
      "take 10 (drop 12 frame) = [8, 6, 0, 1, 8, 0, 6, 4, 0, 1] \<or> take 10 (drop 12 frame) = [8, 6, 0, 1, 8, 0, 6, 4, 0, 2]"
  proof -
    have "take 2 (drop 20 frame) = drop 8 (take 10 (drop 12 frame))" by (simp add: drop_take)
    with that(2) show ?thesis by (auto simp: from_be_def)
  qed
  show ?thesis
    unfolding arp_parse_def
    using op by (simp only: wp split: if_split) (auto simp: min_def)
qed


lemma icmp4_parse_ensures:
  "ensures (icmp4_parse b) (\<lambda>m. i_bytes m = b \<and> 8 \<le> length b \<and> ipv4_checksum b = 0
     \<and> (i_kind m \<in> {3, 4, 5, 11, 12} \<longrightarrow>
          (\<exists>q. packet_quoted (drop 8 b) = Ok q \<and> 8 \<le> length (p_payload q))))"
proof (cases "8 \<le> length b \<and> length b \<le> 65515 \<and> ipv4_checksum b = 0")
  case True
  then have reads: "idx b 0 = Ok (b ! 0)" "idx b 1 = Ok (b ! 1)" by (auto simp: idx_def)
  show ?thesis
    using icmp4_body_ensures [of b "b ! 0" "b ! 1"] True
    unfolding icmp4_parse_def reads and_then.simps
    by (cases "icmp4_body b (b ! 0) (b ! 1)") simp_all
qed (auto simp: icmp4_parse_def)

text \<open>What the receiver of an ARP packet checks, on the packet and the frame's destination.\<close>

definition arp_wf :: "arp \<Rightarrow> bytes \<Rightarrow> bool" where
  "arp_wf a destination \<longleftrightarrow> length destination = 6 \<and> length (a_sender_mac a) = 6 \<and> length (a_target_mac a) = 6
     \<and> (a_operation a = 1 \<or> a_operation a = 2)
     \<and> a_sender_mac a ! 0 AND 1 = 0 \<and> a_sender_mac a \<noteq> replicate 6 0
     \<and> (unspecified4 (a_sender a) \<or> unicast (a_sender a))
     \<and> (a_operation a = 2 \<longrightarrow> \<not> unspecified4 (a_sender a)
          \<and> (destination ! 0 AND 1 = 0 \<longrightarrow> destination = a_target_mac a))
     \<and> (unicast (a_target a) \<or> a_operation a = 2 \<and> unspecified4 (a_target a))"

section \<open>Properties\<close>


text \<open>
  What the router sends it can read: an IPv4 packet built by \<open>encode\<close> from any payload that
  fits is accepted by \<open>Packet::parse\<close>, with the same addresses, protocol, hop limit and payload and
  no fragmentation; a payload that does not fit is refused.
\<close>

theorem ipv4_packet_roundtrip:
  "if length payload \<le> 65515
   then and_then (encode4 s d protocol ttl payload) packet_parse = Ok \<lparr>p_source = s, p_destination = d,
      p_ttl = ttl, p_protocol = protocol, p_payload = payload, p_bytes = encoded4 s d protocol ttl payload,
      p_header_len = 20, p_fragment_offset = 0, p_more_fragments = False, p_dont_fragment = False,
      p_id = 0, p_traffic_class = 0\<rparr>
   else encode4 s d protocol ttl payload = Err InvalidData"
  by (simp add: encode4_eq encoded4_parse)

lemma arp_encode_parse:
  assumes "arp_wf a destination"
  shows "arp_parse (arp_encode a destination) = Ok a"
proof -
  let ?f = "arp_encode a destination"
  have l: "length destination = 6" "length (a_sender_mac a) = 6" "length (a_target_mac a) = 6"
    using assms by (simp_all add: arp_wf_def)
  have len: "length ?f = 42" using l by (simp add: arp_encode_def)
  have op: "to_be 2 (a_operation a) = [0, 1] \<or> to_be 2 (a_operation a) = [0, 2]"
    using assms by (auto simp: arp_wf_def to_be_nth)
  have fixed: "slice_r ?f 12 22 = Ok ([8, 6, 0, 1, 8, 0, 6, 4] @ to_be 2 (a_operation a))"
    using l by (simp add: arp_encode_def slice_r_def)
  have reads: "slice_r ?f 22 28 = Ok (a_sender_mac a)" "ipv4_at ?f 28 = Ok (a_sender a)"
    "ipv4_at ?f 38 = Ok (a_target a)" "u16_at ?f 20 = Ok (a_operation a)"
    "idx (a_sender_mac a) 0 = Ok (a_sender_mac a ! 0)" "slice_r ?f 6 12 = Ok (a_sender_mac a)"
    "idx ?f 0 = Ok (destination ! 0)" "slice_r ?f 0 6 = Ok destination" "slice_r ?f 32 38 = Ok (a_target_mac a)"
    using l by (auto simp: arp_encode_def nth_append idx_def)
  show ?thesis
    unfolding arp_parse_def fixed reads and_then.simps
    using assms op by (auto simp: len arp_wf_def)
qed

text \<open>
  An ARP packet that meets the receiver's checks survives the wire: parsing the encoded frame
  gives the packet back.
\<close>

theorem arp_roundtrip:
  assumes "arp_wf a destination"
  shows "arp_parse (arp_encode a destination) = Ok a"
  by (rule arp_encode_parse [OF assms])

text \<open>A reply of 192.168.1.1 to 192.168.1.2, sent to the requester's hardware address.\<close>

definition sample_arp :: arp where
  "sample_arp = \<lparr>a_operation = 2, a_sender_mac = [2, 0, 0, 0, 0, 1], a_sender = 0xC0A80101,
     a_target_mac = [2, 0, 0, 0, 0, 2], a_target = 0xC0A80102\<rparr>"

lemma sample_arp_wf: "arp_wf sample_arp [2, 0, 0, 0, 0, 2]"
proof -
  have "replicate 6 0 = [0, 0, 0, 0, 0, 0 :: u8]" by (simp add: eval_nat_numeral)
  then show ?thesis
    by (simp add: arp_wf_def sample_arp_def unspecified4_def unicast_def multicast4_def broadcast4_def
        loopback4_def octet0_def)
qed

theorem arp_roundtrip_witness:
  "arp_parse (arp_encode sample_arp [2, 0, 0, 0, 0, 2]) = Ok sample_arp"
  by (rule arp_roundtrip [OF sample_arp_wf])

end
