(* ===== verification/Nat64_Tables.thy ===== *)
theory Nat64_Tables
  imports Ipv4_Wire
begin

text \<open>
  The protocol tables of the translator: the TCP session state machine and the TCP header reader
  of \<open>nat64/tcp.rs\<close>, and the ICMP error tables of \<open>nat64/icmp.rs\<close>. The state machine is run over
  sequences of packets; what its history must contain for each state is \<open>tcp_history\<close>.
\<close>

section \<open>Definitions\<close>

subsection \<open>TCP session states\<close>

datatype tcp_state = V4Init | V6Init | Established | V4Fin | V6Fin | BothFin | Transitory

definition established_ms :: u64 where "established_ms = 7200000"
definition transitory_ms :: u64 where "transitory_ms = 240000"

definition syn :: "u8 \<Rightarrow> bool" where "syn flags \<longleftrightarrow> flags AND 2 \<noteq> 0"
definition fin :: "u8 \<Rightarrow> bool" where "fin flags \<longleftrightarrow> flags AND 1 \<noteq> 0"
definition rst :: "u8 \<Rightarrow> bool" where "rst flags \<longleftrightarrow> flags AND 4 \<noteq> 0"

text \<open>\<open>State::packet\<close>: the match arms in the source's order.\<close>

definition tcp_packet :: "tcp_state \<Rightarrow> bool \<Rightarrow> u8 \<Rightarrow> u64 \<Rightarrow> u64 \<Rightarrow> tcp_state \<times> u64" where
  "tcp_packet st v6 flags expires now =
     (let est = saturating_add now established_ms; trans = saturating_add now transitory_ms in
      if st = V4Init \<and> v6 \<and> syn flags then (Established, est)
      else if st = V6Init \<and> \<not> v6 \<and> syn flags then (Established, est)
      else if st = V6Init \<and> v6 \<and> syn flags then (st, trans)
      else if st = V4Init \<or> st = V6Init \<or> st = BothFin then (st, expires)
      else if st = Established \<and> fin flags then (if v6 then V6Fin else V4Fin, expires)
      else if st = Established \<and> rst flags then (Transitory, trans)
      else if st = V4Fin \<and> v6 \<and> fin flags then (BothFin, trans)
      else if st = V6Fin \<and> \<not> v6 \<and> fin flags then (BothFin, trans)
      else if st = Transitory \<and> \<not> rst flags then (Established, est)
      else if st = Transitory then (st, expires)
      else (st, est))"

subsection \<open>TCP headers\<close>

text \<open>The length check of the known options, \<open>match kind\<close>.\<close>

definition tcp_option_bad :: "u8 \<Rightarrow> nat \<Rightarrow> bool" where
  "tcp_option_bad kind n \<longleftrightarrow>
     (if kind = 2 then n \<noteq> 4 else if kind = 3 then n \<noteq> 3 else if kind = 4 then n \<noteq> 2
      else if kind = 5 then n < 10 \<or> (n - 2) mod 8 \<noteq> 0 else if kind = 8 then n \<noteq> 10 else False)"

function tcp_option_loop :: "bytes \<Rightarrow> nat \<Rightarrow> nat \<Rightarrow> (io_error, unit) outcome" where
  "tcp_option_loop b header at =
     (if at < header then
        and_then (idx b at) (\<lambda>kind.
          if kind = 0 then
            and_then (slice_r b (at + 1) header) (\<lambda>s. if list_ex (\<lambda>v. v \<noteq> 0) s then Err InvalidData else Ok ())
          else if kind = 1 then tcp_option_loop b header (at + 1)
          else if header < at + 2 then Err InvalidData
          else and_then (idx b (at + 1)) (\<lambda>l.
            if unat l < 2 \<or> header < at + unat l \<or> tcp_option_bad kind (unat l) then Err InvalidData
            else tcp_option_loop b header (at + unat l)))
      else Ok ())"
  by pat_completeness auto
termination
  by (relation "measure (\<lambda>(b, header, at). header - at)") auto

declare tcp_option_loop.simps [simp del]

definition tcp_ports :: "bytes \<Rightarrow> (io_error, u16 \<times> u16) outcome" where
  "tcp_ports b =
     (if length b < 20 then Err InvalidData
      else and_then (idx b 12) (\<lambda>offset. and_then (u16_at b 0) (\<lambda>source. and_then (u16_at b 2) (\<lambda>dest.
        and_then (idx b 13) (\<lambda>flags.
          let header = unat (drop_bit 4 offset) * 4 in
          if header < 20 \<or> length b < header \<or> source = 0 \<or> dest = 0 \<or> flags AND 2 \<noteq> 0 \<and> flags AND 5 \<noteq> 0
          then Err InvalidData
          else and_then (tcp_option_loop b header 20) (\<lambda>_. Ok (source, dest)))))))"

subsection \<open>ICMP translation tables\<close>

text \<open>RFC 1191 plateaus: the first one below the quoted length, \<open>0\<close> if there is none.\<close>

definition plateau :: "u32 \<Rightarrow> u32" where
  "plateau quoted_length =
     (case find (\<lambda>v. v < quoted_length) [65535, 32000, 17914, 8166, 4352, 2002, 1492] of
        Some v \<Rightarrow> v | None \<Rightarrow> 0)"

definition v4_pointer :: "u32 \<Rightarrow> u32 option" where
  "v4_pointer value =
     (if value = 0 then Some 0 else if value = 1 then Some 1 else if value = 2 \<or> value = 3 then Some 4
      else if value = 8 then Some 7 else if value = 9 then Some 6
      else if 12 \<le> value \<and> value \<le> 15 then Some 8 else if 16 \<le> value \<and> value \<le> 19 then Some 24
      else None)"

definition v4_to_v6 :: "u8 \<Rightarrow> u8 \<Rightarrow> u32 \<Rightarrow> u32 \<Rightarrow> u32 \<Rightarrow> u32 \<Rightarrow> (u8 \<times> u8 \<times> u32) option" where
  "v4_to_v6 kind code value quoted_length mtu4 mtu6 =
     (if kind = 3 \<and> List.member [0, 1, 5, 6, 7, 8, 11, 12] code then Some (1, 0, 0)
      else if kind = 3 \<and> code = 2 then Some (4, 1, 6)
      else if kind = 3 \<and> code = 3 then Some (1, 4, 0)
      else if kind = 3 \<and> code = 4 then
        let mtu = (if value = 0 then plateau quoted_length else value) in
        Some (2, 0, max (min (min (saturating_add mtu 20) mtu6) (saturating_add mtu4 20)) 1280)
      else if kind = 3 \<and> List.member [9, 10, 13, 15] code then Some (1, 1, 0)
      else if kind = 11 \<and> (code = 0 \<or> code = 1) then Some (3, code, 0)
      else if kind = 12 \<and> (code = 0 \<or> code = 2) then
        map_option (\<lambda>p. (4, 0, p)) (v4_pointer value)
      else None)"

definition v6_pointer :: "u32 \<Rightarrow> u32 option" where
  "v6_pointer value =
     (if value = 0 then Some 0 else if value = 1 then Some 1 else if value = 4 \<or> value = 5 then Some 2
      else if value = 6 then Some 9 else if value = 7 then Some 8
      else if 8 \<le> value \<and> value \<le> 23 then Some 12 else if 24 \<le> value \<and> value \<le> 39 then Some 16
      else None)"

text \<open>\<open>clamp\<close> of the standard library.\<close>

definition clamp :: "'a::linorder \<Rightarrow> 'a \<Rightarrow> 'a \<Rightarrow> 'a" where
  "clamp lo hi x = (if x < lo then lo else if hi < x then hi else x)"

definition v6_to_v4 :: "u8 \<Rightarrow> u8 \<Rightarrow> u32 \<Rightarrow> u32 \<Rightarrow> u32 \<Rightarrow> (u8 \<times> u8 \<times> u32) option" where
  "v6_to_v4 kind code value mtu4 mtu6 =
     (if kind = 1 \<and> List.member [0, 2, 3] code then Some (3, 1, 0)
      else if kind = 1 \<and> code = 1 then Some (3, 10, 0)
      else if kind = 1 \<and> code = 4 then Some (3, 3, 0)
      else if kind = 2 \<and> code = 0 then
        Some (3, 4, clamp 68 65535 (min (min (saturating_sub value 20) mtu4) (saturating_sub mtu6 20)))
      else if kind = 3 \<and> (code = 0 \<or> code = 1) then Some (11, code, 0)
      else if kind = 4 \<and> code = 0 then map_option (\<lambda>p. (12, 0, p)) (v6_pointer value)
      else if kind = 4 \<and> code = 1 then Some (3, 2, 0)
      else None)"

section \<open>Lemmas\<close>

lemma tcp_option_loop_ensures: "header \<le> length b \<Longrightarrow> ensures (tcp_option_loop b header at) (\<lambda>_. True)"
proof (induction b header at rule: tcp_option_loop.induct)
  case (1 b header at)
  then show ?case
    by (subst tcp_option_loop.simps) (auto simp: wp)
qed

lemmas tcp_option_loop_wp [wp] = ensures_call [OF tcp_option_loop_ensures]

lemma tcp_ports_ensures:
  "ensures (tcp_ports b) (\<lambda>(source, dest). source \<noteq> 0 \<and> dest \<noteq> 0 \<and> 20 \<le> length b
     \<and> \<not> (b ! 13 AND 2 \<noteq> 0 \<and> b ! 13 AND 5 \<noteq> 0))"
proof (cases "length b < 20")
  case False
  then have "idx b 12 = Ok (b ! 12)" "idx b 13 = Ok (b ! 13)" by (simp_all add: idx_def)
  with False show ?thesis
    by (auto simp: tcp_ports_def wp Let_def not_less)
qed (simp add: tcp_ports_def)

lemmas tcp_ports_wp [wp] = ensures_call [OF tcp_ports_ensures]

text \<open>One packet of a session seen by the translator: its side, its flags and its arrival time.\<close>

type_synonym tcp_event = "bool \<times> u8 \<times> u64"

fun tcp_run :: "tcp_state \<times> u64 \<Rightarrow> tcp_event list \<Rightarrow> tcp_state \<times> u64" where
  "tcp_run s [] = s"
| "tcp_run (st, expires) ((v6, flags, now) # es) = tcp_run (tcp_packet st v6 flags expires now) es"

lemma tcp_run_snoc:
  "tcp_run s (es @ [(v6, flags, now)]) = (case tcp_run s es of (st, x) \<Rightarrow> tcp_packet st v6 flags x now)"
  by (induction s es rule: tcp_run.induct) auto

definition seen :: "(u8 \<Rightarrow> bool) \<Rightarrow> bool \<Rightarrow> tcp_event list \<Rightarrow> bool" where
  "seen P v6 es \<longleftrightarrow> (\<exists>f now. (v6, f, now) \<in> set es \<and> P f)"

lemma seen_snoc [simp]: "seen P v6 (es @ [(w, f, now)]) \<longleftrightarrow> seen P v6 es \<or> v6 = w \<and> P f"
  by (auto simp: seen_def)

lemma seen_Nil [simp]: "\<not> seen P v6 []"
  by (simp add: seen_def)

text \<open>What the history of a session must contain for the state it is in.\<close>

fun tcp_history :: "tcp_event list \<Rightarrow> tcp_state \<Rightarrow> bool" where
  "tcp_history es V4Init = True"
| "tcp_history es V6Init = True"
| "tcp_history es Established = True"
| "tcp_history es V4Fin = seen fin False es"
| "tcp_history es V6Fin = seen fin True es"
| "tcp_history es BothFin = (seen fin False es \<and> seen fin True es)"
| "tcp_history es Transitory = (seen rst False es \<or> seen rst True es)"

lemma tcp_run_history:
  assumes "st0 = V4Init \<or> st0 = V6Init" and "tcp_run (st0, x) es = (st, y)"
  shows "tcp_history es st \<and> (st = st0 \<or> (st \<notin> {V4Init, V6Init} \<and> seen syn (st0 = V4Init) es))"
  using assms(2)
proof (induction es arbitrary: st y rule: rev_induct)
  case Nil
  then show ?case using assms(1) by auto
next
  case (snoc e es)
  obtain v6 f now where e: "e = (v6, f, now)" by (cases e)
  obtain st' y' where r: "tcp_run (st0, x) es = (st', y')" by (cases "tcp_run (st0, x) es")
  have step: "tcp_packet st' v6 f y' now = (st, y)" using snoc.prems by (simp add: e tcp_run_snoc r)
  have ih: "tcp_history es st' \<and> (st' = st0 \<or> (st' \<notin> {V4Init, V6Init} \<and> seen syn (st0 = V4Init) es))"
    by (rule snoc.IH [OF r])
  show ?case
    using step ih assms(1) by (cases st') (auto simp: e tcp_packet_def Let_def split: if_splits)
qed

lemma v4_pointer_back: "v4_pointer value = Some p \<Longrightarrow> \<exists>q. v6_pointer p = Some q \<and> v4_pointer q = Some p"
  by (auto simp: v4_pointer_def v6_pointer_def split: if_splits)

lemma v4_to_v6_Some:
  assumes "v4_to_v6 kind code value quoted mtu4 mtu6 = Some (k, c, v)"
  shows "kind = 3 \<and> k = 1 \<and> (c = 0 \<or> c = 1 \<or> c = 4) \<or> kind = 3 \<and> k = 4 \<and> c = 1
    \<or> kind = 3 \<and> k = 2 \<and> c = 0 \<and> 1280 \<le> v \<and> (1280 \<le> mtu6 \<longrightarrow> v \<le> mtu6)
    \<or> kind = 11 \<and> k = 3 \<and> (c = 0 \<or> c = 1) \<or> kind = 12 \<and> k = 4 \<and> c = 0 \<and> v4_pointer value = Some v"
proof (cases "kind = 3")
  case True
  have "max (min (min a mtu6) b) 1280 \<le> mtu6" if "1280 \<le> mtu6" for a b :: u32
    using that by (simp add: min_le_iff_disj)
  with assms True show ?thesis
    unfolding v4_to_v6_def Let_def by (simp split: if_split_asm) (auto simp: min_le_iff_disj)+
next
  case False
  with assms show ?thesis
    unfolding v4_to_v6_def by (auto split: if_split_asm)
qed

lemma clamp_bounds: "lo \<le> hi \<Longrightarrow> lo \<le> clamp lo hi x \<and> clamp lo hi x \<le> hi"
  by (auto simp: clamp_def)

section \<open>Properties\<close>

text \<open>
  C28: The TCP state machine opens and closes on both sides' evidence. Whatever packets follow the
  one that created a session, it leaves its initial state only after a SYN from the other side,
  it reaches the both-sides-closed state only after a FIN from each side, and it is in the
  transitory state only after an RST.
\<close>

theorem tcp_session_evidence:
  assumes "st0 = V4Init \<or> st0 = V6Init" and "tcp_run (st0, x) es = (st, y)"
  shows "(st \<noteq> st0 \<longrightarrow> seen syn (st0 = V4Init) es)
    \<and> (st = BothFin \<longrightarrow> seen fin False es \<and> seen fin True es)
    \<and> (st = Transitory \<longrightarrow> seen rst False es \<or> seen rst True es)"
  using tcp_run_history [OF assms] by auto

theorem tcp_session_evidence_witness:
  "tcp_run (V6Init, 240000) [(False, 18, 10), (True, 1, 20), (False, 17, 30)] = (BothFin, 240030)
   \<and> seen syn False [(False, 18, 10), (True, 1, 20), (False, 17, 30)]"
proof -
  have "tcp_run (V6Init, 240000) [(False, 18, 10), (True, 1, 20), (False, 17, 30)] = (BothFin, 240030)"
    by (simp add: tcp_packet_def syn_def fin_def rst_def established_ms_def transitory_ms_def saturating_add_def)
  with tcp_session_evidence [OF _ this] show ?thesis by simp
qed

text \<open>
  ICMP errors keep their meaning through the translator: every IPv4 error that has an IPv6
  counterpart is translated to one that translates back to the same IPv4 type, a translated
  Packet Too Big announces at least the IPv6 minimum of 1280 and, above it, no more than the
  IPv6 link carries, and an IPv4 Fragmentation Needed announces between 68 and 65535 octets.
\<close>

theorem icmp_tables_consistent:
  assumes "v4_to_v6 kind code value quoted mtu4 mtu6 = Some (k, c, v)"
  shows "(\<exists>c' v'. v6_to_v4 k c v mtu4 mtu6 = Some (kind, c', v')
       \<and> (kind = 3 \<and> c' = 4 \<longrightarrow> 68 \<le> v' \<and> v' \<le> 65535))
    \<and> (k = 2 \<longrightarrow> 1280 \<le> v \<and> (1280 \<le> mtu6 \<longrightarrow> v \<le> mtu6))"
proof -
  consider "kind = 3" "k = 1" "c = 0 \<or> c = 1 \<or> c = 4" | "kind = 3" "k = 4" "c = 1"
    | "kind = 3" "k = 2" "c = 0" "1280 \<le> v \<and> (1280 \<le> mtu6 \<longrightarrow> v \<le> mtu6)"
    | "kind = 11" "k = 3" "c = 0 \<or> c = 1" | "kind = 12" "k = 4" "c = 0" "v4_pointer value = Some v"
    using v4_to_v6_Some [OF assms] by blast
  then show ?thesis
  proof cases
    case 3
    then show ?thesis using clamp_bounds [of 68 "65535 :: u32"] by (simp add: v6_to_v4_def)
  next
    case 5
    then show ?thesis using v4_pointer_back [where p = v] by (auto simp: v6_to_v4_def)
  qed (auto simp: v6_to_v4_def)
qed

theorem icmp_tables_consistent_witness:
  "v4_to_v6 3 4 0 1500 1500 1500 = Some (2, 0, 1500) \<and> (\<exists>c' v'. v6_to_v4 2 0 1500 1500 1500 = Some (3, c', v'))"
proof -
  have "v4_to_v6 3 4 0 1500 1500 1500 = Some (2, 0, 1500)"
    by (simp add: v4_to_v6_def plateau_def saturating_add_def)
  with icmp_tables_consistent [OF this] show ?thesis by blast
qed

text \<open>
  The TCP header reader is total: it never panics, and the ports it returns are nonzero and come
  from a header of at least twenty octets whose flags do not combine SYN with FIN or RST.
\<close>

theorem tcp_ports_sound:
  "ensures (tcp_ports b) (\<lambda>(source, dest). source \<noteq> 0 \<and> dest \<noteq> 0 \<and> 20 \<le> length b
     \<and> (b ! 13 AND 2 = 0 \<or> b ! 13 AND 5 = 0))"
  using tcp_ports_ensures [of b] by (rule ensures_mono) auto

end
