(* ===== verification/Time_Sched.thy ===== *)
theory Time_Sched
  imports Wire
begin

text \<open>
  Absolute lifetimes and the random sampler of \<open>time.rs\<close>, and the Router Advertisement
  scheduler of \<open>scheduler.rs\<close>. A method that changes the scheduler returns its result together
  with the scheduler it leaves behind; the inductive relation \<open>sched_call\<close> is one successful
  call, and the spacing invariant is proved of every run of calls through the interface
  \<open>call_invariant\<close>.
\<close>

section \<open>Definitions\<close>

subsection \<open>Lifetimes\<close>

datatype lifetime = Until u64 | Infinite

definition lifetime_from_secs :: "u64 \<Rightarrow> u32 \<Rightarrow> lifetime" where
  "lifetime_from_secs now seconds =
     (if seconds = - 1 then Infinite else Until (saturating_add now (ucast seconds * 1000)))"

fun lifetime_remaining :: "lifetime \<Rightarrow> u64 \<Rightarrow> u32" where
  "lifetime_remaining Infinite now = - 1"
| "lifetime_remaining (Until t) now = ucast (min (saturating_sub t now div 1000) (ucast (- 1 :: u32)))"

fun lifetime_live :: "lifetime \<Rightarrow> u64 \<Rightarrow> bool" where
  "lifetime_live Infinite now = True"
| "lifetime_live (Until t) now = (now < t)"

subsection \<open>Randomness\<close>

text \<open>
  A \<open>RandomSource\<close> is the script of what its \<open>fill\<close> will return for eight octets: a number or
  a failure. Past the end it returns zeros, as \<open>ScriptedRandom\<close> does; the calls that any run
  makes of any source are such a script.
\<close>

type_synonym rng = "u64 option list"

fun fill :: "rng \<Rightarrow> (io_error, u64) outcome \<times> rng" where
  "fill [] = (Ok 0, [])"
| "fill (Some v # r) = (Ok v, r)"
| "fill (None # r) = (Err OtherError, r)"

text \<open>
  The rejection loop. When the script is used up the next value is zero, which is below the
  positive limit.
\<close>

fun sample_loop :: "u64 \<Rightarrow> u64 \<Rightarrow> rng \<Rightarrow> (io_error, u64) outcome \<times> rng" where
  "sample_loop span limit [] = (Ok 0, [])"
| "sample_loop span limit (None # r) = (Err OtherError, r)"
| "sample_loop span limit (Some x # r) =
     (if x < limit then (Ok (x mod span), r) else sample_loop span limit r)"

definition sample :: "u64 \<Rightarrow> rng \<Rightarrow> (io_error, u64) outcome \<times> rng" where
  "sample mx r =
     (if mx = - 1 then (Err OtherError, r)
      else let span = mx + 1; limit = - 1 - (- 1) mod span in sample_loop span limit r)"

subsection \<open>The Router Advertisement scheduler\<close>

record ra_scheduler =
  s_next :: u64
  s_last :: "u64 option"
  s_burst :: u8
  s_response :: "u64 option"

text \<open>
  A method on \<open>&mut self\<close> returns its result, the scheduler it leaves behind (also when it
  fails) and the rest of the random script.
\<close>

type_synonym sched_result = "(io_error, unit) outcome \<times> ra_scheduler \<times> rng"

definition sched_new :: "u64 \<Rightarrow> rng \<Rightarrow> (io_error, ra_scheduler) outcome \<times> rng" where
  "sched_new now r =
     (let (x, r') = sample 16000 r in
      (and_then x (\<lambda>d. and_then (add_chk now d) (\<lambda>t.
         Ok \<lparr>s_next = t, s_last = None, s_burst = 3, s_response = None\<rparr>)), r'))"

definition deadline :: "ra_scheduler \<Rightarrow> u64" where
  "deadline s = (case s_response s of None \<Rightarrow> s_next s | Some t \<Rightarrow> min t (s_next s))"

definition due :: "ra_scheduler \<Rightarrow> u64 \<Rightarrow> bool" where
  "due s now \<longleftrightarrow> deadline s \<le> now"

definition spaced :: "ra_scheduler \<Rightarrow> u64 \<Rightarrow> (io_error, u64) outcome" where
  "spaced s t = (case s_last s of None \<Rightarrow> Ok t | Some l \<Rightarrow> map_ok (max t) (add_chk l 3000))"

text \<open>Assign the outcome of a computation to \<open>next\<close>, or report its failure.\<close>

definition set_next :: "ra_scheduler \<Rightarrow> rng \<Rightarrow> (io_error, u64) outcome \<Rightarrow> sched_result" where
  "set_next s r x = (case x of
     Ok t \<Rightarrow> (Ok (), s\<lparr>s_next := t\<rparr>, r) | Err e \<Rightarrow> (Err e, s, r) | Panic \<Rightarrow> (Panic, s, r))"

definition sched_enable :: "ra_scheduler \<Rightarrow> u64 \<Rightarrow> rng \<Rightarrow> sched_result" where
  "sched_enable s now r =
     (let s = s\<lparr>s_burst := 3, s_response := None\<rparr>; (x, r') = sample 16000 r in
      set_next s r' (and_then x (\<lambda>d. spaced s (saturating_add now d))))"

definition sched_changed :: "ra_scheduler \<Rightarrow> u64 \<Rightarrow> rng \<Rightarrow> sched_result" where
  "sched_changed s now r =
     (let s = s\<lparr>s_burst := 3\<rparr>; (x, r') = sample 16000 r in
      set_next s r' (and_then x (\<lambda>d. and_then (add_chk now d) (\<lambda>t. map_ok (min (s_next s)) (spaced s t)))))"

text \<open>The delay drawn after a transmission.\<close>

definition sent_delay :: "bool \<Rightarrow> rng \<Rightarrow> (io_error, u64) outcome \<times> rng" where
  "sent_delay bursting r = (if bursting then sample 16000 r
     else let (y, r') = sample 52000 r in (and_then y (add_chk 154000), r'))"

definition sched_sent :: "ra_scheduler \<Rightarrow> u64 \<Rightarrow> rng \<Rightarrow> sched_result" where
  "sched_sent s now r =
     (let s = s\<lparr>s_response := None, s_last := Some now, s_burst := saturating_sub (s_burst s) 1\<rparr>;
          (x, r') = sent_delay (0 < s_burst s) r
      in set_next s r' (and_then x (\<lambda>delay. and_then (add_chk now delay) (spaced s))))"

definition receive_rs :: "ra_scheduler \<Rightarrow> envelope \<Rightarrow> u64 \<Rightarrow> rng \<Rightarrow> sched_result" where
  "receive_rs s packet now r =
     (case decode_nd packet of
        Panic \<Rightarrow> (Panic, s, r)
      | Err _ \<Rightarrow> (Err OtherError, s, r)
      | Ok nd \<Rightarrow>
          if nd_kind nd \<noteq> 133 then (Err OtherError, s, r)
          else if s_response s = None then
            let (x, r') = sample 500 r in
            case and_then x (\<lambda>d. and_then (add_chk now d) (spaced s)) of
              Ok t \<Rightarrow> (Ok (), s\<lparr>s_response := Some t\<rparr>, r')
            | Err e \<Rightarrow> (Err e, s, r')
            | Panic \<Rightarrow> (Panic, s, r')
          else (Ok (), s, r))"

text \<open>One successful call of the scheduler.\<close>

inductive sched_call :: "ra_scheduler \<Rightarrow> ra_scheduler \<Rightarrow> bool" where
  enable: "sched_enable s now r = (Ok (), t, r') \<Longrightarrow> sched_call s t"
| changed: "sched_changed s now r = (Ok (), t, r') \<Longrightarrow> sched_call s t"
| sent: "sched_sent s now r = (Ok (), t, r') \<Longrightarrow> sched_call s t"
| solicited: "receive_rs s packet now r = (Ok (), t, r') \<Longrightarrow> sched_call s t"

definition sched_start :: "ra_scheduler \<Rightarrow> bool" where
  "sched_start s \<longleftrightarrow> (\<exists>now r r'. sched_new now r = (Ok s, r'))"

section \<open>Lemmas\<close>

lemma sample_limit_pos: "mx \<noteq> - 1 \<Longrightarrow> 0 < - 1 - (- 1) mod (mx + 1 :: u64)"
proof -
  assume "mx \<noteq> - 1"
  then have ne: "mx + 1 \<noteq> 0" by (metis add.inverse_inverse add_eq_0_iff)
  have "(- 1 :: u64) mod (mx + 1) < mx + 1"
    using ne by (simp add: word_mod_less_divisor word_gt_0)
  then have "(- 1 :: u64) mod (mx + 1) \<noteq> - 1"
    by (metis word_order.extremum_strict)
  then show ?thesis by (simp add: word_gt_0)
qed

lemma sample_loop_bound:
  "span \<noteq> 0 \<Longrightarrow> sample_loop span limit r = (Ok x, r') \<Longrightarrow> x < span"
  by (induction span limit r rule: sample_loop.induct)
    (auto simp: word_mod_less_divisor word_gt_0 split: if_splits)

lemma unat_plus_one_u64: "mx \<noteq> - 1 \<Longrightarrow> unat (mx + 1 :: u64) = unat mx + 1"
proof -
  assume "mx \<noteq> - 1"
  then have "1 + mx \<noteq> 0" by (metis add.inverse_inverse add_eq_0_iff add.commute)
  then show ?thesis by (simp add: unatSuc add.commute)
qed

lemma sample_bound: "sample mx r = (Ok x, r') \<Longrightarrow> x \<le> mx"
proof -
  assume s: "sample mx r = (Ok x, r')"
  then have m: "mx \<noteq> - 1" by (auto simp: sample_def split: if_splits)
  then have "mx + 1 \<noteq> 0" by (metis add.inverse_inverse add_eq_0_iff)
  with s m have "x < mx + 1"
    by (auto simp: sample_def Let_def dest: sample_loop_bound)
  then show ?thesis using m by (simp add: word_less_nat_alt word_le_nat_alt unat_plus_one_u64)
qed


lemma sample_loop_total:
  "None \<notin> set r \<Longrightarrow> \<exists>x r'. sample_loop span limit r = (Ok x, r')"
  by (induction span limit r rule: sample_loop.induct) auto

lemma sent_delay_bounds:
  assumes "sent_delay bursting r = (Ok d, r')"
  shows "if bursting then unat d \<le> 16000 else 154000 \<le> unat d \<and> unat d \<le> 206000"
  using assms
  by (auto simp: sent_delay_def and_then_Ok_iff add_chk_Ok_iff word_le_nat_alt
      split: prod.splits if_splits dest!: sample_bound)

text \<open>The spacing invariant: nothing is scheduled within three seconds of the last transmission.\<close>

definition sched_inv :: "ra_scheduler \<Rightarrow> bool" where
  "sched_inv s \<longleftrightarrow> (\<forall>l. s_last s = Some l \<longrightarrow> unat l + 3000 \<le> unat (s_next s)
     \<and> (\<forall>t. s_response s = Some t \<longrightarrow> unat l + 3000 \<le> unat t))"

lemma spaced_Ok:
  "spaced s t = Ok u \<Longrightarrow> t \<le> u \<and> (\<forall>l. s_last s = Some l \<longrightarrow> unat l + 3000 \<le> unat u)"
  by (auto simp: spaced_def add_chk_def max_def word_le_nat_alt unat_word_ariths split: option.splits if_splits)

lemma set_next_Ok: "set_next s r x = (Ok (), t, r') \<longleftrightarrow> (\<exists>u. x = Ok u \<and> t = s\<lparr>s_next := u\<rparr> \<and> r' = r)"
  by (auto simp: set_next_def split: outcome.splits)

lemma sched_enable_inv: "sched_enable s now r = (Ok (), t, r') \<Longrightarrow> sched_inv t"
  by (auto simp: sched_enable_def set_next_Ok sched_inv_def Let_def and_then_Ok_iff
      dest: spaced_Ok split: prod.splits)

lemma sched_changed_inv: "sched_changed s now r = (Ok (), t, r') \<Longrightarrow> sched_inv s \<Longrightarrow> sched_inv t"
  by (auto simp: sched_changed_def set_next_Ok sched_inv_def Let_def and_then_Ok_iff min_def
      dest!: spaced_Ok split: prod.splits)

lemma sched_sent_inv: "sched_sent s now r = (Ok (), t, r') \<Longrightarrow> sched_inv t"
  by (auto simp: sched_sent_def set_next_Ok sched_inv_def Let_def and_then_Ok_iff
      dest!: spaced_Ok split: prod.splits if_splits)

lemma receive_rs_inv: "receive_rs s p now r = (Ok (), t, r') \<Longrightarrow> sched_inv s \<Longrightarrow> sched_inv t"
  by (auto simp: receive_rs_def sched_inv_def Let_def and_then_Ok_iff
      dest!: spaced_Ok split: prod.splits outcome.splits if_splits)

interpretation sched: call_invariant sched_start sched_call sched_inv
proof unfold_locales
  show "sched_inv s" if "sched_start s" for s
    using that by (auto simp: sched_start_def sched_new_def sched_inv_def Let_def and_then_Ok_iff split_beta)
  show "sched_inv t" if "sched_call s t" "sched_inv s" for s t
    using that
    by (cases rule: sched_call.cases)
      (auto intro: sched_enable_inv sched_changed_inv sched_sent_inv receive_rs_inv)
qed

section \<open>Properties\<close>

text \<open>
  Random delays are drawn correctly: a sample never exceeds the requested maximum, and with a
  source that does not fail the rejection loop always ends with a value.
\<close>

theorem sample_in_range:
  "(\<forall>x r'. sample mx r = (Ok x, r') \<longrightarrow> x \<le> mx)
   \<and> (mx \<noteq> - 1 \<longrightarrow> None \<notin> set r \<longrightarrow> (\<exists>x r'. sample mx r = (Ok x, r')))"
  using sample_bound sample_loop_total [of r] by (auto simp: sample_def Let_def)

theorem sample_in_range_witness: "\<exists>x r'. sample 16000 [Some (- 1), Some 99999] = (Ok x, r') \<and> x \<le> 16000"
proof -
  have "(16000 :: u64) \<noteq> - 1" by simp
  then obtain x r' where "sample 16000 [Some (- 1), Some 99999] = (Ok x, r')"
    using sample_in_range [of 16000 "[Some (- 1), Some 99999]"] by auto
  with sample_in_range [of 16000 "[Some (- 1), Some 99999]"] show ?thesis by blast
qed

text \<open>
  C38: Consecutive Router Advertisements are at least three seconds apart: in every state the
  scheduler can reach by successful calls, nothing is due before three seconds have passed
  since the last transmission, whatever was solicited, changed or enabled in between.
\<close>

theorem ra_spacing:
  assumes "sched_start s" and "sched_call\<^sup>*\<^sup>* s t" and "s_last t = Some l" and "due t now"
  shows "unat l + 3000 \<le> unat now"
proof -
  have "sched_inv t" using assms(1,2) by (rule sched.reachable_inv)
  with assms(3,4) show ?thesis
    by (auto simp: sched_inv_def due_def deadline_def word_le_nat_alt min_def split: option.splits if_splits)
qed

text \<open>Created at time zero and once transmitted: the next one is due at three seconds, not before.\<close>

definition fresh_sched :: ra_scheduler where
  "fresh_sched = \<lparr>s_next = 0, s_last = None, s_burst = 3, s_response = None\<rparr>"

definition once_sent :: ra_scheduler where
  "once_sent = \<lparr>s_next = 3000, s_last = Some 0, s_burst = 2, s_response = None\<rparr>"

lemma fresh_start: "sched_start fresh_sched"
proof -
  have "sched_new 0 [] = (Ok fresh_sched, [])"
    by (simp add: sched_new_def sample_def add_chk_def fresh_sched_def)
  then show ?thesis by (auto simp: sched_start_def)
qed

lemma fresh_sent: "sched_sent fresh_sched 0 [] = (Ok (), once_sent, [])"
  by (simp add: sched_sent_def fresh_sched_def once_sent_def sample_def add_chk_def spaced_def
      saturating_sub_def set_next_def sent_delay_def)

theorem ra_spacing_witness: "due once_sent 3000 \<and> unat (0 :: u64) + 3000 \<le> unat (3000 :: u64)"
proof -
  have "sched_call\<^sup>*\<^sup>* fresh_sched once_sent"
    using fresh_sent by (intro r_into_rtranclp sched_call.sent)
  moreover have "due once_sent 3000" by (simp add: due_def deadline_def once_sent_def)
  ultimately show ?thesis
    using ra_spacing [OF fresh_start, of once_sent 0 3000] by (simp add: once_sent_def)
qed

text \<open>
  The interval to the next unsolicited advertisement: after a transmission it is between 3
  and 16 seconds while the initial burst of three lasts, and between 154 and 206 seconds
  afterwards; the burst counter goes down by one and a pending solicited response is cleared.
\<close>

theorem ra_interval:
  assumes "sched_sent s now r = (Ok (), t, r')"
  shows "s_last t = Some now \<and> s_response t = None \<and> unat (s_burst t) = unat (s_burst s) - 1
    \<and> unat now + 3000 \<le> unat (s_next t)
    \<and> (if 1 < s_burst s then unat (s_next t) \<le> unat now + 16000
       else unat now + 154000 \<le> unat (s_next t) \<and> unat (s_next t) \<le> unat now + 206000)"
proof -
  let ?b = "saturating_sub (s_burst s) 1"
  let ?s = "s\<lparr>s_response := None, s_last := Some now, s_burst := ?b\<rparr>"
  have b: "unat ?b = unat (s_burst s) - 1" by (simp add: unat_saturating_sub)
  then have pos: "0 < ?b \<longleftrightarrow> 1 < s_burst s" by (simp add: word_less_nat_alt)
  obtain d u where delay: "if 0 < ?b then unat d \<le> 16000 else 154000 \<le> unat d \<and> unat d \<le> 206000"
    and add: "unat now + unat d < 2 ^ 64" and u: "spaced ?s (now + d) = Ok u" and t: "t = ?s\<lparr>s_next := u\<rparr>"
    using assms
    by (auto simp: sched_sent_def Let_def set_next_Ok and_then_Ok_iff add_chk_Ok_iff
        split: prod.splits dest!: sent_delay_bounds)
  have nd: "unat (now + d) = unat now + unat d" using add by (simp add: unat_word_ariths)
  have "unat u = max (unat now + unat d) (unat now + 3000)"
    using u nd by (auto simp: spaced_def add_chk_def max_def word_le_nat_alt unat_word_ariths split: if_splits)
  then show ?thesis using delay t b pos by (auto split: if_splits)
qed

theorem ra_interval_witness: "unat (s_next once_sent) \<le> 16000 \<and> s_last once_sent = Some 0"
  using ra_interval [OF fresh_sent] by (simp add: fresh_sched_def)

text \<open>
  A lifetime taken from a 32-bit field is read back unchanged at the same instant unless the
  millisecond clock saturates, the all-ones value is infinite and never expires, and a finite
  one is live exactly before its deadline.
\<close>

theorem lifetime_roundtrip:
  assumes "unat now + 1000 * unat seconds < 2 ^ 64"
  shows "lifetime_remaining (lifetime_from_secs now seconds) now = seconds
    \<and> (lifetime_live (lifetime_from_secs now seconds) later
        \<longleftrightarrow> seconds = - 1 \<or> unat later < unat now + 1000 * unat seconds)"
proof (cases "seconds = - 1")
  case True
  then show ?thesis by (simp add: lifetime_from_secs_def)
next
  case False
  let ?ms = "ucast seconds * 1000 :: u64"
  have ms: "unat ?ms = 1000 * unat seconds" using assms by (simp add: unat_word_ariths)
  then have t: "unat (saturating_add now ?ms) = unat now + 1000 * unat seconds"
    using assms by (simp add: unat_saturating_add)
  then have "unat (saturating_sub (saturating_add now ?ms) now div 1000) = unat seconds"
    by (simp add: unat_div_distrib unat_saturating_sub)
  then have q: "saturating_sub (saturating_add now ?ms) now div 1000 = ucast seconds"
    by (simp add: word_unat_eq_iff)
  have "(ucast seconds :: u64) \<le> ucast (- 1 :: u32)"
    using word_n1_ge [of seconds] unfolding word_le_nat_alt by (simp only: unat_ucast_u32_u64)
  then have "lifetime_remaining (lifetime_from_secs now seconds) now = seconds"
    using False by (simp add: lifetime_from_secs_def q min_absorb1)
  then show ?thesis using False t by (simp add: lifetime_from_secs_def word_less_nat_alt)
qed

theorem lifetime_roundtrip_witness:
  "lifetime_remaining (lifetime_from_secs 5000 1800) 5000 = 1800
   \<and> lifetime_live (lifetime_from_secs 5000 1800) 1804999 \<and> \<not> lifetime_live (lifetime_from_secs 5000 1800) 1805000"
  using lifetime_roundtrip [of 5000 1800 1804999] lifetime_roundtrip [of 5000 1800 1805000] by simp

end
