(* ===== verification/Nat64_Bindings.thy ===== *)
theory Nat64_Bindings
  imports Ports Nat64_Tables Time_Sched
begin

text \<open>
  The binding and session tables of \<open>nat64/bindings.rs\<close>, \<open>nat64/bindings/tcp.rs\<close> and
  \<open>nat64/bindings/icmp.rs\<close>: every method, over the four ordered maps, the port registry and the
  counters of the source. \<open>usize\<close> subtraction, \<open>unwrap\<close> and indexing that the source takes for
  granted are checked here and may panic; that they never do is proved in
  \<open>Nat64_Bindings_Inv\<close>.
\<close>

section \<open>Definitions\<close>

text \<open>\<open>Key\<close>: protocol, IPv6 host, its port or identifier, and the translation domain.\<close>

type_synonym bkey = "u8 \<times> ipv6 \<times> u16 \<times> ipv6"
type_synonym sock4 = "ipv4 \<times> u16"
type_synonym skey = "bkey \<times> sock4"

abbreviation k_protocol :: "bkey \<Rightarrow> u8" where "k_protocol k \<equiv> fst k"
abbreviation k_host :: "bkey \<Rightarrow> ipv6" where "k_host k \<equiv> fst (snd k)"
abbreviation k_port :: "bkey \<Rightarrow> u16" where "k_port k \<equiv> fst (snd (snd k))"
abbreviation k_domain :: "bkey \<Rightarrow> ipv6" where "k_domain k \<equiv> snd (snd (snd k))"

datatype udp_filtering = AddressDependent | EndpointIndependent

record binding =
  b_lease :: held
  b_port :: u16
  b_sessions :: nat

record session =
  se_expires :: u64
  se_tcp :: "tcp_state option"
  se_probe :: bool
  se_quote :: bytes

record bindings =
  bi_domain :: ipv6
  bi_ports :: ports
  bi_bindings :: "(bkey, binding) btree"
  bi_reverse :: "(u8 \<times> u16, bkey) btree"
  bi_sessions :: "(skey, session) btree"
  bi_hosts :: "(ipv6, nat \<times> nat) btree"
  bi_next :: "u64 option"
  bi_udp_filtering :: udp_filtering
  bi_udp_seconds :: u32
  bi_icmp_seconds :: u32
  bi_tcp_timeouts :: "bytes list"
  bi_tcp_quote_bytes :: nat

definition with_ports :: "ports \<Rightarrow> bindings" where
  "with_ports p = \<lparr>bi_domain = 0, bi_ports = p, bi_bindings = bt_empty, bi_reverse = bt_empty,
     bi_sessions = bt_empty, bi_hosts = bt_empty, bi_next = None, bi_udp_filtering = AddressDependent,
     bi_udp_seconds = 300, bi_icmp_seconds = 60, bi_tcp_timeouts = [], bi_tcp_quote_bytes = 0\<rparr>"

text \<open>\<open>entry(h).or_default()\<close> followed by an update.\<close>

definition host_update :: "ipv6 \<Rightarrow> (nat \<times> nat \<Rightarrow> nat \<times> nat) \<Rightarrow> (ipv6, nat \<times> nat) btree \<Rightarrow> (ipv6, nat \<times> nat) btree" where
  "host_update h f m = bt_insert h (f (case bt_get m h of None \<Rightarrow> (0, 0) | Some c \<Rightarrow> c)) m"

definition domain_for :: "bindings \<Rightarrow> u8 \<Rightarrow> u16 \<Rightarrow> ipv6 option" where
  "domain_for s protocol port = map_option k_domain (bt_get (bi_reverse s) (protocol, port))"

text \<open>The leases of bindings that go out of scope are dropped one after the other.\<close>

fun drop_leases :: "held list \<Rightarrow> ports \<Rightarrow> (io_error, ports) outcome" where
  "drop_leases [] p = Ok p"
| "drop_leases (h # hs) p = (case held_drop h p of (r, p') \<Rightarrow> and_then r (\<lambda>_. drop_leases hs p'))"

definition retain_domains :: "prefix list \<Rightarrow> bindings \<Rightarrow> (io_error, bindings) outcome" where
  "retain_domains domains s =
     (let keep = (\<lambda>key. list_ex (\<lambda>p. px_address p = k_domain key) domains);
          sessions = bt_retain (\<lambda>(key, _) _. keep key) (bi_sessions s);
          dropped = bt_values (bt_retain (\<lambda>key _. \<not> keep key) (bi_bindings s));
          binds = bt_retain (\<lambda>key _. keep key) (bi_bindings s);
          hosts = foldl (\<lambda>m key. host_update (k_host key) (\<lambda>(b, n). (b + 1, n)) m) bt_empty (bt_keys binds);
          hosts = foldl (\<lambda>m (key, _). host_update (k_host key) (\<lambda>(b, n). (b, n + 1)) m) hosts (bt_keys sessions)
      in and_then (drop_leases (map b_lease dropped) (bi_ports s)) (\<lambda>p.
        Ok (s\<lparr>bi_ports := p, bi_sessions := sessions, bi_bindings := binds,
            bi_reverse := bt_retain (\<lambda>_ key. keep key) (bi_reverse s), bi_hosts := hosts,
            bi_tcp_quote_bytes := bt_sum (\<lambda>_ e. length (se_quote e)) sessions,
            bi_next := list_min (map se_expires (bt_values sessions))\<rparr>)))"

definition owns :: "bindings \<Rightarrow> u8 \<Rightarrow> u16 \<Rightarrow> bool" where
  "owns s protocol port \<longleftrightarrow> bt_contains (bi_reverse s) (protocol, port)"

definition live_session :: "bindings \<Rightarrow> skey \<Rightarrow> u64 \<Rightarrow> bool" where
  "live_session s sk now \<longleftrightarrow> (case bt_get (bi_sessions s) sk of None \<Rightarrow> False | Some e \<Rightarrow> now < se_expires e)"

definition error_in :: "bindings \<Rightarrow> u8 \<Rightarrow> u16 \<Rightarrow> sock4 \<Rightarrow> u64 \<Rightarrow> (ipv6 \<times> u16) option" where
  "error_in s protocol port remote now =
     (case bt_get (bi_reverse s) (protocol, port) of None \<Rightarrow> None
      | Some key \<Rightarrow> if live_session s (key, remote) now then Some (k_host key, k_port key) else None)"

definition error_out :: "bindings \<Rightarrow> u8 \<Rightarrow> ipv6 \<Rightarrow> u16 \<Rightarrow> sock4 \<Rightarrow> u64 \<Rightarrow> u16 option" where
  "error_out s protocol host port remote now =
     (let key = (protocol, host, port, bi_domain s) in
      if live_session s (key, remote) now then map_option b_port (bt_get (bi_bindings s) key) else None)"

definition bind_counts :: "bindings \<Rightarrow> nat \<times> nat \<times> nat" where
  "bind_counts s = (bt_len (bi_bindings s), bt_len (bi_sessions s), bt_len (bi_hosts s))"

definition charged_bytes :: "bindings \<Rightarrow> nat" where
  "charged_bytes s = bt_len (bi_bindings s) * 192 + bt_len (bi_reverse s) * 96 + bt_len (bi_sessions s) * 256
     + bt_len (bi_hosts s) * 128 + length (bi_tcp_timeouts s) * 128 + bi_tcp_quote_bytes s"

definition bind_next_deadline :: "bindings \<Rightarrow> u64 option" where
  "bind_next_deadline s =
     (if bi_tcp_timeouts s \<noteq> [] \<or> list_ex se_probe (bt_values (bi_sessions s)) then Some 0 else bi_next s)"

definition set_udp_filtering :: "udp_filtering \<Rightarrow> bindings \<Rightarrow> bindings" where
  "set_udp_filtering f s = s\<lparr>bi_udp_filtering := f\<rparr>"

definition set_udp_timeout :: "u32 \<Rightarrow> bindings \<Rightarrow> (io_error, unit) outcome \<times> bindings" where
  "set_udp_timeout seconds s =
     (if 120 \<le> seconds \<and> seconds \<le> 86400 then (Ok (), s\<lparr>bi_udp_seconds := seconds\<rparr>) else (Err InvalidInput, s))"

subsection \<open>Expiry\<close>

text \<open>The first loop: an established session whose time is up becomes transitory and is probed.\<close>

definition demote :: "u64 \<Rightarrow> session \<Rightarrow> session" where
  "demote now e =
     (if se_expires e \<le> now \<and> se_tcp e = Some Established then
        let x = saturating_add (se_expires e) transitory_ms in
        e\<lparr>se_tcp := Some Transitory, se_expires := x, se_probe := now < x\<rparr>
      else e)"

text \<open>The body of the second loop, for one expired session.\<close>

definition expire_one :: "skey \<Rightarrow> bindings \<times> (u8 \<times> u16) list \<Rightarrow> (io_error, bindings \<times> (u8 \<times> u16) list) outcome" where
  "expire_one sk st = (case st of (s, released) \<Rightarrow>
     let key = fst sk in
     and_then (unwrap (bt_get (bi_sessions s) sk)) (\<lambda>e.
     let s = s\<lparr>bi_sessions := bt_remove sk (bi_sessions s)\<rparr> in
     and_then (sub_chk (bi_tcp_quote_bytes s) (length (se_quote e))) (\<lambda>q.
     let s = s\<lparr>bi_tcp_quote_bytes := q\<rparr>;
         s = (if se_tcp e = Some V4Init \<and> se_quote e \<noteq> [] \<and> length (bi_tcp_timeouts s) < 32
              then s\<lparr>bi_tcp_timeouts := bi_tcp_timeouts s @ [se_quote e]\<rparr> else s) in
     and_then (unwrap (bt_get (bi_bindings s) key)) (\<lambda>b.
     and_then (sub_chk (b_sessions b) 1) (\<lambda>n.
     and_then (unwrap (bt_get (bi_hosts s) (k_host key))) (\<lambda>host.
     and_then (sub_chk (snd host) 1) (\<lambda>h1.
     if n = 0 then
       and_then (drop_leases [b_lease b] (bi_ports s)) (\<lambda>p.
       and_then (sub_chk (fst host) 1) (\<lambda>h0.
         Ok (s\<lparr>bi_ports := p, bi_bindings := bt_remove key (bi_bindings s),
               bi_reverse := bt_remove (k_protocol key, b_port b) (bi_reverse s),
               bi_hosts := (if h0 = 0 then bt_remove (k_host key) (bi_hosts s)
                            else bt_insert (k_host key) (h0, h1) (bi_hosts s))\<rparr>,
             released @ [(k_protocol key, b_port b)])))
     else
       Ok (s\<lparr>bi_bindings := bt_insert key (b\<lparr>b_sessions := n\<rparr>) (bi_bindings s),
             bi_hosts := (if fst host = 0 then bt_remove (k_host key) (bi_hosts s)
                          else bt_insert (k_host key) (fst host, h1) (bi_hosts s))\<rparr>, released))))))))"

fun expire_loop :: "skey list \<Rightarrow> bindings \<times> (u8 \<times> u16) list \<Rightarrow> (io_error, bindings \<times> (u8 \<times> u16) list) outcome" where
  "expire_loop [] st = Ok st"
| "expire_loop (sk # sks) st = and_then (expire_one sk st) (expire_loop sks)"

definition expire :: "u64 \<Rightarrow> bindings \<Rightarrow> (io_error, bindings \<times> (u8 \<times> u16) list) outcome" where
  "expire now s =
     (if (case bi_next s of None \<Rightarrow> True | Some t \<Rightarrow> now < t) then Ok (s, [])
      else
        let s = s\<lparr>bi_sessions := bt_map (\<lambda>_. demote now) (bi_sessions s)\<rparr>;
            old = bt_keys (bt_retain (\<lambda>_ e. se_expires e \<le> now) (bi_sessions s))
        in and_then (expire_loop old (s, [])) (\<lambda>(s, released).
          Ok (s\<lparr>bi_next := list_min (map se_expires (bt_values (bi_sessions s)))\<rparr>, released)))"

definition bind_clear :: "bindings \<Rightarrow> (io_error, bindings \<times> (u8 \<times> u16) list) outcome" where
  "bind_clear s =
     and_then (drop_leases (map b_lease (bt_values (bi_bindings s))) (bi_ports s)) (\<lambda>p.
       Ok (s\<lparr>bi_ports := p, bi_bindings := bt_empty, bi_reverse := bt_empty, bi_sessions := bt_empty,
             bi_hosts := bt_empty, bi_next := None, bi_tcp_timeouts := [], bi_tcp_quote_bytes := 0\<rparr>,
           bt_keys (bi_reverse s)))"

subsection \<open>Admission and allocation\<close>

definition admit :: "bindings \<Rightarrow> bkey \<Rightarrow> sock4 \<Rightarrow> (io_error, unit) outcome" where
  "admit s key remote =
     (let (binds, sess) = (case bt_get (bi_hosts s) (k_host key) of None \<Rightarrow> (0, 0) | Some c \<Rightarrow> c);
          new_binding = \<not> bt_contains (bi_bindings s) key;
          new_session = \<not> bt_contains (bi_sessions s) (key, remote);
          bytes = (if new_binding then 288 else 0)
            + (if \<not> bt_contains (bi_hosts s) (k_host key) then 128 else 0) + (if new_session then 256 else 0)
      in if 4194304 < charged_bytes s + bytes
            \<or> new_binding \<and> (4096 \<le> bt_len (bi_bindings s) \<or> 128 \<le> binds)
            \<or> new_session \<and> (8192 \<le> bt_len (bi_sessions s) \<or> 256 \<le> sess)
         then Err WouldBlock else Ok ())"

definition port_free :: "bindings \<Rightarrow> (u16 \<Rightarrow> bool) \<Rightarrow> u8 \<Rightarrow> u16 \<Rightarrow> bool" where
  "port_free s occupied protocol p \<longleftrightarrow> \<not> bt_contains (bi_reverse s) (protocol, p)
     \<and> \<not> ports_occupied (bi_ports s) protocol p \<and> \<not> occupied p"

definition alloc_first :: "bool \<times> u16 \<Rightarrow> u16" where
  "alloc_first c = (if fst c then 1024 + snd c else if snd c = 0 then 2 else 1)"

definition alloc_count :: "bool \<times> u16 \<Rightarrow> nat" where
  "alloc_count c = (if fst c then 32256 else if snd c = 0 then 511 else 512)"

definition alloc_candidate :: "bool \<times> u16 \<Rightarrow> u64 \<Rightarrow> nat \<Rightarrow> u16" where
  "alloc_candidate c start n = alloc_first c + of_nat ((unat start + n) mod alloc_count c * 2)"

fun alloc_loop :: "(u16 \<Rightarrow> bool) \<Rightarrow> (bool \<times> u16) list \<Rightarrow> rng \<Rightarrow> (io_error, u16) outcome \<times> rng" where
  "alloc_loop free [] r = (Err WouldBlock, r)"
| "alloc_loop free (c # cs) r =
     (case sample (of_nat (alloc_count c - 1)) r of
        (Ok start, r') \<Rightarrow>
          (case find free (map (alloc_candidate c start) [0..<min (alloc_count c) 8192]) of
             Some p \<Rightarrow> (Ok p, r')
           | None \<Rightarrow> alloc_loop free cs r')
      | (Err e, r') \<Rightarrow> (Err e, r')
      | (Panic, r') \<Rightarrow> (Panic, r'))"

definition allocate :: "bindings \<Rightarrow> u8 \<Rightarrow> u16 \<Rightarrow> rng \<Rightarrow> (u16 \<Rightarrow> bool) \<Rightarrow> (io_error, u16) outcome \<times> rng" where
  "allocate s protocol port r occupied =
     (let free = port_free s occupied protocol in
      if (port \<noteq> 0 \<or> protocol = 1) \<and> free port then (Ok port, r)
      else alloc_loop free
        [(high, parity). high \<leftarrow> [1024 \<le> port, port < 1024], parity \<leftarrow> [port mod 2, 1 - port mod 2]] r)"

subsection \<open>Calls that change the table and may fail\<close>

definition run_expire :: "u64 \<Rightarrow> bindings \<Rightarrow> (io_error, unit) outcome \<times> bindings" where
  "run_expire now = modify (\<lambda>s. map_ok fst (expire now s))"

text \<open>
  The block that finds the port of a binding or creates the binding; it is the same in
  \<open>udp_out\<close>, \<open>tcp_out\<close> and \<open>icmp_out\<close>.
\<close>

definition new_binding :: "bkey \<Rightarrow> u16 \<Rightarrow> held \<Rightarrow> bindings \<Rightarrow> bindings" where
  "new_binding key p lease s =
     s\<lparr>bi_bindings := bt_insert key \<lparr>b_lease = lease, b_port = p, b_sessions = 0\<rparr> (bi_bindings s),
       bi_reverse := bt_insert (k_protocol key, p) key (bi_reverse s),
       bi_hosts := host_update (k_host key) (\<lambda>(b, n). (b + 1, n)) (bi_hosts s)\<rparr>"

definition assign_port :: "bkey \<Rightarrow> (u16 \<Rightarrow> bool) \<Rightarrow> bindings \<times> rng \<Rightarrow> (io_error, u16) outcome \<times> bindings \<times> rng" where
  "assign_port key occupied sr =
     (case bt_get (bi_bindings (fst sr)) key of
        Some b \<Rightarrow> (Ok (b_port b), sr)
      | None \<Rightarrow>
          (case allocate (fst sr) (k_protocol key) (k_port key) (snd sr) occupied of (a, r) \<Rightarrow>
             then_do (a, fst sr, r) (\<lambda>p (s, r).
               case ports_claim (bi_ports s) (k_protocol key) p Translation of (l, ps) \<Rightarrow>
                 then_do (l, s\<lparr>bi_ports := ps\<rparr>, r) (\<lambda>lease (s, r). (Ok p, new_binding key p lease s, r)))))"

definition count_session :: "bkey \<Rightarrow> bindings \<Rightarrow> (io_error, bindings) outcome" where
  "count_session key s =
     and_then (unwrap (bt_get (bi_bindings s) key)) (\<lambda>b.
       let s = s\<lparr>bi_bindings := bt_insert key (b\<lparr>b_sessions := b_sessions b + 1\<rparr>) (bi_bindings s)\<rparr> in
       and_then (unwrap (bt_get (bi_hosts s) (k_host key))) (\<lambda>(hb, hn).
         Ok (s\<lparr>bi_hosts := bt_insert (k_host key) (hb, hn + 1) (bi_hosts s)\<rparr>)))"

definition earliest :: "u64 option \<Rightarrow> u64 \<Rightarrow> u64" where
  "earliest t expires = (case t of None \<Rightarrow> expires | Some old \<Rightarrow> min old expires)"

text \<open>\<open>udp_session\<close> and \<open>icmp_session\<close>, which differ in the timeout and the remote port only.\<close>

definition query_session :: "bkey \<Rightarrow> sock4 \<Rightarrow> u64 \<Rightarrow> bindings \<Rightarrow> (io_error, bindings) outcome" where
  "query_session key remote expires s =
     (let fresh = \<not> bt_contains (bi_sessions s) (key, remote);
          s = s\<lparr>bi_sessions := bt_insert (key, remote)
                 \<lparr>se_expires = expires, se_tcp = None, se_probe = False, se_quote = []\<rparr> (bi_sessions s)\<rparr>
      in and_then (if fresh then count_session key s else Ok s) (\<lambda>s.
        Ok (s\<lparr>bi_next := Some (earliest (bi_next s) expires)\<rparr>)))"

definition udp_session :: "bkey \<Rightarrow> sock4 \<Rightarrow> u64 \<Rightarrow> bindings \<Rightarrow> (io_error, bindings) outcome" where
  "udp_session key remote now s =
     query_session key remote (saturating_add now (ucast (bi_udp_seconds s) * 1000)) s"

definition icmp_session :: "bkey \<Rightarrow> ipv4 \<Rightarrow> u64 \<Rightarrow> bindings \<Rightarrow> (io_error, bindings) outcome" where
  "icmp_session key remote now s =
     query_session key (remote, 0) (saturating_add now (ucast (bi_icmp_seconds s) * 1000)) s"

definition udp_out :: "ipv6 \<Rightarrow> u16 \<Rightarrow> sock4 \<Rightarrow> u64 \<Rightarrow> (u16 \<Rightarrow> bool) \<Rightarrow> bindings \<times> rng
    \<Rightarrow> (io_error, u16) outcome \<times> bindings \<times> rng" where
  "udp_out source port remote now occupied sr =
     then_do (on_fst (run_expire now) sr) (\<lambda>_ sr.
     let key = (17, source, port, bi_domain (fst sr)) in
     then_do (inspect (admit (fst sr) key remote) sr) (\<lambda>_ sr.
     then_do (assign_port key occupied sr) (\<lambda>assigned sr.
     then_do (on_fst (modify (udp_session key remote now)) sr) (\<lambda>_ sr. (Ok assigned, sr)))))"

definition udp_filtered :: "bindings \<Rightarrow> bkey \<Rightarrow> sock4 \<Rightarrow> bool" where
  "udp_filtered s key remote \<longleftrightarrow> bi_udp_filtering s = AddressDependent
     \<and> \<not> list_ex (\<lambda>k. (key, (fst remote, 0)) \<le> k \<and> k \<le> (key, (fst remote, - 1))) (bt_keys (bi_sessions s))"

definition udp_in :: "u16 \<Rightarrow> sock4 \<Rightarrow> u64 \<Rightarrow> bindings \<Rightarrow> (io_error, (ipv6 \<times> u16) option) outcome \<times> bindings" where
  "udp_in port remote now s =
     then_do (run_expire now s) (\<lambda>_ s.
     case bt_get (bi_reverse s) (17, port) of
       None \<Rightarrow> (Ok None, s)
     | Some key \<Rightarrow>
         if udp_filtered s key remote then (Ok None, s)
         else
           then_do (inspect (admit s key remote) s) (\<lambda>_ s.
           then_do (modify (udp_session key remote now) s) (\<lambda>_ s.
             (Ok (Some (k_host key, k_port key)), s\<lparr>bi_domain := k_domain key\<rparr>))))"

subsection \<open>ICMP queries\<close>

definition set_icmp_timeout :: "u32 \<Rightarrow> bindings \<Rightarrow> (io_error, unit) outcome \<times> bindings" where
  "set_icmp_timeout seconds s =
     (if 60 \<le> seconds \<and> seconds \<le> 86400 then (Ok (), s\<lparr>bi_icmp_seconds := seconds\<rparr>) else (Err InvalidInput, s))"

definition icmp_out :: "ipv6 \<Rightarrow> u16 \<Rightarrow> ipv4 \<Rightarrow> u64 \<Rightarrow> bindings \<times> rng \<Rightarrow> (io_error, u16) outcome \<times> bindings \<times> rng" where
  "icmp_out source ident remote now sr =
     then_do (on_fst (run_expire now) sr) (\<lambda>_ sr.
     let key = (1, source, ident, bi_domain (fst sr)) in
     then_do (inspect (admit (fst sr) key (remote, 0)) sr) (\<lambda>_ sr.
     then_do (assign_port key (\<lambda>_. False) sr) (\<lambda>assigned sr.
     then_do (on_fst (modify (icmp_session key remote now)) sr) (\<lambda>_ sr. (Ok assigned, sr)))))"

definition icmp_in :: "u16 \<Rightarrow> ipv4 \<Rightarrow> u64 \<Rightarrow> bindings \<Rightarrow> (io_error, (ipv6 \<times> u16) option) outcome \<times> bindings" where
  "icmp_in ident remote now s =
     then_do (run_expire now s) (\<lambda>_ s.
     case bt_get (bi_reverse s) (1, ident) of
       None \<Rightarrow> (Ok None, s)
     | Some key \<Rightarrow>
         if \<not> bt_contains (bi_sessions s) (key, (remote, 0)) then (Ok None, s)
         else
           then_do (modify (icmp_session key remote now) s) (\<lambda>_ s.
             (Ok (Some (k_host key, k_port key)), s\<lparr>bi_domain := k_domain key\<rparr>)))"

subsection \<open>TCP\<close>

definition tcp_timeout_load :: "bindings \<Rightarrow> nat \<times> nat" where
  "tcp_timeout_load s = (length (bi_tcp_timeouts s), sum_list (map length (bi_tcp_timeouts s)))"

definition take_tcp_timeouts :: "nat \<Rightarrow> bindings \<Rightarrow> bytes list \<times> bindings" where
  "take_tcp_timeouts limit s =
     (let n = min (min limit 32) (length (bi_tcp_timeouts s)) in
      (take n (bi_tcp_timeouts s), s\<lparr>bi_tcp_timeouts := drop n (bi_tcp_timeouts s)\<rparr>))"

definition quote_length :: "u8 \<Rightarrow> bytes \<Rightarrow> nat" where
  "quote_length b0 packet = min (min (unat (b0 AND 15) * 4 + 8) (length packet)) 68"

definition remember_tcp_syn :: "u16 \<Rightarrow> sock4 \<Rightarrow> bytes \<Rightarrow> bindings \<Rightarrow> (io_error, bindings) outcome" where
  "remember_tcp_syn port remote packet s =
     (case bt_get (bi_reverse s) (6, port) of None \<Rightarrow> Ok s | Some key \<Rightarrow>
       (case bt_get (bi_sessions s) (key, remote) of None \<Rightarrow> Ok s | Some e \<Rightarrow>
         if se_tcp e = Some V4Init \<and> se_quote e = [] then
           and_then (idx packet 0) (\<lambda>b0.
             let quote = take (quote_length b0 packet) packet in
             Ok (s\<lparr>bi_sessions := bt_insert (key, remote) (e\<lparr>se_quote := quote\<rparr>) (bi_sessions s),
                   bi_tcp_quote_bytes := bi_tcp_quote_bytes s + length quote\<rparr>))
         else Ok s))"

definition tcp_state_of :: "bindings \<Rightarrow> ipv6 \<Rightarrow> u16 \<Rightarrow> sock4 \<Rightarrow> (tcp_state \<times> u64) option" where
  "tcp_state_of s source port remote =
     (case bt_get (bi_sessions s) ((6, source, port, bi_domain s), remote) of None \<Rightarrow> None
      | Some e \<Rightarrow> map_option (\<lambda>st. (st, se_expires e)) (se_tcp e))"

type_synonym tcp_probe = "ipv6 \<times> u16 \<times> u16 \<times> sock4"

fun probe_loop :: "nat \<Rightarrow> skey list \<Rightarrow> bindings \<Rightarrow> tcp_probe list \<Rightarrow> (io_error, bindings \<times> tcp_probe list) outcome" where
  "probe_loop limit [] s out = Ok (s, out)"
| "probe_loop limit (sk # sks) s out =
     (if limit \<le> length out then Ok (s, out)
      else case bt_get (bi_sessions s) sk of
        None \<Rightarrow> probe_loop limit sks s out
      | Some e \<Rightarrow>
          if se_probe e then
            and_then (unwrap (bt_get (bi_bindings s) (fst sk))) (\<lambda>b.
              probe_loop limit sks (s\<lparr>bi_sessions := bt_insert sk (e\<lparr>se_probe := False\<rparr>) (bi_sessions s)\<rparr>)
                (out @ [(k_host (fst sk), k_port (fst sk), b_port b, snd sk)]))
          else probe_loop limit sks s out)"

definition take_tcp_probes :: "nat \<Rightarrow> bindings \<Rightarrow> (io_error, bindings \<times> tcp_probe list) outcome" where
  "take_tcp_probes limit s = probe_loop (min limit 32) (bt_keys (bi_sessions s)) s []"

definition tcp_session :: "bkey \<Rightarrow> sock4 \<Rightarrow> bool \<Rightarrow> u8 \<Rightarrow> u64 \<Rightarrow> bindings \<Rightarrow> (io_error, bindings) outcome" where
  "tcp_session key remote v6 flags now s =
     and_then
       (case bt_get (bi_sessions s) (key, remote) of
          Some e \<Rightarrow>
            and_then (unwrap (se_tcp e)) (\<lambda>st0.
              case tcp_packet st0 v6 flags (se_expires e) now of (st, expires) \<Rightarrow>
              and_then (if st \<noteq> V4Init then map_ok (\<lambda>q. (q, [])) (sub_chk (bi_tcp_quote_bytes s) (length (se_quote e)))
                        else Ok (bi_tcp_quote_bytes s, se_quote e)) (\<lambda>(q, quote).
                Ok (s\<lparr>bi_tcp_quote_bytes := q,
                      bi_sessions := bt_insert (key, remote)
                        \<lparr>se_expires = expires, se_tcp = Some st, se_probe = False, se_quote = quote\<rparr> (bi_sessions s)\<rparr>,
                    expires)))
        | None \<Rightarrow>
            let expires = saturating_add now transitory_ms;
                s = s\<lparr>bi_sessions := bt_insert (key, remote)
                      \<lparr>se_expires = expires, se_tcp = Some (if v6 then V6Init else V4Init), se_probe = False,
                       se_quote = []\<rparr> (bi_sessions s)\<rparr>
            in map_ok (\<lambda>s. (s, expires)) (count_session key s))
       (\<lambda>(s, expires). Ok (s\<lparr>bi_next := Some (earliest (bi_next s) expires)\<rparr>))"

definition tcp_out :: "ipv6 \<Rightarrow> u16 \<Rightarrow> sock4 \<Rightarrow> u8 \<Rightarrow> u64 \<Rightarrow> bindings \<times> rng
    \<Rightarrow> (io_error, u16 option) outcome \<times> bindings \<times> rng" where
  "tcp_out source port remote flags now sr =
     then_do (on_fst (run_expire now) sr) (\<lambda>_ sr.
     let key = (6, source, port, bi_domain (fst sr)) in
     if \<not> bt_contains (bi_sessions (fst sr)) (key, remote) \<and> \<not> syn flags then (Ok None, sr)
     else
       then_do (inspect (admit (fst sr) key remote) sr) (\<lambda>_ sr.
       then_do (assign_port key (\<lambda>_. False) sr) (\<lambda>assigned sr.
       then_do (on_fst (modify (tcp_session key remote True flags now)) sr) (\<lambda>_ sr. (Ok (Some assigned), sr)))))"

definition tcp_in :: "u16 \<Rightarrow> sock4 \<Rightarrow> u8 \<Rightarrow> u64 \<Rightarrow> bindings \<Rightarrow> (io_error, (ipv6 \<times> u16) option) outcome \<times> bindings" where
  "tcp_in port remote flags now s =
     then_do (run_expire now s) (\<lambda>_ s.
     case bt_get (bi_reverse s) (6, port) of
       None \<Rightarrow> (Ok None, s)
     | Some key \<Rightarrow>
         if \<not> bt_contains (bi_sessions s) (key, remote) \<and> \<not> syn flags then (Ok None, s)
         else
           then_do (inspect (admit s key remote) s) (\<lambda>_ s.
           then_do (modify (tcp_session key remote False flags now) s) (\<lambda>_ s.
             (Ok (Some (k_host key, k_port key)), s\<lparr>bi_domain := k_domain key\<rparr>))))"

definition needs_quote :: "bindings \<Rightarrow> skey \<Rightarrow> u8 \<Rightarrow> bool" where
  "needs_quote s sk flags \<longleftrightarrow> syn flags
     \<and> (case bt_get (bi_sessions s) sk of None \<Rightarrow> True | Some e \<Rightarrow> se_tcp e = Some V4Init \<and> se_quote e = [])"

definition quote_room :: "bindings \<Rightarrow> skey \<Rightarrow> bytes \<Rightarrow> (io_error, unit) outcome" where
  "quote_room s sk packet =
     and_then (idx packet 0) (\<lambda>b0.
       let added = quote_length b0 packet + (if bt_contains (bi_sessions s) sk then 0 else 256) in
       if 4194304 < charged_bytes s + added then Err WouldBlock else Ok ())"

definition tcp_in_packet :: "u16 \<Rightarrow> sock4 \<Rightarrow> u8 \<Rightarrow> u64 \<Rightarrow> bytes \<Rightarrow> bindings
    \<Rightarrow> (io_error, (ipv6 \<times> u16) option) outcome \<times> bindings" where
  "tcp_in_packet port remote flags now packet s =
     then_do (run_expire now s) (\<lambda>_ s.
     case bt_get (bi_reverse s) (6, port) of
       None \<Rightarrow> (Ok None, s)
     | Some key \<Rightarrow>
         let quote = needs_quote s (key, remote) flags in
         then_do (inspect (if quote then quote_room s (key, remote) packet else Ok ()) s) (\<lambda>_ s.
         then_do (tcp_in port remote flags now s) (\<lambda>result s.
         then_do (modify (\<lambda>s. if quote \<and> result \<noteq> None then remember_tcp_syn port remote packet s else Ok s) s)
           (\<lambda>_ s. (Ok result, s)))))"

end
