(* ===== verification/Nat64_Bindings_Inv.thy ===== *)
theory Nat64_Bindings_Inv
  imports Nat64_Bindings
begin

text \<open>
  The consistency invariant of the binding tables and the steps that keep it: the two indexes are
  inverse to each other, every binding holds the lease of its port, the session counters of
  bindings and hosts and the quoted octets are exact, and the capacities hold. \<open>holds\<close> states
  that a call does not panic and what its result and final state satisfy.
\<close>

declare split_paired_All [simp del] split_paired_Ex [simp del]

section \<open>The invariant\<close>

text \<open>The registry accounts for its entries, whoever claims and drops leases in it.\<close>

definition ports_ok :: "ports \<Rightarrow> bool" where
  "ports_ok p \<longleftrightarrow> \<not> po_poisoned p \<and> po_local p = owned Local (po_entries p)
     \<and> po_translation p = owned Translation (po_entries p)"

text \<open>A binding holds the lease of its port and is the one that the reverse index names.\<close>

definition binding_ok :: "bindings \<Rightarrow> bkey \<Rightarrow> binding \<Rightarrow> bool" where
  "binding_ok s key b \<longleftrightarrow> h_key (b_lease b) = (k_protocol key, b_port b)
     \<and> bt_get (po_entries (bi_ports s)) (k_protocol key, b_port b) = Some (h_id (b_lease b), Translation)
     \<and> bt_get (bi_reverse s) (k_protocol key, b_port b) = Some key"

definition session_ok :: "skey \<Rightarrow> session \<Rightarrow> bool" where
  "session_ok sk e \<longleftrightarrow> (se_tcp e \<noteq> None \<longleftrightarrow> k_protocol (fst sk) = 6) \<and> length (se_quote e) \<le> 68
     \<and> (se_quote e \<noteq> [] \<longrightarrow> se_tcp e = Some V4Init) \<and> (se_probe e \<longrightarrow> se_tcp e \<noteq> None)"

definition quote_sum :: "(skey, session) btree \<Rightarrow> nat" where
  "quote_sum m = bt_sum (\<lambda>_ e. length (se_quote e)) m"

text \<open>
  Consistency of the indexes. The key in \<open>K\<close> may have a binding that has no session yet, which
  is the state between the creation of a binding and of its first session.
\<close>

definition core :: "bkey set \<Rightarrow> bindings \<Rightarrow> bool" where
  "core K s \<longleftrightarrow> ports_ok (bi_ports s)
     \<and> (\<forall>key b. bt_get (bi_bindings s) key = Some b \<longrightarrow> binding_ok s key b)
     \<and> (\<forall>p key. bt_get (bi_reverse s) p = Some key \<longrightarrow>
          (\<exists>b. bt_get (bi_bindings s) key = Some b \<and> p = (k_protocol key, b_port b)))
     \<and> (\<forall>key b. bt_get (bi_bindings s) key = Some b \<longrightarrow>
          b_sessions b = bt_count (\<lambda>sk. fst sk = key) (bi_sessions s) \<and> (key \<notin> K \<longrightarrow> 0 < b_sessions b))
     \<and> (\<forall>key. bt_get (bi_bindings s) key = None \<longrightarrow> bt_count (\<lambda>sk. fst sk = key) (bi_sessions s) = 0)
     \<and> (\<forall>h. bt_get (bi_hosts s) h =
          (if bt_count (\<lambda>k. k_host k = h) (bi_bindings s) = 0 then None
           else Some (bt_count (\<lambda>k. k_host k = h) (bi_bindings s),
                      bt_count (\<lambda>sk. k_host (fst sk) = h) (bi_sessions s))))
     \<and> bi_tcp_quote_bytes s = quote_sum (bi_sessions s)
     \<and> (\<forall>sk e. bt_get (bi_sessions s) sk = Some e \<longrightarrow> session_ok sk e)"

lemma coreD:
  assumes "core K s"
  shows core_ports: "ports_ok (bi_ports s)"
    and core_binding: "\<And>key b. bt_get (bi_bindings s) key = Some b \<Longrightarrow> binding_ok s key b"
    and core_reverse: "\<And>p key. bt_get (bi_reverse s) p = Some key \<Longrightarrow>
          (\<exists>b. bt_get (bi_bindings s) key = Some b \<and> p = (k_protocol key, b_port b))"
    and core_count: "\<And>key b. bt_get (bi_bindings s) key = Some b \<Longrightarrow>
          b_sessions b = bt_count (\<lambda>sk. fst sk = key) (bi_sessions s)"
    and core_pos: "\<And>key b. bt_get (bi_bindings s) key = Some b \<Longrightarrow> key \<notin> K \<Longrightarrow> 0 < b_sessions b"
    and core_none: "\<And>key. bt_get (bi_bindings s) key = None \<Longrightarrow>
          bt_count (\<lambda>sk. fst sk = key) (bi_sessions s) = 0"
    and core_hosts: "\<And>h. bt_get (bi_hosts s) h =
          (if bt_count (\<lambda>k. k_host k = h) (bi_bindings s) = 0 then None
           else Some (bt_count (\<lambda>k. k_host k = h) (bi_bindings s),
                      bt_count (\<lambda>sk. k_host (fst sk) = h) (bi_sessions s)))"
    and core_quotes: "bi_tcp_quote_bytes s = quote_sum (bi_sessions s)"
    and core_session: "\<And>sk e. bt_get (bi_sessions s) sk = Some e \<Longrightarrow> session_ok sk e"
  using assms unfolding core_def by blast+

lemma coreI:
  assumes "ports_ok (bi_ports s)"
    and "\<And>key b. bt_get (bi_bindings s) key = Some b \<Longrightarrow> binding_ok s key b"
    and "\<And>p key. bt_get (bi_reverse s) p = Some key \<Longrightarrow>
          (\<exists>b. bt_get (bi_bindings s) key = Some b \<and> p = (k_protocol key, b_port b))"
    and "\<And>key b. bt_get (bi_bindings s) key = Some b \<Longrightarrow>
          b_sessions b = bt_count (\<lambda>sk. fst sk = key) (bi_sessions s) \<and> (key \<notin> K \<longrightarrow> 0 < b_sessions b)"
    and "\<And>key. bt_get (bi_bindings s) key = None \<Longrightarrow> bt_count (\<lambda>sk. fst sk = key) (bi_sessions s) = 0"
    and "\<And>h. bt_get (bi_hosts s) h =
          (if bt_count (\<lambda>k. k_host k = h) (bi_bindings s) = 0 then None
           else Some (bt_count (\<lambda>k. k_host k = h) (bi_bindings s),
                      bt_count (\<lambda>sk. k_host (fst sk) = h) (bi_sessions s)))"
    and "bi_tcp_quote_bytes s = quote_sum (bi_sessions s)"
    and "\<And>sk e. bt_get (bi_sessions s) sk = Some e \<Longrightarrow> session_ok sk e"
  shows "core K s"
  unfolding core_def using assms by blast

text \<open>A session belongs to a binding, and two bindings never share a port.\<close>

lemma core_session_binding:
  assumes "core K s" and "bt_contains (bi_sessions s) (key, remote)"
  obtains b where "bt_get (bi_bindings s) key = Some b"
proof -
  have "0 < bt_count (\<lambda>sk. fst sk = key) (bi_sessions s)" using assms(2) by (rule bt_count_pos) simp
  then have "bt_get (bi_bindings s) key \<noteq> None" using core_none [OF assms(1), of key] by auto
  then show thesis using that by blast
qed

lemma core_host_present:
  assumes "core K s" and "bt_get (bi_bindings s) key = Some b"
  shows "0 < bt_count (\<lambda>k. k_host k = k_host key) (bi_bindings s)"
  using bt_get_Some_contains [OF assms(2)] by (rule bt_count_pos) simp

lemma core_port_inj:
  assumes "core K s" and "bt_get (bi_bindings s) key = Some b" and "bt_get (bi_bindings s) key' = Some b'"
    and "(k_protocol key, b_port b) = (k_protocol key', b_port b')"
  shows "key = key'"
  using core_binding [OF assms(1,2)] core_binding [OF assms(1,3)] assms(4) by (simp add: binding_ok_def)

section \<open>Elementary steps\<close>

lemma quote_sum_insert_fresh:
  "\<not> bt_contains m sk \<Longrightarrow> quote_sum (bt_insert sk e m) = quote_sum m + length (se_quote e)"
  by (simp add: quote_sum_def bt_get_None_iff bt.total_ins_fresh)

lemma quote_sum_insert_present:
  "bt_get m sk = Some e0 \<Longrightarrow> quote_sum (bt_insert sk e m) = quote_sum m - length (se_quote e0) + length (se_quote e)"
  by (simp add: quote_sum_def bt.total_ins_present)

lemma quote_sum_remove:
  "bt_get m sk = Some e \<Longrightarrow> quote_sum (bt_remove sk m) = quote_sum m - length (se_quote e)"
  by (simp add: quote_sum_def bt.total_del)

lemma quote_sum_ge: "bt_get m sk = Some e \<Longrightarrow> length (se_quote e) \<le> quote_sum m"
  unfolding quote_sum_def by (rule bt.total_ge)

text \<open>A new session of an existing binding.\<close>

lemma add_session:
  assumes c: "core {key} s" and b: "bt_get (bi_bindings s) key = Some b"
    and fresh: "\<not> bt_contains (bi_sessions s) (key, remote)"
    and e: "session_ok (key, remote) e" "se_quote e = []"
  shows "\<exists>hb hn. bt_get (bi_hosts s) (k_host key) = Some (hb, hn)
    \<and> count_session key (s\<lparr>bi_sessions := bt_insert (key, remote) e (bi_sessions s)\<rparr>)
      = Ok (s\<lparr>bi_sessions := bt_insert (key, remote) e (bi_sessions s),
              bi_bindings := bt_insert key (b\<lparr>b_sessions := b_sessions b + 1\<rparr>) (bi_bindings s),
              bi_hosts := bt_insert (k_host key) (hb, hn + 1) (bi_hosts s)\<rparr>)
    \<and> core {} (s\<lparr>bi_sessions := bt_insert (key, remote) e (bi_sessions s),
              bi_bindings := bt_insert key (b\<lparr>b_sessions := b_sessions b + 1\<rparr>) (bi_bindings s),
              bi_hosts := bt_insert (k_host key) (hb, hn + 1) (bi_hosts s)\<rparr>)"
proof -
  let ?hb = "bt_count (\<lambda>k. k_host k = k_host key) (bi_bindings s)"
  let ?hn = "bt_count (\<lambda>sk. k_host (fst sk) = k_host key) (bi_sessions s)"
  have h: "bt_get (bi_hosts s) (k_host key) = Some (?hb, ?hn)"
    using core_hosts [OF c, of "k_host key"] core_host_present [OF c b] by simp
  let ?s = "s\<lparr>bi_sessions := bt_insert (key, remote) e (bi_sessions s),
              bi_bindings := bt_insert key (b\<lparr>b_sessions := b_sessions b + 1\<rparr>) (bi_bindings s),
              bi_hosts := bt_insert (k_host key) (?hb, ?hn + 1) (bi_hosts s)\<rparr>"
  have cb: "bt_contains (bi_bindings s) key" using b by (rule bt_get_Some_contains)
  have "core {} ?s"
  proof (rule coreI)
    show "ports_ok (bi_ports ?s)" using core_ports [OF c] by simp
    show "binding_ok ?s k b'" if "bt_get (bi_bindings ?s) k = Some b'" for k b'
      using that core_binding [OF c, of k] core_binding [OF c b]
      by (auto simp: binding_ok_def split: if_splits)
    show "\<exists>b'. bt_get (bi_bindings ?s) k = Some b' \<and> p = (k_protocol k, b_port b')"
      if "bt_get (bi_reverse ?s) p = Some k" for p k
      using that core_reverse [OF c, of p k] b by auto
    show "b_sessions b' = bt_count (\<lambda>sk. fst sk = k) (bi_sessions ?s) \<and> (k \<notin> {} \<longrightarrow> 0 < b_sessions b')"
      if "bt_get (bi_bindings ?s) k = Some b'" for k b'
      using that core_count [OF c, of k] core_pos [OF c, of k] core_count [OF c b] fresh
      by (auto simp: bt_count_insert split: if_splits)
    show "bt_count (\<lambda>sk. fst sk = k) (bi_sessions ?s) = 0" if "bt_get (bi_bindings ?s) k = None" for k
      using that core_none [OF c, of k] by (auto simp: bt_count_insert split: if_splits)
    show "bt_get (bi_hosts ?s) h' = (if bt_count (\<lambda>k. k_host k = h') (bi_bindings ?s) = 0 then None
           else Some (bt_count (\<lambda>k. k_host k = h') (bi_bindings ?s),
                      bt_count (\<lambda>sk. k_host (fst sk) = h') (bi_sessions ?s)))" for h'
      using core_hosts [OF c, of h'] core_host_present [OF c b] fresh cb
      by (auto simp: bt_count_insert)
    show "bi_tcp_quote_bytes ?s = quote_sum (bi_sessions ?s)"
      using core_quotes [OF c] fresh e(2) by (simp add: quote_sum_insert_fresh)
    show "session_ok sk e'" if "bt_get (bi_sessions ?s) sk = Some e'" for sk e'
      using that core_session [OF c, of sk] e(1) by (auto split: if_splits)
  qed
  moreover have "count_session key (s\<lparr>bi_sessions := bt_insert (key, remote) e (bi_sessions s)\<rparr>) = Ok ?s"
    using b h by (simp add: count_session_def)
  ultimately show ?thesis using h by blast
qed

text \<open>A change of a session that is there.\<close>

lemma update_session:
  assumes c: "core K s" and e0: "bt_get (bi_sessions s) sk = Some e0" and e: "session_ok sk e"
    and q: "q = bi_tcp_quote_bytes s - length (se_quote e0) + length (se_quote e)"
  shows "core K (s\<lparr>bi_tcp_quote_bytes := q, bi_sessions := bt_insert sk e (bi_sessions s)\<rparr>)" (is "core K ?s")
proof (rule coreI)
  have cs: "bt_contains (bi_sessions s) sk" using e0 by (rule bt_get_Some_contains)
  show "ports_ok (bi_ports ?s)" using core_ports [OF c] by simp
  show "binding_ok ?s k b'" if "bt_get (bi_bindings ?s) k = Some b'" for k b'
    using that core_binding [OF c, of k b'] by (simp add: binding_ok_def)
  show "\<exists>b'. bt_get (bi_bindings ?s) k = Some b' \<and> p = (k_protocol k, b_port b')"
    if "bt_get (bi_reverse ?s) p = Some k" for p k
    using that core_reverse [OF c, of p k] by simp
  show "b_sessions b' = bt_count (\<lambda>sk. fst sk = k) (bi_sessions ?s) \<and> (k \<notin> K \<longrightarrow> 0 < b_sessions b')"
    if "bt_get (bi_bindings ?s) k = Some b'" for k b'
    using that core_count [OF c, of k] core_pos [OF c, of k] cs by (auto simp: bt_count_insert)
  show "bt_count (\<lambda>sk. fst sk = k) (bi_sessions ?s) = 0" if "bt_get (bi_bindings ?s) k = None" for k
    using that core_none [OF c, of k] cs by (simp add: bt_count_insert)
  show "bt_get (bi_hosts ?s) h' = (if bt_count (\<lambda>k. k_host k = h') (bi_bindings ?s) = 0 then None
         else Some (bt_count (\<lambda>k. k_host k = h') (bi_bindings ?s),
                    bt_count (\<lambda>sk. k_host (fst sk) = h') (bi_sessions ?s)))" for h'
    using core_hosts [OF c, of h'] cs by (simp add: bt_count_insert)
  show "bi_tcp_quote_bytes ?s = quote_sum (bi_sessions ?s)"
    using core_quotes [OF c] e0 q by (simp add: quote_sum_insert_present)
  show "session_ok sk' e'" if "bt_get (bi_sessions ?s) sk' = Some e'" for sk' e'
    using that core_session [OF c, of sk'] e by (auto split: if_splits)
qed


text \<open>Claiming and dropping a lease in an accounted registry.\<close>

lemma claim_ok:
  assumes "ports_claim p protocol port w = (Ok h, p')" and "ports_ok p"
  shows "ports_ok p'" and "\<not> bt_contains (po_entries p) (protocol, port)" and "h_key h = (protocol, port)"
    and "po_entries p' = bt_insert (protocol, port) (h_id h, w) (po_entries p)"
proof -
  from assms(1) have fresh: "\<not> bt_contains (po_entries p) (protocol, port)"
    and h: "h = \<lparr>h_key = (protocol, port), h_id = po_next p + 1\<rparr>"
    and p': "p' = inc_owner w (p\<lparr>po_next := po_next p + 1,
        po_entries := bt_insert (protocol, port) (po_next p + 1, w) (po_entries p)\<rparr>)"
    by (auto simp: ports_claim_def Let_def split: if_splits)
  show "ports_ok p'" using assms(2) by (cases w) (auto simp: p' ports_ok_def owned_insert [OF fresh])
  show "po_entries p' = bt_insert (protocol, port) (h_id h, w) (po_entries p)" by (cases w) (auto simp: p' h)
  show "\<not> bt_contains (po_entries p) (protocol, port)" by (rule fresh)
  show "h_key h = (protocol, port)" by (simp add: h)
qed

lemma claim_Err: "ports_claim p protocol port w = (Err e, p') \<Longrightarrow> p' = p"
  by (auto simp: ports_claim_def Let_def split: if_splits)

lemma claim_not_Panic: "ports_claim p protocol port w \<noteq> (Panic, p')"
  by (auto simp: ports_claim_def Let_def)

lemma drop_ok:
  assumes "ports_ok p" and "bt_get (po_entries p) (h_key h) = Some (h_id h, w)"
  shows "\<exists>p'. held_drop h p = (Ok (), p') \<and> ports_ok p' \<and> po_entries p' = bt_remove (h_key h) (po_entries p)"
proof -
  have "0 < owned w (po_entries p)" using assms(2) by (rule owned_pos)
  then show ?thesis
    using assms by (cases w) (auto simp: ports_ok_def held_drop_def owned_remove [OF assms(2)])
qed

text \<open>Other holders of leases: a drop of a lease that a binding does not hold leaves its port alone.\<close>

lemma drop_other:
  assumes "ports_ok p"
  shows "\<exists>p'. held_drop h p = (Ok (), p') \<and> ports_ok p'
    \<and> (\<forall>k i w. bt_get (po_entries p) k = Some (i, w) \<and> h \<noteq> \<lparr>h_key = k, h_id = i\<rparr>
         \<longrightarrow> bt_get (po_entries p') k = Some (i, w))"
proof (cases "\<exists>w. bt_get (po_entries p) (h_key h) = Some (h_id h, w)")
  case True
  then obtain w where w: "bt_get (po_entries p) (h_key h) = Some (h_id h, w)" ..
  have "h = \<lparr>h_key = h_key h, h_id = h_id h\<rparr>" by simp
  with drop_ok [OF assms w] w show ?thesis by (metis (no_types, lifting) bt_get_simps(2) fun_upd_other fun_upd_same option.inject prod.inject)
next
  case False
  then have "held_drop h p = (Ok (), p)"
    using assms by (auto simp: held_drop_def ports_ok_def split: option.splits)
  with assms show ?thesis by auto
qed

lemma drop_leases_one: "drop_leases [h] p = (case held_drop h p of (r, p') \<Rightarrow> and_then r (\<lambda>_. Ok p'))"
  by simp

text \<open>The creation of a binding on a port that was free.\<close>

lemma new_binding_core:
  assumes c: "core {} s" and key: "bt_get (bi_bindings s) key = None"
    and free: "\<not> bt_contains (bi_reverse s) (k_protocol key, p)"
    and claim: "ports_claim (bi_ports s) (k_protocol key) p Translation = (Ok lease, ps)"
  shows "core {key} (new_binding key p lease (s\<lparr>bi_ports := ps\<rparr>))" (is "core _ ?s")
proof (rule coreI)
  note po = claim_ok [OF claim core_ports [OF c]]
  have nk: "\<not> bt_contains (bi_bindings s) key" using key by (simp add: bt_get_None_iff)
  have bs: "bi_bindings ?s = bt_insert key \<lparr>b_lease = lease, b_port = p, b_sessions = 0\<rparr> (bi_bindings s)"
    and rv: "bi_reverse ?s = bt_insert (k_protocol key, p) key (bi_reverse s)"
    and ss: "bi_sessions ?s = bi_sessions s" and pp: "bi_ports ?s = ps"
    and hh: "bi_hosts ?s = host_update (k_host key) (\<lambda>(b, n). (b + 1, n)) (bi_hosts s)"
    and qq: "bi_tcp_quote_bytes ?s = bi_tcp_quote_bytes s"
    by (simp_all add: new_binding_def)
  show "ports_ok (bi_ports ?s)" using po(1) by (simp add: pp)
  show "binding_ok ?s k b" if "bt_get (bi_bindings ?s) k = Some b" for k b
  proof (cases "k = key")
    case True
    with that show ?thesis by (auto simp: binding_ok_def bs rv pp po)
  next
    case False
    with that have b: "bt_get (bi_bindings s) k = Some b" by (simp add: bs)
    have ok: "binding_ok s k b" by (rule core_binding [OF c b])
    have "bt_get (bi_reverse s) (k_protocol key, p) = None" using free by (simp add: bt_get_None_iff)
    with ok have "(k_protocol k, b_port b) \<noteq> (k_protocol key, p)" by (auto simp: binding_ok_def)
    with ok show ?thesis by (auto simp: binding_ok_def rv pp po(4))
  qed
  show "\<exists>b. bt_get (bi_bindings ?s) k = Some b \<and> q = (k_protocol k, b_port b)"
    if "bt_get (bi_reverse ?s) q = Some k" for q k
  proof (cases "q = (k_protocol key, p)")
    case True
    with that have k: "k = key" by (simp add: rv)
    show ?thesis unfolding k True bs by simp
  next
    case False
    with that have "bt_get (bi_reverse s) q = Some k" by (simp add: rv)
    with core_reverse [OF c this] key show ?thesis by (auto simp: bs)
  qed
  show "b_sessions b = bt_count (\<lambda>sk. fst sk = k) (bi_sessions ?s) \<and> (k \<notin> {key} \<longrightarrow> 0 < b_sessions b)"
    if "bt_get (bi_bindings ?s) k = Some b" for k b
    using that core_count [OF c, of k b] core_pos [OF c, of k b] core_none [OF c key]
    by (auto simp: bs ss split: if_splits)
  show "bt_count (\<lambda>sk. fst sk = k) (bi_sessions ?s) = 0" if "bt_get (bi_bindings ?s) k = None" for k
    using that core_none [OF c, of k] by (auto simp: bs ss split: if_splits)
  show "bt_get (bi_hosts ?s) h = (if bt_count (\<lambda>k. k_host k = h) (bi_bindings ?s) = 0 then None
         else Some (bt_count (\<lambda>k. k_host k = h) (bi_bindings ?s),
                    bt_count (\<lambda>sk. k_host (fst sk) = h) (bi_sessions ?s)))" for h
  proof -
    have "bt_count (\<lambda>sk. k_host (fst sk) = h) (bi_sessions s) = 0"
      if "bt_count (\<lambda>k. k_host k = h) (bi_bindings s) = 0"
      unfolding bt_count_zero_iff
    proof (intro allI impI notI)
      fix sk assume sk: "bt_contains (bi_sessions s) sk" "k_host (fst sk) = h"
      then obtain b where "bt_get (bi_bindings s) (fst sk) = Some b"
        using core_session_binding [OF c, of "fst sk" "snd sk"] by auto
      then have "bt_contains (bi_bindings s) (fst sk)" by (rule bt_get_Some_contains)
      with that sk(2) show False unfolding bt_count_zero_iff by blast
    qed
    then show ?thesis
      using core_hosts [OF c, of h] nk by (auto simp: hh bs ss host_update_def bt_count_insert)
  qed
  show "bi_tcp_quote_bytes ?s = quote_sum (bi_sessions ?s)" using core_quotes [OF c] by (simp add: qq ss)
  show "session_ok sk e" if "bt_get (bi_sessions ?s) sk = Some e" for sk e
    using that core_session [OF c, of sk e] by (simp add: ss)
qed


section \<open>Expiry\<close>

text \<open>The record of a SYN that timed out, the only other effect of removing a session.\<close>

definition push_timeout :: "session \<Rightarrow> bytes list \<Rightarrow> bytes list" where
  "push_timeout e q = (if se_tcp e = Some V4Init \<and> se_quote e \<noteq> [] \<and> length q < 32 then q @ [se_quote e] else q)"

text \<open>Removing a session that is not the last of its binding.\<close>

lemma remove_session_core:
  assumes c: "core {} s" and e: "bt_get (bi_sessions s) (key, remote) = Some e"
    and b: "bt_get (bi_bindings s) key = Some b" and more: "b_sessions b \<noteq> 1"
    and h: "bt_get (bi_hosts s) (k_host key) = Some (hb, hn)"
    and s': "bi_sessions s' = bt_remove (key, remote) (bi_sessions s)"
      "bi_bindings s' = bt_insert key (b\<lparr>b_sessions := b_sessions b - 1\<rparr>) (bi_bindings s)"
      "bi_hosts s' = bt_insert (k_host key) (hb, hn - 1) (bi_hosts s)"
      "bi_tcp_quote_bytes s' = bi_tcp_quote_bytes s - length (se_quote e)"
      "bi_ports s' = bi_ports s" "bi_reverse s' = bi_reverse s"
  shows "core {} s'"
proof (rule coreI)
  have cs: "bt_contains (bi_sessions s) (key, remote)" using e by (rule bt_get_Some_contains)
  have cb: "bt_contains (bi_bindings s) key" using b by (rule bt_get_Some_contains)
  have many: "1 < b_sessions b" using more core_pos [OF c b] by simp
  show "ports_ok (bi_ports s')" using core_ports [OF c] by (simp add: s')
  show "binding_ok s' k b'" if "bt_get (bi_bindings s') k = Some b'" for k b'
    using that core_binding [OF c, of k] core_binding [OF c b]
    by (auto simp: binding_ok_def s' split: if_splits)
  show "\<exists>b'. bt_get (bi_bindings s') k = Some b' \<and> p = (k_protocol k, b_port b')"
    if "bt_get (bi_reverse s') p = Some k" for p k
    using that core_reverse [OF c, of p k] b by (auto simp: s')
  show "b_sessions b' = bt_count (\<lambda>sk. fst sk = k) (bi_sessions s') \<and> (k \<notin> {} \<longrightarrow> 0 < b_sessions b')"
    if "bt_get (bi_bindings s') k = Some b'" for k b'
    using that core_count [OF c, of k] core_pos [OF c, of k] core_count [OF c b] cs many
    by (auto simp: bt_count_remove s' split: if_splits)
  show "bt_count (\<lambda>sk. fst sk = k) (bi_sessions s') = 0" if "bt_get (bi_bindings s') k = None" for k
    using that core_none [OF c, of k] by (auto simp: bt_count_remove s' split: if_splits)
  show "bt_get (bi_hosts s') h' = (if bt_count (\<lambda>k. k_host k = h') (bi_bindings s') = 0 then None
         else Some (bt_count (\<lambda>k. k_host k = h') (bi_bindings s'),
                    bt_count (\<lambda>sk. k_host (fst sk) = h') (bi_sessions s')))" for h'
    using core_hosts [OF c, of h'] core_host_present [OF c b] h cs cb
    by (auto simp: bt_count_insert bt_count_remove s' split: if_splits)
  show "bi_tcp_quote_bytes s' = quote_sum (bi_sessions s')"
    using core_quotes [OF c] e by (simp add: quote_sum_remove s')
  show "session_ok sk e'" if "bt_get (bi_sessions s') sk = Some e'" for sk e'
    using that core_session [OF c, of sk] by (auto simp: s' split: if_splits)
qed

text \<open>Removing the last session of a binding, with the binding and its lease.\<close>

lemma remove_binding_core:
  assumes c: "core {} s" and e: "bt_get (bi_sessions s) (key, remote) = Some e"
    and b: "bt_get (bi_bindings s) key = Some b" and last: "b_sessions b = 1"
    and h: "bt_get (bi_hosts s) (k_host key) = Some (hb, hn)"
    and drop: "held_drop (b_lease b) (bi_ports s) = (Ok (), p')"
    and s': "bi_sessions s' = bt_remove (key, remote) (bi_sessions s)"
      "bi_bindings s' = bt_remove key (bi_bindings s)"
      "bi_reverse s' = bt_remove (k_protocol key, b_port b) (bi_reverse s)"
      "bi_hosts s' = (if hb - 1 = 0 then bt_remove (k_host key) (bi_hosts s)
          else bt_insert (k_host key) (hb - 1, hn - 1) (bi_hosts s))"
      "bi_tcp_quote_bytes s' = bi_tcp_quote_bytes s - length (se_quote e)"
      "bi_ports s' = p'"
  shows "core {} s'"
proof (rule coreI)
  have cs: "bt_contains (bi_sessions s) (key, remote)" using e by (rule bt_get_Some_contains)
  have cb: "bt_contains (bi_bindings s) key" using b by (rule bt_get_Some_contains)
  have bok: "binding_ok s key b" by (rule core_binding [OF c b])
  then have entry: "bt_get (po_entries (bi_ports s)) (h_key (b_lease b)) = Some (h_id (b_lease b), Translation)"
    by (simp add: binding_ok_def)
  have po: "ports_ok p'" "po_entries p' = bt_remove (k_protocol key, b_port b) (po_entries (bi_ports s))"
    using drop_ok [OF core_ports [OF c] entry] drop bok by (auto simp: binding_ok_def)
  have other: "(k_protocol k, b_port b') \<noteq> (k_protocol key, b_port b)"
    if "bt_get (bi_bindings s) k = Some b'" "k \<noteq> key" for k b'
    using core_port_inj [OF c that(1) b] that(2) by blast
  show "ports_ok (bi_ports s')" using po(1) by (simp add: s')
  show "binding_ok s' k b'" if "bt_get (bi_bindings s') k = Some b'" for k b'
  proof -
    have k: "bt_get (bi_bindings s) k = Some b'" "k \<noteq> key" using that by (auto simp: s' split: if_splits)
    then show ?thesis
      using core_binding [OF c k(1)] other [OF k] by (simp add: binding_ok_def s' po(2))
  qed
  show "\<exists>b'. bt_get (bi_bindings s') k = Some b' \<and> p = (k_protocol k, b_port b')"
    if "bt_get (bi_reverse s') p = Some k" for p k
  proof -
    have p: "bt_get (bi_reverse s) p = Some k" "p \<noteq> (k_protocol key, b_port b)"
      using that by (auto simp: s' split: if_splits)
    obtain b' where "bt_get (bi_bindings s) k = Some b'" "p = (k_protocol k, b_port b')"
      using core_reverse [OF c p(1)] by blast
    with p(2) b show ?thesis by (cases "k = key") (auto simp: s')
  qed
  show "b_sessions b' = bt_count (\<lambda>sk. fst sk = k) (bi_sessions s') \<and> (k \<notin> {} \<longrightarrow> 0 < b_sessions b')"
    if "bt_get (bi_bindings s') k = Some b'" for k b'
    using that core_count [OF c, of k] core_pos [OF c, of k]
    by (auto simp: bt_count_remove s' split: if_splits)
  show "bt_count (\<lambda>sk. fst sk = k) (bi_sessions s') = 0" if "bt_get (bi_bindings s') k = None" for k
    using that core_none [OF c, of k] core_count [OF c b] last cs by (auto simp: bt_count_remove s' split: if_splits)
  show "bt_get (bi_hosts s') h' = (if bt_count (\<lambda>k. k_host k = h') (bi_bindings s') = 0 then None
         else Some (bt_count (\<lambda>k. k_host k = h') (bi_bindings s'),
                    bt_count (\<lambda>sk. k_host (fst sk) = h') (bi_sessions s')))" for h'
    using core_hosts [OF c, of h'] core_host_present [OF c b] h cs cb
    by (auto simp: bt_count_remove s' split: if_splits)
  show "bi_tcp_quote_bytes s' = quote_sum (bi_sessions s')"
    using core_quotes [OF c] e by (simp add: quote_sum_remove s')
  show "session_ok sk e'" if "bt_get (bi_sessions s') sk = Some e'" for sk e'
    using that core_session [OF c, of sk] by (auto simp: s' split: if_splits)
qed


definition limits :: "bindings \<Rightarrow> bool" where
  "limits s \<longleftrightarrow> bt_len (bi_bindings s) \<le> 4096 \<and> bt_len (bi_sessions s) \<le> 8192
     \<and> (\<forall>h. bt_count (\<lambda>k. k_host k = h) (bi_bindings s) \<le> 128
          \<and> bt_count (\<lambda>sk. k_host (fst sk) = h) (bi_sessions s) \<le> 256)
     \<and> length (bi_tcp_timeouts s) \<le> 32 \<and> charged_bytes s \<le> 4194304"

lemma limits_mono:
  assumes "limits s" and "bt_len (bi_bindings s') \<le> bt_len (bi_bindings s)"
    and "bt_len (bi_sessions s') \<le> bt_len (bi_sessions s)"
    and "\<And>P. bt_count P (bi_bindings s') \<le> bt_count P (bi_bindings s)"
    and "\<And>P. bt_count P (bi_sessions s') \<le> bt_count P (bi_sessions s)"
    and "length (bi_tcp_timeouts s') \<le> 32" and "charged_bytes s' \<le> charged_bytes s"
  shows "limits s'"
  using assms unfolding limits_def by (meson le_trans)

text \<open>What a step leaves alone: the configuration, and the port of every binding that stays.\<close>

definition steady :: "bindings \<Rightarrow> bindings \<Rightarrow> bool" where
  "steady s s' \<longleftrightarrow> bi_domain s' = bi_domain s \<and> bi_udp_filtering s' = bi_udp_filtering s
     \<and> bi_udp_seconds s' = bi_udp_seconds s \<and> bi_icmp_seconds s' = bi_icmp_seconds s
     \<and> (\<forall>key b'. bt_get (bi_bindings s') key = Some b' \<longrightarrow>
          (\<exists>b. bt_get (bi_bindings s) key = Some b \<and> b_port b = b_port b'))"

lemma steady_refl [simp]: "steady s s"
  by (simp add: steady_def)

lemma steady_trans: "steady s t \<Longrightarrow> steady t u \<Longrightarrow> steady s u"
  unfolding steady_def by metis

lemma bt_len_pos: "bt_contains m k \<Longrightarrow> 0 < bt_len m"
  using bt_count_pos [of m k "\<lambda>_. True"] bt_count_le_len [of "\<lambda>_. True" m] by simp

lemma push_timeout_length: "length q \<le> 32 \<Longrightarrow> length (push_timeout e q) \<le> 32"
  "length (push_timeout e q) \<le> Suc (length q)"
  by (auto simp: push_timeout_def)

lemma expire_one_ok:
  assumes c: "core {} s" and e: "bt_get (bi_sessions s) (key, remote) = Some e"
  shows "\<exists>s' rel'. expire_one (key, remote) (s, rel) = Ok (s', rel') \<and> core {} s'
    \<and> bi_sessions s' = bt_remove (key, remote) (bi_sessions s) \<and> steady s s' \<and> (limits s \<longrightarrow> limits s')"
proof -
  have cs: "bt_contains (bi_sessions s) (key, remote)" using e by (rule bt_get_Some_contains)
  obtain b where b: "bt_get (bi_bindings s) key = Some b" by (rule core_session_binding [OF c cs])
  have cb: "bt_contains (bi_bindings s) key" using b by (rule bt_get_Some_contains)
  have bok: "binding_ok s key b" by (rule core_binding [OF c b])
  let ?hb = "bt_count (\<lambda>k. k_host k = k_host key) (bi_bindings s)"
  let ?hn = "bt_count (\<lambda>sk. k_host (fst sk) = k_host key) (bi_sessions s)"
  have hb: "0 < ?hb" by (rule core_host_present [OF c b])
  have h: "bt_get (bi_hosts s) (k_host key) = Some (?hb, ?hn)"
    using core_hosts [OF c, of "k_host key"] hb by simp
  have hn: "0 < ?hn" using cs by (rule bt_count_pos) simp
  have q: "length (se_quote e) \<le> bi_tcp_quote_bytes s"
    using core_quotes [OF c] quote_sum_ge [OF e] by simp
  have pos: "0 < b_sessions b" using core_pos [OF c b] by simp
  have len: "0 < bt_len (bi_sessions s)" "0 < bt_len (bi_bindings s)" "0 < bt_len (bi_reverse s)" "0 < bt_len (bi_hosts s)"
    using bt_len_pos [OF cs] bt_len_pos [OF cb] bt_len_pos [OF bt_get_Some_contains [OF h]] bok
      bt_len_pos [of "bi_reverse s" "(k_protocol key, b_port b)"] by (auto simp: binding_ok_def bt_contains_def)
  have counts: "bt_count P (bt_remove (key, remote) (bi_sessions s)) \<le> bt_count P (bi_sessions s)"
    "bt_count Q (bt_remove key (bi_bindings s)) \<le> bt_count Q (bi_bindings s)" for P Q
    by (simp_all add: bt_count_remove)
  let ?q = "bi_tcp_quote_bytes s - length (se_quote e)"
  let ?s = "s\<lparr>bi_sessions := bt_remove (key, remote) (bi_sessions s), bi_tcp_quote_bytes := ?q,
     bi_tcp_timeouts := push_timeout e (bi_tcp_timeouts s)\<rparr>"
  show ?thesis
  proof (cases "b_sessions b = 1")
    case True
    obtain p' where p': "held_drop (b_lease b) (bi_ports s) = (Ok (), p')"
      using drop_ok [OF core_ports [OF c], of "b_lease b" Translation] bok by (auto simp: binding_ok_def)
    let ?h = "if ?hb - 1 = 0 then bt_remove (k_host key) (bi_hosts s)
       else bt_insert (k_host key) (?hb - 1, ?hn - 1) (bi_hosts s)"
    let ?t = "?s\<lparr>bi_ports := p', bi_bindings := bt_remove key (bi_bindings s),
       bi_reverse := bt_remove (k_protocol key, b_port b) (bi_reverse s), bi_hosts := ?h\<rparr>"
    have "expire_one (key, remote) (s, rel) = Ok (?t, rel @ [(k_protocol key, b_port b)])"
      using e b h q p' True hb hn
      by (simp add: expire_one_def Let_def sub_chk_def push_timeout_def)
    moreover have "core {} ?t"
      by (rule remove_binding_core [OF c e b True h p']) simp_all
    moreover have "steady s ?t" using b by (auto simp: steady_def split: if_splits)
    moreover have "limits ?t" if "limits s"
    proof -
      have "bt_len ?h \<le> bt_len (bi_hosts s)" using h by (simp add: bt_len_remove bt_len_insert bt_contains_def)
      moreover have "bt_contains (bi_reverse s) (k_protocol key, b_port b)"
        using bok by (simp add: binding_ok_def bt_contains_def)
      ultimately have "charged_bytes ?t \<le> charged_bytes s"
        using len q push_timeout_length(2) [of e "bi_tcp_timeouts s"] cs cb
        by (simp add: charged_bytes_def bt_len_remove)
      then show ?thesis
        using that counts push_timeout_length(1) [of "bi_tcp_timeouts s" e]
        by (intro limits_mono [OF that]) (simp_all add: bt_len_remove limits_def)
    qed
    ultimately show ?thesis by (intro exI [of _ ?t] exI conjI) simp_all
  next
    case False
    let ?t = "?s\<lparr>bi_bindings := bt_insert key (b\<lparr>b_sessions := b_sessions b - 1\<rparr>) (bi_bindings s),
       bi_hosts := bt_insert (k_host key) (?hb, ?hn - 1) (bi_hosts s)\<rparr>"
    have "expire_one (key, remote) (s, rel) = Ok (?t, rel)"
      using e b h q False hb hn pos
      by (simp add: expire_one_def Let_def sub_chk_def push_timeout_def)
    moreover have "core {} ?t"
      by (rule remove_session_core [OF c e b False h]) simp_all
    moreover have "steady s ?t" using b by (auto simp: steady_def split: if_splits)
    moreover have "limits ?t" if "limits s"
    proof -
      have "charged_bytes ?t \<le> charged_bytes s"
        using len q push_timeout_length(2) [of e "bi_tcp_timeouts s"] cs cb h
        by (simp add: charged_bytes_def bt_len_remove bt_len_insert bt_contains_def)
      then show ?thesis
        using that counts cb push_timeout_length(1) [of "bi_tcp_timeouts s" e]
        by (intro limits_mono [OF that]) (simp_all add: bt_len_remove bt_len_insert bt_count_insert limits_def)
    qed
    ultimately show ?thesis by (intro exI [of _ ?t] exI conjI) simp_all
  qed
qed


text \<open>Removing several sessions.\<close>

lemma expire_loop_ok:
  assumes "core {} s" and "distinct sks" and "\<And>sk. sk \<in> set sks \<Longrightarrow> bt_contains (bi_sessions s) sk"
  shows "\<exists>s' rel'. expire_loop sks (s, rel) = Ok (s', rel') \<and> core {} s'
    \<and> (\<forall>sk. bt_get (bi_sessions s') sk = (if sk \<in> set sks then None else bt_get (bi_sessions s) sk))
    \<and> steady s s' \<and> (limits s \<longrightarrow> limits s')"
  using assms
proof (induction sks arbitrary: s rel)
  case Nil
  then show ?case by simp
next
  case (Cons sk sks)
  obtain key remote where sk: "sk = (key, remote)" by (cases sk)
  from Cons.prems(3) [of sk] obtain e where e: "bt_get (bi_sessions s) (key, remote) = Some e"
    by (auto simp: sk bt_contains_def)
  obtain s1 rel1 where 1: "expire_one (key, remote) (s, rel) = Ok (s1, rel1)" "core {} s1"
    "bi_sessions s1 = bt_remove (key, remote) (bi_sessions s)" "steady s s1" "limits s \<longrightarrow> limits s1"
    using expire_one_ok [OF Cons.prems(1) e] by blast
  have "bt_contains (bi_sessions s1) sk'" if "sk' \<in> set sks" for sk'
    using that Cons.prems(2) Cons.prems(3) [of sk'] by (auto simp: 1(3) sk)
  with Cons.IH [OF 1(2), of rel1] Cons.prems(2) obtain s2 rel2 where
    2: "expire_loop sks (s1, rel1) = Ok (s2, rel2)" "core {} s2"
      "\<forall>sk. bt_get (bi_sessions s2) sk = (if sk \<in> set sks then None else bt_get (bi_sessions s1) sk)"
      "steady s1 s2" "limits s1 \<longrightarrow> limits s2"
    by auto
  have "expire_loop (sk # sks) (s, rel) = Ok (s2, rel2)" by (simp add: sk 1(1) 2(1))
  moreover have "\<forall>sk'. bt_get (bi_sessions s2) sk' = (if sk' \<in> set (sk # sks) then None else bt_get (bi_sessions s) sk')"
    by (auto simp: 2(3) 1(3) sk)
  ultimately show ?case using 2(2,5) 1(5) steady_trans [OF 1(4) 2(4)] by blast
qed

text \<open>Demoting established sessions keeps every index.\<close>

lemma demote_simps [simp]: "se_quote (demote now e) = se_quote e" "session_ok sk (demote now e) = session_ok sk e"
  by (auto simp: demote_def session_ok_def Let_def)

lemma quote_sum_demote [simp]: "quote_sum (bt_map (\<lambda>_. demote now) m) = quote_sum m"
  by (simp add: quote_sum_def bt_sum_map)

lemma demote_core:
  assumes c: "core K s"
  shows "core K (s\<lparr>bi_sessions := bt_map (\<lambda>_. demote now) (bi_sessions s)\<rparr>)" (is "core K ?s")
proof (rule coreI)
  show "binding_ok ?s k b" if "bt_get (bi_bindings ?s) k = Some b" for k b
    using that core_binding [OF c, of k b] by (simp add: binding_ok_def)
  show "session_ok sk e" if "bt_get (bi_sessions ?s) sk = Some e" for sk e
    using that core_session [OF c, of sk] by auto
  show "b_sessions b = bt_count (\<lambda>sk. fst sk = k) (bi_sessions ?s) \<and> (k \<notin> K \<longrightarrow> 0 < b_sessions b)"
    if "bt_get (bi_bindings ?s) k = Some b" for k b
    using that core_count [OF c, of k b] core_pos [OF c, of k b] by simp
qed (use core_ports [OF c] core_reverse [OF c] core_none [OF c] core_hosts [OF c] core_quotes [OF c] in simp_all)

definition next_ok :: "bindings \<Rightarrow> bool" where
  "next_ok s \<longleftrightarrow> (\<forall>sk e. bt_get (bi_sessions s) sk = Some e \<longrightarrow> (\<exists>t. bi_next s = Some t \<and> t \<le> se_expires e))"

definition bind_inv :: "bindings \<Rightarrow> bool" where
  "bind_inv s \<longleftrightarrow> core {} s \<and> limits s \<and> next_ok s"

text \<open>What \<open>expire\<close> does to one session.\<close>

definition survivor :: "u64 \<Rightarrow> session option \<Rightarrow> session option" where
  "survivor now x = (case x of None \<Rightarrow> None
     | Some e \<Rightarrow> if now < se_expires (demote now e) then Some (demote now e) else None)"

lemma demote_live: "now < se_expires e \<Longrightarrow> demote now e = e"
  by (auto simp: demote_def)

lemma core_cong:
  assumes "core K s" and "bi_ports s' = bi_ports s" and "bi_bindings s' = bi_bindings s"
    and "bi_reverse s' = bi_reverse s" and "bi_sessions s' = bi_sessions s" and "bi_hosts s' = bi_hosts s"
    and "bi_tcp_quote_bytes s' = bi_tcp_quote_bytes s"
  shows "core K s'"
  using assms(1) unfolding core_def binding_ok_def assms(2-) .

lemma limits_cong:
  assumes "limits s" and "bi_bindings s' = bi_bindings s"
    and "bi_reverse s' = bi_reverse s" and "bi_sessions s' = bi_sessions s" and "bi_hosts s' = bi_hosts s"
    and "bi_tcp_quote_bytes s' = bi_tcp_quote_bytes s" and "bi_tcp_timeouts s' = bi_tcp_timeouts s"
  shows "limits s'"
  using assms unfolding limits_def charged_bytes_def by simp

lemma expire_ok:
  assumes inv: "bind_inv s"
  shows "\<exists>s' rel. expire now s = Ok (s', rel) \<and> bind_inv s' \<and> steady s s'
    \<and> (case bi_next s' of None \<Rightarrow> True | Some t \<Rightarrow> now < t)
    \<and> (\<forall>sk. bt_get (bi_sessions s') sk = survivor now (bt_get (bi_sessions s) sk))"
proof (cases "case bi_next s of None \<Rightarrow> True | Some t \<Rightarrow> now < t")
  case True
  have "now < se_expires e" if "bt_get (bi_sessions s) sk = Some e" for sk e
    using inv that True unfolding bind_inv_def next_ok_def by (fastforce split: option.splits)
  then have "bt_get (bi_sessions s) sk = survivor now (bt_get (bi_sessions s) sk)" for sk
    by (cases "bt_get (bi_sessions s) sk") (auto simp: survivor_def demote_live)
  then show ?thesis using True inv by (simp add: expire_def)
next
  case False
  let ?d = "s\<lparr>bi_sessions := bt_map (\<lambda>_. demote now) (bi_sessions s)\<rparr>"
  let ?old = "bt_keys (bt_retain (\<lambda>_ e. se_expires e \<le> now) (bi_sessions ?d))"
  have c: "core {} ?d" and l: "limits ?d"
    using inv demote_core [of "{}" s now] by (auto simp: bind_inv_def limits_def charged_bytes_def)
  have old: "sk \<in> set ?old \<longleftrightarrow> (\<exists>e. bt_get (bi_sessions ?d) sk = Some e \<and> se_expires e \<le> now)" for sk
    by (auto simp: bt_keys_set bt_contains_def split: option.splits if_splits)
  have "distinct ?old" by (simp add: bt_keys_def entries_distinct)
  moreover have "bt_contains (bi_sessions ?d) sk" if "sk \<in> set ?old" for sk
    using that unfolding old by (auto simp: bt_contains_def)
  ultimately obtain s' rel where r: "expire_loop ?old (?d, []) = Ok (s', rel)" "core {} s'"
    "\<forall>sk. bt_get (bi_sessions s') sk = (if sk \<in> set ?old then None else bt_get (bi_sessions ?d) sk)"
    "steady ?d s'" "limits s'"
    using expire_loop_ok [OF c, of ?old "[]"] l by auto
  let ?t = "s'\<lparr>bi_next := list_min (map se_expires (bt_values (bi_sessions s')))\<rparr>"
  have surv: "bt_get (bi_sessions s') sk = survivor now (bt_get (bi_sessions s) sk)" for sk
    using spec [OF r(3), of sk] old [of sk] by (cases "bt_get (bi_sessions s) sk") (auto simp: survivor_def not_less)
  have "next_ok ?t"
    unfolding next_ok_def
  proof (intro allI impI)
    fix sk e assume "bt_get (bi_sessions ?t) sk = Some e"
    then have "e \<in> set (bt_values (bi_sessions s'))" unfolding bt_values_set by auto
    then have mem: "se_expires e \<in> set (map se_expires (bt_values (bi_sessions s')))" by simp
    then obtain t where t: "list_min (map se_expires (bt_values (bi_sessions s'))) = Some t"
      by (cases "list_min (map se_expires (bt_values (bi_sessions s')))") auto
    with mem list_min_Some [OF t] show "\<exists>t. bi_next ?t = Some t \<and> t \<le> se_expires e" by auto
  qed
  moreover have "case bi_next ?t of None \<Rightarrow> True | Some t \<Rightarrow> now < t"
  proof (cases "list_min (map se_expires (bt_values (bi_sessions s')))")
    case (Some t)
    then obtain e where "e \<in> set (bt_values (bi_sessions s'))" "t = se_expires e" using list_min_Some [OF Some] by auto
    then show ?thesis using Some surv unfolding bt_values_set
      by (auto simp: survivor_def split: option.splits if_splits)
  qed simp
  moreover have "core {} ?t" by (rule core_cong [OF r(2)]) simp_all
  moreover have "limits ?t" by (rule limits_cong [OF r(5)]) simp_all
  moreover have "steady s ?t" using r(4) by (simp add: steady_def)
  moreover have "expire now s = Ok (?t, rel)" using False r(1) by (simp add: expire_def)
  ultimately show ?thesis using surv by (auto simp: bind_inv_def)
qed


section \<open>Operations\<close>

text \<open>The state after the initial \<open>expire(now)\<close> of every call.\<close>

definition expired :: "u64 \<Rightarrow> bindings \<Rightarrow> bindings \<Rightarrow> bool" where
  "expired now s s' \<longleftrightarrow> bind_inv s' \<and> steady s s'
     \<and> (case bi_next s' of None \<Rightarrow> True | Some t \<Rightarrow> now < t)
     \<and> (\<forall>sk. bt_get (bi_sessions s') sk = survivor now (bt_get (bi_sessions s) sk))"

lemma run_expire_ok: "bind_inv s \<Longrightarrow> holds (run_expire now s) (\<lambda>_ s'. expired now s s') (\<lambda>_. False)"
  using expire_ok [of s now] by (auto simp: run_expire_def modify_def expired_def)

lemma expired_live: "expired now s s' \<Longrightarrow> bt_get (bi_sessions s') sk = Some e \<Longrightarrow> now < se_expires e"
  by (auto simp: expired_def survivor_def split: option.splits if_splits)

text \<open>What admission grants.\<close>

definition admitted :: "bindings \<Rightarrow> bkey \<Rightarrow> sock4 \<Rightarrow> bool" where
  "admitted s key remote \<longleftrightarrow>
     charged_bytes s + (if bt_contains (bi_bindings s) key then 0 else 288)
       + (if bt_contains (bi_hosts s) (k_host key) then 0 else 128)
       + (if bt_contains (bi_sessions s) (key, remote) then 0 else 256) \<le> 4194304
     \<and> (bt_contains (bi_bindings s) key \<or>
          bt_len (bi_bindings s) < 4096 \<and> bt_count (\<lambda>k. k_host k = k_host key) (bi_bindings s) < 128)
     \<and> (bt_contains (bi_sessions s) (key, remote) \<or>
          bt_len (bi_sessions s) < 8192 \<and> bt_count (\<lambda>sk. k_host (fst sk) = k_host key) (bi_sessions s) < 256)"

lemma session_host_count:
  assumes "core K s" and "bt_count (\<lambda>k. k_host k = h) (bi_bindings s) = 0"
  shows "bt_count (\<lambda>sk. k_host (fst sk) = h) (bi_sessions s) = 0"
  unfolding bt_count_zero_iff
proof (intro allI impI notI)
  fix sk assume sk: "bt_contains (bi_sessions s) sk" "k_host (fst sk) = h"
  then obtain b where "bt_get (bi_bindings s) (fst sk) = Some b"
    using core_session_binding [OF assms(1), of "fst sk" "snd sk"] by auto
  then have "bt_contains (bi_bindings s) (fst sk)" by (rule bt_get_Some_contains)
  with assms(2) sk(2) show False unfolding bt_count_zero_iff by blast
qed

lemma admit_ok:
  assumes "core {} s" and "admit s key remote = Ok ()"
  shows "admitted s key remote"
proof -
  have "bt_get (bi_hosts s) (k_host key) = None \<Longrightarrow>
      bt_count (\<lambda>k. k_host k = k_host key) (bi_bindings s) = 0
      \<and> bt_count (\<lambda>sk. k_host (fst sk) = k_host key) (bi_sessions s) = 0"
    using core_hosts [OF assms(1), of "k_host key"] session_host_count [OF assms(1)] by (auto split: if_splits)
  moreover have "bt_get (bi_hosts s) (k_host key) = Some c \<Longrightarrow>
      c = (bt_count (\<lambda>k. k_host k = k_host key) (bi_bindings s),
           bt_count (\<lambda>sk. k_host (fst sk) = k_host key) (bi_sessions s))" for c
    using core_hosts [OF assms(1), of "k_host key"] by (auto split: if_splits)
  ultimately show ?thesis
    using assms(2) by (auto simp: admit_def admitted_def Let_def split: option.splits if_splits prod.splits)
qed

lemma admit_not_Panic: "admit s key remote \<noteq> Panic"
  by (auto simp: admit_def Let_def split: prod.splits)


text \<open>Allocation returns a free port or an error; the sampler and the scan do not panic.\<close>

lemma sample_not_Panic: "sample mx r \<noteq> (Panic, r')"
proof -
  have "sample_loop span limit r \<noteq> (Panic, r')" for span limit
    by (induction span limit r rule: sample_loop.induct) auto
  then show ?thesis by (auto simp: sample_def Let_def)
qed

lemma alloc_loop_free:
  "alloc_loop free cs r = (x, r') \<Longrightarrow> x \<noteq> Panic \<and> (\<forall>p. x = Ok p \<longrightarrow> free p)"
proof (induction free cs r rule: alloc_loop.induct)
  case (1 free r)
  then show ?case by auto
next
  case (2 free c cs r)
  show ?case
  proof (cases "sample (of_nat (alloc_count c - 1)) r")
    case (Pair y r1)
    with 2 show ?thesis
      by (cases y) (auto simp: sample_not_Panic find_Some_iff split: option.splits)
  qed
qed

lemma allocate_free:
  assumes "allocate s protocol port r occupied = (x, r')"
  shows "x \<noteq> Panic \<and> (\<forall>p. x = Ok p \<longrightarrow> port_free s occupied protocol p)"
proof (cases "(port \<noteq> 0 \<or> protocol = 1) \<and> port_free s occupied protocol port")
  case True
  then show ?thesis using assms by (auto simp: allocate_def)
next
  case False
  show ?thesis
    by (rule alloc_loop_free [OF assms [unfolded allocate_def Let_def if_not_P [OF False]]])
qed

text \<open>A port for the key: the binding is there afterwards, with room for its session.\<close>

definition has_binding :: "bindings \<Rightarrow> bkey \<Rightarrow> u16 \<Rightarrow> bool" where
  "has_binding s key p \<longleftrightarrow> (\<exists>b. bt_get (bi_bindings s) key = Some b \<and> b_port b = p)"

definition prepared :: "bkey \<Rightarrow> sock4 \<Rightarrow> u16 \<Rightarrow> bindings \<Rightarrow> bindings \<Rightarrow> bool" where
  "prepared key remote p s s' \<longleftrightarrow> core {key} s' \<and> limits s' \<and> next_ok s' \<and> admitted s' key remote
     \<and> has_binding s' key p \<and> bi_sessions s' = bi_sessions s \<and> bi_domain s' = bi_domain s
     \<and> bi_udp_seconds s' = bi_udp_seconds s \<and> bi_icmp_seconds s' = bi_icmp_seconds s
     \<and> bi_udp_filtering s' = bi_udp_filtering s \<and> bi_next s' = bi_next s
     \<and> (\<forall>k q. k \<noteq> key \<longrightarrow> has_binding s' k q = has_binding s k q)
     \<and> (\<forall>q. has_binding s key q \<longrightarrow> q = p)"

lemma core_weaken: "core {} s \<Longrightarrow> core K s"
  unfolding core_def by blast

lemma new_binding_prepared:
  assumes inv: "bind_inv s" and adm: "admitted s key remote" and key: "bt_get (bi_bindings s) key = None"
    and free: "\<not> bt_contains (bi_reverse s) (k_protocol key, p)"
    and claim: "ports_claim (bi_ports s) (k_protocol key) p Translation = (Ok lease, ps)"
  shows "prepared key remote p s (new_binding key p lease (s\<lparr>bi_ports := ps\<rparr>))" (is "prepared _ _ _ _ ?s")
proof -
  have c: "core {} s" and l: "limits s" and n: "next_ok s" using inv by (simp_all add: bind_inv_def)
  have nk: "\<not> bt_contains (bi_bindings s) key" using key by (simp add: bt_get_None_iff)
  have bs: "bi_bindings ?s = bt_insert key \<lparr>b_lease = lease, b_port = p, b_sessions = 0\<rparr> (bi_bindings s)"
    and rv: "bi_reverse ?s = bt_insert (k_protocol key, p) key (bi_reverse s)"
    and ss: "bi_sessions ?s = bi_sessions s" "bi_next ?s = bi_next s" "bi_tcp_timeouts ?s = bi_tcp_timeouts s"
    and hh: "bi_hosts ?s = host_update (k_host key) (\<lambda>(b, n). (b + 1, n)) (bi_hosts s)"
    and qq: "bi_tcp_quote_bytes ?s = bi_tcp_quote_bytes s"
    by (simp_all add: new_binding_def)
  have ch: "charged_bytes ?s = charged_bytes s + 288 + (if bt_contains (bi_hosts s) (k_host key) then 0 else 128)"
    using nk free by (simp add: charged_bytes_def bs rv ss hh qq bt_len_insert host_update_def)
  have "core {key} ?s" by (rule new_binding_core [OF c key free claim])
  moreover have "admitted ?s key remote"
    using adm ch nk by (auto simp: admitted_def ss bs hh host_update_def)
  moreover have "limits ?s"
    using l adm nk ch unfolding limits_def admitted_def
    by (auto simp: ss bs bt_len_insert bt_count_insert split: if_splits)
  moreover have "next_ok ?s" using n by (simp add: next_ok_def ss)
  moreover have "has_binding ?s key p" by (simp add: has_binding_def bs)
  moreover have "\<not> has_binding s key q" for q using key by (simp add: has_binding_def)
  ultimately show ?thesis
    by (simp add: prepared_def ss) (simp add: new_binding_def has_binding_def)
qed

lemma assign_port_ok:
  assumes inv: "bind_inv s" and adm: "admitted s key remote"
  shows "holds (assign_port key occupied (s, r)) (\<lambda>p (s', r'). prepared key remote p s s')
    (\<lambda>(s', r'). s' = s)"
proof (cases "bt_get (bi_bindings s) key")
  case (Some b)
  then show ?thesis
    using inv adm core_weaken by (auto simp: assign_port_def prepared_def bind_inv_def has_binding_def)
next
  case None
  obtain a r1 where al: "allocate s (k_protocol key) (k_port key) r occupied = (a, r1)"
    by (cases "allocate s (k_protocol key) (k_port key) r occupied")
  show ?thesis
  proof (cases a)
    case (Ok p)
    then have free: "\<not> bt_contains (bi_reverse s) (k_protocol key, p)"
      using allocate_free [OF al] by (simp add: port_free_def)
    obtain l ps where cl: "ports_claim (bi_ports s) (k_protocol key) p Translation = (l, ps)"
      by (cases "ports_claim (bi_ports s) (k_protocol key) p Translation")
    show ?thesis
    proof (cases l)
      case (Ok lease)
      have "prepared key remote p s (new_binding key p lease (s\<lparr>bi_ports := ps\<rparr>))"
        using new_binding_prepared [OF inv adm None free] cl Ok by simp
      then show ?thesis using None al \<open>a = Ok p\<close> cl Ok by (simp add: assign_port_def)
    next
      case (Err e)
      then have "ps = bi_ports s" using claim_Err cl by simp
      then show ?thesis using None al \<open>a = Ok p\<close> cl Err by (simp add: assign_port_def)
    next
      case Panic
      then show ?thesis using cl claim_not_Panic by metis
    qed
  next
    case (Err e)
    then show ?thesis using None al by (simp add: assign_port_def)
  next
    case Panic
    then show ?thesis using allocate_free [OF al] by simp
  qed
qed


text \<open>The session of a prepared key is created or renewed.\<close>

definition settled :: "bkey \<Rightarrow> sock4 \<Rightarrow> session \<Rightarrow> bindings \<Rightarrow> bindings \<Rightarrow> bool" where
  "settled key remote e s s' \<longleftrightarrow> bind_inv s'
     \<and> bt_get (bi_sessions s') = (bt_get (bi_sessions s))((key, remote) \<mapsto> e)
     \<and> (\<forall>k q. has_binding s' k q = has_binding s k q)
     \<and> charged_bytes s' \<le> charged_bytes s + (if bt_contains (bi_sessions s) (key, remote) then 0 else 256)
     \<and> bi_reverse s' = bi_reverse s
     \<and> bi_domain s' = bi_domain s \<and> bi_udp_seconds s' = bi_udp_seconds s
     \<and> bi_icmp_seconds s' = bi_icmp_seconds s \<and> bi_udp_filtering s' = bi_udp_filtering s"

lemma core_settle:
  assumes "core {key} s" and "bt_contains (bi_sessions s) (key, remote)"
  shows "core {} s"
proof -
  have "0 < bt_count (\<lambda>sk. fst sk = key) (bi_sessions s)" using assms(2) by (rule bt_count_pos) simp
  then have "b_sessions b = bt_count (\<lambda>sk. fst sk = k) (bi_sessions s) \<and> (k \<notin> {} \<longrightarrow> 0 < b_sessions b)"
    if "bt_get (bi_bindings s) k = Some b" for k b
    using core_count [OF assms(1) that] core_pos [OF assms(1) that] by (cases "k = key") auto
  with assms(1) show ?thesis unfolding core_def by blast
qed

lemma next_ok_insert:
  assumes "next_ok s" and "bt_get (bi_sessions s') = (bt_get (bi_sessions s))(sk \<mapsto> e)"
    and "bi_next s' = Some (earliest (bi_next s) (se_expires e))"
  shows "next_ok s'"
  using assms unfolding next_ok_def by (fastforce simp: earliest_def min_le_iff_disj split: if_splits option.splits)

text \<open>A first session.\<close>

lemma settle_new:
  assumes c: "core {key} s" and l: "limits s" and n: "next_ok s" and adm: "admitted s key remote"
    and b: "has_binding s key p" and fresh: "\<not> bt_contains (bi_sessions s) (key, remote)"
    and e: "session_ok (key, remote) e" "se_quote e = []"
  shows "\<exists>s1. count_session key (s\<lparr>bi_sessions := bt_insert (key, remote) e (bi_sessions s)\<rparr>) = Ok s1
    \<and> bi_next s1 = bi_next s
    \<and> settled key remote e s (s1\<lparr>bi_next := Some (earliest (bi_next s) (se_expires e))\<rparr>)"
proof -
  obtain b where b: "bt_get (bi_bindings s) key = Some b" using assms(5) by (auto simp: has_binding_def)
  let ?f = "\<lambda>hb hn. s\<lparr>bi_sessions := bt_insert (key, remote) e (bi_sessions s),
              bi_bindings := bt_insert key (b\<lparr>b_sessions := b_sessions b + 1\<rparr>) (bi_bindings s),
              bi_hosts := bt_insert (k_host key) (hb, hn + 1) (bi_hosts s)\<rparr>"
  obtain hb hn where h: "bt_get (bi_hosts s) (k_host key) = Some (hb, hn)"
    and step: "count_session key (s\<lparr>bi_sessions := bt_insert (key, remote) e (bi_sessions s)\<rparr>) = Ok (?f hb hn)"
    and core: "core {} (?f hb hn)"
    using add_session [OF c b fresh e] by blast
  let ?s = "?f hb hn"
  let ?t = "?s\<lparr>bi_next := Some (earliest (bi_next s) (se_expires e))\<rparr>"
  have cb: "bt_contains (bi_bindings s) key" "bt_contains (bi_hosts s) (k_host key)"
    using b h by (auto simp: bt_contains_def)
  have ch: "charged_bytes ?t = charged_bytes s + 256"
    using fresh cb by (simp add: charged_bytes_def bt_len_insert)
  then have "limits ?t"
    using l adm fresh cb unfolding limits_def admitted_def
    by (auto simp: bt_len_insert bt_count_insert)
  moreover have "core {} ?t" by (rule core_cong [OF core]) simp_all
  moreover have "next_ok ?t" by (rule next_ok_insert [OF n]) (simp_all add: bt.get_ins)
  moreover have "has_binding ?t k q = has_binding s k q" for k q using b by (auto simp: has_binding_def)
  ultimately have "settled key remote e s ?t" using ch fresh by (simp add: settled_def bind_inv_def bt.get_ins)
  then show ?thesis using step by simp
qed

text \<open>A session that is there gets a new deadline and state.\<close>

lemma settle_renew:
  assumes c: "core {key} s" and l: "limits s" and n: "next_ok s" and e0: "bt_get (bi_sessions s) (key, remote) = Some e0"
    and e: "session_ok (key, remote) e" and len: "length (se_quote e) \<le> length (se_quote e0)"
    and q: "q = bi_tcp_quote_bytes s - length (se_quote e0) + length (se_quote e)"
  shows "settled key remote e s (s\<lparr>bi_tcp_quote_bytes := q, bi_sessions := bt_insert (key, remote) e (bi_sessions s),
    bi_next := Some (earliest (bi_next s) (se_expires e))\<rparr>)" (is "settled _ _ _ _ ?t")
proof -
  have cs: "bt_contains (bi_sessions s) (key, remote)" using e0 by (rule bt_get_Some_contains)
  have c0: "core {} s" by (rule core_settle [OF c cs])
  have "length (se_quote e0) \<le> bi_tcp_quote_bytes s" using core_quotes [OF c] quote_sum_ge [OF e0] by simp
  then have ch: "charged_bytes ?t \<le> charged_bytes s"
    using len q cs by (simp add: charged_bytes_def bt_len_insert)
  then have "limits ?t"
    using l cs by (intro limits_mono [OF l]) (simp_all add: bt_len_insert bt_count_insert limits_def)
  moreover have "core {} ?t"
    by (rule core_cong [OF update_session [OF c0 e0 e q]]) simp_all
  moreover have "next_ok ?t" by (rule next_ok_insert [OF n]) (simp_all add: bt.get_ins)
  ultimately show ?thesis using ch cs by (simp add: settled_def bind_inv_def bt.get_ins has_binding_def)
qed

definition query_entry :: "u64 \<Rightarrow> session" where
  "query_entry expires = \<lparr>se_expires = expires, se_tcp = None, se_probe = False, se_quote = []\<rparr>"

lemma query_session_ok:
  assumes "prepared key remote p s0 s" and "k_protocol key \<noteq> 6"
  shows "\<exists>s'. query_session key remote expires s = Ok s' \<and> settled key remote (query_entry expires) s s'"
proof -
  have c: "core {key} s" and l: "limits s" and n: "next_ok s" and adm: "admitted s key remote" and b: "has_binding s key p"
    using assms(1) by (simp_all add: prepared_def)
  have e: "session_ok (key, remote) (query_entry expires)" using assms(2) by (simp add: session_ok_def query_entry_def)
  show ?thesis
  proof (cases "bt_get (bi_sessions s) (key, remote)")
    case None
    then show ?thesis
      using settle_new [OF c l n adm b _ e]
      by (auto simp: query_session_def bt_get_None_iff query_entry_def Let_def)
  next
    case (Some e0)
    then have "se_quote e0 = []" using core_session [OF c Some] assms(2) by (auto simp: session_ok_def)
    then show ?thesis
      using settle_renew [OF c l n Some e, of "bi_tcp_quote_bytes s"] Some
      by (simp add: query_session_def bt_contains_def query_entry_def Let_def)
  qed
qed


text \<open>The TCP session after one packet.\<close>

definition tcp_entry :: "session option \<Rightarrow> bool \<Rightarrow> u8 \<Rightarrow> u64 \<Rightarrow> session" where
  "tcp_entry old v6 flags now = (case old of
     None \<Rightarrow> \<lparr>se_expires = saturating_add now transitory_ms, se_tcp = Some (if v6 then V6Init else V4Init),
              se_probe = False, se_quote = []\<rparr>
   | Some e \<Rightarrow> (case tcp_packet (the (se_tcp e)) v6 flags (se_expires e) now of (st, x) \<Rightarrow>
       \<lparr>se_expires = x, se_tcp = Some st, se_probe = False, se_quote = (if st = V4Init then se_quote e else [])\<rparr>))"

lemma tcp_entry_ok:
  assumes "k_protocol key = 6" and "old = None \<or> (\<exists>e. old = Some e \<and> session_ok (key, remote) e)"
  shows "session_ok (key, remote) (tcp_entry old v6 flags now)"
  using assms by (auto simp: tcp_entry_def session_ok_def split: prod.splits if_splits)

lemma tcp_session_ok:
  assumes "prepared key remote p s0 s" and k6: "k_protocol key = 6"
  shows "\<exists>s'. tcp_session key remote v6 flags now s = Ok s'
    \<and> settled key remote (tcp_entry (bt_get (bi_sessions s) (key, remote)) v6 flags now) s s'"
proof -
  have c: "core {key} s" and l: "limits s" and n: "next_ok s" and adm: "admitted s key remote" and b: "has_binding s key p"
    using assms(1) by (simp_all add: prepared_def)
  show ?thesis
  proof (cases "bt_get (bi_sessions s) (key, remote)")
    case None
    have e: "session_ok (key, remote) (tcp_entry None v6 flags now)" by (rule tcp_entry_ok [OF k6]) simp
    have "se_quote (tcp_entry None v6 flags now) = []" by (simp add: tcp_entry_def)
    from settle_new [OF c l n adm b _ e this] None obtain s1 where
      "count_session key (s\<lparr>bi_sessions := bt_insert (key, remote) (tcp_entry None v6 flags now) (bi_sessions s)\<rparr>) = Ok s1"
      "bi_next s1 = bi_next s"
      "settled key remote (tcp_entry None v6 flags now) s
        (s1\<lparr>bi_next := Some (earliest (bi_next s) (se_expires (tcp_entry None v6 flags now)))\<rparr>)"
      by (auto simp: bt_get_None_iff)
    then show ?thesis using None by (simp add: tcp_session_def tcp_entry_def Let_def)
  next
    case (Some e0)
    have e0: "session_ok (key, remote) e0" by (rule core_session [OF c Some])
    then obtain st0 where st0: "se_tcp e0 = Some st0" using k6 by (auto simp: session_ok_def)
    obtain st x where st: "tcp_packet st0 v6 flags (se_expires e0) now = (st, x)"
      by (cases "tcp_packet st0 v6 flags (se_expires e0) now")
    let ?e = "tcp_entry (Some e0) v6 flags now"
    have e_eq: "?e = \<lparr>se_expires = x, se_tcp = Some st, se_probe = False, se_quote = (if st = V4Init then se_quote e0 else [])\<rparr>"
      by (simp add: tcp_entry_def st0 st)
    have e: "session_ok (key, remote) ?e" by (rule tcp_entry_ok [OF k6]) (use e0 in blast)
    have le: "length (se_quote e0) \<le> bi_tcp_quote_bytes s" using core_quotes [OF c] quote_sum_ge [OF Some] by simp
    let ?q = "bi_tcp_quote_bytes s - length (se_quote e0) + length (se_quote ?e)"
    have "settled key remote ?e s (s\<lparr>bi_tcp_quote_bytes := ?q, bi_sessions := bt_insert (key, remote) ?e (bi_sessions s),
        bi_next := Some (earliest (bi_next s) (se_expires ?e))\<rparr>)"
      by (rule settle_renew [OF c l n Some e]) (simp_all add: e_eq)
    then show ?thesis
      using Some st0 st le by (auto simp: tcp_session_def e_eq sub_chk_def split: if_splits)
  qed
qed

text \<open>A live mapping stays: its binding, its port and its session.\<close>

definition keeps :: "u64 \<Rightarrow> bindings \<Rightarrow> bindings \<Rightarrow> bool" where
  "keeps now s s' \<longleftrightarrow> (\<forall>key q remote. has_binding s key q \<and> live_session s (key, remote) now
     \<longrightarrow> has_binding s' key q \<and> bt_contains (bi_sessions s') (key, remote))"

definition keeps_all :: "bindings \<Rightarrow> bindings \<Rightarrow> bool" where
  "keeps_all s s' \<longleftrightarrow> (\<forall>key q remote. has_binding s key q \<and> bt_contains (bi_sessions s) (key, remote)
     \<longrightarrow> has_binding s' key q \<and> bt_contains (bi_sessions s') (key, remote))"

lemma keeps_expired:
  assumes "bind_inv s" and "expired now s s'"
  shows "keeps now s s'"
  unfolding keeps_def
proof (intro allI impI)
  fix key q remote
  assume a: "has_binding s key q \<and> live_session s (key, remote) now"
  then obtain e where e: "bt_get (bi_sessions s) (key, remote) = Some e" "now < se_expires e"
    by (auto simp: live_session_def split: option.splits)
  have c: "core {} s'" using assms(2) by (simp add: expired_def bind_inv_def)
  have "bt_get (bi_sessions s') (key, remote) = survivor now (bt_get (bi_sessions s) (key, remote))"
    using assms(2) unfolding expired_def by blast
  then have here: "bt_contains (bi_sessions s') (key, remote)"
    using e by (simp add: survivor_def demote_live bt_contains_def)
  obtain b' where b': "bt_get (bi_bindings s') key = Some b'" by (rule core_session_binding [OF c here])
  then obtain b where "bt_get (bi_bindings s) key = Some b" "b_port b = b_port b'"
    using assms(2) unfolding expired_def steady_def by metis
  with a b' here show "has_binding s' key q \<and> bt_contains (bi_sessions s') (key, remote)"
    by (auto simp: has_binding_def)
qed

lemma keeps_trans: "keeps now s t \<Longrightarrow> keeps_all t u \<Longrightarrow> keeps now s u"
  unfolding keeps_def keeps_all_def by blast

lemma keeps_all_refl [simp]: "keeps_all s s"
  by (simp add: keeps_all_def)

lemma keeps_all_trans: "keeps_all s t \<Longrightarrow> keeps_all t u \<Longrightarrow> keeps_all s u"
  unfolding keeps_all_def by blast

lemma keeps_prepared: "prepared key remote p s s' \<Longrightarrow> keeps_all s s'"
  unfolding prepared_def keeps_all_def by (metis has_binding_def)

lemma keeps_settled: "settled key remote e s s' \<Longrightarrow> keeps_all s s'"
  unfolding settled_def keeps_all_def by (simp add: bt_contains_def)

text \<open>A call creates bindings in the current translation domain only.\<close>

definition confined :: "bindings \<Rightarrow> bindings \<Rightarrow> bool" where
  "confined s s' \<longleftrightarrow> (\<forall>k q. has_binding s' k q \<longrightarrow> has_binding s k q \<or> k_domain k = bi_domain s)"

lemma confined_domain [simp]: "confined s (t\<lparr>bi_domain := d\<rparr>) = confined s t"
  by (simp add: confined_def has_binding_def)

lemma confined_expired: "expired now s t \<Longrightarrow> confined s t"
  unfolding expired_def steady_def confined_def has_binding_def by metis

text \<open>The outcome of a successful call for a key: the mapping, its session, and nothing lost.\<close>

definition served :: "u64 \<Rightarrow> bkey \<Rightarrow> sock4 \<Rightarrow> u16 \<Rightarrow> session \<Rightarrow> bindings \<Rightarrow> bindings \<Rightarrow> bool" where
  "served now key remote p e s s' \<longleftrightarrow> bind_inv s' \<and> keeps now s s' \<and> has_binding s' key p
     \<and> bt_get (bi_sessions s') (key, remote) = Some e
     \<and> bi_udp_seconds s' = bi_udp_seconds s \<and> bi_icmp_seconds s' = bi_icmp_seconds s
     \<and> bi_udp_filtering s' = bi_udp_filtering s
     \<and> (\<forall>k q. has_binding s' k q \<longrightarrow> has_binding s k q \<or> k = key)"

lemma served_confined: "served now key remote p e s s' \<Longrightarrow> k_domain key = bi_domain s \<Longrightarrow> confined s s'"
  unfolding served_def confined_def by blast

abbreviation kept :: "u64 \<Rightarrow> bindings \<Rightarrow> bindings \<Rightarrow> bool" where
  "kept now s s' \<equiv> bind_inv s' \<and> keeps now s s' \<and> confined s s'"

lemma settled_served:
  assumes "bind_inv s" and "expired now s t" and "prepared key remote p t u" and "settled key remote e u v"
  shows "served now key remote p e s v \<and> bi_domain v = bi_domain s"
proof -
  have "keeps now s v"
    using keeps_trans [OF keeps_expired [OF assms(1,2)] keeps_all_trans [OF keeps_prepared [OF assms(3)] keeps_settled [OF assms(4)]]] .
  moreover have "has_binding v key p" "bt_get (bi_sessions v) (key, remote) = Some e" "bind_inv v"
    using assms(3,4) by (auto simp: prepared_def settled_def)
  moreover have "has_binding s k q \<or> k = key" if "has_binding v k q" for k q
    using that assms(2-4) unfolding expired_def steady_def prepared_def settled_def has_binding_def by metis
  ultimately show ?thesis
    using assms(2-4) by (simp add: served_def expired_def steady_def prepared_def settled_def)
qed

text \<open>The common tail of the three outbound calls, after expiry.\<close>

lemma outbound_ok:
  assumes inv: "bind_inv s" and exp: "expired now s t"
    and sess: "\<And>u. \<exists>p. prepared key remote p t u \<Longrightarrow> \<exists>v. f u = Ok v \<and> settled key remote e u v"
  shows "holds (then_do (inspect (admit t key remote) (t, r)) (\<lambda>_ sr.
      then_do (assign_port key occupied sr) (\<lambda>assigned sr.
      then_do (on_fst (modify f) sr) (\<lambda>_ sr. (Ok (g assigned), sr)))))
    (\<lambda>x (s', r'). \<exists>p. x = g p \<and> served now key remote p e s s' \<and> bi_domain s' = bi_domain s)
    (\<lambda>(s', r'). kept now s s')"
proof -
  have tinv: "bind_inv t" and c: "core {} t" using exp by (simp_all add: expired_def bind_inv_def)
  have E: "kept now s t" using tinv keeps_expired [OF inv exp] confined_expired [OF exp] by simp
  show ?thesis
  proof (rule holds_then_do [where P = "\<lambda>_ (u, r'). u = t \<and> admitted t key remote"])
    show "holds (inspect (admit t key remote) (t, r)) (\<lambda>_ (u, r'). u = t \<and> admitted t key remote)
        (\<lambda>(s', r'). kept now s s')"
      using admit_not_Panic admit_ok [OF c] E by (intro holds_inspect) auto
    fix x :: unit and sr :: "bindings \<times> rng"
    assume "case sr of (u, r') \<Rightarrow> u = t \<and> admitted t key remote"
    then obtain r' where sr: "sr = (t, r')" and adm: "admitted t key remote" by (cases sr) auto
    have "holds (assign_port key occupied (t, r')) (\<lambda>p (u, r'). prepared key remote p t u) (\<lambda>(s', r'). kept now s s')"
      by (rule holds_mono [OF assign_port_ok [OF tinv adm, of occupied r']]) (use E in auto)
    then show "holds (then_do (assign_port key occupied sr) (\<lambda>assigned sr.
        then_do (on_fst (modify f) sr) (\<lambda>_ sr. (Ok (g assigned), sr))))
      (\<lambda>x (s', r'). \<exists>p. x = g p \<and> served now key remote p e s s' \<and> bi_domain s' = bi_domain s)
      (\<lambda>(s', r'). kept now s s')"
      unfolding sr
    proof (rule holds_then_do)
      fix p and sr :: "bindings \<times> rng"
      assume "case sr of (u, r') \<Rightarrow> prepared key remote p t u"
      then obtain u r2 where sr: "sr = (u, r2)" and pre: "prepared key remote p t u" by (cases sr) auto
      obtain v where v: "f u = Ok v" "settled key remote e u v" using sess pre by blast
      show "holds (then_do (on_fst (modify f) sr) (\<lambda>_ sr. (Ok (g p), sr)))
        (\<lambda>x (s', r'). \<exists>p. x = g p \<and> served now key remote p e s s' \<and> bi_domain s' = bi_domain s)
        (\<lambda>(s', r'). kept now s s')"
        using settled_served [OF inv exp pre v(2)] v(1) by (auto simp: sr on_fst_def modify_def)
    qed
  qed
qed

definition udp_entry :: "bindings \<Rightarrow> u64 \<Rightarrow> session" where
  "udp_entry s now = query_entry (saturating_add now (ucast (bi_udp_seconds s) * 1000))"

definition icmp_entry :: "bindings \<Rightarrow> u64 \<Rightarrow> session" where
  "icmp_entry s now = query_entry (saturating_add now (ucast (bi_icmp_seconds s) * 1000))"

lemma udp_session_ok:
  assumes "\<exists>p. prepared key remote p t u" and "k_protocol key \<noteq> 6" and "bi_udp_seconds t = bi_udp_seconds s"
  shows "\<exists>v. udp_session key remote now u = Ok v \<and> settled key remote (udp_entry s now) u v"
proof -
  obtain p where p: "prepared key remote p t u" using assms(1) ..
  then have "bi_udp_seconds u = bi_udp_seconds s" using assms(3) by (simp add: prepared_def)
  then show ?thesis using query_session_ok [OF p assms(2)] by (simp add: udp_session_def udp_entry_def)
qed

lemma icmp_session_ok:
  assumes "\<exists>p. prepared key (remote, 0) p t u" and "k_protocol key \<noteq> 6" and "bi_icmp_seconds t = bi_icmp_seconds s"
  shows "\<exists>v. icmp_session key remote now u = Ok v \<and> settled key (remote, 0) (icmp_entry s now) u v"
proof -
  obtain p where p: "prepared key (remote, 0) p t u" using assms(1) ..
  then have "bi_icmp_seconds u = bi_icmp_seconds s" using assms(3) by (simp add: prepared_def)
  then show ?thesis using query_session_ok [OF p assms(2)] by (simp add: icmp_session_def icmp_entry_def)
qed

lemma udp_out_ok:
  assumes inv: "bind_inv s"
  shows "holds (udp_out source port remote now occupied (s, r))
    (\<lambda>p (s', r'). served now (17, source, port, bi_domain s) remote p (udp_entry s now) s s' \<and> bi_domain s' = bi_domain s)
    (\<lambda>(s', r'). kept now s s')"
  unfolding udp_out_def
proof (rule holds_then_do [where P = "\<lambda>_ (t, r'). expired now s t"])
  show "holds (on_fst (run_expire now) (s, r)) (\<lambda>_ (t, r'). expired now s t) (\<lambda>(s', r'). kept now s s')"
    using run_expire_ok [OF inv, of now] by (intro holds_on_fst) (auto elim: holds_mono)
  fix x :: unit and sr :: "bindings \<times> rng"
  assume "case sr of (t, r') \<Rightarrow> expired now s t"
  then obtain t r' where sr: "sr = (t, r')" and exp: "expired now s t" by (cases sr) auto
  have same: "bi_domain t = bi_domain s" "bi_udp_seconds t = bi_udp_seconds s" using exp by (simp_all add: expired_def steady_def)
  let ?key = "(17, source, port, bi_domain s)"
  have "\<exists>v. udp_session ?key remote now u = Ok v \<and> settled ?key remote (udp_entry s now) u v"
    if "\<exists>p. prepared ?key remote p t u" for u
    by (rule udp_session_ok [OF that]) (simp_all add: same)
  from outbound_ok [where g = "\<lambda>p. p" and r = r' and occupied = occupied, OF inv exp this]
  show "holds (let key = (17, source, port, bi_domain (fst sr)) in
      then_do (inspect (admit (fst sr) key remote) sr) (\<lambda>_ sr.
      then_do (assign_port key occupied sr) (\<lambda>assigned sr.
      then_do (on_fst (modify (udp_session key remote now)) sr) (\<lambda>_ sr. (Ok assigned, sr)))))
    (\<lambda>p (s', r'). served now ?key remote p (udp_entry s now) s s' \<and> bi_domain s' = bi_domain s)
    (\<lambda>(s', r'). kept now s s')"
    by (simp add: sr same Let_def)
qed

lemma icmp_out_ok:
  assumes inv: "bind_inv s"
  shows "holds (icmp_out source ident remote now (s, r))
    (\<lambda>p (s', r'). served now (1, source, ident, bi_domain s) (remote, 0) p (icmp_entry s now) s s' \<and> bi_domain s' = bi_domain s)
    (\<lambda>(s', r'). kept now s s')"
  unfolding icmp_out_def
proof (rule holds_then_do [where P = "\<lambda>_ (t, r'). expired now s t"])
  show "holds (on_fst (run_expire now) (s, r)) (\<lambda>_ (t, r'). expired now s t) (\<lambda>(s', r'). kept now s s')"
    using run_expire_ok [OF inv, of now] by (intro holds_on_fst) (auto elim: holds_mono)
  fix x :: unit and sr :: "bindings \<times> rng"
  assume "case sr of (t, r') \<Rightarrow> expired now s t"
  then obtain t r' where sr: "sr = (t, r')" and exp: "expired now s t" by (cases sr) auto
  have same: "bi_domain t = bi_domain s" "bi_icmp_seconds t = bi_icmp_seconds s" using exp by (simp_all add: expired_def steady_def)
  let ?key = "(1, source, ident, bi_domain s)"
  have "\<exists>v. icmp_session ?key remote now u = Ok v \<and> settled ?key (remote, 0) (icmp_entry s now) u v"
    if "\<exists>p. prepared ?key (remote, 0) p t u" for u
    by (rule icmp_session_ok [OF that]) (simp_all add: same)
  from outbound_ok [where g = "\<lambda>p. p" and r = r' and occupied = "\<lambda>_. False", OF inv exp this]
  show "holds (let key = (1, source, ident, bi_domain (fst sr)) in
      then_do (inspect (admit (fst sr) key (remote, 0)) sr) (\<lambda>_ sr.
      then_do (assign_port key (\<lambda>_. False) sr) (\<lambda>assigned sr.
      then_do (on_fst (modify (icmp_session key remote now)) sr) (\<lambda>_ sr. (Ok assigned, sr)))))
    (\<lambda>p (s', r'). served now ?key (remote, 0) p (icmp_entry s now) s s' \<and> bi_domain s' = bi_domain s)
    (\<lambda>(s', r'). kept now s s')"
    by (simp add: sr same Let_def)
qed

lemma tcp_out_ok:
  assumes inv: "bind_inv s"
  shows "holds (tcp_out source port remote flags now (s, r))
    (\<lambda>x (s', r'). (case x of None \<Rightarrow> kept now s s' \<and> \<not> syn flags
        | Some p \<Rightarrow> \<exists>e. served now (6, source, port, bi_domain s) remote p e s s') \<and> bi_domain s' = bi_domain s)
    (\<lambda>(s', r'). kept now s s')"
  unfolding tcp_out_def
proof (rule holds_then_do [where P = "\<lambda>_ (t, r'). expired now s t"])
  show "holds (on_fst (run_expire now) (s, r)) (\<lambda>_ (t, r'). expired now s t) (\<lambda>(s', r'). kept now s s')"
    using run_expire_ok [OF inv, of now] by (intro holds_on_fst) (auto elim: holds_mono)
  fix x :: unit and sr :: "bindings \<times> rng"
  assume "case sr of (t, r') \<Rightarrow> expired now s t"
  then obtain t r' where sr: "sr = (t, r')" and exp: "expired now s t" by (cases sr) auto
  have same: "bi_domain t = bi_domain s" using exp by (simp add: expired_def steady_def)
  have E: "kept now s t" using keeps_expired [OF inv exp] confined_expired [OF exp] exp by (simp add: expired_def)
  let ?key = "(6, source, port, bi_domain s)"
  let ?e = "tcp_entry (bt_get (bi_sessions t) (?key, remote)) True flags now"
  let ?Q = "\<lambda>x (s', r'). (case x of None \<Rightarrow> kept now s s' \<and> \<not> syn flags
        | Some p \<Rightarrow> \<exists>e. served now ?key remote p e s s') \<and> bi_domain s' = bi_domain s"
  have "\<exists>v. tcp_session ?key remote True flags now u = Ok v \<and> settled ?key remote ?e u v"
    if pre: "\<exists>p. prepared ?key remote p t u" for u
  proof -
    obtain p where p: "prepared ?key remote p t u" using pre ..
    then have "bi_sessions u = bi_sessions t" by (simp add: prepared_def)
    then show ?thesis using tcp_session_ok [OF p, of True flags now] by simp
  qed
  from outbound_ok [where g = Some and r = r' and occupied = "\<lambda>_. False", OF inv exp this]
  have tail: "holds (then_do (inspect (admit t ?key remote) (t, r')) (\<lambda>_ sr.
      then_do (assign_port ?key (\<lambda>_. False) sr) (\<lambda>assigned sr.
      then_do (on_fst (modify (tcp_session ?key remote True flags now)) sr) (\<lambda>_ sr. (Ok (Some assigned), sr)))))
    ?Q (\<lambda>(s', r'). kept now s s')"
    by (rule holds_mono) auto
  show "holds (let key = (6, source, port, bi_domain (fst sr)) in
     if \<not> bt_contains (bi_sessions (fst sr)) (key, remote) \<and> \<not> syn flags then (Ok None, sr)
     else then_do (inspect (admit (fst sr) key remote) sr) (\<lambda>_ sr.
       then_do (assign_port key (\<lambda>_. False) sr) (\<lambda>assigned sr.
       then_do (on_fst (modify (tcp_session key remote True flags now)) sr) (\<lambda>_ sr. (Ok (Some assigned), sr)))))
    ?Q (\<lambda>(s', r'). kept now s s')"
    unfolding Let_def sr fst_conv same
    by (cases "\<not> bt_contains (bi_sessions t) (?key, remote) \<and> \<not> syn flags") (use tail E same in auto)
qed


lemma prepared_self:
  assumes "bind_inv s" and "has_binding s key p" and "admitted s key remote"
  shows "prepared key remote p s s"
  using assms core_weaken [of s "{key}"] by (auto simp: prepared_def bind_inv_def has_binding_def)

lemma admitted_session:
  assumes "bind_inv s" and "bt_contains (bi_sessions s) (key, remote)"
  shows "admitted s key remote"
proof -
  have c: "core {} s" and l: "limits s" using assms(1) by (simp_all add: bind_inv_def)
  obtain b where b: "bt_get (bi_bindings s) key = Some b" by (rule core_session_binding [OF c assms(2)])
  then have "bt_contains (bi_bindings s) key" by (rule bt_get_Some_contains)
  moreover have "bt_contains (bi_hosts s) (k_host key)"
    using core_hosts [OF c, of "k_host key"] core_host_present [OF c b] by (simp add: bt_contains_def)
  ultimately show ?thesis using l assms(2) by (simp add: admitted_def limits_def)
qed

lemma reverse_binding:
  assumes "bind_inv s" and "bt_get (bi_reverse s) (protocol, port) = Some key"
  shows "k_protocol key = protocol" and "has_binding s key port"
  using core_reverse [of "{}" s "(protocol, port)" key] assms by (auto simp: bind_inv_def has_binding_def)

lemma domain_inv [simp]: "bind_inv (s\<lparr>bi_domain := d\<rparr>) = bind_inv s" "keeps now s (t\<lparr>bi_domain := d\<rparr>) = keeps now s t"
  "served now key remote p e s (t\<lparr>bi_domain := d\<rparr>) = served now key remote p e s t"
proof -
  have 1: "bind_inv (s\<lparr>bi_domain := d\<rparr>) = bind_inv s" for s
    by (simp add: bind_inv_def core_def binding_ok_def limits_def charged_bytes_def next_ok_def)
  have 2: "keeps now s (t\<lparr>bi_domain := d\<rparr>) = keeps now s t"
    by (simp add: keeps_def has_binding_def)
  show "bind_inv (s\<lparr>bi_domain := d\<rparr>) = bind_inv s" by (rule 1)
  show "keeps now s (t\<lparr>bi_domain := d\<rparr>) = keeps now s t" by (rule 2)
  show "served now key remote p e s (t\<lparr>bi_domain := d\<rparr>) = served now key remote p e s t"
    by (simp add: served_def 1 2 has_binding_def)
qed

text \<open>Nothing that arrives from outside creates a binding.\<close>

definition no_new :: "bindings \<Rightarrow> bindings \<Rightarrow> bool" where
  "no_new s s' \<longleftrightarrow> (\<forall>key q. has_binding s' key q \<longrightarrow> has_binding s key q)"

lemma no_new_refl [simp]: "no_new s s"
  by (simp add: no_new_def)

lemma no_new_trans: "no_new s t \<Longrightarrow> no_new t u \<Longrightarrow> no_new s u"
  by (simp add: no_new_def)

lemma no_new_confined [simp]: "no_new s t \<Longrightarrow> confined s t"
  by (simp add: no_new_def confined_def)

lemma no_new_domain [simp]: "no_new s (t\<lparr>bi_domain := d\<rparr>) = no_new s t"
  by (simp add: no_new_def has_binding_def)

lemma no_new_expired: "expired now s t \<Longrightarrow> no_new s t"
  unfolding expired_def steady_def no_new_def has_binding_def by metis

lemma no_new_settled: "settled key remote e s s' \<Longrightarrow> no_new s s'"
  by (simp add: settled_def no_new_def)

lemma expired_kept: "bind_inv s \<Longrightarrow> expired now s t \<Longrightarrow> kept now s t \<and> no_new s t"
  using keeps_expired [of s now t] no_new_expired [of now s t] expired_def [of now s t] no_new_confined by blast

text \<open>The common tail of the inbound calls: renew the session of the key and adopt its domain.\<close>

definition inbound :: "u64 \<Rightarrow> bkey \<Rightarrow> sock4 \<Rightarrow> u16 \<Rightarrow> session \<Rightarrow> bindings \<Rightarrow> (ipv6 \<times> u16) option \<Rightarrow> bindings \<Rightarrow> bool" where
  "inbound now key remote port e s x s' \<longleftrightarrow> x = Some (k_host key, k_port key)
     \<and> served now key remote port e s s' \<and> no_new s s' \<and> bi_domain s' = k_domain key"

text \<open>A delivery adopts the translation domain of the binding it went through.\<close>

definition adopted :: "bindings \<Rightarrow> (ipv6 \<times> u16) option \<Rightarrow> bindings \<Rightarrow> bool" where
  "adopted s x s' \<longleftrightarrow> (case x of None \<Rightarrow> bi_domain s' = bi_domain s
     | Some hp \<Rightarrow> \<exists>key q. has_binding s key q \<and> hp = (k_host key, k_port key) \<and> bi_domain s' = k_domain key)"

lemma inbound_adopted: "inbound now key remote port e s x s' \<Longrightarrow> adopted s x s'"
  unfolding inbound_def served_def no_new_def adopted_def by (simp, blast)

lemma inbound_ok:
  assumes inv: "bind_inv s" and exp: "expired now s t" and adm: "admitted t key remote"
    and b: "has_binding t key port"
    and sess: "\<exists>p. prepared key remote p t t \<Longrightarrow> \<exists>v. f t = Ok v \<and> settled key remote e t v"
  shows "holds (then_do (modify f t) (\<lambda>_ s. (Ok (Some (k_host key, k_port key)), s\<lparr>bi_domain := k_domain key\<rparr>)))
    (inbound now key remote port e s) E"
proof -
  have pre: "prepared key remote port t t"
    using exp b adm by (intro prepared_self) (simp_all add: expired_def)
  then obtain v where v: "f t = Ok v" "settled key remote e t v" using sess by blast
  then show ?thesis
    using settled_served [OF inv exp pre v(2)] no_new_trans [OF no_new_expired [OF exp] no_new_settled [OF v(2)]]
    by (simp add: modify_def inbound_def)
qed

lemma udp_in_ok:
  assumes inv: "bind_inv s"
  shows "holds (udp_in port remote now s)
    (\<lambda>x s'. if x = None then expired now s s'
       else \<exists>key. k_protocol key = 17 \<and> inbound now key remote port (udp_entry s now) s x s') (expired now s)"
  unfolding udp_in_def
proof (rule holds_then_do [where P = "\<lambda>_ t. expired now s t"])
  show "holds (run_expire now s) (\<lambda>_ t. expired now s t) (expired now s)"
    by (rule holds_mono [OF run_expire_ok [OF inv]]) auto
  fix t assume exp: "expired now s t"
  have tinv: "bind_inv t" and c: "core {} t" and same: "bi_udp_seconds t = bi_udp_seconds s"
    using exp by (simp_all add: expired_def bind_inv_def steady_def)
  note E = exp
  let ?Q = "\<lambda>x s'. if x = None then expired now s s'
       else \<exists>key. k_protocol key = 17 \<and> inbound now key remote port (udp_entry s now) s x s'"
  show "holds (case bt_get (bi_reverse t) (17, port) of None \<Rightarrow> (Ok None, t)
     | Some key \<Rightarrow> if udp_filtered t key remote then (Ok None, t)
         else then_do (inspect (admit t key remote) t) (\<lambda>_ s.
           then_do (modify (udp_session key remote now) s) (\<lambda>_ s.
             (Ok (Some (k_host key, k_port key)), s\<lparr>bi_domain := k_domain key\<rparr>)))) ?Q (expired now s)"
  proof (cases "bt_get (bi_reverse t) (17, port)")
    case None
    then show ?thesis using E by simp
  next
    case (Some key)
    note key = reverse_binding [OF tinv Some]
    show ?thesis
    proof (cases "udp_filtered t key remote")
      case True
      then show ?thesis using Some E by simp
    next
      case False
      have "holds (then_do (inspect (admit t key remote) t) (\<lambda>_ s.
           then_do (modify (udp_session key remote now) s) (\<lambda>_ s.
             (Ok (Some (k_host key, k_port key)), s\<lparr>bi_domain := k_domain key\<rparr>)))) ?Q (expired now s)"
      proof (rule holds_then_do [where P = "\<lambda>_ u. u = t \<and> admitted t key remote"])
        show "holds (inspect (admit t key remote) t) (\<lambda>_ u. u = t \<and> admitted t key remote) (expired now s)"
          using admit_not_Panic admit_ok [OF c] E by (intro holds_inspect) auto
        fix u assume u: "u = t \<and> admitted t key remote"
        have "holds (then_do (modify (udp_session key remote now) t)
            (\<lambda>_ s. (Ok (Some (k_host key, k_port key)), s\<lparr>bi_domain := k_domain key\<rparr>)))
          (inbound now key remote port (udp_entry s now) s) (expired now s)"
          by (rule inbound_ok [OF inv exp conjunct2 [OF u] key(2)])
            (rule udp_session_ok [where t = t], simp_all add: key(1) same)
        then show "holds (then_do (modify (udp_session key remote now) u)
            (\<lambda>_ s. (Ok (Some (k_host key, k_port key)), s\<lparr>bi_domain := k_domain key\<rparr>))) ?Q (expired now s)"
          unfolding conjunct1 [OF u] by (rule holds_mono) (use key(1) in \<open>auto simp: inbound_def\<close>)
      qed
      then show ?thesis using Some False by simp
    qed
  qed
qed

end
