(* ===== verification/Nat64_Bindings_Calls.thy ===== *)
theory Nat64_Bindings_Calls
  imports Nat64_Bindings_Inv
begin

text \<open>
  Every public call of the binding tables keeps the invariant: the inbound ICMP and TCP calls,
  probes, timeouts, the withdrawal of translation domains and the reset. \<open>traffic\<close> and \<open>bind_call\<close>
  are the calls as step relations, together with what other holders of the shared port registry
  may do in between; the interface \<open>call_invariant\<close> is interpreted on them, and the properties
  of the tables are stated for every reachable state.
\<close>

section \<open>ICMP and TCP calls\<close>

lemma run_expire_idle:
  "(case bi_next t of None \<Rightarrow> True | Some n \<Rightarrow> now < n) \<Longrightarrow> run_expire now t = (Ok (), t)"
  by (simp add: run_expire_def modify_def expire_def)

text \<open>Only TCP sessions are demoted: a UDP or ICMP session that is still there is live.\<close>

lemma query_session_live:
  assumes "bind_inv s" and "expired now s t" and "k_protocol key \<noteq> 6" and "bt_contains (bi_sessions t) (key, remote)"
  shows "live_session s (key, remote) now"
proof -
  have "bt_get (bi_sessions t) (key, remote) = survivor now (bt_get (bi_sessions s) (key, remote))"
    using assms(2) unfolding expired_def by blast
  then obtain e where e: "bt_get (bi_sessions s) (key, remote) = Some e" "now < se_expires (demote now e)"
    using assms(4) by (auto simp: survivor_def bt_contains_def split: option.splits if_splits)
  have "session_ok (key, remote) e" using core_session [where K = "{}", OF _ e(1)] assms(1) by (simp add: bind_inv_def)
  then have "demote now e = e" using assms(3) by (auto simp: session_ok_def demote_def)
  with e show ?thesis by (simp add: live_session_def)
qed

lemma icmp_in_ok:
  assumes inv: "bind_inv s"
  shows "holds (icmp_in ident remote now s)
    (\<lambda>x s'. if x = None then expired now s s'
       else \<exists>key. k_protocol key = 1 \<and> live_session s (key, (remote, 0)) now
         \<and> inbound now key (remote, 0) ident (icmp_entry s now) s x s') (expired now s)"
  unfolding icmp_in_def
proof (rule holds_then_do [where P = "\<lambda>_ t. expired now s t"])
  show "holds (run_expire now s) (\<lambda>_ t. expired now s t) (expired now s)"
    by (rule holds_mono [OF run_expire_ok [OF inv]]) auto
  fix t assume exp: "expired now s t"
  have tinv: "bind_inv t" and same: "bi_icmp_seconds t = bi_icmp_seconds s"
    using exp by (simp_all add: expired_def steady_def)
  note E = exp
  show "holds (case bt_get (bi_reverse t) (1, ident) of None \<Rightarrow> (Ok None, t)
     | Some key \<Rightarrow> if \<not> bt_contains (bi_sessions t) (key, (remote, 0)) then (Ok None, t)
         else then_do (modify (icmp_session key remote now) t) (\<lambda>_ s.
             (Ok (Some (k_host key, k_port key)), s\<lparr>bi_domain := k_domain key\<rparr>)))
    (\<lambda>x s'. if x = None then expired now s s'
       else \<exists>key. k_protocol key = 1 \<and> live_session s (key, (remote, 0)) now
         \<and> inbound now key (remote, 0) ident (icmp_entry s now) s x s') (expired now s)"
  proof (cases "bt_get (bi_reverse t) (1, ident)")
    case None
    then show ?thesis using E by simp
  next
    case (Some key)
    note key = reverse_binding [OF tinv Some]
    show ?thesis
    proof (cases "bt_contains (bi_sessions t) (key, (remote, 0))")
      case False
      then show ?thesis using Some E by simp
    next
      case True
      have live: "live_session s (key, (remote, 0)) now"
        by (rule query_session_live [OF inv exp _ True]) (simp add: key(1))
      have "holds (then_do (modify (icmp_session key remote now) t)
            (\<lambda>_ s. (Ok (Some (k_host key, k_port key)), s\<lparr>bi_domain := k_domain key\<rparr>)))
          (inbound now key (remote, 0) ident (icmp_entry s now) s) (expired now s)"
        by (rule inbound_ok [OF inv exp admitted_session [OF tinv True] key(2)])
          (rule icmp_session_ok [where t = t], simp_all add: key(1) same)
      then have "holds (then_do (modify (icmp_session key remote now) t)
            (\<lambda>_ s. (Ok (Some (k_host key, k_port key)), s\<lparr>bi_domain := k_domain key\<rparr>)))
          (\<lambda>x s'. if x = None then expired now s s'
             else \<exists>key. k_protocol key = 1 \<and> live_session s (key, (remote, 0)) now
               \<and> inbound now key (remote, 0) ident (icmp_entry s now) s x s') (expired now s)"
        by (rule holds_mono) (use key(1) live in \<open>auto simp: inbound_def\<close>)
      then show ?thesis using Some True by simp
    qed
  qed
qed


text \<open>\<open>tcp_in\<close> after its expiry.\<close>

definition tcp_in_tail :: "u16 \<Rightarrow> sock4 \<Rightarrow> u8 \<Rightarrow> u64 \<Rightarrow> bindings \<Rightarrow> (io_error, (ipv6 \<times> u16) option) outcome \<times> bindings" where
  "tcp_in_tail port remote flags now s = (case bt_get (bi_reverse s) (6, port) of
       None \<Rightarrow> (Ok None, s)
     | Some key \<Rightarrow>
         if \<not> bt_contains (bi_sessions s) (key, remote) \<and> \<not> syn flags then (Ok None, s)
         else
           then_do (inspect (admit s key remote) s) (\<lambda>_ s.
           then_do (modify (tcp_session key remote False flags now) s) (\<lambda>_ s.
             (Ok (Some (k_host key, k_port key)), s\<lparr>bi_domain := k_domain key\<rparr>))))"

lemma tcp_in_eq: "tcp_in port remote flags now s =
    then_do (run_expire now s) (\<lambda>_. tcp_in_tail port remote flags now)"
  by (simp add: tcp_in_def tcp_in_tail_def [abs_def])

definition tcp_received :: "u16 \<Rightarrow> sock4 \<Rightarrow> u8 \<Rightarrow> u64 \<Rightarrow> bindings \<Rightarrow> (ipv6 \<times> u16) option \<Rightarrow> bindings \<Rightarrow> bool" where
  "tcp_received port remote flags now t x s' \<longleftrightarrow> x = None \<and> s' = t
     \<or> (\<exists>key v. bt_get (bi_reverse t) (6, port) = Some key \<and> x = Some (k_host key, k_port key)
         \<and> (bt_contains (bi_sessions t) (key, remote) \<or> syn flags)
         \<and> settled key remote (tcp_entry (bt_get (bi_sessions t) (key, remote)) False flags now) t v
         \<and> s' = v\<lparr>bi_domain := k_domain key\<rparr>)"

lemma tcp_in_tail_ok:
  assumes tinv: "bind_inv t"
  shows "holds (tcp_in_tail port remote flags now t) (tcp_received port remote flags now t) (\<lambda>s'. s' = t)"
proof (cases "bt_get (bi_reverse t) (6, port)")
  case None
  then show ?thesis by (simp add: tcp_in_tail_def tcp_received_def)
next
  case (Some key)
  note key = reverse_binding [OF tinv Some]
  show ?thesis
  proof (cases "\<not> bt_contains (bi_sessions t) (key, remote) \<and> \<not> syn flags")
    case True
    then show ?thesis using Some by (simp add: tcp_in_tail_def tcp_received_def)
  next
    case False
    show ?thesis
    proof (cases "admit t key remote")
      case (Ok u)
      then have adm: "admitted t key remote" using admit_ok tinv by (simp add: bind_inv_def)
      have pre: "prepared key remote port t t" by (rule prepared_self [OF tinv key(2) adm])
      obtain v where v: "tcp_session key remote False flags now t = Ok v"
        "settled key remote (tcp_entry (bt_get (bi_sessions t) (key, remote)) False flags now) t v"
        using tcp_session_ok [OF pre key(1), of False flags now] by blast
      then have "tcp_in_tail port remote flags now t
          = (Ok (Some (k_host key, k_port key)), v\<lparr>bi_domain := k_domain key\<rparr>)"
        using Some False Ok by (auto simp: tcp_in_tail_def inspect_def modify_def)
      then show ?thesis using v(2) Some False by (auto simp: tcp_received_def)
    next
      case (Err e)
      then show ?thesis using Some False by (auto simp: tcp_in_tail_def inspect_def)
    next
      case Panic
      then show ?thesis using admit_not_Panic by metis
    qed
  qed
qed

lemma tcp_received_kept:
  assumes inv: "bind_inv s" and exp: "expired now s t" and r: "tcp_received port remote flags now t x s'"
  shows "kept now s s' \<and> no_new s s'" and "adopted s x s'"
proof -
  have E: "kept now s t \<and> no_new s t" by (rule expired_kept [OF inv exp])
  have tinv: "bind_inv t" and same: "bi_domain t = bi_domain s" using exp by (simp_all add: expired_def steady_def)
  consider "s' = t" "x = None"
    | key v where "settled key remote (tcp_entry (bt_get (bi_sessions t) (key, remote)) False flags now) t v"
      "s' = v\<lparr>bi_domain := k_domain key\<rparr>" "bt_get (bi_reverse t) (6, port) = Some key" "x = Some (k_host key, k_port key)"
    using r unfolding tcp_received_def by blast
  then have "(kept now s s' \<and> no_new s s') \<and> adopted s x s'"
  proof cases
    case 1
    then show ?thesis using E same by (simp add: adopted_def)
  next
    case v: (2 key v)
    have "keeps now s v" "no_new s v"
      using E keeps_trans keeps_settled [OF v(1)] no_new_trans no_new_settled [OF v(1)] by blast+
    moreover have "has_binding s key port" using reverse_binding(2) [OF tinv v(3)] E by (simp add: no_new_def)
    ultimately show ?thesis using v by (auto simp: settled_def adopted_def)
  qed
  then show "kept now s s' \<and> no_new s s'" and "adopted s x s'" by blast+
qed

lemma tcp_in_ok:
  assumes inv: "bind_inv s"
  shows "holds (tcp_in port remote flags now s)
    (\<lambda>x s'. \<exists>t. expired now s t \<and> tcp_received port remote flags now t x s') (expired now s)"
  unfolding tcp_in_eq
proof (rule holds_then_do [where P = "\<lambda>_ t. expired now s t"])
  show "holds (run_expire now s) (\<lambda>_ t. expired now s t) (expired now s)"
    by (rule holds_mono [OF run_expire_ok [OF inv]]) auto
  fix t assume exp: "expired now s t"
  have tinv: "bind_inv t" using exp by (simp add: expired_def)
  show "holds (tcp_in_tail port remote flags now t)
    (\<lambda>x s'. \<exists>t. expired now s t \<and> tcp_received port remote flags now t x s') (expired now s)"
    by (rule holds_mono [OF tcp_in_tail_ok [OF tinv]]) (use exp tinv keeps_expired [OF inv exp] in auto)
qed

text \<open>The SYN that opened a session is remembered within the admitted budget.\<close>

lemma remember_ok:
  assumes inv: "bind_inv s" and ne: "packet \<noteq> []"
    and room: "charged_bytes s + quote_length (packet ! 0) packet \<le> 4194304"
  shows "\<exists>s'. remember_tcp_syn port remote packet s = Ok s' \<and> bind_inv s' \<and> keeps_all s s' \<and> no_new s s'
    \<and> bi_domain s' = bi_domain s"
proof (cases "bt_get (bi_reverse s) (6, port)")
  case None
  then show ?thesis using inv by (simp add: remember_tcp_syn_def)
next
  case (Some key)
  have c: "core {} s" and l: "limits s" and n: "next_ok s" using inv by (simp_all add: bind_inv_def)
  show ?thesis
  proof (cases "\<exists>e. bt_get (bi_sessions s) (key, remote) = Some e \<and> se_tcp e = Some V4Init \<and> se_quote e = []")
    case False
    then show ?thesis using Some inv by (auto simp: remember_tcp_syn_def split: option.splits)
  next
    case True
    then obtain e where e: "bt_get (bi_sessions s) (key, remote) = Some e" "se_tcp e = Some V4Init" "se_quote e = []" by blast
    let ?quote = "take (quote_length (packet ! 0) packet) packet"
    let ?e = "e\<lparr>se_quote := ?quote\<rparr>"
    let ?s = "s\<lparr>bi_tcp_quote_bytes := bi_tcp_quote_bytes s + length ?quote,
        bi_sessions := bt_insert (key, remote) ?e (bi_sessions s)\<rparr>"
    have ql: "length ?quote = quote_length (packet ! 0) packet" "quote_length (packet ! 0) packet \<le> 68"
      by (simp_all add: quote_length_def)
    have cs: "bt_contains (bi_sessions s) (key, remote)" using e(1) by (rule bt_get_Some_contains)
    have "session_ok (key, remote) e" using core_session [OF c e(1)] .
    then have ok: "session_ok (key, remote) ?e" using ql e(2) by (auto simp: session_ok_def)
    have "core {} ?s" by (rule update_session [OF c e(1) ok]) (simp add: e(3))
    moreover have "limits ?s"
      using l room ql cs by (simp add: limits_def charged_bytes_def bt_len_insert bt_count_insert)
    moreover have "next_ok ?s" using n e(1) by (auto simp: next_ok_def split: if_splits)
    moreover have "keeps_all s ?s" "no_new s ?s" using cs by (auto simp: keeps_all_def no_new_def has_binding_def)
    moreover have "remember_tcp_syn port remote packet s = Ok ?s"
      using Some e ne by (simp add: remember_tcp_syn_def Let_def)
    ultimately show ?thesis by (auto simp: bind_inv_def)
  qed
qed


lemma quote_room_ok:
  assumes "packet \<noteq> []"
  shows "quote_room s sk packet \<noteq> Panic"
    and "quote_room s sk packet = Ok u \<Longrightarrow>
      charged_bytes s + quote_length (packet ! 0) packet + (if bt_contains (bi_sessions s) sk then 0 else 256) \<le> 4194304"
  using assms by (auto simp: quote_room_def Let_def split: if_splits)

lemma tcp_in_packet_ok:
  assumes inv: "bind_inv s" and ne: "packet \<noteq> []"
  shows "holds (tcp_in_packet port remote flags now packet s) (\<lambda>x s'. (kept now s s' \<and> no_new s s') \<and> adopted s x s') (expired now s)"
  unfolding tcp_in_packet_def
proof (rule holds_then_do [where P = "\<lambda>_ t. expired now s t"])
  show "holds (run_expire now s) (\<lambda>_ t. expired now s t) (expired now s)"
    by (rule holds_mono [OF run_expire_ok [OF inv]]) auto
  fix t assume exp: "expired now s t"
  have tinv: "bind_inv t" and idle: "run_expire now t = (Ok (), t)"
    using exp run_expire_idle by (simp_all add: expired_def)
  have E: "expired now s t" "kept now s t" "no_new s t" "adopted s None t"
    using exp expired_kept [OF inv exp] by (auto simp: adopted_def expired_def steady_def)
  show "holds (case bt_get (bi_reverse t) (6, port) of None \<Rightarrow> (Ok None, t)
     | Some key \<Rightarrow> let quote = needs_quote t (key, remote) flags in
         then_do (inspect (if quote then quote_room t (key, remote) packet else Ok ()) t) (\<lambda>_ s.
         then_do (tcp_in port remote flags now s) (\<lambda>result s.
         then_do (modify (\<lambda>s. if quote \<and> result \<noteq> None then remember_tcp_syn port remote packet s else Ok s) s)
           (\<lambda>_ s. (Ok result, s))))) (\<lambda>x s'. (kept now s s' \<and> no_new s s') \<and> adopted s x s') (expired now s)"
  proof (cases "bt_get (bi_reverse t) (6, port)")
    case None
    then show ?thesis using E by simp
  next
    case (Some key)
    let ?quote = "needs_quote t (key, remote) flags"
    let ?room = "?quote \<longrightarrow> charged_bytes t + quote_length (packet ! 0) packet
        + (if bt_contains (bi_sessions t) (key, remote) then 0 else 256) \<le> 4194304"
    have "holds (then_do (inspect (if ?quote then quote_room t (key, remote) packet else Ok ()) t) (\<lambda>_ s.
         then_do (tcp_in port remote flags now s) (\<lambda>result s.
         then_do (modify (\<lambda>s. if ?quote \<and> result \<noteq> None then remember_tcp_syn port remote packet s else Ok s) s)
           (\<lambda>_ s. (Ok result, s))))) (\<lambda>x s'. (kept now s s' \<and> no_new s s') \<and> adopted s x s') (expired now s)"
    proof (rule holds_then_do [where P = "\<lambda>_ u. u = t \<and> ?room"])
      show "holds (inspect (if ?quote then quote_room t (key, remote) packet else Ok ()) t) (\<lambda>_ u. u = t \<and> ?room) (expired now s)"
        using quote_room_ok [OF ne, of t "(key, remote)"] E by (intro holds_inspect) (auto split: if_splits)
      fix u assume u: "u = t \<and> ?room"
      have "holds (tcp_in port remote flags now t) (tcp_received port remote flags now t) (expired now s)"
        unfolding tcp_in_eq idle then_do.simps
        by (rule holds_mono [OF tcp_in_tail_ok [OF tinv]]) (use E in auto)
      then show "holds (then_do (tcp_in port remote flags now u) (\<lambda>result s.
           then_do (modify (\<lambda>s. if ?quote \<and> result \<noteq> None then remember_tcp_syn port remote packet s else Ok s) s)
             (\<lambda>_ s. (Ok result, s)))) (\<lambda>x s'. (kept now s s' \<and> no_new s s') \<and> adopted s x s') (expired now s)"
        unfolding conjunct1 [OF u]
      proof (rule holds_then_do)
        fix x s' assume rec: "tcp_received port remote flags now t x s'"
        have k: "kept now s s' \<and> no_new s s'" and ad: "adopted s x s'" by (rule tcp_received_kept [OF inv exp rec])+
        show "holds (then_do (modify (\<lambda>s. if ?quote \<and> x \<noteq> None then remember_tcp_syn port remote packet s else Ok s) s')
             (\<lambda>_ s. (Ok x, s))) (\<lambda>x s'. (kept now s s' \<and> no_new s s') \<and> adopted s x s') (expired now s)"
        proof (cases "?quote \<and> x \<noteq> None")
          case False
          then show ?thesis using k ad by (auto simp: modify_def)
        next
          case True
          then obtain v where v: "settled key remote (tcp_entry (bt_get (bi_sessions t) (key, remote)) False flags now) t v"
            "s' = v\<lparr>bi_domain := k_domain key\<rparr>"
            using rec Some unfolding tcp_received_def by auto
          have "charged_bytes s' = charged_bytes v" by (simp add: v(2) charged_bytes_def)
          then have "charged_bytes s' + quote_length (packet ! 0) packet \<le> 4194304"
            using v(1) u True unfolding settled_def by (auto split: if_splits)
          from remember_ok [OF conjunct1 [OF conjunct1 [OF k]] ne this, of port remote] obtain w where
            "remember_tcp_syn port remote packet s' = Ok w" "bind_inv w" "keeps_all s' w" "no_new s' w"
              "bi_domain w = bi_domain s'" by blast
          moreover from this(5) ad have "adopted s x w" by (simp add: adopted_def split: option.splits)
          ultimately show ?thesis using True k keeps_trans no_new_trans no_new_confined by (auto simp: modify_def)
        qed
      qed
    qed
    then show ?thesis using Some by (simp add: Let_def)
  qed
qed


section \<open>Probes, timeouts and withdrawal\<close>

lemma probe_loop_ok:
  assumes "bind_inv s"
  shows "\<exists>s' out'. probe_loop limit sks s out = Ok (s', out') \<and> bind_inv s' \<and> keeps_all s s' \<and> no_new s s'
    \<and> (length out \<le> limit \<longrightarrow> length out' \<le> limit) \<and> bi_reverse s' = bi_reverse s \<and> bi_domain s' = bi_domain s
    \<and> set out' \<subseteq> set out \<union> {x. bt_contains (bi_reverse s) (6, fst (snd (snd x)))}"
  using assms
proof (induction sks arbitrary: s out)
  case Nil
  then show ?case by simp
next
  case (Cons sk sks)
  show ?case
  proof (cases "limit \<le> length out \<or> (\<forall>e. bt_get (bi_sessions s) sk = Some e \<longrightarrow> \<not> se_probe e)")
    case True
    then show ?thesis
      using Cons.prems Cons.IH [OF Cons.prems, of out] by (cases "bt_get (bi_sessions s) sk") auto
  next
    case False
    then obtain e where e: "bt_get (bi_sessions s) sk = Some e" "se_probe e" by blast
    have c: "core {} s" and l: "limits s" and n: "next_ok s" using Cons.prems by (simp_all add: bind_inv_def)
    have cs: "bt_contains (bi_sessions s) sk" using e(1) by (rule bt_get_Some_contains)
    obtain b where b: "bt_get (bi_bindings s) (fst sk) = Some b"
      using core_session_binding [OF c, of "fst sk" "snd sk"] cs by auto
    let ?s = "s\<lparr>bi_sessions := bt_insert sk (e\<lparr>se_probe := False\<rparr>) (bi_sessions s)\<rparr>"
    have "session_ok sk (e\<lparr>se_probe := False\<rparr>)" using core_session [OF c e(1)] by (simp add: session_ok_def)
    from update_session [OF c e(1) this refl]
    have "core {} ?s" by (rule core_cong) (use core_quotes [OF c] quote_sum_ge [OF e(1)] in simp_all)
    moreover have "limits ?s" using l cs by (simp add: limits_def charged_bytes_def bt_len_insert bt_count_insert)
    moreover have "next_ok ?s" using n e(1) by (auto simp: next_ok_def split: if_splits)
    ultimately have inv: "bind_inv ?s" by (simp add: bind_inv_def)
    have "k_protocol (fst sk) = 6" using core_session [OF c e(1)] e(2) by (auto simp: session_ok_def)
    then have rev: "bt_contains (bi_reverse s) (6, b_port b)"
      using core_binding [OF c b] by (auto simp: binding_ok_def bt_contains_def)
    have "keeps_all s ?s" "no_new s ?s" using cs by (auto simp: keeps_all_def no_new_def has_binding_def)
    moreover obtain s' out' where
      "probe_loop limit sks ?s (out @ [(k_host (fst sk), k_port (fst sk), b_port b, snd sk)]) = Ok (s', out')"
      "bind_inv s'" "keeps_all ?s s'" "no_new ?s s'" "Suc (length out) \<le> limit \<longrightarrow> length out' \<le> limit"
      "bi_reverse s' = bi_reverse ?s" "bi_domain s' = bi_domain ?s"
      "set out' \<subseteq> set (out @ [(k_host (fst sk), k_port (fst sk), b_port b, snd sk)]) \<union> {x. bt_contains (bi_reverse ?s) (6, fst (snd (snd x)))}"
      using Cons.IH [OF inv, of "out @ [(k_host (fst sk), k_port (fst sk), b_port b, snd sk)]"] by auto
    ultimately show ?thesis using False e b rev keeps_all_trans [of s ?s s'] no_new_trans [of s ?s s'] by fastforce
  qed
qed

lemma drop_leases_ok:
  assumes "ports_ok p" and "distinct (map h_key hs)"
    and "\<And>h. h \<in> set hs \<Longrightarrow> bt_get (po_entries p) (h_key h) = Some (h_id h, Translation)"
  shows "\<exists>p'. drop_leases hs p = Ok p' \<and> ports_ok p'
    \<and> (\<forall>k. bt_get (po_entries p') k = (if k \<in> h_key ` set hs then None else bt_get (po_entries p) k))"
  using assms
proof (induction hs arbitrary: p)
  case Nil
  then show ?case by simp
next
  case (Cons h hs)
  obtain p1 where p1: "held_drop h p = (Ok (), p1)" "ports_ok p1" "po_entries p1 = bt_remove (h_key h) (po_entries p)"
    using drop_ok [OF Cons.prems(1), of h Translation] Cons.prems(3) [of h] by auto
  have "bt_get (po_entries p1) (h_key g) = Some (h_id g, Translation)" if "g \<in> set hs" for g
  proof -
    have "h_key g \<noteq> h_key h" using Cons.prems(2) that by (metis distinct.simps(2) imageI list.simps(9) set_map)
    then show ?thesis using Cons.prems(3) [of g] that by (simp add: p1(3))
  qed
  with Cons.IH [OF p1(2)] Cons.prems(2) obtain p2 where
    "drop_leases hs p1 = Ok p2" "ports_ok p2"
    "\<forall>k. bt_get (po_entries p2) k = (if k \<in> h_key ` set hs then None else bt_get (po_entries p1) k)" by auto
  then show ?case using p1 by auto
qed

text \<open>The leases of any set of bindings can be dropped together.\<close>

lemma drop_some_bindings:
  assumes c: "core K s"
  shows "\<exists>p'. drop_leases (map b_lease (bt_values (bt_retain Q (bi_bindings s)))) (bi_ports s) = Ok p' \<and> ports_ok p'
    \<and> (\<forall>key b. bt_get (bi_bindings s) key = Some b \<and> \<not> Q key b
        \<longrightarrow> bt_get (po_entries p') (k_protocol key, b_port b) = bt_get (po_entries (bi_ports s)) (k_protocol key, b_port b))"
proof -
  let ?m = "bt_retain Q (bi_bindings s)"
  let ?hs = "map b_lease (bt_values ?m)"
  have get: "bt_get ?m key = Some b \<Longrightarrow> bt_get (bi_bindings s) key = Some b \<and> Q key b" for key b
    by (auto split: option.splits if_splits)
  have keyed: "h_key (b_lease b) = (k_protocol key, b_port b)"
    and entry: "bt_get (po_entries (bi_ports s)) (h_key (b_lease b)) = Some (h_id (b_lease b), Translation)"
    if "bt_get (bi_bindings s) key = Some b" for key b
    using core_binding [OF c that] by (simp_all add: binding_ok_def)
  have "map h_key ?hs = map (\<lambda>e. (k_protocol (fst e), b_port (snd e))) (entries ?m)"
  proof -
    have "h_key (b_lease (snd e)) = (k_protocol (fst e), b_port (snd e))" if "e \<in> set (entries ?m)" for e
      using that keyed get entries_get by (metis prod.collapse)
    then show ?thesis by (simp add: bt_values_def)
  qed
  moreover have "inj_on (\<lambda>e. (k_protocol (fst e), b_port (snd e))) (set (entries ?m))"
  proof (rule inj_onI)
    fix x y assume xy: "x \<in> set (entries ?m)" "y \<in> set (entries ?m)"
      and eq: "(k_protocol (fst x), b_port (snd x)) = (k_protocol (fst y), b_port (snd y))"
    have "bt_get (bi_bindings s) (fst x) = Some (snd x)" "bt_get (bi_bindings s) (fst y) = Some (snd y)"
      using xy get entries_get by (metis prod.collapse)+
    moreover from core_port_inj [OF c this eq] have "fst x = fst y" .
    ultimately show "x = y" by (simp add: prod_eq_iff)
  qed
  moreover have "distinct (entries ?m)" using entries_distinct [of ?m] by (simp add: distinct_map)
  ultimately have dist: "distinct (map h_key ?hs)" by (simp add: distinct_map)
  have mem: "h \<in> set ?hs \<longleftrightarrow> (\<exists>key b. bt_get ?m key = Some b \<and> h = b_lease b)" for h
    unfolding set_map image_iff Bex_def bt_values_set by blast
  have "bt_get (po_entries (bi_ports s)) (h_key h) = Some (h_id h, Translation)" if "h \<in> set ?hs" for h
    using that get entry unfolding mem by blast
  from drop_leases_ok [OF core_ports [OF c] dist this] obtain p' where
    p': "drop_leases ?hs (bi_ports s) = Ok p'" "ports_ok p'"
    "\<forall>k. bt_get (po_entries p') k = (if k \<in> h_key ` set ?hs then None else bt_get (po_entries (bi_ports s)) k)" by blast
  have "(k_protocol key, b_port b) \<notin> h_key ` set ?hs" if "bt_get (bi_bindings s) key = Some b" "\<not> Q key b" for key b
  proof
    assume "(k_protocol key, b_port b) \<in> h_key ` set ?hs"
    then obtain h where "(k_protocol key, b_port b) = h_key h" "h \<in> set ?hs" by (rule imageE)
    then obtain key' b' where kb: "bt_get ?m key' = Some b'" "(k_protocol key, b_port b) = h_key (b_lease b')"
      unfolding mem by blast
    have 1: "bt_get (bi_bindings s) key' = Some b'" "Q key' b'" using get [OF kb(1)] by auto
    have "(k_protocol key', b_port b') = (k_protocol key, b_port b)" using keyed [OF 1(1)] kb(2) by simp
    from core_port_inj [OF c 1(1) that(1) this] 1 that show False by simp
  qed
  then show ?thesis using p' by auto
qed


lemma bind_clear_ok:
  assumes inv: "bind_inv s"
  shows "\<exists>s' rel. bind_clear s = Ok (s', rel) \<and> bind_inv s' \<and> bind_counts s' = (0, 0, 0)"
proof -
  have c: "core {} s" using inv by (simp add: bind_inv_def)
  have all: "bt_retain (\<lambda>_ _. True) (bi_bindings s) = bi_bindings s"
    by (rule bt_ext) (auto split: option.splits)
  obtain p' where p': "drop_leases (map b_lease (bt_values (bi_bindings s))) (bi_ports s) = Ok p'" "ports_ok p'"
    using drop_some_bindings [OF c, of "\<lambda>_ _. True"] all by auto
  let ?s = "s\<lparr>bi_ports := p', bi_bindings := bt_empty, bi_reverse := bt_empty, bi_sessions := bt_empty,
             bi_hosts := bt_empty, bi_next := None, bi_tcp_timeouts := [], bi_tcp_quote_bytes := 0\<rparr>"
  have "bind_inv ?s"
    using p'(2) by (simp add: bind_inv_def core_def limits_def next_ok_def charged_bytes_def quote_sum_def)
  then show ?thesis using p'(1) by (simp add: bind_clear_def bind_counts_def)
qed

lemma hosts_fold_bindings:
  "bt_get (foldl (\<lambda>m key. host_update (k_host key) (\<lambda>(b, n). (b + 1, n)) m) m ks) h =
     (let c = length (filter (\<lambda>k. k_host k = h) ks) in
      if c = 0 then bt_get m h
      else case bt_get m h of None \<Rightarrow> Some (c, 0) | Some (b, n) \<Rightarrow> Some (b + c, n))"
  by (induction ks arbitrary: m) (auto simp: host_update_def Let_def split: option.splits)

lemma hosts_fold_sessions:
  "bt_get (foldl (\<lambda>m (key, remote). host_update (k_host key) (\<lambda>(b, n). (b, n + 1)) m) m (sks :: skey list)) h =
     (let c = length (filter (\<lambda>sk. k_host (fst sk) = h) sks) in
      if c = 0 then bt_get m h
      else case bt_get m h of None \<Rightarrow> Some (0, c) | Some (b, n) \<Rightarrow> Some (b, n + c))"
  by (induction sks arbitrary: m) (auto simp: host_update_def Let_def split: option.splits prod.splits)

lemma bt_count_retain_all:
  assumes "\<And>k v. bt_get m k = Some v \<Longrightarrow> P k \<Longrightarrow> Q k v"
  shows "bt_count P (bt_retain Q m) = bt_count P m"
proof -
  have "set (filter P (bt_keys (bt_retain Q m))) = set (filter P (bt_keys m))"
    using assms by (auto simp: bt_keys_set bt_contains_def split: option.splits if_splits)
  moreover have "distinct (filter P (bt_keys m'))" for m' :: "('a, 'b) btree"
    using entries_distinct [of m'] by (simp add: bt_keys_def)
  ultimately show ?thesis unfolding bt_count_keys by (metis distinct_card)
qed

lemma bt_len_subset:
  assumes "\<And>k. bt_contains m k \<Longrightarrow> bt_contains m' k"
  shows "bt_len m \<le> bt_len m'"
proof -
  have d: "distinct (bt_keys m)" "distinct (bt_keys m')"
    using entries_distinct [of m] entries_distinct [of m'] by (simp_all add: bt_keys_def)
  have l: "bt_len m = card (set (bt_keys m))" "bt_len m' = card (set (bt_keys m'))"
    using distinct_card [OF d(1)] distinct_card [OF d(2)] by (simp_all add: bt_keys_def bt_len_def)
  have "set (bt_keys m) \<subseteq> set (bt_keys m')" using assms by (auto simp: bt_keys_set)
  then show ?thesis unfolding l by (simp add: card_mono)
qed


lemma retain_domains_ok:
  assumes inv: "bind_inv s"
  shows "\<exists>s'. retain_domains domains s = Ok s' \<and> bind_inv s'
    \<and> (\<forall>key q. has_binding s' key q \<longleftrightarrow> has_binding s key q \<and> list_ex (\<lambda>p. px_address p = k_domain key) domains)"
proof -
  let ?keep = "\<lambda>key :: bkey. list_ex (\<lambda>p. px_address p = k_domain key) domains"
  have c: "core {} s" and l: "limits s" and n: "next_ok s" using inv by (simp_all add: bind_inv_def)
  let ?ss = "bt_retain (\<lambda>(key, _) _. ?keep key) (bi_sessions s)"
  let ?bs = "bt_retain (\<lambda>key _. ?keep key) (bi_bindings s)"
  let ?rv = "bt_retain (\<lambda>_ key. ?keep key) (bi_reverse s)"
  let ?h1 = "foldl (\<lambda>m key. host_update (k_host key) (\<lambda>(b, n). (b + 1, n)) m) bt_empty (bt_keys ?bs)"
  let ?hh = "foldl (\<lambda>m (key, _). host_update (k_host key) (\<lambda>(b, n). (b, n + 1)) m) ?h1 (bt_keys ?ss)"
  obtain p' where p': "drop_leases (map b_lease (bt_values (bt_retain (\<lambda>key _. \<not> ?keep key) (bi_bindings s)))) (bi_ports s) = Ok p'"
    "ports_ok p'" and left: "\<And>key b. bt_get (bi_bindings s) key = Some b \<Longrightarrow> ?keep key \<Longrightarrow>
      bt_get (po_entries p') (k_protocol key, b_port b) = bt_get (po_entries (bi_ports s)) (k_protocol key, b_port b)"
    using drop_some_bindings [OF c, of "\<lambda>key _. \<not> ?keep key"] by blast
  let ?s = "s\<lparr>bi_ports := p', bi_sessions := ?ss, bi_bindings := ?bs, bi_reverse := ?rv, bi_hosts := ?hh,
            bi_tcp_quote_bytes := bt_sum (\<lambda>_ e. length (se_quote e)) ?ss,
            bi_next := list_min (map se_expires (bt_values ?ss))\<rparr>"
  have eq: "retain_domains domains s = Ok ?s" using p'(1) by (simp add: retain_domains_def Let_def)
  have gs: "bt_get ?ss sk = (if ?keep (fst sk) then bt_get (bi_sessions s) sk else None)" for sk
    by (cases sk) (auto split: option.splits)
  have gb: "bt_get ?bs key = (if ?keep key then bt_get (bi_bindings s) key else None)" for key
    by (auto split: option.splits)
  have gr: "bt_get ?rv p = Some key \<longleftrightarrow> bt_get (bi_reverse s) p = Some key \<and> ?keep key" for p key
    by (auto split: option.splits if_splits)
  have counts: "bt_count (\<lambda>sk. fst sk = key) ?ss = (if ?keep key then bt_count (\<lambda>sk. fst sk = key) (bi_sessions s) else 0)" for key
  proof (cases "?keep key")
    case True
    then show ?thesis by (simp, intro bt_count_retain_all) auto
  next
    case False
    then show ?thesis by (auto simp: bt_count_zero_iff bt_contains_def split: option.splits if_splits)
  qed
  have hosts: "bt_get ?hh h = (if bt_count (\<lambda>k. k_host k = h) ?bs = 0 then None
      else Some (bt_count (\<lambda>k. k_host k = h) ?bs, bt_count (\<lambda>sk. k_host (fst sk) = h) ?ss))" for h
  proof -
    have "bt_count (\<lambda>sk. k_host (fst sk) = h) ?ss = 0" if none: "bt_count (\<lambda>k. k_host k = h) ?bs = 0"
      unfolding bt_count_zero_iff
    proof (intro allI impI notI)
      fix sk assume sk: "bt_contains ?ss sk" "k_host (fst sk) = h"
      then have "bt_contains (bi_sessions s) (fst sk, snd sk)" "?keep (fst sk)"
        using gs [of sk] by (auto simp: bt_contains_def simp del: bt_get_retain split: if_splits)
      then obtain b where "bt_get ?bs (fst sk) = Some b" using core_session_binding [OF c] gb by metis
      then have "bt_contains ?bs (fst sk)" by (rule bt_get_Some_contains)
      with none sk(2) show False unfolding bt_count_zero_iff by blast
    qed
    then show ?thesis
      unfolding hosts_fold_sessions hosts_fold_bindings Let_def bt_count_keys [symmetric] by (auto split: if_splits)
  qed
  have "core {} ?s"
  proof (rule coreI)
    show "ports_ok (bi_ports ?s)" using p'(2) by simp
    show "binding_ok ?s key b" if "bt_get (bi_bindings ?s) key = Some b" for key b
    proof -
      have kb: "bt_get (bi_bindings s) key = Some b" "?keep key" using that by (simp_all add: gb del: bt_get_retain split: if_splits)
      then show ?thesis
        using core_binding [OF c kb(1)] left [OF kb] gr by (simp add: binding_ok_def del: bt_get_retain)
    qed
    show "\<exists>b. bt_get (bi_bindings ?s) key = Some b \<and> p = (k_protocol key, b_port b)"
      if "bt_get (bi_reverse ?s) p = Some key" for p key
      using that gr core_reverse [OF c, of p key] by (simp add: gb del: bt_get_retain)
    show "b_sessions b = bt_count (\<lambda>sk. fst sk = key) (bi_sessions ?s) \<and> (key \<notin> {} \<longrightarrow> 0 < b_sessions b)"
      if "bt_get (bi_bindings ?s) key = Some b" for key b
      using that core_count [OF c, of key b] core_pos [OF c, of key b]
      by (simp add: gb counts del: bt_get_retain split: if_splits)
    show "bt_count (\<lambda>sk. fst sk = key) (bi_sessions ?s) = 0" if "bt_get (bi_bindings ?s) key = None" for key
      using that core_none [OF c, of key] by (simp add: gb counts del: bt_get_retain split: if_splits)
    show "bt_get (bi_hosts ?s) h = (if bt_count (\<lambda>k. k_host k = h) (bi_bindings ?s) = 0 then None
         else Some (bt_count (\<lambda>k. k_host k = h) (bi_bindings ?s),
                    bt_count (\<lambda>sk. k_host (fst sk) = h) (bi_sessions ?s)))" for h
      using hosts [of h] by simp
    show "bi_tcp_quote_bytes ?s = quote_sum (bi_sessions ?s)" by (simp add: quote_sum_def)
    show "session_ok sk e" if "bt_get (bi_sessions ?s) sk = Some e" for sk e
      using that core_session [OF c, of sk e] by (simp add: gs del: bt_get_retain split: if_splits)
  qed
  moreover have "limits ?s"
  proof (rule limits_mono [OF l])
    have "bt_contains (bi_hosts s) h" if "bt_contains ?hh h" for h
      using that core_hosts [OF c, of h] hosts [of h] bt_count_retain_le [of "\<lambda>k. k_host k = h" "\<lambda>key _. ?keep key" "bi_bindings s"]
      by (auto simp: bt_contains_def split: if_splits)
    then have "bt_len ?hh \<le> bt_len (bi_hosts s)" by (rule bt_len_subset)
    moreover have "bt_sum (\<lambda>_ e. length (se_quote e)) ?ss \<le> bi_tcp_quote_bytes s"
      unfolding core_quotes [OF c] quote_sum_def by (rule bt_sum_retain_le)
    ultimately show "charged_bytes ?s \<le> charged_bytes s"
      using bt_len_retain_le [of "\<lambda>key _. ?keep key" "bi_bindings s"] bt_len_retain_le [of "\<lambda>_ key. ?keep key" "bi_reverse s"]
        bt_len_retain_le [of "\<lambda>(key, _) _. ?keep key" "bi_sessions s"]
      by (simp add: charged_bytes_def)
    show "length (bi_tcp_timeouts ?s) \<le> 32" using l by (simp add: limits_def)
  qed (simp_all add: bt_len_retain_le bt_count_retain_le)
  moreover have "next_ok ?s"
    unfolding next_ok_def
  proof (intro allI impI)
    fix sk e assume "bt_get (bi_sessions ?s) sk = Some e"
    then have "e \<in> set (bt_values ?ss)" unfolding bt_values_set by auto
    then have mem: "se_expires e \<in> set (map se_expires (bt_values ?ss))" by simp
    then obtain t where t: "list_min (map se_expires (bt_values ?ss)) = Some t"
      by (cases "list_min (map se_expires (bt_values ?ss))") auto
    with mem list_min_Some [OF t] show "\<exists>t. bi_next ?s = Some t \<and> t \<le> se_expires e" by auto
  qed
  moreover have "has_binding ?s key q \<longleftrightarrow> has_binding s key q \<and> ?keep key" for key q
    using gb [of key] by (auto simp: has_binding_def)
  ultimately show ?thesis using eq by (auto simp: bind_inv_def)
qed


section \<open>The table in use\<close>

text \<open>A packet or a timer at time \<open>now\<close>, whatever it returns.\<close>

inductive traffic :: "u64 \<Rightarrow> bindings \<Rightarrow> bindings \<Rightarrow> bool" where
  udp_out: "udp_out source port remote now occupied (s, r) = (x, s', r') \<Longrightarrow> traffic now s s'"
| udp_in: "udp_in port remote now s = (y, s') \<Longrightarrow> traffic now s s'"
| icmp_out: "icmp_out source ident address now (s, r) = (x, s', r') \<Longrightarrow> traffic now s s'"
| icmp_in: "icmp_in ident address now s = (y, s') \<Longrightarrow> traffic now s s'"
| tcp_out: "tcp_out source port remote flags now (s, r) = (z, s', r') \<Longrightarrow> traffic now s s'"
| tcp_in: "tcp_in port remote flags now s = (y, s') \<Longrightarrow> traffic now s s'"
| tcp_in_packet: "packet \<noteq> [] \<Longrightarrow> tcp_in_packet port remote flags now packet s = (y, s') \<Longrightarrow> traffic now s s'"
| expire: "expire now s = Ok (s', released) \<Longrightarrow> traffic now s s'"
| take_probes: "take_tcp_probes limit s = Ok (s', probes) \<Longrightarrow> traffic now s s'"
| take_timeouts: "take_tcp_timeouts limit s = (quotes, s') \<Longrightarrow> traffic now s s'"

text \<open>
  One call of the table: traffic, the withdrawal of domains, a reset, a change of the
  configuration, or a claim or drop that another holder makes in the shared port registry.
\<close>

inductive bind_call :: "bindings \<Rightarrow> bindings \<Rightarrow> bool" where
  traffic: "traffic now s s' \<Longrightarrow> bind_call s s'"
| retain: "retain_domains domains s = Ok s' \<Longrightarrow> bind_call s s'"
| clear: "bind_clear s = Ok (s', released) \<Longrightarrow> bind_call s s'"
| filtering: "bind_call s (set_udp_filtering f s)"
| udp_timeout: "set_udp_timeout seconds s = (x, s') \<Longrightarrow> bind_call s s'"
| icmp_timeout: "set_icmp_timeout seconds s = (x, s') \<Longrightarrow> bind_call s s'"
| other_claim: "ports_claim (bi_ports s) protocol port owner = (x, p) \<Longrightarrow> bind_call s (s\<lparr>bi_ports := p\<rparr>)"
| other_drop: "(\<forall>b \<in> set (bt_values (bi_bindings s)). b_lease b \<noteq> h) \<Longrightarrow> held_drop h (bi_ports s) = (x, p)
    \<Longrightarrow> bind_call s (s\<lparr>bi_ports := p\<rparr>)"

text \<open>The table starts empty on a registry that is already in use.\<close>

definition bind_start :: "bindings \<Rightarrow> bool" where
  "bind_start s \<longleftrightarrow> (\<exists>c p hs. ports_start c \<and> ports_call\<^sup>*\<^sup>* c (p, hs) \<and> s = with_ports p)"

lemma holdsD:
  assumes "holds (x, s) Q E"
  shows "x \<noteq> Panic" and "x = Ok v \<Longrightarrow> Q v s" and "x = Err e \<Longrightarrow> E s" and "(\<And>v. Q v s \<Longrightarrow> R) \<Longrightarrow> (E s \<Longrightarrow> R) \<Longrightarrow> R"
  using assms by (cases x; auto)+

lemma take_tcp_probes_ok:
  "bind_inv s \<Longrightarrow> \<exists>s' out. take_tcp_probes limit s = Ok (s', out) \<and> bind_inv s' \<and> keeps_all s s' \<and> length out \<le> 32
     \<and> no_new s s' \<and> bi_reverse s' = bi_reverse s \<and> bi_domain s' = bi_domain s
     \<and> set out \<subseteq> {x. bt_contains (bi_reverse s) (6, fst (snd (snd x)))}"
  using probe_loop_ok [of s "min limit 32" "bt_keys (bi_sessions s)" "[]"] by (auto simp: take_tcp_probes_def)

lemma take_tcp_timeouts_ok:
  assumes "bind_inv s" and "take_tcp_timeouts limit s = (quotes, s')"
  shows "bind_inv s' \<and> keeps_all s s' \<and> no_new s s' \<and> bi_domain s' = bi_domain s"
proof -
  let ?n = "min (min limit 32) (length (bi_tcp_timeouts s))"
  have s': "s' = s\<lparr>bi_tcp_timeouts := drop ?n (bi_tcp_timeouts s)\<rparr>"
    using assms(2) by (simp add: take_tcp_timeouts_def Let_def)
  have c: "core {} s" and l: "limits s" and n: "next_ok s" using assms(1) by (simp_all add: bind_inv_def)
  have "core {} s'" by (rule core_cong [OF c]) (simp_all add: s')
  moreover have "limits s'" by (rule limits_mono [OF l]) (use l in \<open>auto simp: s' charged_bytes_def limits_def\<close>)
  moreover have "next_ok s'" using n by (simp add: next_ok_def s')
  ultimately show ?thesis by (simp add: bind_inv_def keeps_all_def no_new_def s' has_binding_def)
qed

lemma keeps_all_keeps: "keeps_all s s' \<Longrightarrow> keeps now s s'"
  unfolding keeps_all_def keeps_def live_session_def by (auto simp: bt_contains_def split: option.splits)

lemma bind_inv_cong:
  assumes "bind_inv s" and "bi_ports s' = bi_ports s" and "bi_bindings s' = bi_bindings s"
    and "bi_reverse s' = bi_reverse s" and "bi_sessions s' = bi_sessions s" and "bi_hosts s' = bi_hosts s"
    and "bi_tcp_quote_bytes s' = bi_tcp_quote_bytes s" and "bi_tcp_timeouts s' = bi_tcp_timeouts s"
    and "bi_next s' = bi_next s"
  shows "bind_inv s'"
  using assms core_cong [of "{}" s s'] limits_cong [of s s'] by (simp add: bind_inv_def next_ok_def)

lemma traffic_kept: "traffic now s s' \<Longrightarrow> bind_inv s \<Longrightarrow> kept now s s'"
proof (induction rule: traffic.induct)
  case (udp_out source port remote now occupied s r x s' r')
  then show ?case using udp_out_ok [of s source port remote now occupied r] served_confined by (cases x) (fastforce simp: served_def)+
next
  case (udp_in port remote now s y s')
  then show ?case
    using udp_in_ok [of s port remote now] expired_kept [of s now s']
    by (cases y) (auto simp: inbound_def served_def split: if_splits)
next
  case (icmp_out source ident address now s r x s' r')
  then show ?case using icmp_out_ok [of s source ident address now r] served_confined by (cases x) (fastforce simp: served_def)+
next
  case (icmp_in ident address now s y s')
  then show ?case
    using icmp_in_ok [of s ident address now] expired_kept [of s now s']
    by (cases y) (auto simp: inbound_def served_def split: if_splits)
next
  case (tcp_out source port remote flags now s r z s' r')
  then show ?case using tcp_out_ok [of s source port remote flags now r] served_confined
    by (cases z) (fastforce simp: served_def split: option.splits)+
next
  case (tcp_in port remote flags now s y s')
  then show ?case
    using tcp_in_ok [of s port remote flags now] expired_kept [of s now s'] tcp_received_kept [of s now _ port remote flags _ s']
    by (cases y) auto
next
  case (tcp_in_packet packet port remote flags now s y s')
  then show ?case
    using tcp_in_packet_ok [of s packet port remote flags now] expired_kept [of s now s'] by (cases y) auto
next
  case (expire now s s' released)
  then show ?case using run_expire_ok [of s now] expired_kept [of s now s']
    by (simp add: run_expire_def modify_def)
next
  case (take_probes limit s s' probes now)
  then show ?case using take_tcp_probes_ok [of s limit] keeps_all_keeps no_new_confined by fastforce
next
  case (take_timeouts limit s quotes s' now)
  then show ?case using take_tcp_timeouts_ok keeps_all_keeps no_new_confined by blast
qed

lemma other_holder:
  assumes inv: "bind_inv s" and ok: "ports_ok p"
    and same: "\<And>key b. bt_get (bi_bindings s) key = Some b \<Longrightarrow>
      bt_get (po_entries p) (k_protocol key, b_port b) = bt_get (po_entries (bi_ports s)) (k_protocol key, b_port b)"
  shows "bind_inv (s\<lparr>bi_ports := p\<rparr>)"
proof -
  have c: "core {} s" using inv by (simp add: bind_inv_def)
  have "binding_ok (s\<lparr>bi_ports := p\<rparr>) key b" if "bt_get (bi_bindings s) key = Some b" for key b
    using core_binding [OF c that] same [OF that] by (simp add: binding_ok_def)
  then have "core {} (s\<lparr>bi_ports := p\<rparr>)"
    using core_reverse [OF c] core_count [OF c] core_pos [OF c] core_none [OF c] core_hosts [OF c] core_quotes [OF c]
      core_session [OF c] ok
    by (intro coreI) simp_all
  then show ?thesis using inv by (simp add: bind_inv_def limits_def charged_bytes_def next_ok_def)
qed

lemma bind_call_inv: "bind_call s s' \<Longrightarrow> bind_inv s \<Longrightarrow> bind_inv s'"
proof (induction rule: bind_call.induct)
  case (traffic now s s')
  then show ?case using traffic_kept by blast
next
  case (retain domains s s')
  then show ?case using retain_domains_ok [of s domains] by auto
next
  case (clear s s' released)
  then show ?case using bind_clear_ok [of s] by auto
next
  case (filtering s f)
  then show ?case
    by (rule bind_inv_cong) (simp_all add: set_udp_filtering_def)
next
  case (udp_timeout seconds s x s')
  then show ?case
    by (intro bind_inv_cong [of s s']) (auto simp: set_udp_timeout_def split: if_splits)
next
  case (icmp_timeout seconds s x s')
  then show ?case
    by (intro bind_inv_cong [of s s']) (auto simp: set_icmp_timeout_def split: if_splits)
next
  case (other_claim s protocol port owner x p)
  then have c: "core {} s" by (simp add: bind_inv_def)
  show ?case
  proof (cases x)
    case (Ok h)
    note po = claim_ok [OF other_claim(1) [unfolded Ok] core_ports [OF c]]
    show ?thesis
    proof (rule other_holder [OF other_claim(2) po(1)])
      fix key b assume "bt_get (bi_bindings s) key = Some b"
      from core_binding [OF c this] po(2) have "(k_protocol key, b_port b) \<noteq> (protocol, port)"
        by (auto simp: binding_ok_def bt_contains_def)
      then show "bt_get (po_entries p) (k_protocol key, b_port b) = bt_get (po_entries (bi_ports s)) (k_protocol key, b_port b)"
        by (auto simp: po(4))
    qed
  next
    case (Err e)
    then have "p = bi_ports s" using other_claim(1) claim_Err by simp
    then show ?thesis using other_claim(2) by simp
  next
    case Panic
    then show ?thesis using other_claim(1) claim_not_Panic by metis
  qed
next
  case (other_drop s h x p)
  then have c: "core {} s" by (simp add: bind_inv_def)
  obtain p' where p': "held_drop h (bi_ports s) = (Ok (), p')" "ports_ok p'"
    and rest: "\<And>k i w. bt_get (po_entries (bi_ports s)) k = Some (i, w) \<Longrightarrow> h \<noteq> \<lparr>h_key = k, h_id = i\<rparr>
         \<Longrightarrow> bt_get (po_entries p') k = Some (i, w)"
    using drop_other [OF core_ports [OF c], of h] by blast
  have p: "p = p'" using other_drop(2) p'(1) by simp
  show ?case
    unfolding p
  proof (rule other_holder [OF other_drop(3) p'(2)])
    fix key b assume b: "bt_get (bi_bindings s) key = Some b"
    then have "b \<in> set (bt_values (bi_bindings s))" unfolding bt_values_set by blast
    then have "b_lease b \<noteq> h" using other_drop(1) by blast
    moreover have ok: "binding_ok s key b" by (rule core_binding [OF c b])
    moreover have "b_lease b = \<lparr>h_key = h_key (b_lease b), h_id = h_id (b_lease b)\<rparr>" by simp
    ultimately have "h \<noteq> \<lparr>h_key = (k_protocol key, b_port b), h_id = h_id (b_lease b)\<rparr>"
      unfolding binding_ok_def by metis
    then show "bt_get (po_entries p') (k_protocol key, b_port b) = bt_get (po_entries (bi_ports s)) (k_protocol key, b_port b)"
      using ok rest unfolding binding_ok_def by metis
  qed
qed

interpretation bind: call_invariant bind_start bind_call bind_inv
proof unfold_locales
  show "bind_inv s" if start: "bind_start s" for s
  proof -
    obtain c p hs where c: "ports_start c" "ports_call\<^sup>*\<^sup>* c (p, hs)" and s: "s = with_ports p"
      using start by (auto simp: bind_start_def)
    have "ports_inv (p, hs)" using c by (rule ports.reachable_inv)
    then have "ports_ok p" by (simp add: ports_inv_def ports_ok_def)
    then show ?thesis
      by (simp add: s with_ports_def bind_inv_def core_def limits_def next_ok_def charged_bytes_def quote_sum_def)
  qed
  show "bind_inv t" if "bind_call s t" "bind_inv s" for s t
    using that by (rule bind_call_inv)
qed

end
