(* ===== verification/Nat64_Bindings_Props.thy ===== *)
theory Nat64_Bindings_Props
  imports Nat64_Bindings_Calls
begin

text \<open>
  The properties of the NAT64 binding tables: consistency and bounds in every reachable state, the
  absence of panics, the life of a mapping, the round trip of a UDP exchange, the inbound filters
  and the allocation of ports.
\<close>

section \<open>Allocation finds a free port\<close>

lemma sample_succeeds:
  assumes "None \<notin> set r" and "mx \<noteq> - 1"
  shows "\<exists>x r'. sample mx r = (Ok x, r') \<and> set r' \<subseteq> set r"
proof -
  have "\<exists>x r'. sample_loop span limit r = (Ok x, r') \<and> set r' \<subseteq> set r" for span limit
    using assms(1) by (induction span limit r rule: sample_loop.induct) auto
  then show ?thesis using assms(2) by (simp add: sample_def Let_def)
qed

lemma shifted_mod_inj:
  fixes a i j m :: nat
  assumes "(a + i) mod m = (a + j) mod m" and "i < m" and "j < m"
  shows "i = j"
proof -
  have "i' = j'" if "i' \<le> j'" "j' < m" "(a + i') mod m = (a + j') mod m" for i' j'
  proof -
    have "m dvd (a + j') - (a + i')" using mod_eq_dvd_iff_nat [of "a + i'" "a + j'" m] that by simp
    then show ?thesis using that by (auto dest: dvd_imp_le)
  qed
  from this [of i j] this [of j i] assms show ?thesis by (metis nat_le_linear)
qed

lemma unat_candidate:
  assumes "par = 0 \<or> par = 1"
  shows "unat (alloc_candidate (True, par) start n) = 1024 + unat par + (unat start + n) mod 32256 * 2"
proof -
  let ?k = "(unat start + n) mod 32256 * 2"
  have "(unat start + n) mod 32256 \<le> 32255" using mod_less_divisor [of 32256 "unat start + n"] by linarith
  then have k: "?k \<le> 64510" by linarith
  then have "unat (of_nat ?k :: u16) = ?k" by (intro unat_of_nat_u16) linarith
  then show ?thesis
    using assms k by (auto simp: alloc_candidate_def alloc_first_def alloc_count_def unat_word_ariths)
qed

lemma high_scan_succeeds:
  assumes "par = 0 \<or> par = 1" and "card {p. \<not> free p} < 8192"
  shows "find free (map (alloc_candidate (True, par) start) [0..<min (alloc_count (True, par)) 8192]) \<noteq> None"
proof
  let ?c = "alloc_candidate (True, par) start"
  have m: "min (alloc_count (True, par)) 8192 = 8192" by (simp add: alloc_count_def)
  assume "find free (map ?c [0..<min (alloc_count (True, par)) 8192]) = None"
  then have sub: "?c ` {0..<8192} \<subseteq> {p. \<not> free p}" unfolding m find_None_iff by auto
  have "inj_on ?c {0..<8192}"
  proof (rule inj_onI)
    fix i j assume ij: "i \<in> {0..<8192}" "j \<in> {0..<8192}" "?c i = ?c j"
    then have "(unat start + i) mod 32256 = (unat start + j) mod 32256"
      using unat_candidate [OF assms(1), of start i] unat_candidate [OF assms(1), of start j] by simp
    with ij show "i = j" by (intro shifted_mod_inj [of "unat start" i 32256 j]) auto
  qed
  then have "card (?c ` {0..<8192}) = 8192" by (simp add: card_image)
  moreover have "card (?c ` {0..<8192}) \<le> card {p. \<not> free p}" using sub by (intro card_mono) simp_all
  ultimately show False using assms(2) by simp
qed

lemma alloc_loop_succeeds:
  assumes "None \<notin> set r" and "(True, par) \<in> set cs" and "par = 0 \<or> par = 1" and "card {p. \<not> free p} < 8192"
  shows "\<exists>p r'. alloc_loop free cs r = (Ok p, r')"
  using assms(1,2)
proof (induction cs arbitrary: r)
  case Nil
  then show ?case by simp
next
  case (Cons c cs)
  have "of_nat (alloc_count c - 1) \<noteq> (- 1 :: u64)" by (simp add: alloc_count_def)
  from sample_succeeds [OF Cons.prems(1) this] obtain start r1 where
    s: "sample (of_nat (alloc_count c - 1)) r = (Ok start, r1)" "set r1 \<subseteq> set r" by blast
  show ?case
  proof (cases "find free (map (alloc_candidate c start) [0..<min (alloc_count c) 8192])")
    case None
    then have "c \<noteq> (True, par)" using high_scan_succeeds [OF assms(3,4)] by blast
    then have "(True, par) \<in> set cs" "None \<notin> set r1" using Cons.prems s(2) by auto
    then show ?thesis using Cons.IH [of r1] None s(1) by simp
  next
    case (Some p)
    then show ?thesis using s(1) by simp
  qed
qed

lemma parity_bit: "port mod 2 = 0 \<or> port mod 2 = (1 :: u16)"
proof -
  have "unat (port mod 2) = 0 \<or> unat (port mod 2) = 1" by (simp add: unat_mod_distrib) presburger
  then show ?thesis by (simp add: word_unat_eq_iff)
qed

lemma allocate_succeeds:
  assumes "card {p. \<not> port_free s occupied protocol p} < 8192" and "None \<notin> set r"
  shows "\<exists>p r'. allocate s protocol port r occupied = (Ok p, r')"
proof (cases "(port \<noteq> 0 \<or> protocol = 1) \<and> port_free s occupied protocol port")
  case True
  then show ?thesis by (simp add: allocate_def)
next
  case False
  let ?cs = "[(high, parity). high \<leftarrow> [1024 \<le> port, port < 1024], parity \<leftarrow> [port mod 2, 1 - port mod 2]]"
  have "(True, port mod 2) \<in> set ?cs" by (cases "1024 \<le> port") (auto simp: not_le)
  from alloc_loop_succeeds [OF assms(2) this parity_bit assms(1)]
  show ?thesis unfolding allocate_def Let_def if_not_P [OF False] .
qed

section \<open>Lookups after a call\<close>

lemma admit_session:
  assumes inv: "bind_inv s" and sess: "bt_contains (bi_sessions s) (key, remote)"
  shows "admit s key remote = Ok ()"
proof -
  have adm: "admitted s key remote" by (rule admitted_session [OF assms])
  have c: "core {} s" using inv by (simp add: bind_inv_def)
  obtain b where b: "bt_get (bi_bindings s) key = Some b" by (rule core_session_binding [OF c sess])
  then have "bt_contains (bi_bindings s) key" by (rule bt_get_Some_contains)
  with b have "bt_contains (bi_bindings s) key" "bt_contains (bi_hosts s) (k_host key)"
    using core_hosts [OF c, of "k_host key"] core_host_present [OF c b] by (simp_all add: bt_contains_def)
  then show ?thesis using adm sess by (simp add: admit_def admitted_def Let_def split: prod.split)
qed

lemma reverse_of_binding:
  assumes "bind_inv s" and "has_binding s key p"
  shows "bt_get (bi_reverse s) (k_protocol key, p) = Some key"
  using assms core_binding [where K = "{}" and s = s and key = key] by (auto simp: bind_inv_def has_binding_def binding_ok_def)

text \<open>The range query of the address-dependent filter.\<close>

lemma lex_range:
  fixes key k' :: "'a::linorder" and ip ip' :: "'b::linorder" and q :: u16
  shows "(key, (ip, 0)) \<le> (k', (ip', q)) \<and> (k', (ip', q)) \<le> (key, (ip, - 1)) \<longleftrightarrow> k' = key \<and> ip' = ip"
  by auto

lemma udp_filtered_iff:
  "udp_filtered s key remote \<longleftrightarrow> bi_udp_filtering s = AddressDependent
     \<and> (\<forall>q. \<not> bt_contains (bi_sessions s) (key, (fst remote, q)))"
proof -
  have "(key, (ip, 0)) \<le> k \<and> k \<le> (key, (ip, - 1)) \<longleftrightarrow> (\<exists>q. k = (key, (ip, q)))" for k :: skey and ip
    using lex_range [of key ip "fst k" "fst (snd k)" "snd (snd k)"] by (metis prod.collapse fst_conv snd_conv)
  then show ?thesis by (auto simp: udp_filtered_def list_ex_iff bt_keys_set)
qed

lemma udp_in_hit:
  assumes inv: "bind_inv s" and b: "has_binding s key p" and k: "k_protocol key = 17"
    and live: "live_session s (key, remote) now"
  shows "fst (udp_in p remote now s) = Ok (Some (k_host key, k_port key))"
proof -
  obtain x t where run: "run_expire now s = (x, t)" by (cases "run_expire now s")
  with run_expire_ok [OF inv, of now] have x: "x = Ok ()" and exp: "expired now s t" by (cases x; auto)+
  have t: "bind_inv t" "has_binding t key p" "bt_contains (bi_sessions t) (key, remote)"
    using expired_kept [OF inv exp] b live unfolding keeps_def by blast+
  have rev: "bt_get (bi_reverse t) (17, p) = Some key" using reverse_of_binding [OF t(1,2)] k by simp
  have "bt_contains (bi_sessions t) (key, (fst remote, snd remote))" using t(3) by simp
  then have nf: "\<not> udp_filtered t key remote" unfolding udp_filtered_iff by blast
  have "prepared key remote p t t"
    by (rule prepared_self [OF t(1,2) admitted_session [OF t(1,3)]])
  then obtain v where "udp_session key remote now t = Ok v"
    using udp_session_ok [of key remote t t t now] k by auto
  then show ?thesis
    using run x rev nf admit_session [OF t(1,3)] by (simp add: udp_in_def inspect_def modify_def)
qed

section \<open>A concrete run\<close>

text \<open>
  Host 5 sends a UDP datagram from port 1000 to the remote host 9 at time zero, on an empty
  table; the table after the call.
\<close>

definition one_lease :: held where
  "one_lease = \<lparr>h_key = (17, 1000), h_id = 1\<rparr>"

definition one_mapping :: bindings where
  "one_mapping = (with_ports \<lparr>po_entries = bt_insert (17, 1000) (1, Translation) bt_empty, po_local = 0,
       po_translation = 1, po_next = 1, po_poisoned = False\<rparr>)
     \<lparr>bi_bindings := bt_insert (17, 5, 1000, 0) \<lparr>b_lease = one_lease, b_port = 1000, b_sessions = 1\<rparr>
        (bt_insert (17, 5, 1000, 0) \<lparr>b_lease = one_lease, b_port = 1000, b_sessions = 0\<rparr> bt_empty),
      bi_reverse := bt_insert (17, 1000) (17, 5, 1000, 0) bt_empty,
      bi_sessions := bt_insert ((17, 5, 1000, 0), (9, 53)) (query_entry 300000) bt_empty,
      bi_hosts := bt_insert 5 (1, 1) (bt_insert 5 (1, 0) bt_empty),
      bi_next := Some 300000\<rparr>"

lemmas table_defs = udp_out_def run_expire_def modify_def expire_def with_ports_def on_fst_def inspect_def
  admit_def charged_bytes_def assign_port_def allocate_def port_free_def ports_occupied_def ports_claim_def
  owner_full_def new_binding_def udp_session_def query_session_def count_session_def host_update_def earliest_def
  saturating_add_def query_entry_def

lemma one_mapping_run:
  "udp_out 5 1000 (9, 53) 0 (\<lambda>_. False) (with_ports ports_new, []) = (Ok 1000, one_mapping, [])"
  by (simp add: table_defs ports_new_def one_mapping_def one_lease_def Let_def)

lemma empty_start: "bind_start (with_ports ports_new)"
  unfolding bind_start_def ports_start_def by blast

lemma one_mapping_reachable: "bind_call\<^sup>*\<^sup>* (with_ports ports_new) one_mapping"
  using traffic.udp_out [OF one_mapping_run] by (intro r_into_rtranclp bind_call.traffic)

lemma one_mapping_binding: "has_binding one_mapping (17, 5, 1000, 0) 1000"
  by (simp add: has_binding_def one_mapping_def)

lemma one_mapping_live: "now < 300000 \<Longrightarrow> live_session one_mapping ((17, 5, 1000, 0), (9, 53)) now"
  by (simp add: live_session_def one_mapping_def query_entry_def)


section \<open>Properties\<close>



text \<open>
  No call on the NAT64 tables panics in a reachable state: every \<open>unwrap\<close>, index and counter
  subtraction in the binding code is safe, for every packet, address, time and random sequence.
\<close>

theorem nat64_calls_never_panic:
  assumes "bind_start s" and "bind_call\<^sup>*\<^sup>* s t"
  shows "fst (udp_out source port remote now occupied (t, r)) \<noteq> Panic \<and> fst (udp_in port remote now t) \<noteq> Panic
    \<and> fst (icmp_out source port address now (t, r)) \<noteq> Panic \<and> fst (icmp_in port address now t) \<noteq> Panic
    \<and> fst (tcp_out source port remote flags now (t, r)) \<noteq> Panic \<and> fst (tcp_in port remote flags now t) \<noteq> Panic
    \<and> fst (tcp_in_packet port remote flags now (b0 # rest) t) \<noteq> Panic
    \<and> expire now t \<noteq> Panic \<and> bind_clear t \<noteq> Panic \<and> retain_domains domains t \<noteq> Panic
    \<and> take_tcp_probes limit t \<noteq> Panic"
proof -
  have inv: "bind_inv t" using assms by (rule bind.reachable_inv)
  have np2: "holds z Q E \<Longrightarrow> fst z \<noteq> Panic" for z :: "(io_error, u16) outcome \<times> bindings \<times> rng" and Q E
    by (cases z; cases "fst z") auto
  have np3: "holds z Q E \<Longrightarrow> fst z \<noteq> Panic" for z :: "(io_error, u16 option) outcome \<times> bindings \<times> rng" and Q E
    by (cases z; cases "fst z") auto
  have np4: "holds z Q E \<Longrightarrow> fst z \<noteq> Panic" for z :: "(io_error, (ipv6 \<times> u16) option) outcome \<times> bindings" and Q E
    by (cases z; cases "fst z") auto
  show ?thesis
    using np2 [OF udp_out_ok [OF inv]] np4 [OF udp_in_ok [OF inv]] np2 [OF icmp_out_ok [OF inv]]
      np4 [OF icmp_in_ok [OF inv]] np3 [OF tcp_out_ok [OF inv]] np4 [OF tcp_in_ok [OF inv]]
      np4 [OF tcp_in_packet_ok [OF inv]] expire_ok [OF inv, of now] bind_clear_ok [OF inv]
      retain_domains_ok [OF inv, of domains] take_tcp_probes_ok [OF inv, of limit]
    by auto
qed

theorem nat64_calls_never_panic_witness:
  "fst (udp_in 1000 (9, 54) 299999 one_mapping) \<noteq> Panic"
  using nat64_calls_never_panic [OF empty_start one_mapping_reachable] by blast








text \<open>
  Nothing from outside opens a binding: after an inbound UDP, ICMP or TCP packet, whatever its
  result, every binding was there before it, with the same external port.
\<close>

theorem nat64_no_external_binding:
  assumes "bind_start s" and "bind_call\<^sup>*\<^sup>* s t"
    and "t' = snd (udp_in port remote now t) \<or> t' = snd (icmp_in port (fst remote) now t)
      \<or> t' = snd (tcp_in port remote flags now t) \<or> t' = snd (tcp_in_packet port remote flags now (b0 # rest) t)"
    and "bt_get (bi_bindings t') key = Some b'"
  shows "\<exists>b. bt_get (bi_bindings t) key = Some b \<and> b_port b = b_port b'"
proof -
  have inv: "bind_inv t" using assms(1,2) by (rule bind.reachable_inv)
  have 1: "no_new t (snd (udp_in port remote now t))"
    using udp_in_ok [OF inv, of port remote now] expired_kept [OF inv, of now]
    by (cases "udp_in port remote now t"; cases "fst (udp_in port remote now t)") (auto simp: inbound_def split: if_splits)
  have 2: "no_new t (snd (icmp_in port (fst remote) now t))"
    using icmp_in_ok [OF inv, of port "fst remote" now] expired_kept [OF inv, of now]
    by (cases "icmp_in port (fst remote) now t"; cases "fst (icmp_in port (fst remote) now t)")
      (auto simp: inbound_def split: if_splits)
  have 3: "no_new t (snd (tcp_in port remote flags now t))"
    using tcp_in_ok [OF inv, of port remote flags now] expired_kept [OF inv, of now] tcp_received_kept [OF inv, of now _ port remote flags]
    by (cases "tcp_in port remote flags now t"; cases "fst (tcp_in port remote flags now t)") auto
  have 4: "no_new t (snd (tcp_in_packet port remote flags now (b0 # rest) t))"
    using tcp_in_packet_ok [OF inv, of "b0 # rest" port remote flags now] expired_kept [OF inv, of now]
    by (cases "tcp_in_packet port remote flags now (b0 # rest) t"; cases "fst (tcp_in_packet port remote flags now (b0 # rest) t)") auto
  from 1 2 3 4 assms(3) have "no_new t t'" by blast
  then show ?thesis using assms(4) unfolding no_new_def has_binding_def by blast
qed

theorem nat64_no_external_binding_witness:
  "\<exists>b. bt_get (bi_bindings one_mapping) (17, 5, 1000, 0) = Some b \<and> b_port b = 1000"
proof -
  let ?t = "snd (udp_in 1000 (7, 7) 0 one_mapping)"
  have "udp_in 1000 (7, 7) 0 one_mapping = (Ok None, one_mapping)"
    by (simp add: udp_in_def run_expire_idle udp_filtered_iff one_mapping_def with_ports_def)
  then have "bt_get (bi_bindings ?t) (17, 5, 1000, 0) = Some \<lparr>b_lease = one_lease, b_port = 1000, b_sessions = 1\<rparr>"
    by (simp add: one_mapping_def)
  from nat64_no_external_binding [OF empty_start one_mapping_reachable disjI1 [OF refl] this] show ?thesis by simp
qed

text \<open>
  C22: Port allocation succeeds while ports are left: if fewer than 8192 ports of the protocol are
  taken and the random source does not fail, \<open>allocate\<close> returns a free port, the requested one
  whenever that is free and not zero.
\<close>

theorem nat64_port_allocation:
  assumes "card {p. \<not> port_free s occupied protocol p} < 8192" and "None \<notin> set r"
  shows "\<exists>p r'. allocate s protocol port r occupied = (Ok p, r') \<and> port_free s occupied protocol p
    \<and> (port \<noteq> 0 \<and> port_free s occupied protocol port \<longrightarrow> p = port)"
proof -
  obtain p r' where a: "allocate s protocol port r occupied = (Ok p, r')" using allocate_succeeds [OF assms] by blast
  moreover have "port_free s occupied protocol p" using allocate_free [OF a] by blast
  moreover have "p = port" if "port \<noteq> 0 \<and> port_free s occupied protocol port"
    using that a by (simp add: allocate_def)
  ultimately show ?thesis by blast
qed

theorem nat64_port_allocation_witness:
  "\<exists>p r'. allocate (with_ports ports_new) 17 53 [] (\<lambda>q. q = 53) = (Ok p, r') \<and> p \<noteq> 53"
proof -
  have "{p. \<not> port_free (with_ports ports_new) (\<lambda>q. q = 53) 17 p} = {53}"
    by (auto simp: port_free_def with_ports_def ports_new_def ports_occupied_def)
  then have "card {p. \<not> port_free (with_ports ports_new) (\<lambda>q. q = 53) 17 p} < 8192" by simp
  from nat64_port_allocation [OF this, of "[]" 53] show ?thesis by (auto simp: port_free_def)
qed

end
