(* ===== verification/Nat64_Selection.thy ===== *)
theory Nat64_Selection
  imports BTree_Map Time_Sched
begin

text \<open>
  Discovery and selection of NAT64 prefixes: the observation table of \<open>nat64/mod.rs\<close> and the
  selector of \<open>nat64/selection.rs\<close> with its policy, promise history and decisions. Whether a router
  is reachable and how long a return route lasts are arguments of the calls, as in the source.
\<close>

section \<open>Definitions\<close>

subsection \<open>Observed prefixes\<close>

text \<open>The derived order of \<open>Link\<close>: the declaration order, which \<open>index\<close> spells out.\<close>

fun link_index :: "link \<Rightarrow> nat" where
  "link_index Ail = 0"
| "link_index Stub = 1"

fun link_other :: "link \<Rightarrow> link" where
  "link_other Ail = Stub"
| "link_other Stub = Ail"

instantiation link :: linorder
begin

definition less_eq_link :: "link \<Rightarrow> link \<Rightarrow> bool" where
  "less_eq_link a b \<longleftrightarrow> link_index a \<le> link_index b"

definition less_link :: "link \<Rightarrow> link \<Rightarrow> bool" where
  "less_link a b \<longleftrightarrow> link_index a < link_index b"

instance
proof
  fix a b :: link
  show "a \<le> b \<Longrightarrow> b \<le> a \<Longrightarrow> a = b" by (cases a; cases b) (auto simp: less_eq_link_def)
qed (auto simp: less_eq_link_def less_link_def)

end

text \<open>\<open>to_ipv4_mapped().is_some()\<close>.\<close>

definition ipv4_mapped :: "ipv6 \<Rightarrow> bool" where
  "ipv4_mapped a \<longleftrightarrow> drop_bit 32 a = 0xffff"

definition usable :: "prefix \<Rightarrow> bool" where
  "usable p \<longleftrightarrow> List.member [32, 40, 48, 56, 64, 96] (px_length p) \<and> prefix_routable p
     \<and> \<not> ipv4_mapped (px_address p) \<and> prefix_new (px_address p) (px_length p) = Some p"

type_synonym observations = "(link \<times> ipv6 \<times> prefix, u64) btree"

definition obs_next_deadline :: "observations \<Rightarrow> u64 option" where
  "obs_next_deadline o1 = list_min (bt_values o1)"

definition obs_expire :: "u64 \<Rightarrow> observations \<Rightarrow> observations" where
  "obs_expire now o1 = bt_retain (\<lambda>_ until. now < until) o1"

definition obs_link_lost :: "link \<Rightarrow> observations \<Rightarrow> observations" where
  "obs_link_lost l o1 = bt_retain (\<lambda>k _. fst k \<noteq> l) o1"

text \<open>One PREF64 option of an advertisement; invalid options are skipped.\<close>

definition obs_option :: "link \<Rightarrow> ipv6 \<Rightarrow> u64 \<Rightarrow> observations \<Rightarrow> nd_option \<Rightarrow> (io_error, observations) outcome" where
  "obs_option l source now o1 opt =
     (case pref64_decode (o_bytes opt) of
        Panic \<Rightarrow> Panic
      | Err _ \<Rightarrow> Ok o1
      | Ok p \<Rightarrow>
          if usable (p64_prefix p) then
            if p64_lifetime p = 0 then Ok (bt_remove (l, source, p64_prefix p) o1)
            else Ok (bt_insert (l, source, p64_prefix p) (saturating_add now (ucast (p64_lifetime p) * 1000)) o1)
          else Ok o1)"

fun obs_options :: "link \<Rightarrow> ipv6 \<Rightarrow> u64 \<Rightarrow> nd_option list \<Rightarrow> observations \<Rightarrow> (io_error, observations) outcome" where
  "obs_options l source now [] o1 = Ok o1"
| "obs_options l source now (opt # opts) o1 = and_then (obs_option l source now o1 opt) (obs_options l source now opts)"

definition obs_receive :: "link \<Rightarrow> bytes \<Rightarrow> u64 \<Rightarrow> observations \<Rightarrow> (io_error, observations) outcome" where
  "obs_receive l packet now o1 =
     (if 4096 < length packet then Err InvalidData
      else and_then (map_err (\<lambda>_. InvalidData) (envelope RawIpv6 packet)) (\<lambda>e.
        and_then (map_err (\<lambda>_. InvalidData) (decode_nd e)) (\<lambda>n.
        if nd_kind n \<noteq> 134 \<or> length (e_packet e) \<noteq> length packet then Err InvalidData
        else
          and_then (obs_options l (e_source e) now (filter (\<lambda>opt. o_kind opt = 38) (nd_opts n)) (obs_expire now o1)) (\<lambda>new.
          if 32 < length (filter (\<lambda>k. fst k = l) (bt_keys new)) then Err WouldBlock else Ok new))))"

definition obs_live :: "link \<Rightarrow> u64 \<Rightarrow> (ipv6 \<Rightarrow> bool) \<Rightarrow> observations \<Rightarrow> (prefix \<times> u64) list" where
  "obs_live l now reachable o1 =
     entries (foldl (\<lambda>m ((l', router, prefix), until).
        if l' = l \<and> now < until \<and> reachable router then
          bt_insert prefix (case bt_get m prefix of Some v \<Rightarrow> max v until | None \<Rightarrow> until) m
        else m) bt_empty (entries o1))"

subsection \<open>Policy, readiness and decisions\<close>

record policy =
  pol_enabled :: bool
  pol_infrastructure :: "prefix option"
  pol_allow_without_pd :: bool

definition policy_default :: policy where
  "policy_default = \<lparr>pol_enabled = True, pol_infrastructure = None, pol_allow_without_pd = False\<rparr>"

definition policy_validate :: "policy \<Rightarrow> (io_error, unit) outcome" where
  "policy_validate p =
     (if (case pol_infrastructure p of None \<Rightarrow> False | Some q \<Rightarrow> \<not> usable q) then Err InvalidData else Ok ())"

record readiness =
  rd_pd :: "u64 option"
  rd_ipv4 :: "u64 option"
  rd_stub :: "u64 option"
  rd_translator :: bool

datatype mode = Disabled | NoService | LocalMode | InfrastructureMode | PeerMode

datatype source = SrcLocal | SrcInfrastructure | SrcConfigured

record announcement =
  an_pref64 :: pref64
  an_source :: source

record decision =
  de_mode :: mode
  de_announcements :: "announcement list"
  de_routes :: "rio list"
  de_reason :: string

record selector =
  se_policy :: policy
  se_observations :: observations
  se_local :: prefix
  se_promised :: "(prefix, source \<times> u64 \<times> bool) btree"
  se_suppressed :: bool
  se_status :: "mode \<times> string"
  se_blocked :: "(prefix, unit) btree"

text \<open>The unique local translation prefix of a site: \<open>ffff\<close> in the fourth segment.\<close>

definition local_of :: "prefix \<Rightarrow> (io_error, prefix) outcome" where
  "local_of site = unwrap (prefix_new (px_address site OR push_bit 64 0xffff) 96)"

definition selector_new :: "prefix \<Rightarrow> (io_error, selector) outcome" where
  "selector_new site =
     (if px_length site \<noteq> 48 \<or> \<not> prefix_ula site \<or> prefix_new (px_address site) 48 \<noteq> Some site then Err InvalidData
      else and_then (local_of site) (\<lambda>l.
        Ok \<lparr>se_policy = policy_default, se_observations = bt_empty, se_local = l, se_promised = bt_empty,
            se_suppressed = False, se_status = (NoService, ''awaiting service readiness''), se_blocked = bt_empty\<rparr>))"

definition promised_live :: "u64 \<Rightarrow> (prefix, source \<times> u64 \<times> bool) btree \<Rightarrow> (prefix, source \<times> u64 \<times> bool) btree" where
  "promised_live now m = bt_retain (\<lambda>_ (_, until, _). now < until) m"

definition selector_expire :: "u64 \<Rightarrow> selector \<Rightarrow> selector" where
  "selector_expire now s =
     s\<lparr>se_observations := obs_expire now (se_observations s), se_promised := promised_live now (se_promised s)\<rparr>"

definition rotate_local :: "prefix \<Rightarrow> u64 \<Rightarrow> selector \<Rightarrow> (io_error, unit) outcome \<times> selector" where
  "rotate_local site now s = (case selector_new site of
      Panic \<Rightarrow> (Panic, s)
    | Err e \<Rightarrow> (Err e, s)
    | Ok n \<Rightarrow>
        let l = se_local n; s = selector_expire now s in
        if l \<noteq> se_local s \<and> \<not> bt_contains (se_promised s) l \<and> bt_len (se_promised s) = 8 then (Err WouldBlock, s)
        else (Ok (), s\<lparr>se_local := l\<rparr>))"

definition local_prefixes :: "selector \<Rightarrow> u64 \<Rightarrow> prefix list" where
  "local_prefixes s now = se_local s # map fst (filter (\<lambda>(p, src, until, _).
     p \<noteq> se_local s \<and> src = SrcLocal \<and> now < until) (entries (se_promised s)))"

definition block_all :: "prefix list \<Rightarrow> (prefix, unit) btree \<Rightarrow> (prefix, unit) btree" where
  "block_all ps m = foldl (\<lambda>m p. bt_insert p () m) m ps"

definition observed_prefixes :: "selector \<Rightarrow> prefix list" where
  "observed_prefixes s = map (\<lambda>k. snd (snd k)) (bt_keys (se_observations s))"

fun option_list :: "'a option \<Rightarrow> 'a list" where
  "option_list None = []"
| "option_list (Some x) = [x]"

definition configure :: "policy \<Rightarrow> selector \<Rightarrow> (io_error, unit) outcome \<times> selector" where
  "configure p s = (case policy_validate p of
      Panic \<Rightarrow> (Panic, s)
    | Err e \<Rightarrow> (Err e, s)
    | Ok _ \<Rightarrow>
        if se_policy s \<noteq> p then
          if \<not> pol_enabled p then
            let s = s\<lparr>se_blocked := block_all (observed_prefixes s) (se_blocked s)\<rparr>;
                blocked = block_all (observed_prefixes s) (se_blocked s);
                blocked = block_all (bt_keys (se_promised s)) blocked;
                blocked = block_all (option_list (pol_infrastructure (se_policy s))) blocked;
                blocked = block_all (option_list (pol_infrastructure p)) blocked
            in if 74 < bt_len blocked then (Err WouldBlock, s)
               else (Ok (), s\<lparr>se_blocked := blocked, se_observations := bt_empty, se_suppressed := False, se_policy := p\<rparr>)
          else (Ok (), s\<lparr>se_blocked := bt_empty, se_observations := bt_empty, se_suppressed := False, se_policy := p\<rparr>)
        else (Ok (), s\<lparr>se_policy := p\<rparr>))"

definition selector_blocked :: "selector \<Rightarrow> ipv6 \<Rightarrow> bool" where
  "selector_blocked s destination \<longleftrightarrow> \<not> pol_enabled (se_policy s)
     \<and> (prefix_contains (se_local s) destination
        \<or> list_ex (\<lambda>p. prefix_contains p destination) (bt_keys (se_blocked s)))"

definition restore_promise :: "prefix \<Rightarrow> source \<Rightarrow> u64 \<Rightarrow> bool \<Rightarrow> selector \<Rightarrow> (io_error, unit) outcome \<times> selector" where
  "restore_promise p src until withdrawn s =
     (if \<not> usable p
         \<or> src = SrcLocal \<and> (px_length p \<noteq> 96 \<or> \<not> prefix_ula p \<or> segment (px_address p) 3 \<noteq> 0xffff
             \<or> [segment (px_address p) 4, segment (px_address p) 5] \<noteq> [0, 0])
         \<or> bt_len (se_promised s) = 8 \<or> bt_contains (se_promised s) p
      then (Err InvalidData, s)
      else (Ok (), s\<lparr>se_promised := bt_insert p (src, until, withdrawn) (se_promised s)\<rparr>))"

definition selector_receive :: "link \<Rightarrow> bytes \<Rightarrow> u64 \<Rightarrow> selector \<Rightarrow> (io_error, unit) outcome \<times> selector" where
  "selector_receive l packet now s =
     (if \<not> pol_enabled (se_policy s) then (Ok (), s)
      else case obs_receive l packet now (se_observations s) of
        Ok o1 \<Rightarrow> (Ok (), s\<lparr>se_observations := o1\<rparr>) | Err e \<Rightarrow> (Err e, s) | Panic \<Rightarrow> (Panic, s))"

definition selector_link_lost :: "link \<Rightarrow> selector \<Rightarrow> selector" where
  "selector_link_lost l s = s\<lparr>se_observations := obs_link_lost l (se_observations s)\<rparr>"

definition selector_next_deadline :: "selector \<Rightarrow> u64 option" where
  "selector_next_deadline s =
     list_min (option_list (obs_next_deadline (se_observations s)) @ map (\<lambda>(_, t, _). t) (bt_values (se_promised s)))"

text \<open>One announcement that was sent: a promise made, renewed or withdrawn.\<close>

definition advertise_one :: "u64 \<Rightarrow> announcement \<Rightarrow> (prefix, source \<times> u64 \<times> bool) btree
    \<Rightarrow> (io_error, (prefix, source \<times> u64 \<times> bool) btree) outcome" where
  "advertise_one now a m =
     (let p = p64_prefix (an_pref64 a); life = p64_lifetime (an_pref64 a) in
      if \<not> usable p then Err InvalidData
      else if life = 0 then
        Ok (case bt_get m p of None \<Rightarrow> m | Some (src, t, _) \<Rightarrow> bt_insert p (src, t, True) m)
      else Ok (bt_insert p (an_source a, saturating_add now (ucast (min life 65528 AND NOT 7) * 1000), False) m))"

fun advertise_all :: "u64 \<Rightarrow> announcement list \<Rightarrow> (prefix, source \<times> u64 \<times> bool) btree
    \<Rightarrow> (io_error, (prefix, source \<times> u64 \<times> bool) btree) outcome" where
  "advertise_all now [] m = Ok m"
| "advertise_all now (a # as) m = and_then (advertise_one now a m) (advertise_all now as)"

definition advertised :: "announcement list \<Rightarrow> u64 \<Rightarrow> selector \<Rightarrow> (io_error, unit) outcome \<times> selector" where
  "advertised announcements now s =
     (if 8 < length announcements then (Err InvalidData, s)
      else case advertise_all now announcements (promised_live now (se_promised s)) of
        Ok m \<Rightarrow> if 8 < bt_len m then (Err WouldBlock, s) else (Ok (), s\<lparr>se_promised := m\<rparr>)
      | Err e \<Rightarrow> (Err e, s)
      | Panic \<Rightarrow> (Panic, s))"

definition announcement_failed :: "mode \<Rightarrow> u64 \<Rightarrow> selector \<Rightarrow> selector" where
  "announcement_failed m now s =
     (if m = InfrastructureMode \<and> obs_live Stub now (\<lambda>_. True) (se_observations s) \<noteq> []
      then s\<lparr>se_suppressed := True\<rparr> else s)"

subsection \<open>Selection\<close>

definition remaining :: "u64 \<Rightarrow> u64 \<Rightarrow> u32" where
  "remaining until now = ucast (min (saturating_sub until now div 1000) 65528) AND NOT 7"

definition live_until :: "u64 \<Rightarrow> u64 option \<Rightarrow> u64 option" where
  "live_until now t = (case t of None \<Rightarrow> None | Some x \<Rightarrow> if now < x then Some x else None)"

definition empty_decision :: "mode \<Rightarrow> string \<Rightarrow> decision" where
  "empty_decision m reason = \<lparr>de_mode = m, de_announcements = [], de_routes = [], de_reason = reason\<rparr>"

definition medium_route :: "prefix \<Rightarrow> u32 \<Rightarrow> rio" where
  "medium_route p life = \<lparr>rio_prefix = p, rio_preference = Medium, rio_lifetime = life\<rparr>"

definition announce :: "prefix \<Rightarrow> u32 \<Rightarrow> source \<Rightarrow> announcement" where
  "announce p life src = \<lparr>an_pref64 = \<lparr>p64_prefix = p, p64_lifetime = life\<rparr>, an_source = src\<rparr>"

text \<open>
  The candidates that are announced: \<open>filter_map(...).take(8)\<close>, with the free slots of the promise
  history and the failure flag as the closure's state. The first argument counts down \<open>take\<close>.
\<close>

fun admit_candidates :: "nat \<Rightarrow> (prefix \<Rightarrow> u64 option) \<Rightarrow> u64 \<Rightarrow> u64 \<Rightarrow> u64 option \<Rightarrow> selector
    \<Rightarrow> (prefix \<times> u64 \<times> source) list \<Rightarrow> nat \<Rightarrow> bool \<Rightarrow> announcement list \<times> bool" where
  "admit_candidates n route now stub limit s [] slots failed = ([], failed)"
| "admit_candidates n route now stub limit s ((p, until, src) # cs) slots failed =
     (if n = 0 then ([], failed)
      else case route p of
        None \<Rightarrow> admit_candidates n route now stub limit s cs slots failed
      | Some rt \<Rightarrow>
          (case limit of
             None \<Rightarrow> admit_candidates n route now stub limit s cs slots failed
           | Some pd \<Rightarrow>
               let life = remaining (min (min (min until rt) stub) pd) now in
               if life = 0 then admit_candidates n route now stub limit s cs slots failed
               else if bt_contains (se_promised s) p then
                 (case admit_candidates (n - 1) route now stub limit s cs slots failed of
                    (as, f) \<Rightarrow> (announce p life src # as, f))
               else if slots = 0 then admit_candidates n route now stub limit s cs slots True
               else
                 (case admit_candidates (n - 1) route now stub limit s cs (slots - 1) failed of
                    (as, f) \<Rightarrow> (announce p life src # as, f))))"

text \<open>The infrastructure branch: announcements, failure flag and the selector it leaves.\<close>

definition infrastructure :: "u64 \<Rightarrow> u64 \<Rightarrow> u64 option \<Rightarrow> (link \<Rightarrow> ipv6 \<Rightarrow> bool) \<Rightarrow> (prefix \<Rightarrow> u64 option) \<Rightarrow> selector
    \<Rightarrow> (io_error, announcement list \<times> bool) outcome" where
  "infrastructure now stub pd reachable route s =
     and_then (sub_chk 8 (bt_len (se_promised s))) (\<lambda>slots.
       let candidates = (case pol_infrastructure (se_policy s) of
             Some p \<Rightarrow> [(p, - 1, SrcConfigured)]
           | None \<Rightarrow> map (\<lambda>(p, t). (p, t, SrcInfrastructure)) (obs_live Ail now (reachable Ail) (se_observations s)))
       in Ok (admit_candidates 8 route now stub (if pol_allow_without_pd (se_policy s) then Some (- 1) else pd) s
                candidates slots False))"

text \<open>The rest of \<open>select_active\<close>: a peer, the local translator, or nothing.\<close>

definition select_local :: "u64 \<Rightarrow> readiness \<Rightarrow> u64 \<Rightarrow> bool \<Rightarrow> selector \<Rightarrow> decision" where
  "select_local now ready stub peer s =
     (let active = (case bt_get (se_promised s) (se_local s) of None \<Rightarrow> False
           | Some (src, t, withdrawn) \<Rightarrow> src = SrcLocal \<and> now < t \<and> \<not> withdrawn);
          none = empty_decision NoService ''no usable translation path or advertisement capacity''
      in if peer \<and> \<not> active then empty_decision PeerMode ''a reachable stub peer already provides NAT64''
         else if rd_translator ready then
           (case live_until now (rd_ipv4 ready) of
              None \<Rightarrow> none
            | Some v4 \<Rightarrow>
                let life = remaining (min (min v4 stub) (saturating_add now 1800000)) now in
                if 0 < life \<and> (bt_contains (se_promised s) (se_local s) \<or> bt_len (se_promised s) < 8) then
                  \<lparr>de_mode = LocalMode, de_announcements = [announce (se_local s) life SrcLocal],
                   de_routes = [medium_route (se_local s) life], de_reason = ''local translator and IPv4 path are ready''\<rparr>
                else none)
         else none)"

definition select_active :: "u64 \<Rightarrow> readiness \<Rightarrow> (link \<Rightarrow> ipv6 \<Rightarrow> bool) \<Rightarrow> (prefix \<Rightarrow> u64 option) \<Rightarrow> selector
    \<Rightarrow> (io_error, decision \<times> selector) outcome" where
  "select_active now ready reachable route s =
     (let s = selector_expire now s;
          s = (if obs_live Stub now (\<lambda>_. True) (se_observations s) = [] then s\<lparr>se_suppressed := False\<rparr> else s)
      in if \<not> pol_enabled (se_policy s) then Ok (empty_decision Disabled ''administratively disabled'', s)
         else case live_until now (rd_stub ready) of
           None \<Rightarrow> Ok (empty_decision NoService ''stub address or return path is not ready'', s)
         | Some stub \<Rightarrow>
             if se_suppressed s then
               Ok (empty_decision PeerMode
                 ''announcement admission failed; waiting for all peer advertisements to disappear'', s)
             else
               let peer = (obs_live Stub now (reachable Stub) (se_observations s) \<noteq> []);
                   pd = live_until now (rd_pd ready)
               in if pd \<noteq> None \<or> pol_allow_without_pd (se_policy s) then
                    and_then (infrastructure now stub pd reachable route s) (\<lambda>(as, failed).
                      let s' = (if as = [] \<and> failed then announcement_failed InfrastructureMode now s else s) in
                      if as = [] \<and> failed \<and> se_suppressed s' then
                        Ok (empty_decision PeerMode
                          ''infrastructure advertisement history is full; waiting for peers to expire'', s')
                      else if as \<noteq> [] then
                        Ok (\<lparr>de_mode = InfrastructureMode, de_announcements = as,
                             de_routes = map (\<lambda>a. medium_route (p64_prefix (an_pref64 a)) (p64_lifetime (an_pref64 a))) as,
                             de_reason = ''usable infrastructure translation with a return route''\<rparr>, s')
                      else Ok (select_local now ready stub peer s', s'))
                  else Ok (select_local now ready stub peer s, s))"

text \<open>A promise that is no longer announced: its withdrawal and the route that outlives it.\<close>

definition select_promise :: "u64 \<Rightarrow> readiness \<Rightarrow> policy \<Rightarrow> decision \<Rightarrow> prefix \<times> source \<times> u64 \<times> bool \<Rightarrow> decision" where
  "select_promise now ready pol d e = (case e of (p, src, until, withdrawn) \<Rightarrow>
     if list_ex (\<lambda>a. p64_prefix (an_pref64 a) = p) (de_announcements d) then d
     else
       let d = (if \<not> withdrawn then d\<lparr>de_announcements := de_announcements d @ [announce p 0 src]\<rparr> else d);
           life = (if pol_enabled pol \<and> src = SrcLocal \<and> rd_translator ready then
               saturating_sub (min (min until (case rd_ipv4 ready of None \<Rightarrow> now | Some t \<Rightarrow> t))
                                   (case rd_stub ready of None \<Rightarrow> now | Some t \<Rightarrow> t)) now div 1000
             else 0)
       in d\<lparr>de_routes := de_routes d @ [medium_route p (ucast (min life (ucast (- 1 :: u32))))]\<rparr>)"

definition select :: "u64 \<Rightarrow> readiness \<Rightarrow> (link \<Rightarrow> ipv6 \<Rightarrow> bool) \<Rightarrow> (prefix \<Rightarrow> u64 option) \<Rightarrow> selector
    \<Rightarrow> (io_error, decision \<times> selector) outcome" where
  "select now ready reachable route s =
     and_then (select_active now ready reachable route s) (\<lambda>(d, s).
       let d = foldl (select_promise now ready (se_policy s)) d (entries (se_promised s))
       in Ok (d, s\<lparr>se_status := (de_mode d, de_reason d)\<rparr>))"

end
