(* ===== verification/Nat64_Selection_Props.thy ===== *)
theory Nat64_Selection_Props
  imports Nat64_Selection
begin

text \<open>
  The prefix selector: its invariant, what a selection announces and what backs it, the calls as a
  step relation on which \<open>call_invariant\<close> is interpreted, and the properties of every reachable selector.
\<close>

declare split_paired_All [simp del] split_paired_Ex [simp del]

section \<open>The invariant\<close>

definition obs_ok :: "observations \<Rightarrow> bool" where
  "obs_ok o1 \<longleftrightarrow> (\<forall>l. bt_count (\<lambda>k. fst k = l) o1 \<le> 32) \<and> (\<forall>k. bt_contains o1 k \<longrightarrow> usable (snd (snd k)))"

definition promised_ok :: "(prefix, source \<times> u64 \<times> bool) btree \<Rightarrow> bool" where
  "promised_ok m \<longleftrightarrow> bt_len m \<le> 8 \<and> (\<forall>p. bt_contains m p \<longrightarrow> usable p)"

definition selector_inv :: "selector \<Rightarrow> bool" where
  "selector_inv s \<longleftrightarrow> obs_ok (se_observations s) \<and> promised_ok (se_promised s) \<and> usable (se_local s)
     \<and> (\<forall>p. pol_infrastructure (se_policy s) = Some p \<longrightarrow> usable p)
     \<and> (if pol_enabled (se_policy s) then se_blocked s = bt_empty else se_observations s = bt_empty)
     \<and> bt_len (se_blocked s) \<le> 74"

lemma bt_retain_empty: "bt_retain P bt_empty = bt_empty"
  by (rule bt_ext) (simp add: fun_eq_iff)

lemma obs_ok_retain: "obs_ok o1 \<Longrightarrow> obs_ok (bt_retain P o1)"
  unfolding obs_ok_def using bt_count_retain_le [where m = o1] bt_contains_retain le_trans by blast

lemma promised_ok_retain: "promised_ok m \<Longrightarrow> promised_ok (bt_retain P m)"
  unfolding promised_ok_def using bt_len_retain_le [where m = m] bt_contains_retain le_trans by blast

lemma obs_options_ensures:
  "(\<forall>k. bt_contains o1 k \<longrightarrow> usable (snd (snd k))) \<Longrightarrow>
   ensures (obs_options l source now opts o1) (\<lambda>new. (\<forall>k. bt_contains new k \<longrightarrow> usable (snd (snd k)))
     \<and> (\<forall>l'. l' \<noteq> l \<longrightarrow> bt_count (\<lambda>k. fst k = l') new = bt_count (\<lambda>k. fst k = l') o1))"
proof (induction opts arbitrary: o1)
  case Nil
  then show ?case by simp
next
  case (Cons opt opts)
  have "pref64_decode (o_bytes opt) \<noteq> Panic"
    unfolding no_panic_ensures by (auto simp: pref64_decode_def wp Let_def)
  then have "ensures (obs_option l source now o1 opt) (\<lambda>new. (\<forall>k. bt_contains new k \<longrightarrow> usable (snd (snd k)))
     \<and> (\<forall>l'. l' \<noteq> l \<longrightarrow> bt_count (\<lambda>k. fst k = l') new = bt_count (\<lambda>k. fst k = l') o1))"
    using Cons.prems by (auto simp: obs_option_def bt_count_insert bt_count_remove split: outcome.splits)
  then obtain new where "obs_option l source now o1 opt = Ok new" and
    new: "\<forall>k. bt_contains new k \<longrightarrow> usable (snd (snd k))"
      "\<forall>l'. l' \<noteq> l \<longrightarrow> bt_count (\<lambda>k. fst k = l') new = bt_count (\<lambda>k. fst k = l') o1"
    by (cases "obs_option l source now o1 opt") (auto simp: obs_option_def split: outcome.splits if_splits)
  then show ?case using Cons.IH [OF new(1)] new(2) by (simp add: ensures_iff)
qed

lemma obs_receive_ensures:
  assumes "obs_ok o1"
  shows "ensures (obs_receive l packet now o1) obs_ok"
proof -
  have e: "ensures (envelope RawIpv6 packet) (\<lambda>_. True)" "ensures (decode_nd e) (\<lambda>_. True)" for e
    using envelope_ensures decode_nd_ensures by (auto intro: ensures_mono)
  have ok: "obs_ok (obs_expire now o1)" unfolding obs_expire_def by (rule obs_ok_retain [OF assms])
  then have pre: "\<forall>k. bt_contains (obs_expire now o1) k \<longrightarrow> usable (snd (snd k))" by (simp add: obs_ok_def)
  show ?thesis
    unfolding obs_receive_def
    using ok by (auto simp: wp ensures_call [OF e(1)] ensures_call [OF e(2)] ensures_call [OF obs_options_ensures [OF pre]]
        bt_count_keys [symmetric] obs_ok_def not_less
        dest!: ensuresD [OF obs_options_ensures [OF pre]])
qed


text \<open>Sets of prefixes as maps to the unit.\<close>

lemma block_all_contains: "bt_contains (block_all ps m) p \<longleftrightarrow> p \<in> set ps \<or> bt_contains m p"
  unfolding block_all_def by (induction ps arbitrary: m) auto

lemma block_all_len: "bt_len (block_all ps m) \<le> bt_len m + length ps"
  unfolding block_all_def
proof (induction ps arbitrary: m)
  case (Cons p ps)
  then show ?case using Cons.IH [of "bt_insert p () m"] by (simp add: bt_len_insert split: if_splits)
qed simp

lemma unit_map_eq: "(\<And>p. bt_contains m p = bt_contains n p) \<Longrightarrow> m = n" for m n :: "(prefix, unit) btree"
proof (rule bt_ext, rule ext)
  fix p assume "\<And>p. bt_contains m p = bt_contains n p"
  then have "bt_contains m p = bt_contains n p" .
  then show "bt_get m p = bt_get n p" by (cases "bt_get m p"; cases "bt_get n p") (auto simp: bt_contains_def)
qed

lemma observed_prefixes_blocked [simp]: "observed_prefixes (s\<lparr>se_blocked := b\<rparr>) = observed_prefixes s"
  by (simp add: observed_prefixes_def)

lemma observed_length: "obs_ok (se_observations s) \<Longrightarrow> length (observed_prefixes s) \<le> 64"
proof -
  assume "obs_ok (se_observations s)"
  then have counts: "bt_count (\<lambda>k. fst k = Ail) (se_observations s) \<le> 32" "bt_count (\<lambda>k. fst k = Stub) (se_observations s) \<le> 32"
    by (simp_all add: obs_ok_def)
  have "length ks = length (filter (\<lambda>k. fst k = Ail) ks) + length (filter (\<lambda>k. fst k = Stub) ks)"
    for ks :: "(link \<times> ipv6 \<times> prefix) list"
  proof (induction ks)
    case (Cons k ks)
    then show ?case by (cases "fst k") auto
  qed simp
  from this [of "bt_keys (se_observations s)"] show ?thesis using counts by (simp add: observed_prefixes_def bt_count_keys)
qed

text \<open>A change of policy is accepted whenever its prefix is usable, or changes nothing.\<close>

lemma configure_cases:
  assumes inv: "selector_inv s" and c: "configure p s = (x, s')"
  shows "x \<noteq> Panic \<and> selector_inv s' \<and> (\<forall>e. x = Err e \<longrightarrow> s' = s)
    \<and> (x = Ok () \<longrightarrow> se_policy s' = p)
    \<and> (pol_enabled (se_policy s) \<and> policy_validate p = Ok () \<longrightarrow> x = Ok ())"
proof -
  have v: "policy_validate p \<noteq> Panic" by (simp add: policy_validate_def)
  have obs_same: "s\<lparr>se_blocked := block_all (observed_prefixes s) (se_blocked s)\<rparr> = s" if "\<not> pol_enabled (se_policy s)"
    using inv that by (simp add: selector_inv_def observed_prefixes_def bt_keys_def block_all_def bt_empty.rep_eq)
  have pu: "policy_validate p = Ok () \<Longrightarrow> pol_infrastructure p = Some q \<Longrightarrow> usable q" for q
    by (auto simp: policy_validate_def split: if_splits)
  let ?s1 = "s\<lparr>se_blocked := block_all (observed_prefixes s) (se_blocked s)\<rparr>"
  let ?b = "block_all (option_list (pol_infrastructure p)) (block_all (option_list (pol_infrastructure (se_policy s)))
      (block_all (bt_keys (se_promised s)) (block_all (observed_prefixes ?s1) (se_blocked ?s1))))"
  have len: "bt_len ?b \<le> 74" if en: "pol_enabled (se_policy s)"
  proof -
    have e: "block_all (observed_prefixes ?s1) (se_blocked ?s1) = block_all (observed_prefixes s) bt_empty"
      using inv en by (intro unit_map_eq) (auto simp: block_all_contains selector_inv_def observed_prefixes_def)
    have "length (observed_prefixes s) \<le> 64" using inv observed_length by (simp add: selector_inv_def)
    moreover have "length (option_list (pol_infrastructure (se_policy s))) \<le> 1" by (cases "pol_infrastructure (se_policy s)") auto
    moreover have "length (option_list (pol_infrastructure p)) \<le> 1" by (cases "pol_infrastructure p") auto
    moreover have "length (bt_keys (se_promised s)) \<le> 8" using inv by (simp add: selector_inv_def promised_ok_def bt_len_keys)
    ultimately show ?thesis unfolding e
      using bt_len_empty [where ?'a = prefix and ?'b = unit] block_all_len [of "observed_prefixes s" bt_empty]
        block_all_len [of "bt_keys (se_promised s)" "block_all (observed_prefixes s) bt_empty"]
        block_all_len [of "option_list (pol_infrastructure (se_policy s))" "block_all (bt_keys (se_promised s)) (block_all (observed_prefixes s) bt_empty)"]
        block_all_len [of "option_list (pol_infrastructure p)" "block_all (option_list (pol_infrastructure (se_policy s))) (block_all (bt_keys (se_promised s)) (block_all (observed_prefixes s) bt_empty))"]
      by linarith
  qed
  show ?thesis
  proof (cases "policy_validate p")
    case (Ok u)
    show ?thesis
    proof (cases "se_policy s \<noteq> p \<and> \<not> pol_enabled p \<and> 74 < bt_len ?b")
      case True
      then have dis: "\<not> pol_enabled (se_policy s)" using len by auto
      have "(x, s') = (Err WouldBlock, ?s1)" using c Ok True by (simp add: configure_def Let_def)
      then show ?thesis using obs_same [OF dis] inv dis by simp
    next
      case False
      have r: "x = Ok () \<and> se_policy s' = p \<and> selector_inv s'"
      proof (cases "se_policy s = p")
        case True
        then have "x = Ok ()" "s' = s\<lparr>se_policy := p\<rparr>" using c Ok by (simp_all add: configure_def)
        moreover have "s\<lparr>se_policy := p\<rparr> = s" using True by simp
        ultimately show ?thesis using inv True by simp
      next
        case ne: False
        show ?thesis
        proof (cases "pol_enabled p")
          case True
          then have "x = Ok ()" "s' = s\<lparr>se_blocked := bt_empty, se_observations := bt_empty, se_suppressed := False, se_policy := p\<rparr>"
            using c Ok ne by (simp_all add: configure_def)
          then show ?thesis using inv pu Ok True by (simp add: selector_inv_def obs_ok_def)
        next
          case dis: False
          with False ne have "\<not> 74 < bt_len ?b" by blast
          then have "x = Ok ()" "s' = s\<lparr>se_blocked := ?b, se_observations := bt_empty, se_suppressed := False, se_policy := p\<rparr>"
            using c Ok ne dis by (simp_all add: configure_def Let_def)
          then show ?thesis using inv pu Ok dis \<open>\<not> 74 < bt_len ?b\<close> by (simp add: selector_inv_def obs_ok_def)
        qed
      qed
      then show ?thesis by simp
    qed
  next
    case (Err e)
    then show ?thesis using c inv by (auto simp: configure_def)
  next
    case Panic
    then show ?thesis using v by simp
  qed
qed


lemma ula_top: "ucast (drop_bit 120 a) AND (0xfe :: u8) = 0xfc \<longleftrightarrow> drop_bit 121 a = (0x7e :: ipv6)" for a :: ipv6
proof
  assume h: "ucast (drop_bit 120 a) AND (0xfe :: u8) = 0xfc"
  show "drop_bit 121 a = (0x7e :: ipv6)"
  proof (rule bit_word_eqI)
    fix n assume n: "n < LENGTH(128)"
    have b: "bit (ucast (drop_bit 120 a) AND (0xfe :: u8)) (n + 1) = bit (0xfc :: u8) (n + 1)" using h by simp
    show "bit (drop_bit 121 a) n = bit (0x7e :: ipv6) n"
    proof (cases "n < 7")
      case True
      then have "n \<in> {0, 1, 2, 3, 4, 5, 6}" by auto
      then show ?thesis using b by (auto simp: bit_simps)
    next
      case False
      then have "\<not> bit a (121 + n)" using bit_imp_le_length by fastforce
      moreover have "\<not> bit (0x7e :: ipv6) n"
      proof -
        have "(0x7e :: ipv6) = take_bit 7 0x7e" by (simp add: take_bit_eq_mod)
        then show ?thesis using False by (metis bit_take_bit_iff)
      qed
      ultimately show ?thesis by (simp add: bit_drop_bit_eq)
    qed
  qed
next
  assume h: "drop_bit 121 a = (0x7e :: ipv6)"
  show "ucast (drop_bit 120 a) AND (0xfe :: u8) = 0xfc"
  proof (rule bit_word_eqI)
    fix n assume n: "n < LENGTH(8)"
    show "bit (ucast (drop_bit 120 a) AND (0xfe :: u8)) n = bit (0xfc :: u8) n"
    proof (cases n)
      case 0 then show ?thesis by (simp add: bit_simps)
    next
      case (Suc m)
      have b: "bit (drop_bit 121 a) m = bit (0x7e :: ipv6) m" using h by simp
      from n Suc have "m \<in> {0, 1, 2, 3, 4, 5, 6}" by auto
      then show ?thesis using b Suc by (auto simp: bit_simps)
    qed
  qed
qed

lemma prefix_ula_top: "prefix_ula p \<longleftrightarrow> drop_bit 121 (px_address p) = 0x7e"
proof -
  have "(16 :: nat) = Suc 15" by simp
  then have "to_be 16 (px_address p) ! 0 = ucast (drop_bit 120 (px_address p))" by (simp only: to_be.simps) simp
  then show ?thesis by (simp only: prefix_ula_def ula_top)
qed

text \<open>A unique local prefix is routable, and is not an IPv4-mapped one.\<close>

lemma ula_usable:
  assumes "prefix_ula p" and "canonical p" and "px_length p = 96"
  shows "usable p"
proof -
  have top: "drop_bit 121 (px_address p) = 0x7e" using assms(1) by (simp add: prefix_ula_top)
  have split: "drop_bit 121 (px_address p) = drop_bit 89 (drop_bit 32 (px_address p))" by (simp add: drop_bit_drop_bit)
  have "\<not> ipv4_mapped (px_address p)"
  proof
    assume "ipv4_mapped (px_address p)"
    then have "drop_bit 121 (px_address p) = drop_bit 89 0xffff" using split unfolding ipv4_mapped_def by simp
    then show False using top by simp
  qed
  moreover have "\<not> is_multicast (px_address p)"
    using assms(1) by (auto simp: is_multicast_def prefix_ula_def)
  moreover have "\<not> link_local (px_address p)"
  proof
    assume "link_local (px_address p)"
    then have "bit (segment (px_address p) 0 AND 0xffc0) 9 = bit (0xfe80 :: u16) 9" by (simp add: link_local_def)
    moreover have "bit (drop_bit 121 (px_address p)) 0 = bit (0x7e :: ipv6) 0" using top by simp
    ultimately show False by (simp add: segment_def bit_simps)
  qed
  moreover have "\<not> is_unspecified (px_address p)" "\<not> is_loopback (px_address p)"
    using top by (auto simp: is_unspecified_def is_loopback_def)
  ultimately show ?thesis using assms by (simp add: usable_def prefix_routable_def canonical_def)
qed

lemma selector_new_ok:
  assumes "selector_new site = Ok s"
  shows "selector_inv s \<and> prefix_ula (se_local s) \<and> prefix_contains site (px_address (se_local s))"
proof -
  let ?a = "px_address site OR push_bit 64 0xffff"
  have len: "px_length site = 48" and ula: "prefix_ula site" and can: "canonical site"
    using assms by (auto simp: selector_new_def canonical_def split: if_splits)
  then obtain l where l: "prefix_new ?a 96 = Some l" using prefix_new_Some_iff [of ?a 96] by auto
  then have s: "s = \<lparr>se_policy = policy_default, se_observations = bt_empty, se_local = l, se_promised = bt_empty,
      se_suppressed = False, se_status = (NoService, ''awaiting service readiness''), se_blocked = bt_empty\<rparr>"
    using assms len ula can by (simp add: selector_new_def canonical_def local_of_def)
  have top: "drop_bit n (px_address l) = drop_bit n (px_address site)" if "80 \<le> n" for n
  proof (rule bit_word_eqI)
    fix k
    have "\<not> bit (push_bit 64 0xffff :: ipv6) (n + k)"
    proof -
      have "(push_bit 64 0xffff :: ipv6) = take_bit 80 (push_bit 64 0xffff)" by (simp add: take_bit_eq_mod)
      moreover have "\<not> n + k < 80" using that by simp
      ultimately show ?thesis by (metis bit_take_bit_iff)
    qed
    then show "bit (drop_bit n (px_address l)) k = bit (drop_bit n (px_address site)) k"
      using that by (auto simp: bit_drop_bit_eq prefix_new_bits [OF l] bit_or_iff)
  qed
  have "prefix_ula l" using ula top [of 121] by (simp add: prefix_ula_top)
  moreover have "usable l" using \<open>prefix_ula l\<close> canonical_new [OF l] prefix_new_length [OF l] by (rule ula_usable)
  moreover have "prefix_contains site (px_address l)" using top [of 80] len by (simp add: prefix_contains_iff [OF can])
  ultimately show ?thesis
    by (simp add: s selector_inv_def policy_default_def obs_ok_def promised_ok_def bt_contains_def)
qed

section \<open>Live observations and lifetimes\<close>

text \<open>What \<open>live\<close> returns: distinct prefixes, each with the deadline of one of its observations.\<close>

lemma obs_live_sound:
  "distinct (map fst (obs_live l now reachable o1))"
  "(p, t) \<in> set (obs_live l now reachable o1) \<Longrightarrow>
     \<exists>router. bt_get o1 (l, router, p) = Some t \<and> now < t \<and> reachable router"
proof -
  show "distinct (map fst (obs_live l now reachable o1))" unfolding obs_live_def by (rule entries_distinct)
next
  let ?f = "\<lambda>m ((l', router, prefix), until). if l' = l \<and> now < until \<and> reachable router
      then bt_insert prefix (case bt_get m prefix of Some v \<Rightarrow> max v until | None \<Rightarrow> until) m else m"
  have gen: "\<exists>router. ((l, router, p), t) \<in> S \<and> now < t \<and> reachable router"
    if "bt_get (foldl ?f m es) p = Some t" "set es \<subseteq> S"
      "\<forall>p t. bt_get m p = Some t \<longrightarrow> (\<exists>router. ((l, router, p), t) \<in> S \<and> now < t \<and> reachable router)" for m es S p t
    using that
  proof (induction es arbitrary: m)
    case Nil
    then show ?case by simp
  next
    case (Cons e es)
    obtain l' router q until where e: "e = ((l', router, q), until)" by (metis prod.exhaust)
    have "\<forall>p t. bt_get (?f m e) p = Some t \<longrightarrow> (\<exists>router. ((l, router, p), t) \<in> S \<and> now < t \<and> reachable router)"
      using Cons.prems(2,3) unfolding e by (auto simp: max_def split: option.splits if_splits)
    then show ?case using Cons.IH [of "?f m e"] Cons.prems(1,2) by simp
  qed
  show "(p, t) \<in> set (obs_live l now reachable o1) \<Longrightarrow>
     \<exists>router. bt_get o1 (l, router, p) = Some t \<and> now < t \<and> reachable router"
    using gen [of bt_empty "entries o1" p t "set (entries o1)"] by (simp add: obs_live_def entries_get)
qed

text \<open>An announced lifetime is a multiple of eight below the wire limit and ends within its bound.\<close>

lemma remaining_bounds:
  shows "unat (remaining t now) mod 8 = 0" and "remaining t now \<le> 65528"
    and "remaining t now \<noteq> 0 \<Longrightarrow> unat now + 1000 * unat (remaining t now) \<le> unat t"
proof -
  let ?x = "ucast (min (saturating_sub t now div 1000) 65528) :: u32"
  have and7: "unat (x AND NOT 7) = 8 * (unat x div 8)" for x :: u32
  proof -
    have m: "(7 :: u32) = mask 3" by (simp add: mask_eq_exp_minus_1)
    have "x AND NOT 7 = push_bit 3 (drop_bit 3 x)"
      unfolding m by (rule bit_word_eqI) (auto simp: bit_simps not_less)
    also have "\<dots> = drop_bit 3 x * 8" by (simp add: push_bit_eq_mult)
    also have "unat \<dots> = unat (drop_bit 3 x) * 8"
    proof -
      have "unat x < 2 ^ LENGTH(32)" by (rule unsigned_less)
      then have "unat (drop_bit 3 x) * 8 < 2 ^ 32" by (simp add: unat_drop_bit_eq drop_bit_eq_div unat_div)
      then show ?thesis by (simp add: unat_word_ariths)
    qed
    finally show ?thesis by (simp add: unat_drop_bit_eq drop_bit_eq_div unat_div)
  qed
  show "unat (remaining t now) mod 8 = 0" unfolding remaining_def and7 by simp
  have ux: "unat ?x = min (unat (saturating_sub t now) div 1000) 65528"
  proof -
    have "unat (min y 65528) = min (unat y) 65528" for y :: u64 by (simp add: min_def word_le_nat_alt)
    moreover have "unat (min y 65528) < 2 ^ 32" for y :: u64 using calculation [of y] by simp
    ultimately show ?thesis by (simp add: unsigned_ucast_eq take_bit_eq_mod unat_div)
  qed
  show "remaining t now \<le> 65528" unfolding remaining_def word_le_nat_alt and7 ux by simp
  show "unat now + 1000 * unat (remaining t now) \<le> unat t" if nz: "remaining t now \<noteq> 0"
  proof -
    have "unat (remaining t now) \<noteq> 0" using nz by (simp add: unat_eq_0)
    then have pos: "0 < unat (saturating_sub t now)" unfolding remaining_def and7 ux by auto
    then have le: "now \<le> t" and sub: "unat (saturating_sub t now) = unat t - unat now"
      by (auto simp: saturating_sub_def unat_sub split: if_splits)
    have "1000 * unat (remaining t now) \<le> unat (saturating_sub t now)" unfolding remaining_def and7 ux
      by linarith
    then show ?thesis using le sub by (simp add: word_le_nat_alt)
  qed
qed

section \<open>What a decision announces\<close>

abbreviation announced :: "announcement list \<Rightarrow> prefix list" where
  "announced as \<equiv> map (\<lambda>a. p64_prefix (an_pref64 a)) as"

text \<open>The candidates that are admitted fit into the free slots of the promise history.\<close>

lemma admit_cases:
  assumes "admit_candidates n route now stub limit s ((p, until, src) # cs) slots failed = (as, f)"
  obtains (empty) "as = []"
  | (skip) failed' where "admit_candidates n route now stub limit s cs slots failed' = (as, f)"
  | (take) rt pd life slots' as' where "route p = Some rt" "limit = Some pd"
      "life = remaining (min (min (min until rt) stub) pd) now" "life \<noteq> 0"
      "bt_contains (se_promised s) p \<and> slots' = slots \<or> \<not> bt_contains (se_promised s) p \<and> slots = Suc slots'"
      "admit_candidates (n - 1) route now stub limit s cs slots' failed = (as', f)" "as = announce p life src # as'"
proof (cases "n = 0 \<or> route p = None \<or> limit = None")
  case True
  then show ?thesis using assms empty skip by (auto split: option.splits if_splits)
next
  case False
  then obtain rt pd where r: "n \<noteq> 0" "route p = Some rt" "limit = Some pd" by auto
  let ?life = "remaining (min (min (min until rt) stub) pd) now"
  show ?thesis
  proof (cases "?life = 0 \<or> \<not> bt_contains (se_promised s) p \<and> slots = 0")
    case True
    then show ?thesis using assms r skip by (auto simp: Let_def split: if_splits)
  next
    case live: False
    let ?slots = "if bt_contains (se_promised s) p then slots else slots - 1"
    obtain as' where "admit_candidates (n - 1) route now stub limit s cs ?slots failed = (as', f)"
      "as = announce p ?life src # as'"
      using assms r live by (auto simp: Let_def split: prod.splits if_splits)
    then show ?thesis using live r by (intro take [of rt pd ?life ?slots as']) auto
  qed
qed

lemma admit_sound:
  assumes "admit_candidates n route now stub limit s cs slots failed = (as, f)" and "distinct (map fst cs)"
  shows "distinct (announced as) \<and> set (announced as) \<subseteq> fst ` set cs
    \<and> card (set (announced as) - set (bt_keys (se_promised s))) \<le> slots"
  using assms
proof (induction cs arbitrary: n slots failed as)
  case Nil
  then show ?case by simp
next
  case (Cons c cs)
  obtain p until src where c: "c = (p, until, src)" by (metis prod.exhaust)
  have rest: "distinct (map fst cs)" "p \<notin> fst ` set cs" using Cons.prems(2) c by auto
  from Cons.prems(1) [unfolded c] show ?case
  proof (cases rule: admit_cases)
    case empty
    then show ?thesis by simp
  next
    case (skip failed')
    then show ?thesis using Cons.IH [OF skip rest(1)] by auto
  next
    case (take rt pd life slots' as')
    note IH = Cons.IH [OF take(6) rest(1)]
    let ?K = "set (bt_keys (se_promised s))"
    have "set (announced as) - ?K = (if p \<in> ?K then set (announced as') - ?K else insert p (set (announced as') - ?K))"
      using take(7) by (auto simp: announce_def)
    moreover have "p \<notin> set (announced as')" using IH rest(2) by blast
    ultimately have "card (set (announced as) - ?K) \<le> slots"
      using IH take(5) by (auto simp: bt_keys_set card_insert_if)
    then show ?thesis using IH take(7) \<open>p \<notin> set (announced as')\<close> c by (auto simp: announce_def)
  qed
qed

definition admitted :: "(prefix \<Rightarrow> u64 option) \<Rightarrow> u64 \<Rightarrow> u64 \<Rightarrow> u64 option \<Rightarrow> prefix \<times> u64 \<times> source \<Rightarrow> announcement \<Rightarrow> bool" where
  "admitted route now stub limit c a \<longleftrightarrow> (case c of (p, until, src) \<Rightarrow> \<exists>rt pd. route p = Some rt \<and> limit = Some pd
    \<and> a = announce p (remaining (min (min (min until rt) stub) pd) now) src
    \<and> remaining (min (min (min until rt) stub) pd) now \<noteq> 0)"

lemma admit_lifetimes:
  assumes "admit_candidates n route now stub limit s cs slots failed = (as, f)" and "a \<in> set as"
  shows "\<exists>c\<in>set cs. admitted route now stub limit c a"
  using assms
proof (induction cs arbitrary: n slots failed as)
  case Nil
  then show ?case by simp
next
  case (Cons c cs)
  obtain p until src where c: "c = (p, until, src)" by (metis prod.exhaust)
  from Cons.prems(1) [unfolded c] show ?case
  proof (cases rule: admit_cases)
    case empty
    then show ?thesis using Cons.prems(2) by simp
  next
    case (skip failed')
    then show ?thesis using Cons.IH [OF skip Cons.prems(2)] by auto
  next
    case (take rt pd life slots' as')
    show ?thesis
    proof (cases "a = announce p life src")
      case True
      then have "admitted route now stub limit c a" using take(1-4) c by (auto simp: admitted_def)
      then show ?thesis by auto
    next
      case False
      then have "a \<in> set as'" using Cons.prems(2) take(7) by simp
      from Cons.IH [OF take(6) this] show ?thesis by auto
    qed
  qed
qed

text \<open>
  What backs an announcement: it ends before the return path of the stub link, and before the IPv4
  path, the route and the delegated prefix, and the observed advertisement that its source relies on.
\<close>

definition within :: "u64 \<Rightarrow> u32 \<Rightarrow> u64 option \<Rightarrow> bool" where
  "within now life t \<longleftrightarrow> (case t of None \<Rightarrow> False | Some x \<Rightarrow> unat now + 1000 * unat life \<le> unat x)"

definition backed :: "u64 \<Rightarrow> readiness \<Rightarrow> (link \<Rightarrow> ipv6 \<Rightarrow> bool) \<Rightarrow> (prefix \<Rightarrow> u64 option) \<Rightarrow> selector \<Rightarrow> announcement \<Rightarrow> bool" where
  "backed now ready reachable route s a \<longleftrightarrow>
     (let p = p64_prefix (an_pref64 a); life = p64_lifetime (an_pref64 a);
          infra = within now life (route p) \<and> (pol_allow_without_pd (se_policy s) \<or> within now life (rd_pd ready))
      in unat life mod 8 = 0 \<and> life \<le> 65528 \<and> within now life (rd_stub ready)
         \<and> (case an_source a of
              SrcLocal \<Rightarrow> p = se_local s \<and> rd_translator ready \<and> within now life (rd_ipv4 ready)
            | SrcConfigured \<Rightarrow> pol_infrastructure (se_policy s) = Some p \<and> infra
            | SrcInfrastructure \<Rightarrow> infra \<and> (\<exists>router. reachable Ail router
                \<and> within now life (bt_get (se_observations s) (Ail, router, p)))))"

definition decision_ok :: "u64 \<Rightarrow> readiness \<Rightarrow> (link \<Rightarrow> ipv6 \<Rightarrow> bool) \<Rightarrow> (prefix \<Rightarrow> u64 option) \<Rightarrow> selector \<Rightarrow> decision \<Rightarrow> bool" where
  "decision_ok now ready reachable route s d \<longleftrightarrow>
     distinct (announced (de_announcements d)) \<and> (\<forall>p\<in>set (announced (de_announcements d)). usable p)
     \<and> card (set (announced (de_announcements d)) \<union> set (bt_keys (se_promised s))) \<le> 8
     \<and> (\<forall>a\<in>set (de_announcements d). backed now ready reachable route s a)"

lemma within_remaining: "remaining t now \<noteq> 0 \<Longrightarrow> t \<le> x \<Longrightarrow> within now (remaining t now) (Some x)"
  using remaining_bounds(3) [of t now] by (simp add: within_def word_le_nat_alt)

lemma keys_card: "card (set (bt_keys m)) = bt_len m"
  using entries_distinct [of m] using distinct_card [of "bt_keys m"] by (simp add: bt_len_def bt_keys_def)

lemma empty_decision_ok: "selector_inv s \<Longrightarrow> decision_ok now ready reachable route s (empty_decision m r)"
  by (simp add: decision_ok_def empty_decision_def keys_card selector_inv_def promised_ok_def)

lemma live_until_Some: "live_until now t = Some x \<longleftrightarrow> t = Some x \<and> now < x"
  by (cases t) (auto simp: live_until_def)

lemma decision_ok_suppressed [simp]:
  "decision_ok now ready reachable route (s\<lparr>se_suppressed := b\<rparr>) d = decision_ok now ready reachable route s d"
  by (simp add: decision_ok_def backed_def Let_def cong: source.case_cong)

lemma select_local_ok:
  assumes inv: "selector_inv s" and stub: "rd_stub ready = Some stub"
  shows "decision_ok now ready reachable route s (select_local now ready stub peer s)"
proof (cases "\<exists>v4 life. rd_translator ready \<and> live_until now (rd_ipv4 ready) = Some v4
    \<and> life = remaining (min (min v4 stub) (saturating_add now 1800000)) now \<and> life \<noteq> 0
    \<and> (bt_contains (se_promised s) (se_local s) \<or> bt_len (se_promised s) < 8)
    \<and> select_local now ready stub peer s = \<lparr>de_mode = LocalMode, de_announcements = [announce (se_local s) life SrcLocal],
         de_routes = [medium_route (se_local s) life], de_reason = ''local translator and IPv4 path are ready''\<rparr>")
  case True
  then obtain v4 life where d: "rd_translator ready" "live_until now (rd_ipv4 ready) = Some v4"
    "life = remaining (min (min v4 stub) (saturating_add now 1800000)) now" "life \<noteq> 0"
    "bt_contains (se_promised s) (se_local s) \<or> bt_len (se_promised s) < 8"
    "select_local now ready stub peer s = \<lparr>de_mode = LocalMode, de_announcements = [announce (se_local s) life SrcLocal],
         de_routes = [medium_route (se_local s) life], de_reason = ''local translator and IPv4 path are ready''\<rparr>" by blast
  have "within now life (Some x)" if "min (min v4 stub) (saturating_add now 1800000) \<le> x" for x
    using within_remaining [OF _ that] d(4) unfolding d(3) by simp
  then have "within now life (Some v4)" "within now life (Some stub)" by (simp_all add: min_le_iff_disj)
  then have "backed now ready reachable route s (announce (se_local s) life SrcLocal)"
    using d(1,2) stub remaining_bounds(1,2) [of "min (min v4 stub) (saturating_add now 1800000)" now] unfolding d(3)
    by (simp add: backed_def announce_def live_until_Some Let_def)
  moreover have "card (insert (se_local s) (set (bt_keys (se_promised s)))) \<le> 8"
    using d(5) inv by (auto simp: card_insert_if keys_card bt_keys_set selector_inv_def promised_ok_def)
  ultimately show ?thesis unfolding d(6) using inv by (simp add: decision_ok_def announce_def selector_inv_def)
next
  case False
  then have "\<exists>m r. select_local now ready stub peer s = empty_decision m r"
    unfolding select_local_def Let_def by (auto split: option.splits if_splits)
  then show ?thesis using empty_decision_ok [OF inv] by auto
qed

lemma infrastructure_ok:
  assumes inv: "selector_inv s" and stub: "rd_stub ready = Some stub"
  shows "\<exists>as f. infrastructure now stub (live_until now (rd_pd ready)) reachable route s = Ok (as, f)
    \<and> (\<forall>m rs r. decision_ok now ready reachable route s \<lparr>de_mode = m, de_announcements = as, de_routes = rs, de_reason = r\<rparr>)"
proof -
  let ?limit = "if pol_allow_without_pd (se_policy s) then Some (- 1) else live_until now (rd_pd ready)"
  let ?cs = "case pol_infrastructure (se_policy s) of Some p \<Rightarrow> [(p, - 1 :: u64, SrcConfigured)]
    | None \<Rightarrow> map (\<lambda>(p, t). (p, t, SrcInfrastructure)) (obs_live Ail now (reachable Ail) (se_observations s))"
  let ?slots = "8 - bt_len (se_promised s)"
  let ?K = "set (bt_keys (se_promised s))"
  obtain as f where run: "admit_candidates 8 route now stub ?limit s ?cs ?slots False = (as, f)" by (meson prod.exhaust)
  have le: "bt_len (se_promised s) \<le> 8" using inv by (simp add: selector_inv_def promised_ok_def)
  have i: "infrastructure now stub (live_until now (rd_pd ready)) reachable route s = Ok (as, f)"
    using run le by (simp add: infrastructure_def sub_chk_def Let_def)
  have us: "usable (fst c)" if c: "c \<in> set ?cs" for c
  proof (cases "pol_infrastructure (se_policy s)")
    case None
    then obtain p t where "c = (p, t, SrcInfrastructure)" "(p, t) \<in> set (obs_live Ail now (reachable Ail) (se_observations s))"
      using c by auto
    then show ?thesis using obs_live_sound(2) [of p t] inv
      by (force simp: selector_inv_def obs_ok_def bt_contains_def)
  next
    case (Some p)
    then show ?thesis using c inv by (auto simp: selector_inv_def)
  qed
  have "distinct (map fst ?cs)"
  proof (cases "pol_infrastructure (se_policy s)")
    case None
    then have "map fst ?cs = map fst (obs_live Ail now (reachable Ail) (se_observations s))" by (simp add: case_prod_beta)
    then show ?thesis using obs_live_sound(1) by simp
  qed simp
  note ad = admit_sound [OF run this]
  have backs: "backed now ready reachable route s a" if "a \<in> set as" for a
  proof -
    from admit_lifetimes [OF run that] obtain p until src rt pd where
      c: "(p, until, src) \<in> set ?cs" and rt: "route p = Some rt" and pd: "?limit = Some pd"
      and a: "a = announce p (remaining (min (min (min until rt) stub) pd) now) src"
      and nz: "remaining (min (min (min until rt) stub) pd) now \<noteq> 0"
      by (auto simp: admitted_def)
    define life where "life = remaining (min (min (min until rt) stub) pd) now"
    have w: "within now life (Some x)" if "min (min (min until rt) stub) pd \<le> x" for x
      unfolding life_def by (rule within_remaining [OF nz that])
    have b: "unat life mod 8 = 0" "life \<le> 65528" unfolding life_def by (rule remaining_bounds)+
    have infra: "within now life (route p) \<and> (pol_allow_without_pd (se_policy s) \<or> within now life (rd_pd ready))"
      using w [of rt] w [of pd] pd rt by (auto simp: live_until_Some min_le_iff_disj split: if_splits)
    have st: "within now life (rd_stub ready)" using w [of stub] stub by (simp add: min_le_iff_disj)
    show ?thesis
    proof (cases "pol_infrastructure (se_policy s)")
      case None
      then have "src = SrcInfrastructure" and m: "(p, until) \<in> set (obs_live Ail now (reachable Ail) (se_observations s))"
        using c by auto
      moreover obtain router where "bt_get (se_observations s) (Ail, router, p) = Some until" "reachable Ail router"
        using obs_live_sound(2) [OF m] by blast
      moreover have "within now life (Some until)" using w [of until] by (simp add: min_le_iff_disj)
      ultimately show ?thesis using a b infra st unfolding life_def [symmetric]
        by (auto simp: backed_def announce_def Let_def)
    next
      case (Some q)
      then have "src = SrcConfigured" "p = q" using c by auto
      then show ?thesis using a b infra st Some unfolding life_def [symmetric] by (simp add: backed_def announce_def Let_def)
    qed
  qed
  have "card (set (announced as) \<union> ?K) = card (set (announced as) - ?K) + card ?K"
    using card_Un_disjoint [of "set (announced as) - ?K" ?K] by (simp add: Un_Diff_cancel2 Diff_disjoint Int_commute)
  then have "card (set (announced as) \<union> ?K) \<le> 8" using ad [THEN conjunct2, THEN conjunct2] le by (simp add: keys_card)
  then have "decision_ok now ready reachable route s \<lparr>de_mode = m, de_announcements = as, de_routes = rs, de_reason = r\<rparr>" for m rs r
    using ad us backs by (auto simp: decision_ok_def)
  then show ?thesis using i by blast
qed

text \<open>The state a selection starts from: expired entries are gone, and the suppression too when no peer is left.\<close>

lemma selector_inv_expire: "selector_inv s \<Longrightarrow> selector_inv (selector_expire now s)"
  by (auto simp: selector_inv_def selector_expire_def obs_expire_def promised_live_def obs_ok_retain promised_ok_retain
      bt_retain_empty)

lemma selector_inv_suppressed [simp]: "selector_inv (s\<lparr>se_suppressed := b\<rparr>) = selector_inv s"
  by (simp add: selector_inv_def)

lemma select_active_ok:
  assumes inv: "selector_inv s"
  shows "\<exists>d b. select_active now ready reachable route s = Ok (d, (selector_expire now s)\<lparr>se_suppressed := b\<rparr>)
    \<and> decision_ok now ready reachable route (selector_expire now s) d
    \<and> (\<not> pol_enabled (se_policy s) \<longrightarrow> d = empty_decision Disabled ''administratively disabled'')"
proof -
  define s0 where "s0 = selector_expire now s"
  have inv0: "selector_inv s0" unfolding s0_def by (rule selector_inv_expire [OF inv])
  define s1 where "s1 = (if obs_live Stub now (\<lambda>_. True) (se_observations s0) = [] then s0\<lparr>se_suppressed := False\<rparr> else s0)"
  define b1 where "b1 = se_suppressed s1"
  have s1: "s1 = s0\<lparr>se_suppressed := b1\<rparr>" by (rule selector.equality) (simp_all add: s1_def b1_def)
  have inv1: "selector_inv s1" using inv0 by (simp add: s1)
  have pol: "se_policy s1 = se_policy s" by (simp add: s1 s0_def selector_expire_def)
  note act = select_active_def [of now ready reachable route s, folded s0_def, unfolded Let_def, folded s1_def]
  have empty: "decision_ok now ready reachable route s0 (empty_decision m r)" for m r by (rule empty_decision_ok [OF inv0])
  show ?thesis
  proof (cases "\<not> pol_enabled (se_policy s1) \<or> live_until now (rd_stub ready) = None \<or> se_suppressed s1")
    case True
    then have "\<exists>m r. select_active now ready reachable route s = Ok (empty_decision m r, s1) \<and>
      (\<not> pol_enabled (se_policy s1) \<longrightarrow> empty_decision m r = empty_decision Disabled ''administratively disabled'')"
      unfolding act by (cases "pol_enabled (se_policy s1)"; cases "live_until now (rd_stub ready)") auto
    then show ?thesis using empty s1 pol unfolding s0_def by fastforce
  next
    case False
    then obtain stub where en: "pol_enabled (se_policy s1)" "live_until now (rd_stub ready) = Some stub" "\<not> se_suppressed s1"
      by auto
    have stub: "rd_stub ready = Some stub" using en(2) by (simp add: live_until_Some)
    obtain as f where i: "infrastructure now stub (live_until now (rd_pd ready)) reachable route s1 = Ok (as, f)"
      and ok: "\<And>m rs r. decision_ok now ready reachable route s1
        \<lparr>de_mode = m, de_announcements = as, de_routes = rs, de_reason = r\<rparr>"
      using infrastructure_ok [OF inv1 stub] by blast
    define s2 where "s2 = (if as = [] \<and> f then announcement_failed InfrastructureMode now s1 else s1)"
    define b2 where "b2 = se_suppressed s2"
    have s2: "s2 = s0\<lparr>se_suppressed := b2\<rparr>"
      by (rule selector.equality) (simp_all add: s2_def b2_def announcement_failed_def s1)
    have loc: "decision_ok now ready reachable route s0 (select_local now ready stub peer (s0\<lparr>se_suppressed := b\<rparr>))" for peer b
      using select_local_ok [of "s0\<lparr>se_suppressed := b\<rparr>"] inv0 stub by simp
    have "\<exists>d b. select_active now ready reachable route s = Ok (d, s0\<lparr>se_suppressed := b\<rparr>)
      \<and> decision_ok now ready reachable route s0 d"
    proof (cases "live_until now (rd_pd ready) \<noteq> None \<or> pol_allow_without_pd (se_policy s1)")
      case True
      then have a: "select_active now ready reachable route s =
        (if as = [] \<and> f \<and> se_suppressed s2 then
           Ok (empty_decision PeerMode ''infrastructure advertisement history is full; waiting for peers to expire'', s2)
         else if as \<noteq> [] then
           Ok (\<lparr>de_mode = InfrastructureMode, de_announcements = as,
                de_routes = map (\<lambda>a. medium_route (p64_prefix (an_pref64 a)) (p64_lifetime (an_pref64 a))) as,
                de_reason = ''usable infrastructure translation with a return route''\<rparr>, s2)
         else Ok (select_local now ready stub (obs_live Stub now (reachable Stub) (se_observations s1) \<noteq> []) s2, s2))"
        unfolding act s2_def using en i by auto
      show ?thesis unfolding a using empty ok [unfolded s1 decision_ok_suppressed] loc s2 by auto
    next
      case False
      then have "select_active now ready reachable route s =
        Ok (select_local now ready stub (obs_live Stub now (reachable Stub) (se_observations s1) \<noteq> []) s1, s1)"
        unfolding act using en by auto
      then show ?thesis using loc s1 by auto
    qed
    then show ?thesis using en(1) pol unfolding s0_def by auto
  qed
qed

text \<open>The promises that are not announced again add withdrawals and routes, and nothing else.\<close>

lemma select_promises:
  "\<exists>ws rs. foldl (select_promise now ready pol) d es =
       d\<lparr>de_announcements := de_announcements d @ ws, de_routes := de_routes d @ rs\<rparr>
     \<and> (\<forall>a\<in>set ws. p64_lifetime (an_pref64 a) = 0 \<and> p64_prefix (an_pref64 a) \<in> fst ` set es)
     \<and> (distinct (announced (de_announcements d)) \<longrightarrow> distinct (announced (de_announcements d @ ws)))
     \<and> (\<not> pol_enabled pol \<longrightarrow> (\<forall>r\<in>set rs. rio_lifetime r = 0))"
proof (induction es arbitrary: d)
  case Nil
  then show ?case by (intro exI [of _ "[]"]) simp
next
  case (Cons e es)
  let ?d = "select_promise now ready pol d e"
  obtain p src until withdrawn where e: "e = (p, src, until, withdrawn)" by (metis prod.exhaust)
  obtain w r where step: "?d = d\<lparr>de_announcements := de_announcements d @ w, de_routes := de_routes d @ r\<rparr>"
    and w: "\<forall>a\<in>set w. p64_lifetime (an_pref64 a) = 0 \<and> p64_prefix (an_pref64 a) = p"
    and dist: "distinct (announced (de_announcements d)) \<longrightarrow> distinct (announced (de_announcements d @ w))"
    and r: "\<not> pol_enabled pol \<longrightarrow> (\<forall>x\<in>set r. rio_lifetime x = 0)"
  proof (cases "list_ex (\<lambda>a. p64_prefix (an_pref64 a) = p) (de_announcements d)")
    case True
    then show ?thesis using that [of "[]" "[]"] by (simp add: select_promise_def e)
  next
    case False
    then show ?thesis
      using that [where w = "if withdrawn then [] else [announce p 0 src]" and r = "drop (length (de_routes d)) (de_routes ?d)"]
      by (cases withdrawn) (auto simp: select_promise_def e Let_def announce_def medium_route_def list_ex_iff)
  qed
  obtain ws rs where ih: "foldl (select_promise now ready pol) ?d es =
       ?d\<lparr>de_announcements := de_announcements ?d @ ws, de_routes := de_routes ?d @ rs\<rparr>"
     "\<forall>a\<in>set ws. p64_lifetime (an_pref64 a) = 0 \<and> p64_prefix (an_pref64 a) \<in> fst ` set es"
     "distinct (announced (de_announcements ?d)) \<longrightarrow> distinct (announced (de_announcements ?d @ ws))"
     "\<not> pol_enabled pol \<longrightarrow> (\<forall>r\<in>set rs. rio_lifetime r = 0)"
    using Cons.IH [of ?d] by blast
  show ?case
    using ih w r dist step e by (intro exI [of _ "w @ ws"] exI [of _ "r @ rs"]) auto
qed

lemma backed_expire: "backed now ready reachable route (selector_expire now s) a \<Longrightarrow> backed now ready reachable route s a"
  by (auto simp: backed_def selector_expire_def obs_expire_def Let_def within_def split: source.splits option.splits if_splits)

lemma select_ok:
  assumes inv: "selector_inv s"
  shows "\<exists>d s'. select now ready reachable route s = Ok (d, s') \<and> selector_inv s'
    \<and> se_promised s' = promised_live now (se_promised s) \<and> se_policy s' = se_policy s
    \<and> distinct (announced (de_announcements d)) \<and> (\<forall>p\<in>set (announced (de_announcements d)). usable p)
    \<and> card (set (announced (de_announcements d)) \<union> set (bt_keys (se_promised s'))) \<le> 8
    \<and> (\<forall>a\<in>set (de_announcements d). p64_lifetime (an_pref64 a) = 0 \<and> bt_contains (se_promised s') (p64_prefix (an_pref64 a))
         \<or> backed now ready reachable route s a)
    \<and> (\<not> pol_enabled (se_policy s) \<longrightarrow> de_mode d = Disabled \<and> (\<forall>a\<in>set (de_announcements d). p64_lifetime (an_pref64 a) = 0)
         \<and> (\<forall>r\<in>set (de_routes d). rio_lifetime r = 0))"
proof -
  let ?s0 = "selector_expire now s"
  obtain d0 b where act: "select_active now ready reachable route s = Ok (d0, ?s0\<lparr>se_suppressed := b\<rparr>)"
    and ok: "decision_ok now ready reachable route ?s0 d0"
    and off: "\<not> pol_enabled (se_policy s) \<longrightarrow> d0 = empty_decision Disabled ''administratively disabled''"
    using select_active_ok [OF inv] by blast
  let ?es = "entries (se_promised ?s0)"
  obtain ws rs where f: "foldl (select_promise now ready (se_policy s)) d0 ?es =
       d0\<lparr>de_announcements := de_announcements d0 @ ws, de_routes := de_routes d0 @ rs\<rparr>"
     and ws: "\<forall>a\<in>set ws. p64_lifetime (an_pref64 a) = 0 \<and> p64_prefix (an_pref64 a) \<in> fst ` set ?es"
     and dist: "distinct (announced (de_announcements d0)) \<longrightarrow> distinct (announced (de_announcements d0 @ ws))"
     and rs: "\<not> pol_enabled (se_policy s) \<longrightarrow> (\<forall>r\<in>set rs. rio_lifetime r = 0)"
    using select_promises by blast
  define d where "d = d0\<lparr>de_announcements := de_announcements d0 @ ws, de_routes := de_routes d0 @ rs\<rparr>"
  define s' where "s' = ?s0\<lparr>se_suppressed := b, se_status := (de_mode d, de_reason d)\<rparr>"
  have keys: "fst ` set ?es = set (bt_keys (se_promised ?s0))" by (simp add: bt_keys_def)
  have "se_policy ?s0 = se_policy s" by (simp add: selector_expire_def)
  then have run: "select now ready reachable route s = Ok (d, s')"
    using act f by (simp add: select_def Let_def s'_def d_def)
  have inv0: "selector_inv ?s0" by (rule selector_inv_expire [OF inv])
  then have inv': "selector_inv s'" by (simp add: s'_def selector_inv_def)
  have us: "\<forall>p\<in>set (announced (de_announcements d)). usable p"
    using ok ws keys inv0 by (auto simp: d_def decision_ok_def bt_keys_set selector_inv_def promised_ok_def)
  have sub: "set (announced (de_announcements d)) \<union> set (bt_keys (se_promised s')) =
      set (announced (de_announcements d0)) \<union> set (bt_keys (se_promised ?s0))"
    using ws keys by (auto simp: d_def s'_def)
  have ann: "p64_lifetime (an_pref64 a) = 0 \<and> bt_contains (se_promised s') (p64_prefix (an_pref64 a))
      \<or> backed now ready reachable route s a" if "a \<in> set (de_announcements d)" for a
    using that ok ws keys backed_expire by (auto simp: d_def s'_def decision_ok_def bt_keys_set)
  have "se_promised s' = promised_live now (se_promised s)" "se_policy s' = se_policy s"
    by (simp_all add: s'_def selector_expire_def)
  moreover have "distinct (announced (de_announcements d))" using dist ok by (simp add: d_def decision_ok_def)
  moreover have "card (set (announced (de_announcements d)) \<union> set (bt_keys (se_promised s'))) \<le> 8"
    unfolding sub using ok by (simp add: decision_ok_def)
  moreover have "\<not> pol_enabled (se_policy s) \<longrightarrow> de_mode d = Disabled
      \<and> (\<forall>a\<in>set (de_announcements d). p64_lifetime (an_pref64 a) = 0) \<and> (\<forall>r\<in>set (de_routes d). rio_lifetime r = 0)"
    using off ws rs by (auto simp: d_def empty_decision_def)
  ultimately show ?thesis using run inv' us ann by (intro exI [of _ d] exI [of _ s']) blast
qed

lemma advertise_one_cases:
  fixes m defines "p \<equiv> \<lambda>a. p64_prefix (an_pref64 a)"
  shows "usable (p a) \<Longrightarrow> \<exists>m1. advertise_one now a m = Ok m1 \<and> (\<forall>q. bt_contains m1 q \<longrightarrow> q = p a \<or> bt_contains m q)"
    and "\<not> usable (p a) \<Longrightarrow> advertise_one now a m = Err InvalidData"
proof -
  assume "usable (p a)"
  then show "\<exists>m1. advertise_one now a m = Ok m1 \<and> (\<forall>q. bt_contains m1 q \<longrightarrow> q = p a \<or> bt_contains m q)"
    unfolding advertise_one_def Let_def p_def
    by (cases "p64_lifetime (an_pref64 a) = 0"; cases "bt_get m (p64_prefix (an_pref64 a))") (auto split: prod.splits)
next
  assume "\<not> usable (p a)"
  then show "advertise_one now a m = Err InvalidData" by (simp add: advertise_one_def p_def)
qed

lemma advertise_all_ok:
  "\<forall>p\<in>set (announced as). usable p \<Longrightarrow>
     \<exists>m'. advertise_all now as m = Ok m' \<and> (\<forall>q. bt_contains m' q \<longrightarrow> q \<in> set (announced as) \<or> bt_contains m q)"
proof (induction as arbitrary: m)
  case (Cons a as)
  obtain m1 where m1: "advertise_one now a m = Ok m1" "\<forall>q. bt_contains m1 q \<longrightarrow> q = p64_prefix (an_pref64 a) \<or> bt_contains m q"
    using advertise_one_cases(1) [of a now m] Cons.prems by auto
  from Cons.IH [of m1] Cons.prems obtain m' where "advertise_all now as m1 = Ok m'"
    "\<forall>q. bt_contains m' q \<longrightarrow> q \<in> set (announced as) \<or> bt_contains m1 q" by auto
  then show ?case using m1 by auto
qed simp

lemma advertise_all_usable:
  "\<forall>p. bt_contains m p \<longrightarrow> usable p \<Longrightarrow> ensures (advertise_all now as m) (\<lambda>m'. \<forall>p. bt_contains m' p \<longrightarrow> usable p)"
proof (induction as arbitrary: m)
  case Nil
  then show ?case by simp
next
  case (Cons a as)
  show ?case
  proof (cases "usable (p64_prefix (an_pref64 a))")
    case True
    then obtain m1 where "advertise_one now a m = Ok m1" "\<forall>q. bt_contains m1 q \<longrightarrow> usable q"
      using advertise_one_cases(1) [of a now m] Cons.prems by auto
    then show ?thesis using Cons.IH [of m1] by simp
  next
    case False
    then show ?thesis using advertise_one_cases(2) by simp
  qed
qed

lemma promised_live_idem: "promised_live now (promised_live now m) = promised_live now m"
  unfolding promised_live_def by (rule bt_ext) (auto simp: fun_eq_iff split: option.splits)

lemma advertised_ok:
  assumes "distinct (announced as)" and "\<forall>p\<in>set (announced as). usable p"
    and "card (set (announced as) \<union> set (bt_keys (se_promised s))) \<le> 8"
    and "promised_live now (se_promised s) = se_promised s"
  shows "\<exists>s'. advertised as now s = (Ok (), s')"
proof -
  obtain m' where run: "advertise_all now as (se_promised s) = Ok m'"
    and q: "\<forall>q. bt_contains m' q \<longrightarrow> q \<in> set (announced as) \<or> bt_contains (se_promised s) q"
    using advertise_all_ok [OF assms(2), of now "se_promised s"] by auto
  have sub: "set (bt_keys m') \<subseteq> set (announced as) \<union> set (bt_keys (se_promised s))"
    using q by (auto simp: bt_keys_set)
  have "card (set (bt_keys m')) \<le> 8" using card_mono [OF _ sub] assms(3) by simp
  then have "bt_len m' \<le> 8" by (simp add: keys_card)
  moreover have "card (set (announced as)) \<le> 8"
    using card_mono [of "set (announced as) \<union> set (bt_keys (se_promised s))" "set (announced as)"] assms(3) by simp
  then have "length as \<le> 8" using distinct_card [OF assms(1)] by simp
  ultimately show ?thesis using run assms(4) by (simp add: advertised_def)
qed

section \<open>Calls\<close>

inductive selector_call :: "selector \<Rightarrow> selector \<Rightarrow> bool" where
  "selector_call s (snd (configure p s))"
| "selector_call s (selector_expire now s)"
| "selector_call s (snd (rotate_local site now s))"
| "selector_call s (snd (restore_promise p src until withdrawn s))"
| "selector_call s (snd (selector_receive l packet now s))"
| "selector_call s (selector_link_lost l s)"
| "selector_call s (snd (advertised as now s))"
| "selector_call s (announcement_failed m now s)"
| "select now ready reachable route s = Ok (d, s') \<Longrightarrow> selector_call s s'"

definition selector_start :: "selector \<Rightarrow> bool" where
  "selector_start s \<longleftrightarrow> (\<exists>site. selector_new site = Ok s)"

lemma selector_new_no_panic: "selector_new site \<noteq> Panic"
  using prefix_new_Some_iff [of "px_address site OR push_bit 64 0xffff" 96]
  by (auto simp: selector_new_def local_of_def)

lemma rotate_local_ok:
  assumes "selector_inv s"
  shows "fst (rotate_local site now s) \<noteq> Panic \<and> selector_inv (snd (rotate_local site now s))"
proof (cases "selector_new site")
  case (Ok n)
  then have "usable (se_local n)" using selector_new_ok by (simp add: selector_inv_def)
  then show ?thesis using Ok selector_inv_expire [OF assms]
    by (auto simp: rotate_local_def Let_def selector_inv_def)
qed (use assms selector_new_no_panic in \<open>auto simp: rotate_local_def\<close>)

lemma restore_promise_ok:
  "selector_inv s \<Longrightarrow> fst (restore_promise p src until withdrawn s) \<noteq> Panic
     \<and> (fst (restore_promise p src until withdrawn s) \<noteq> Ok () \<longrightarrow> snd (restore_promise p src until withdrawn s) = s)
     \<and> selector_inv (snd (restore_promise p src until withdrawn s))"
  by (auto simp: restore_promise_def selector_inv_def promised_ok_def bt_len_insert split: if_splits)

lemma selector_receive_ok:
  assumes "selector_inv s"
  shows "fst (selector_receive l packet now s) \<noteq> Panic
     \<and> (fst (selector_receive l packet now s) \<noteq> Ok () \<longrightarrow> snd (selector_receive l packet now s) = s)
     \<and> selector_inv (snd (selector_receive l packet now s))"
proof -
  have "ensures (obs_receive l packet now (se_observations s)) obs_ok"
    using assms by (intro obs_receive_ensures) (simp add: selector_inv_def)
  then show ?thesis using assms
    by (cases "obs_receive l packet now (se_observations s)") (auto simp: selector_receive_def selector_inv_def)
qed

lemma advertised_cases:
  assumes "selector_inv s"
  shows "fst (advertised as now s) \<noteq> Panic
     \<and> (fst (advertised as now s) \<noteq> Ok () \<longrightarrow> snd (advertised as now s) = s)
     \<and> selector_inv (snd (advertised as now s))"
proof -
  have "\<forall>p. bt_contains (promised_live now (se_promised s)) p \<longrightarrow> usable p"
    using assms bt_contains_retain by (auto simp: promised_live_def selector_inv_def promised_ok_def)
  from advertise_all_usable [OF this, of now as] show ?thesis using assms
    by (cases "advertise_all now as (promised_live now (se_promised s))")
      (auto simp: advertised_def selector_inv_def promised_ok_def)
qed

lemma selector_link_lost_ok: "selector_inv s \<Longrightarrow> selector_inv (selector_link_lost l s)"
  by (auto simp: selector_inv_def selector_link_lost_def obs_link_lost_def obs_ok_retain bt_retain_empty)

interpretation sel: call_invariant selector_start selector_call selector_inv
proof unfold_locales
  show "selector_start s \<Longrightarrow> selector_inv s" for s
    using selector_new_ok by (auto simp: selector_start_def)
  show "selector_call s t \<Longrightarrow> selector_inv s \<Longrightarrow> selector_inv t" for s t
  proof (induction rule: selector_call.induct)
    case (1 s p)
    then show ?case using configure_cases [of s p "fst (configure p s)" "snd (configure p s)"] by simp
  next
    case (9 now ready reachable route s d s')
    then show ?case using select_ok [of s now ready reachable route] by auto
  qed (simp_all add: selector_inv_expire rotate_local_ok restore_promise_ok selector_receive_ok advertised_cases
      selector_link_lost_ok announcement_failed_def)
qed

section \<open>Properties\<close>

text \<open>A site prefix and the selector it starts, for the examples.\<close>

definition site0 :: prefix where
  "site0 = Prefix 0xfd000000000100000000000000000000 48"

definition sel0 :: selector where
  "sel0 = \<lparr>se_policy = policy_default, se_observations = bt_empty, se_local = Prefix 0xfd0000000001ffff0000000000000000 96, se_promised = bt_empty,
     se_suppressed = False, se_status = (NoService, ''awaiting service readiness''), se_blocked = bt_empty\<rparr>"

lemma sel0_start: "selector_new site0 = Ok sel0"
  by (simp add: selector_new_def site0_def sel0_def local_of_def prefix_new_def prefix_ula_def Let_def
      to_be.simps(2) [of 15, simplified] mask_eq_exp_minus_1)

lemma sel0_reachable: "selector_start sel0" "selector_call\<^sup>*\<^sup>* sel0 sel0"
  using sel0_start by (auto simp: selector_start_def)

definition ready0 :: readiness where
  "ready0 = \<lparr>rd_pd = None, rd_ipv4 = Some 900000, rd_stub = Some 700000, rd_translator = True\<rparr>"

definition dec0 :: decision where
  "dec0 = \<lparr>de_mode = LocalMode, de_announcements = [announce (se_local sel0) 600 SrcLocal],
     de_routes = [medium_route (se_local sel0) 600], de_reason = ''local translator and IPv4 path are ready''\<rparr>"

lemma dec0_select:
  "select 100000 ready0 (\<lambda>_ _. True) (\<lambda>_. None) sel0 =
     Ok (dec0, sel0\<lparr>se_status := (LocalMode, ''local translator and IPv4 path are ready'')\<rparr>)"
  by (simp add: select_def select_active_def selector_expire_def sel0_def ready0_def dec0_def policy_default_def
      obs_expire_def promised_live_def bt_retain_empty obs_live_def bt_empty.rep_eq live_until_def select_local_def
      remaining_def saturating_sub_def saturating_add_def announce_def Let_def)

text \<open>
  The tables of the prefix selector stay bounded and clean in every reachable state: at most 32
  observations per link, 8 promises and 74 blocked prefixes, every stored prefix usable for
  translation, and observations are kept only while translation is enabled.
\<close>

theorem selector_bounded:
  assumes "selector_start s0" and "selector_call\<^sup>*\<^sup>* s0 s"
  shows "(\<forall>l. length (filter (\<lambda>k. fst k = l) (bt_keys (se_observations s))) \<le> 32)
    \<and> bt_len (se_promised s) \<le> 8 \<and> bt_len (se_blocked s) \<le> 74
    \<and> usable (se_local s) \<and> (\<forall>l router p. bt_contains (se_observations s) (l, router, p) \<longrightarrow> usable p)
    \<and> (\<forall>p. bt_contains (se_promised s) p \<longrightarrow> usable p)
    \<and> (if pol_enabled (se_policy s) then se_blocked s = bt_empty else se_observations s = bt_empty)"
  using sel.reachable_inv [OF assms]
  by (auto simp: selector_inv_def obs_ok_def promised_ok_def bt_count_keys)

theorem selector_bounded_witness: "bt_len (se_promised sel0) \<le> 8 \<and> usable (se_local sel0)"
  using selector_bounded [OF sel0_reachable] by simp





text \<open>
  C23: A decision can always be carried out: the announcements of a selection are at most eight,
  with distinct usable prefixes, and \<open>advertised\<close> accepts them at the same time, so that the
  promise history can always record what is sent.
\<close>

theorem decision_always_recordable:
  assumes "selector_start s0" and "selector_call\<^sup>*\<^sup>* s0 s"
  shows "\<exists>d s' s''. select now ready reachable route s = Ok (d, s') \<and> length (de_announcements d) \<le> 8
    \<and> distinct (map (\<lambda>a. p64_prefix (an_pref64 a)) (de_announcements d))
    \<and> list_all (\<lambda>a. usable (p64_prefix (an_pref64 a))) (de_announcements d)
    \<and> advertised (de_announcements d) now s' = (Ok (), s'')"
proof -
  obtain d s' where d: "select now ready reachable route s = Ok (d, s')"
    "se_promised s' = promised_live now (se_promised s)" "distinct (announced (de_announcements d))"
    "\<forall>p\<in>set (announced (de_announcements d)). usable p"
    "card (set (announced (de_announcements d)) \<union> set (bt_keys (se_promised s'))) \<le> 8"
    using select_ok [OF sel.reachable_inv [OF assms], of now ready reachable route] by blast
  then obtain s'' where adv: "advertised (de_announcements d) now s' = (Ok (), s'')"
    using advertised_ok [of "de_announcements d" s' now] promised_live_idem by auto
  then have "length (de_announcements d) \<le> 8" by (auto simp: advertised_def split: if_splits)
  then show ?thesis using d adv by (auto simp: list_all_iff)
qed

theorem decision_always_recordable_witness:
  "\<exists>s''. advertised (de_announcements dec0) 100000
     (sel0\<lparr>se_status := (LocalMode, ''local translator and IPv4 path are ready'')\<rparr>) = (Ok (), s'')"
  using decision_always_recordable [OF sel0_reachable, of 100000 ready0 "\<lambda>_ _. True" "\<lambda>_. None"] dec0_select by auto


text \<open>
  C24: An announced prefix never outlives what backs it. Every announcement of a selection either
  withdraws a promise (lifetime zero), or carries a lifetime that is a multiple of 8 seconds up to
  65528, ends before the return path of the stub link, and ends before the IPv4 path of the local
  translator, or before the route and (unless the policy waives it) the delegated prefix, and for
  an observed prefix before the advertisement of a reachable router on the adjacent link.
\<close>

theorem announcements_backed:
  assumes "selector_start s0" and "selector_call\<^sup>*\<^sup>* s0 s" and "select now ready reachable route s = Ok (d, s')"
    and "a \<in> set (de_announcements d)"
  shows "p64_lifetime (an_pref64 a) = 0 \<and> bt_contains (se_promised s) (p64_prefix (an_pref64 a))
    \<or> backed now ready reachable route s a"
proof -
  from select_ok [OF sel.reachable_inv [OF assms(1,2)], of now ready reachable route] assms(3,4)
  have "p64_lifetime (an_pref64 a) = 0 \<and> bt_contains (promised_live now (se_promised s)) (p64_prefix (an_pref64 a))
    \<or> backed now ready reachable route s a" by auto
  then show ?thesis using bt_contains_retain unfolding promised_live_def by blast
qed

theorem announcements_backed_witness:
  "backed 100000 ready0 (\<lambda>_ _. True) (\<lambda>_. None) sel0 (announce (se_local sel0) 600 SrcLocal)"
  using announcements_backed [OF sel0_reachable dec0_select, of "announce (se_local sel0) 600 SrcLocal"]
  by (simp add: dec0_def announce_def)


text \<open>
  C25: Disabling takes effect at once and completely. Switching translation off is never refused for
  lack of room, afterwards every address of the local prefix, of every promised or observed prefix
  and of the configured one is blocked, and every later selection only withdraws: all announced
  lifetimes and routes are zero.
\<close>

theorem disabling_is_complete:
  assumes "selector_start s0" and "selector_call\<^sup>*\<^sup>* s0 s" and "pol_enabled (se_policy s)"
    and "\<not> pol_enabled p" and "policy_validate p = Ok ()"
  shows "\<exists>s'. configure p s = (Ok (), s')
    \<and> (\<forall>q a. (q = se_local s \<or> bt_contains (se_promised s) q \<or> (\<exists>l router. bt_contains (se_observations s) (l, router, q))
           \<or> pol_infrastructure (se_policy s) = Some q \<or> pol_infrastructure p = Some q)
         \<and> prefix_contains q a \<longrightarrow> selector_blocked s' a)
    \<and> (\<forall>now ready reachable route. \<exists>d s''. select now ready reachable route s' = Ok (d, s'') \<and> de_mode d = Disabled
         \<and> list_all (\<lambda>a. p64_lifetime (an_pref64 a) = 0) (de_announcements d)
         \<and> list_all (\<lambda>r. rio_lifetime r = 0) (de_routes d))"
proof -
  have inv: "selector_inv s" by (rule sel.reachable_inv [OF assms(1,2)])
  obtain s' where c: "configure p s = (Ok (), s')" and inv': "selector_inv s'" and pol: "se_policy s' = p"
    using configure_cases [OF inv, of p "fst (configure p s)" "snd (configure p s)"] assms(3,5) by (cases "configure p s") auto
  have ne: "se_policy s \<noteq> p" using assms(3,4) by auto
  have loc: "se_local s' = se_local s"
    and bl: "\<And>q. bt_contains (se_promised s) q \<or> q \<in> set (observed_prefixes s)
      \<or> pol_infrastructure (se_policy s) = Some q \<or> pol_infrastructure p = Some q \<Longrightarrow> bt_contains (se_blocked s') q"
    using c ne assms(4,5)
    by (auto simp: configure_def Let_def block_all_contains bt_keys_set split: if_splits)
  have obs: "q \<in> set (observed_prefixes s)" if "bt_contains (se_observations s) (l, router, q)" for l router q
    using that unfolding observed_prefixes_def by (force simp: bt_keys_set [symmetric])
  have "selector_blocked s' a" if "(q = se_local s \<or> bt_contains (se_promised s) q \<or> (\<exists>l router. bt_contains (se_observations s) (l, router, q))
           \<or> pol_infrastructure (se_policy s) = Some q \<or> pol_infrastructure p = Some q)" and "prefix_contains q a" for q a
  proof (cases "q = se_local s")
    case True
    then show ?thesis using that(2) pol assms(4) loc by (simp add: selector_blocked_def)
  next
    case False
    then have "bt_contains (se_blocked s') q" using that(1) bl obs by blast
    then show ?thesis using that(2) pol assms(4) by (auto simp: selector_blocked_def list_ex_iff bt_keys_set [symmetric])
  qed
  moreover have "\<exists>d s''. select now ready reachable route s' = Ok (d, s'') \<and> de_mode d = Disabled
         \<and> list_all (\<lambda>a. p64_lifetime (an_pref64 a) = 0) (de_announcements d)
         \<and> list_all (\<lambda>r. rio_lifetime r = 0) (de_routes d)" for now ready reachable route
    using select_ok [OF inv', of now ready reachable route] pol assms(4) by (auto simp: list_all_iff)
  ultimately show ?thesis using c by blast
qed

theorem disabling_is_complete_witness:
  "\<exists>s'. configure (policy_default\<lparr>pol_enabled := False\<rparr>) sel0 = (Ok (), s')
     \<and> selector_blocked s' 0xfd0000000001ffff0000000001020304"
proof -
  have "prefix_contains (se_local sel0) 0xfd0000000001ffff0000000001020304"
    by (simp add: prefix_contains_def sel0_def prefix_new_def mask_eq_exp_minus_1)
  moreover have "pol_enabled (se_policy sel0)" "\<not> pol_enabled (policy_default\<lparr>pol_enabled := False\<rparr>)"
    "policy_validate (policy_default\<lparr>pol_enabled := False\<rparr>) = Ok ()"
    by (simp_all add: sel0_def policy_default_def policy_validate_def)
  ultimately show ?thesis using disabling_is_complete [OF sel0_reachable] by blast
qed

end
