(* ===== verification/Reassembly.thy ===== *)
theory Reassembly
  imports BTree_Map Ipv4_Wire Wire
begin

text \<open>
  Fragmentation and bounded reassembly of IPv4 and IPv6 packets (\<open>ip_reassembly.rs\<close>): the fragment
  parser, the table of datagrams in progress, its limits, and the splitting of packets for a link.
  The invariant of the table and its preservation follow the definitions.
\<close>

section \<open>Definitions\<close>

subsection \<open>Fragments\<close>

text \<open>\<open>IpAddr\<close> with its derived order: every IPv4 address before every IPv6 address.\<close>

datatype ip_addr = IpV4 ipv4 | IpV6 ipv6

fun ip_key :: "ip_addr \<Rightarrow> nat \<times> nat" where
  "ip_key (IpV4 a) = (0, unat a)"
| "ip_key (IpV6 a) = (1, unat a)"

lemma ip_key_inj: "ip_key a = ip_key b \<longleftrightarrow> a = b"
  by (cases a; cases b) (simp_all add: word_unat_eq_iff)

instantiation ip_addr :: linorder
begin

definition less_eq_ip_addr :: "ip_addr \<Rightarrow> ip_addr \<Rightarrow> bool" where
  "less_eq_ip_addr a b \<longleftrightarrow> ip_key a \<le> ip_key b"

definition less_ip_addr :: "ip_addr \<Rightarrow> ip_addr \<Rightarrow> bool" where
  "less_ip_addr a b \<longleftrightarrow> ip_key a < ip_key b"

instance
  by standard (auto simp: less_eq_ip_addr_def less_ip_addr_def ip_key_inj [symmetric])

end

type_synonym rkey = "u8 \<times> ip_addr \<times> ip_addr \<times> u8 \<times> u32"

record datagram =
  dg_packet :: bytes
  dg_fragment_id :: "u32 option"

record frag_context =
  cx_header :: bytes
  cx_parts :: "(nat, bytes) btree"
  cx_end :: "nat option"
  cx_deadline :: u64

definition context_bytes :: "frag_context \<Rightarrow> nat" where
  "context_bytes c = 128 + length (cx_header c) + bt_sum (\<lambda>_ b. length b + 128) (cx_parts c)"

type_synonym reassembler = "(rkey, frag_context) btree"

record fragment =
  fr_key :: rkey
  fr_header :: bytes
  fr_offset :: nat
  fr_more :: bool
  fr_payload :: bytes

subsection \<open>Parsing a fragment\<close>

definition parse_v4 :: "bytes \<Rightarrow> (io_error, fragment option) outcome" where
  "parse_v4 b =
     and_then (packet_parse b) (\<lambda>p.
     if length (p_bytes p) \<noteq> length b then Err InvalidData
     else if \<not> p_more_fragments p \<and> p_fragment_offset p = 0 then Ok None
     else and_then (slice_r b 0 (p_header_len p)) (\<lambda>header.
       and_then (put_r header 2 [0, 0]) (\<lambda>header.
       and_then (put_r header 6 [0, 0]) (\<lambda>header.
       and_then (put_r header 10 [0, 0]) (\<lambda>header.
       Ok (Some \<lparr>fr_key = (0, IpV4 (p_source p), IpV4 (p_destination p), p_protocol p, ucast (p_id p)),
                 fr_header = header, fr_offset = p_fragment_offset p, fr_more = p_more_fragments p,
                 fr_payload = p_payload p\<rparr>))))))"

text \<open>The fragment header at \<open>at\<close>, whose next header field was announced at \<open>previous\<close>.\<close>

definition fragment_header :: "bytes \<Rightarrow> envelope \<Rightarrow> nat \<Rightarrow> nat \<Rightarrow> (io_error, fragment option) outcome" where
  "fragment_header b e at previous =
     (if length b < at + 8 then Err InvalidData
      else and_then (idx b (at + 1)) (\<lambda>reserved.
        if reserved \<noteq> 0 then Err InvalidData
        else and_then (u16_at b (at + 2)) (\<lambda>flags.
        and_then (idx b at) (\<lambda>nxt.
        if flags AND 6 \<noteq> 0 \<or> List.member [0, 43, 44, 51, 60] nxt then Err InvalidData
        else and_then (slice_r b 0 at) (\<lambda>header.
        and_then (put_r header previous [nxt]) (\<lambda>header.
        and_then (put_r header 4 [0, 0]) (\<lambda>header.
        and_then (u32_at b (at + 4)) (\<lambda>ident.
        and_then (slice_from b (at + 8)) (\<lambda>payload.
        Ok (Some \<lparr>fr_key = (0, IpV6 (e_source e), IpV6 (e_destination e), 0, ident),
                  fr_header = header, fr_offset = unat (flags AND 0xfff8), fr_more = (flags AND 1 \<noteq> 0),
                  fr_payload = payload\<rparr>))))))))))"

text \<open>The length of an extension header: the match of the loop, \<open>None\<close> when the chain ends.\<close>

definition header_len :: "bytes \<Rightarrow> nat \<Rightarrow> u8 \<Rightarrow> (io_error, nat option) outcome" where
  "header_len b at nxt =
     (if nxt = 0 \<or> nxt = 43 \<or> nxt = 60 then
        if length b < at + 2 then Err InvalidData
        else map_ok (\<lambda>n. Some ((unat n + 1) * 8)) (idx b (at + 1))
      else if nxt = 51 then
        if length b < at + 2 then Err InvalidData
        else map_ok (\<lambda>n. Some ((unat n + 2) * 4)) (idx b (at + 1))
      else Ok None)"

fun parse_chain :: "nat \<Rightarrow> bytes \<Rightarrow> envelope \<Rightarrow> nat \<Rightarrow> nat \<Rightarrow> (io_error, fragment option) outcome" where
  "parse_chain 0 b e at previous = Err InvalidData"
| "parse_chain (Suc n) b e at previous =
     and_then (idx b previous) (\<lambda>nxt.
     if nxt = 44 then fragment_header b e at previous
     else and_then (header_len b at nxt) (\<lambda>len.
       case len of
         None \<Rightarrow> Ok None
       | Some k \<Rightarrow> if length b < at + k then Err InvalidData else parse_chain n b e (at + k) at))"

definition parse_v6 :: "bytes \<Rightarrow> (io_error, fragment option) outcome" where
  "parse_v6 b =
     and_then (map_err (\<lambda>_. InvalidData) (envelope RawIpv6 b)) (\<lambda>e.
     if length (e_packet e) \<noteq> length b then Err InvalidData else parse_chain 16 b e 40 6)"

definition frag_parse :: "bytes \<Rightarrow> (io_error, fragment option) outcome" where
  "frag_parse b = (case b of
      [] \<Rightarrow> Err InvalidData
    | v # _ \<Rightarrow> if drop_bit 4 v = 4 then parse_v4 b else if drop_bit 4 v = 6 then parse_v6 b else Err InvalidData)"

subsection \<open>Reassembly\<close>

definition complete :: "bytes \<Rightarrow> bytes \<Rightarrow> (io_error, bytes) outcome" where
  "complete header data =
     and_then (idx header 0) (\<lambda>v.
     if drop_bit 4 v = 6 then
       and_then (sub_chk (length header) 40) (\<lambda>n.
       and_then (ok_or InvalidData (u16_try_from (n + length data))) (\<lambda>len.
       and_then (put_r header 4 (to_be 2 len)) (\<lambda>header. Ok (header @ data))))
     else
       and_then (ok_or InvalidData (u16_try_from (length header + length data))) (\<lambda>len.
       and_then (put_r header 2 (to_be 2 len)) (\<lambda>header.
       and_then (put_r header 10 (to_be 2 (ipv4_checksum header))) (\<lambda>header. Ok (header @ data)))))"

definition context_count :: "reassembler \<Rightarrow> nat" where
  "context_count m = bt_len m"

definition retained_bytes :: "reassembler \<Rightarrow> nat" where
  "retained_bytes m = bt_sum (\<lambda>_ c. context_bytes c) m"

definition reasm_next_deadline :: "reassembler \<Rightarrow> u64 option" where
  "reasm_next_deadline m = list_min (map cx_deadline (bt_values m))"

definition reasm_expire :: "u64 \<Rightarrow> reassembler \<Rightarrow> reassembler" where
  "reasm_expire now m = bt_retain (\<lambda>_ c. now < cx_deadline c) m"

text \<open>The checks on a fragment alone; the result is where it ends. A sum of two lengths fits a \<open>usize\<close>.\<close>

definition frag_end :: "fragment \<Rightarrow> (io_error, nat) outcome" where
  "frag_end f =
     (let fin = fr_offset f + length (fr_payload f) in
      and_then (idx (fr_header f) 0) (\<lambda>v.
      and_then (if drop_bit 4 v = 6 then sub_chk (length (fr_header f)) 40 else Ok (length (fr_header f))) (\<lambda>overhead.
      if fr_payload f = [] \<or> 65535 < fin + overhead \<or> fr_more f \<and> length (fr_payload f) mod 8 \<noteq> 0
      then Err InvalidData else Ok fin)))"

definition conflict :: "frag_context \<Rightarrow> fragment \<Rightarrow> nat \<Rightarrow> bool" where
  "conflict c f fin \<longleftrightarrow>
     cx_header c \<noteq> fr_header f
     \<or> list_ex (\<lambda>(at, b). fr_offset f < at + length b \<and> at < fin) (entries (cx_parts c))
     \<or> (case cx_end c of None \<Rightarrow> False | Some e \<Rightarrow> e < fin \<or> \<not> fr_more f \<and> fin \<noteq> e)
     \<or> \<not> fr_more f \<and> list_ex (\<lambda>(at, b). fin < at + length b) (entries (cx_parts c))"

text \<open>The scan of the parts: where they end when they are contiguous from \<open>n\<close>.\<close>

fun contiguous :: "nat \<Rightarrow> (nat \<times> bytes) list \<Rightarrow> nat option" where
  "contiguous n [] = Some n"
| "contiguous n ((at, b) # ps) = (if at \<noteq> n then None else contiguous (n + length b) ps)"

definition reasm_store :: "u64 \<Rightarrow> fragment \<Rightarrow> nat \<Rightarrow> reassembler \<Rightarrow> (io_error, datagram option) outcome \<times> reassembler" where
  "reasm_store now f fin m =
     (let fresh = (\<not> bt_contains m (fr_key f));
          charge = length (fr_payload f) + 128 + (if fresh then 128 + length (fr_header f) else 0)
      in if fresh \<and> 64 \<le> bt_len m \<or> 4194304 < retained_bytes m + charge then (Err WouldBlock, m)
         else
           let c = (case bt_get m (fr_key f) of
                 Some c \<Rightarrow> c
               | None \<Rightarrow> \<lparr>cx_header = fr_header f, cx_parts = bt_empty, cx_end = None, cx_deadline = saturating_add now 60000\<rparr>);
               c = (if fr_more f then c else c\<lparr>cx_end := Some fin\<rparr>);
               c = c\<lparr>cx_parts := bt_insert (fr_offset f) (fr_payload f) (cx_parts c)\<rparr>;
               m = bt_insert (fr_key f) c m
           in case contiguous 0 (entries (cx_parts c)) of
                None \<Rightarrow> (Ok None, m)
              | Some n \<Rightarrow>
                  if cx_end c \<noteq> Some n then (Ok None, m)
                  else
                    (map_ok (\<lambda>packet. Some \<lparr>dg_packet = packet, dg_fragment_id = Some (snd (snd (snd (snd (fr_key f)))))\<rparr>)
                       (complete (cx_header c) (List.concat (bt_values (cx_parts c)))),
                     bt_remove (fr_key f) m))"

definition input_scoped :: "bytes \<Rightarrow> u64 \<Rightarrow> u8 \<Rightarrow> reassembler \<Rightarrow> (io_error, datagram option) outcome \<times> reassembler" where
  "input_scoped b now scope m =
     (let m = reasm_expire now m in
      case frag_parse b of
        Panic \<Rightarrow> (Panic, m)
      | Err e \<Rightarrow> (Err e, m)
      | Ok None \<Rightarrow> (Ok (Some \<lparr>dg_packet = b, dg_fragment_id = None\<rparr>), m)
      | Ok (Some f) \<Rightarrow>
          let f = f\<lparr>fr_key := (scope, snd (fr_key f))\<rparr> in
          if fr_offset f = 0 \<and> \<not> fr_more f then
            (map_ok (\<lambda>packet. Some \<lparr>dg_packet = packet, dg_fragment_id = Some (snd (snd (snd (snd (fr_key f)))))\<rparr>)
               (complete (fr_header f) (fr_payload f)), m)
          else case frag_end f of
            Panic \<Rightarrow> (Panic, m)
          | Err e \<Rightarrow> (Err e, m)
          | Ok fin \<Rightarrow>
              (case bt_get m (fr_key f) of
                 None \<Rightarrow> reasm_store now f fin m
               | Some c \<Rightarrow>
                   if conflict c f fin then (Err InvalidData, bt_remove (fr_key f) m) else reasm_store now f fin m))"

definition reasm_input :: "bytes \<Rightarrow> u64 \<Rightarrow> reassembler \<Rightarrow> (io_error, bytes option) outcome \<times> reassembler" where
  "reasm_input b now m = (case input_scoped b now 0 m of (r, m) \<Rightarrow> (map_ok (map_option dg_packet) r, m))"

subsection \<open>Fragmentation\<close>

definition fragment_shape :: "bytes \<Rightarrow> nat \<Rightarrow> (io_error, nat \<times> nat) outcome" where
  "fragment_shape b mtu = (case b of
      [] \<Rightarrow> Err InvalidData
    | v # _ \<Rightarrow>
        if drop_bit 4 v = 6 then
          and_then (map_err (\<lambda>_. InvalidData) (envelope RawIpv6 b)) (\<lambda>e.
          if \<not> List.member [6, 17, 58] (e_next_header e) \<or> mtu < 1280 then Err InvalidData else Ok (40, 48))
        else if drop_bit 4 v = 4 then
          and_then (packet_parse b) (\<lambda>p.
          if p_header_len p \<noteq> 20 \<or> p_more_fragments p \<or> p_fragment_offset p \<noteq> 0 \<or> mtu < 68 then Err InvalidData
          else Ok (20, 20))
        else Err InvalidData)"

definition fragment_one :: "bytes \<Rightarrow> nat \<Rightarrow> u32 \<Rightarrow> nat \<Rightarrow> bool \<Rightarrow> bytes \<Rightarrow> (io_error, bytes) outcome" where
  "fragment_one b header ident offset mf data =
     and_then (slice_r b 0 header) (\<lambda>h.
     if header = 40 then
       and_then (put_r h 6 [44]) (\<lambda>h.
       and_then (put_r h 4 (to_be 2 (of_nat (length data + 8) :: u16))) (\<lambda>h.
       and_then (idx b 6) (\<lambda>nxt.
       Ok (h @ [nxt, 0] @ to_be 2 ((of_nat offset :: u16) OR of_bool mf) @ to_be 4 ident @ data))))
     else
       and_then (put_r h 2 (to_be 2 (of_nat (length data + 20) :: u16))) (\<lambda>h.
       and_then (put_r h 4 (to_be 2 (ucast ident :: u16))) (\<lambda>h.
       and_then (put_r h 6 (to_be 2 ((of_nat offset :: u16) div 8 OR (if mf then 0x2000 else 0)))) (\<lambda>h.
       and_then (put_r h 10 [0, 0]) (\<lambda>h.
       and_then (put_r h 10 (to_be 2 (ipv4_checksum h))) (\<lambda>h.
       Ok (h @ data)))))))"

fun fragment_loop :: "bytes \<Rightarrow> nat \<Rightarrow> u32 \<Rightarrow> nat \<Rightarrow> nat \<Rightarrow> nat \<Rightarrow> bytes list \<Rightarrow> (io_error, bytes list) outcome" where
  "fragment_loop b header ident chunk whole i [] = Ok []"
| "fragment_loop b header ident chunk whole i (data # rest) =
     (let offset = i * chunk in
      and_then (fragment_one b header ident offset (offset + length data < whole) data) (\<lambda>h.
      and_then (fragment_loop b header ident chunk whole (i + 1) rest) (\<lambda>out.
      Ok (h # out))))"

definition frag_split :: "bytes \<Rightarrow> nat \<Rightarrow> u32 \<Rightarrow> (io_error, bytes list) outcome" where
  "frag_split b mtu ident =
     (if length b \<le> mtu then Ok [b]
      else and_then (fragment_shape b mtu) (\<lambda>(header, overhead).
        and_then (sub_chk mtu overhead) (\<lambda>room.
        let chunk = room div 8 * 8 in
        if chunk = 0 then Err InvalidData
        else and_then (slice_from b header) (\<lambda>payload.
          fragment_loop b header ident chunk (length payload) 0 (chunks chunk payload)))))"

declare split_paired_All [simp del] split_paired_Ex [simp del]

section \<open>The invariant\<close>

definition v6_header :: "bytes \<Rightarrow> bool" where
  "v6_header h \<longleftrightarrow> drop_bit 4 (h ! 0) = 6"

definition header_ok :: "bytes \<Rightarrow> bool" where
  "header_ok h \<longleftrightarrow> (if v6_header h then 40 \<le> length h else 20 \<le> length h)"

definition overhead :: "bytes \<Rightarrow> nat" where
  "overhead h = (if v6_header h then length h - 40 else length h)"

definition parts_disjoint :: "(nat, bytes) btree \<Rightarrow> bool" where
  "parts_disjoint ps \<longleftrightarrow> (\<forall>a x b y. bt_get ps a = Some x \<and> bt_get ps b = Some y \<and> a < b \<longrightarrow> a + length x \<le> b)"

definition context_ok :: "frag_context \<Rightarrow> bool" where
  "context_ok c \<longleftrightarrow> header_ok (cx_header c) \<and> parts_disjoint (cx_parts c)
     \<and> (\<forall>a x. bt_get (cx_parts c) a = Some x \<longrightarrow> x \<noteq> [] \<and> a + length x + overhead (cx_header c) \<le> 65535
          \<and> (\<forall>e. cx_end c = Some e \<longrightarrow> a + length x \<le> e))
     \<and> (\<forall>e. cx_end c = Some e \<longrightarrow> e + overhead (cx_header c) \<le> 65535)"

definition reasm_inv :: "reassembler \<Rightarrow> bool" where
  "reasm_inv m \<longleftrightarrow> bt_len m \<le> 64 \<and> retained_bytes m \<le> 4194304 \<and> (\<forall>k c. bt_get m k = Some c \<longrightarrow> context_ok c)"

definition fragment_wf :: "fragment \<Rightarrow> bool" where
  "fragment_wf f \<longleftrightarrow> header_ok (fr_header f) \<and> fr_offset f mod 8 = 0"

lemma nth_put_0: "0 < i \<Longrightarrow> i + length v \<le> length b \<Longrightarrow> put b i v ! 0 = b ! 0"
  by (cases b) (auto simp: nth_put)

lemma parse_v4_ensures:
  assumes "b \<noteq> []" and "drop_bit 4 (b ! 0) = 4"
  shows "ensures (parse_v4 b) (\<lambda>r. \<forall>f. r = Some f \<longrightarrow> fragment_wf f)"
proof -
  have "ensures (packet_parse b) (packet_wf b False)" by (rule packet_parse_ensures)
  then show ?thesis
    using assms
    by (auto simp: parse_v4_def wp ensures_call [OF packet_parse_ensures] packet_wf_def fragment_wf_def header_ok_def
        v6_header_def nth_put_0 dest!: ensuresD [OF packet_parse_ensures])
qed

lemma and_fff8: "unat (w AND 0xfff8 :: u16) mod 8 = 0"
proof -
  have "bit (w AND 0xfff8) k \<longrightarrow> \<not> k < 3" for k
  proof
    assume b: "bit (w AND 0xfff8) k"
    show "\<not> k < 3"
    proof
      assume "k < 3"
      then have "k = 0 \<or> k = 1 \<or> k = 2" by auto
      then show False using b by (auto simp: bit_and_iff)
    qed
  qed
  then have "take_bit 3 (w AND 0xfff8) = 0" by (intro bit_word_eqI) (auto simp: bit_take_bit_iff)
  then have "unat ((w AND 0xfff8) mod 8) = 0" by (simp add: take_bit_eq_mod)
  then show ?thesis by (simp only: unat_mod_distrib) simp
qed

lemma fragment_header_ensures:
  assumes "40 \<le> at" and "previous < at" and "previous = 6 \<or> 40 \<le> previous" and "drop_bit 4 (b ! 0) = 6"
  shows "ensures (fragment_header b e at previous) (\<lambda>r. \<forall>f. r = Some f \<longrightarrow> fragment_wf f)"
proof -
  have "put (take at b) previous [b ! at] ! 0 = b ! 0" if "at + 8 \<le> length b"
    using assms that by (subst nth_put_0) auto
  moreover have "put (put (take at b) previous [b ! at]) 4 [0, 0] ! 0 = put (take at b) previous [b ! at] ! 0" if "at + 8 \<le> length b"
    using assms that by (intro nth_put_0) auto
  ultimately show ?thesis using assms
    by (auto simp: fragment_header_def wp fragment_wf_def header_ok_def v6_header_def and_fff8)
qed

lemma parse_chain_ensures:
  assumes "40 \<le> at" and "at \<le> length b" and "previous < at" and "previous = 6 \<or> 40 \<le> previous" and "drop_bit 4 (b ! 0) = 6"
  shows "ensures (parse_chain n b e at previous) (\<lambda>r. \<forall>f. r = Some f \<longrightarrow> fragment_wf f)"
  using assms
proof (induction n arbitrary: at previous)
  case 0
  then show ?case by simp
next
  case (Suc n)
  have "ensures (header_len b at nxt) (\<lambda>r. \<forall>k. r = Some k \<longrightarrow> 0 < k)" for nxt
    by (auto simp: header_len_def wp)
  note hl = ensures_call [OF this]
  have pos: "0 < k" if "header_len b at nxt = Ok (Some k)" for nxt k
    using that by (auto simp: header_len_def split: if_splits)
  show ?case
    using Suc.prems fragment_header_ensures [OF Suc.prems(1,3,4,5)] Suc.IH pos
    by (auto simp: wp hl split: option.splits)
qed

lemma frag_parse_ensures: "ensures (frag_parse b) (\<lambda>r. \<forall>f. r = Some f \<longrightarrow> fragment_wf f)"
proof -
  have six: "ensures (parse_v6 b) (\<lambda>r. \<forall>f. r = Some f \<longrightarrow> fragment_wf f)" if "drop_bit 4 (b ! 0) = 6"
  proof -
    have e: "40 \<le> length b" if "envelope RawIpv6 b = Ok e" for e
      using that by (auto simp: envelope_def split: if_splits)
    show ?thesis
      using that e parse_chain_ensures [of 40 b 6 16]
      by (auto simp: parse_v6_def wp ensures_call [OF envelope_ensures])
  qed
  show ?thesis using parse_v4_ensures [of b] six by (cases b) (auto simp: frag_parse_def)
qed

lemma complete_ensures:
  assumes "header_ok h"
  shows "ensures (complete h d) (\<lambda>p. \<exists>h'. length h' = length h \<and> p = h' @ d)"
    and "overhead h + length d \<le> 65535 \<Longrightarrow> is_ok (complete h d)"
  using assms
  by (auto simp: complete_def header_ok_def overhead_def v6_header_def wp Let_def idx_def u16_try_from_def sub_chk_def
      split: if_splits)

lemma frag_end_ensures:
  "fragment_wf f \<Longrightarrow> ensures (frag_end f) (\<lambda>fin. fin = fr_offset f + length (fr_payload f) \<and> fr_payload f \<noteq> []
     \<and> fin + overhead (fr_header f) \<le> 65535)"
  by (auto simp: frag_end_def fragment_wf_def header_ok_def overhead_def v6_header_def wp Let_def split: if_splits)

lemma contiguous_sum: "contiguous n ps = Some k \<Longrightarrow> k = n + sum_list (map (\<lambda>p. length (snd p)) ps)"
  by (induction n ps rule: contiguous.induct) (auto split: if_splits)

lemma length_concat_values: "length (List.concat (bt_values m)) = sum_list (map (\<lambda>p. length (snd p)) (entries m))"
  by (simp add: bt_values_def length_concat comp_def)

text \<open>The context that a fragment is stored in, and what storing adds to it.\<close>

definition slot :: "u64 \<Rightarrow> fragment \<Rightarrow> reassembler \<Rightarrow> frag_context" where
  "slot now f m = (case bt_get m (fr_key f) of
      Some c \<Rightarrow> c
    | None \<Rightarrow> \<lparr>cx_header = fr_header f, cx_parts = bt_empty, cx_end = None, cx_deadline = saturating_add now 60000\<rparr>)"

definition grown :: "fragment \<Rightarrow> nat \<Rightarrow> frag_context \<Rightarrow> frag_context" where
  "grown f fin c = c\<lparr>cx_end := (if fr_more f then cx_end c else Some fin),
     cx_parts := bt_insert (fr_offset f) (fr_payload f) (cx_parts c)\<rparr>"

definition charge :: "fragment \<Rightarrow> reassembler \<Rightarrow> nat" where
  "charge f m = length (fr_payload f) + 128 + (if bt_contains m (fr_key f) then 0 else 128 + length (fr_header f))"

lemma reasm_store_eq:
  "reasm_store now f fin m =
     (let c = grown f fin (slot now f m) in
      if \<not> bt_contains m (fr_key f) \<and> 64 \<le> bt_len m \<or> 4194304 < retained_bytes m + charge f m then (Err WouldBlock, m)
      else if contiguous 0 (entries (cx_parts c)) \<noteq> None \<and> cx_end c = contiguous 0 (entries (cx_parts c)) then
        (map_ok (\<lambda>packet. Some \<lparr>dg_packet = packet, dg_fragment_id = Some (snd (snd (snd (snd (fr_key f)))))\<rparr>)
           (complete (cx_header c) (List.concat (bt_values (cx_parts c)))), bt_remove (fr_key f) m)
      else (Ok None, bt_insert (fr_key f) c m))"
  by (cases "bt_get m (fr_key f)"; cases "fr_more f")
    (auto simp: reasm_store_def slot_def grown_def charge_def retained_bytes_def Let_def bt.del_ins bt_contains_def
      split: option.splits)

lemma slot_ok:
  assumes "reasm_inv m" and "fragment_wf f"
  shows "context_ok (slot now f m)"
  using assms by (cases "bt_get m (fr_key f)")
    (auto simp: slot_def reasm_inv_def context_ok_def fragment_wf_def parts_disjoint_def)

lemma grown_ok:
  assumes ok: "context_ok c" and fin: "frag_end f = Ok fin" and wf: "fragment_wf f" and nc: "\<not> conflict c f fin"
  shows "context_ok (grown f fin c)" and "bt_get (cx_parts c) (fr_offset f) = None"
    and "context_bytes (grown f fin c) = context_bytes c + length (fr_payload f) + 128"
proof -
  have f: "fin = fr_offset f + length (fr_payload f)" "fr_payload f \<noteq> []" "fin + overhead (fr_header f) \<le> 65535"
    using ensuresD [OF frag_end_ensures [OF wf] fin] by auto
  have hdr: "cx_header c = fr_header f" using nc by (simp add: conflict_def)
  have apart: "a + length x \<le> fr_offset f \<or> fin \<le> a" if "bt_get (cx_parts c) a = Some x" for a x
    using nc that by (force simp: conflict_def list_ex_iff entries_get [symmetric])
  have inside: "a + length x \<le> fin" if "bt_get (cx_parts c) a = Some x" "\<not> fr_more f" for a x
    using nc that by (force simp: conflict_def list_ex_iff entries_get [symmetric])
  have upto: "fin \<le> e" if "cx_end c = Some e" for e
    using nc that by (auto simp: conflict_def)
  show none: "bt_get (cx_parts c) (fr_offset f) = None"
  proof (rule ccontr)
    assume "bt_get (cx_parts c) (fr_offset f) \<noteq> None"
    then obtain x where x: "bt_get (cx_parts c) (fr_offset f) = Some x" by blast
    then have "x \<noteq> []" using ok by (auto simp: context_ok_def)
    then show False using apart [OF x] f by (cases "fr_payload f"; cases x) auto
  qed
  have disj: "parts_disjoint (bt_insert (fr_offset f) (fr_payload f) (cx_parts c))"
    unfolding parts_disjoint_def
  proof (intro allI impI)
    fix a x b y
    assume h: "bt_get (bt_insert (fr_offset f) (fr_payload f) (cx_parts c)) a = Some x
      \<and> bt_get (bt_insert (fr_offset f) (fr_payload f) (cx_parts c)) b = Some y \<and> a < b"
    show "a + length x \<le> b"
    proof (cases "a = fr_offset f")
      case True
      then have "bt_get (cx_parts c) b = Some y" "x = fr_payload f" using h by auto
      then show ?thesis using apart [of b y] True f h by auto
    next
      case False
      then have a: "bt_get (cx_parts c) a = Some x" using h by auto
      show ?thesis
      proof (cases "b = fr_offset f")
        case True
        then show ?thesis using apart [OF a] f h by auto
      next
        case False
        then show ?thesis using a h ok by (auto simp: context_ok_def parts_disjoint_def)
      qed
    qed
  qed
  show "context_ok (grown f fin c)"
    using ok disj f hdr inside upto
    by (auto simp: context_ok_def grown_def split: if_splits)
  show "context_bytes (grown f fin c) = context_bytes c + length (fr_payload f) + 128"
    by (simp add: context_bytes_def grown_def bt.total_ins_fresh [OF none])
qed

lemma reasm_store_ok:
  assumes inv: "reasm_inv m" and wf: "fragment_wf f" and fin: "frag_end f = Ok fin"
    and nc: "\<And>c. bt_get m (fr_key f) = Some c \<Longrightarrow> \<not> conflict c f fin"
  shows "reasm_inv (snd (reasm_store now f fin m))"
    and "fst (reasm_store now f fin m) \<in> {Err WouldBlock} \<union> range Ok"
proof -
  let ?s = "slot now f m" and ?c = "grown f fin (slot now f m)"
  have nc': "\<not> conflict ?s f fin"
    using nc by (cases "bt_get m (fr_key f)") (auto simp: slot_def conflict_def bt_empty.rep_eq)
  note g = grown_ok [OF slot_ok [OF inv wf] fin wf nc']
  have bytes: "retained_bytes (bt_insert (fr_key f) ?c m) = retained_bytes m + charge f m"
  proof (cases "bt_get m (fr_key f)")
    case None
    then have "context_bytes ?s = 128 + length (fr_header f)" by (simp add: slot_def context_bytes_def)
    moreover have "\<not> bt_contains m (fr_key f)" using None by (simp add: bt_contains_def)
    ultimately show ?thesis using g(3) by (simp add: retained_bytes_def charge_def bt.total_ins_fresh [OF None])
  next
    case (Some c)
    then have "context_bytes c \<le> bt_sum (\<lambda>_. context_bytes) m" by (rule bt.total_ge)
    then show ?thesis using Some g(3) bt_get_Some_contains [OF Some]
      by (simp add: retained_bytes_def charge_def bt.total_ins_present slot_def)
  qed
  have del: "reasm_inv (bt_remove (fr_key f) m)"
    using inv by (auto simp: reasm_inv_def retained_bytes_def bt.total_del bt_len_remove)
  have ins: "reasm_inv (bt_insert (fr_key f) ?c m)"
    if "\<not> (\<not> bt_contains m (fr_key f) \<and> 64 \<le> bt_len m \<or> 4194304 < retained_bytes m + charge f m)"
    using that inv g(1) bytes by (auto simp: reasm_inv_def bt_len_insert)
  have done1: "is_ok (complete (cx_header ?c) (List.concat (bt_values (cx_parts ?c))))"
    if "contiguous 0 (entries (cx_parts ?c)) = Some n" "cx_end ?c = Some n" for n
  proof (rule complete_ensures(2))
    show "header_ok (cx_header ?c)" using g(1) by (simp add: context_ok_def)
    have "n + overhead (cx_header ?c) \<le> 65535" using g(1) that(2) by (simp add: context_ok_def)
    then show "overhead (cx_header ?c) + length (List.concat (bt_values (cx_parts ?c))) \<le> 65535"
      using contiguous_sum [OF that(1)] by (simp add: length_concat_values)
  qed
  show "reasm_inv (snd (reasm_store now f fin m))"
    using inv del ins by (auto simp: reasm_store_eq Let_def)
  show "fst (reasm_store now f fin m) \<in> {Err WouldBlock} \<union> range Ok"
  proof (cases "contiguous 0 (entries (cx_parts ?c)) \<noteq> None \<and> cx_end ?c = contiguous 0 (entries (cx_parts ?c))")
    case True
    then obtain x where "complete (cx_header ?c) (List.concat (bt_values (cx_parts ?c))) = Ok x"
      using done1 by (cases "complete (cx_header ?c) (List.concat (bt_values (cx_parts ?c)))") auto
    then show ?thesis by (simp add: reasm_store_eq Let_def)
  next
    case False
    then show ?thesis by (auto simp: reasm_store_eq Let_def)
  qed
qed

lemma reasm_inv_expire: "reasm_inv m \<Longrightarrow> reasm_inv (reasm_expire now m)"
  using bt_len_retain_le [of "\<lambda>_ c. now < cx_deadline c" m] bt_sum_retain_le [of "\<lambda>_. context_bytes" "\<lambda>_ c. now < cx_deadline c" m]
  by (auto simp: reasm_inv_def reasm_expire_def retained_bytes_def split: option.splits if_splits)

lemma reasm_inv_remove: "reasm_inv m \<Longrightarrow> reasm_inv (bt_remove k m)"
  by (auto simp: reasm_inv_def retained_bytes_def bt.total_del bt_len_remove)

lemma input_scoped_ok:
  assumes inv: "reasm_inv m"
  shows "reasm_inv (snd (input_scoped b now scope m)) \<and> fst (input_scoped b now scope m) \<noteq> Panic"
proof -
  let ?m = "reasm_expire now m"
  have inv': "reasm_inv ?m" by (rule reasm_inv_expire [OF inv])
  show ?thesis
  proof (cases "\<exists>f. frag_parse b = Ok (Some f)")
    case False
    then show ?thesis using inv' frag_parse_ensures [of b]
      by (cases "frag_parse b") (auto simp: input_scoped_def Let_def split: option.splits)
  next
    case True
    then obtain f0 where p: "frag_parse b = Ok (Some f0)" by blast
    define f where "f = f0\<lparr>fr_key := (scope, snd (fr_key f0))\<rparr>"
    have wf: "fragment_wf f" using ensuresD [OF frag_parse_ensures p] by (simp add: fragment_wf_def f_def)
    note run = input_scoped_def [of b now scope m, unfolded Let_def p outcome.case option.case, folded f_def]
    show ?thesis
    proof (cases "fr_offset f = 0 \<and> \<not> fr_more f")
      case True
      have "complete (fr_header f) (fr_payload f) \<noteq> Panic"
        using complete_ensures(1) [of "fr_header f" "fr_payload f"] wf by (auto simp: fragment_wf_def)
      then show ?thesis using True inv' by (simp add: run)
    next
      case many: False
      show ?thesis
      proof (cases "frag_end f")
        case (Ok fin)
        show ?thesis
        proof (cases "\<exists>c. bt_get ?m (fr_key f) = Some c \<and> conflict c f fin")
          case True
          then show ?thesis using many Ok reasm_inv_remove [OF inv', of "fr_key f"] unfolding run by auto
        next
          case False
          then have nc: "\<And>c. bt_get ?m (fr_key f) = Some c \<Longrightarrow> \<not> conflict c f fin" by blast
          have "input_scoped b now scope m = reasm_store now f fin ?m"
            using many Ok nc unfolding run by (auto split: option.splits)
          then show ?thesis using reasm_store_ok [OF inv' wf Ok nc, of now] by auto
        qed
      qed (use frag_end_ensures [OF wf] many inv' in \<open>auto simp: run\<close>)
    qed
  qed
qed

section \<open>Calls\<close>

inductive reasm_call :: "reassembler \<Rightarrow> reassembler \<Rightarrow> bool" where
  "reasm_call m (snd (input_scoped b now scope m))"
| "reasm_call m (reasm_expire now m)"

interpretation reasm: call_invariant "\<lambda>m. m = bt_empty" reasm_call reasm_inv
proof unfold_locales
  show "reasm_inv m" if "m = bt_empty" for m
    using that by (simp add: reasm_inv_def retained_bytes_def)
  show "reasm_call m m' \<Longrightarrow> reasm_inv m \<Longrightarrow> reasm_inv m'" for m m'
    by (induction rule: reasm_call.induct) (auto simp: input_scoped_ok reasm_inv_expire)
qed

end
