(* ===== verification/Reassembly_Roundtrip.thy ===== *)
theory Reassembly_Roundtrip
  imports Reassembly "HOL-Library.Multiset"
begin

text \<open>
  Fragments of one datagram arrive in any order: the pieces of a payload as a tiling, the states in
  which a set of pieces has arrived, and the properties of the reassembler.
\<close>

section \<open>Fragments of one datagram\<close>

text \<open>The pieces of a payload with their offsets, in order.\<close>

fun number :: "nat \<Rightarrow> nat \<Rightarrow> bytes list \<Rightarrow> (nat \<times> bytes) list" where
  "number c i [] = []"
| "number c i (d # ds) = (i * c, d) # number c (i + 1) ds"

definition pieces :: "nat \<Rightarrow> bytes \<Rightarrow> (nat \<times> bytes) list" where
  "pieces c p = number c 0 (chunks c p)"

text \<open>
  What reassembly needs of the pieces of a datagram: they are consecutive and nonempty, there are at
  least two of them, and all but the last have a length divisible by eight.
\<close>

definition tiling :: "bytes \<Rightarrow> (nat \<times> bytes) list \<Rightarrow> bool" where
  "tiling p ps \<longleftrightarrow> contiguous 0 ps = Some (length p) \<and> List.concat (map snd ps) = p \<and> 2 \<le> length ps
     \<and> (\<forall>(o1, d) \<in> set ps. d \<noteq> [] \<and> (o1 + length d < length p \<longrightarrow> length d mod 8 = 0))"

lemma contiguous_append:
  "contiguous n (ps @ qs) = (case contiguous n ps of None \<Rightarrow> None | Some k \<Rightarrow> contiguous k qs)"
  by (induction n ps rule: contiguous.induct) auto

lemma contiguous_bounds:
  "contiguous n ps = Some k \<Longrightarrow> (o1, d) \<in> set ps \<Longrightarrow> n \<le> o1 \<and> o1 + length d \<le> k"
proof (induction n ps rule: contiguous.induct)
  case (2 n at b ps)
  then show ?case using contiguous_sum [of "n + length b" ps k] by (auto split: if_splits)
qed simp

lemma contiguous_sorted:
  "contiguous n ps = Some k \<Longrightarrow> \<forall>(o1, d) \<in> set ps. d \<noteq> [] \<Longrightarrow> sorted_wrt (<) (map fst ps)"
proof (induction n ps rule: contiguous.induct)
  case (2 n at b ps)
  then have at: "at = n" "contiguous (n + length b) ps = Some k" "b \<noteq> []" by (auto split: if_splits)
  have "n < o1" if "(o1, d) \<in> set ps" for o1 d using contiguous_bounds [OF at(2) that] at(3) by (cases b) auto
  then show ?case using 2 at by auto
qed simp

lemma contiguous_disjoint:
  "contiguous n ps = Some k \<Longrightarrow> (a, x) \<in> set ps \<Longrightarrow> (b, y) \<in> set ps \<Longrightarrow> a < b \<Longrightarrow> x \<noteq> [] \<Longrightarrow> y \<noteq> [] \<Longrightarrow> a + length x \<le> b"
proof (induction n ps rule: contiguous.induct)
  case (2 n at z ps)
  then have at: "at = n" "contiguous (n + length z) ps = Some k" by (auto split: if_splits)
  have later: "n + length z \<le> o1" if "(o1, d) \<in> set ps" for o1 d using contiguous_bounds [OF at(2) that] by simp
  show ?case
  proof (cases "(a, x) = (at, z)")
    case True
    then show ?thesis using "2.prems"(3,4) later [of b y] at(1) by auto
  next
    case False
    then have a: "(a, x) \<in> set ps" using "2.prems"(2) by auto
    show ?thesis
    proof (cases "(b, y) = (at, z)")
      case True
      then show ?thesis using later [OF a] "2.prems"(4) at(1) by auto
    next
      case False
      then show ?thesis using "2.IH" at a "2.prems"(3-6) by auto
    qed
  qed
qed simp

lemma tiling_facts:
  assumes "tiling p ps"
  shows "sorted_wrt (<) (map fst ps)" and "distinct (map fst ps)"
    and "(o1, d) \<in> set ps \<Longrightarrow> o1 + length d \<le> length p \<and> d \<noteq> []"
    and "(o1, d) \<in> set ps \<Longrightarrow> o1 = 0 \<Longrightarrow> length d < length p"
proof -
  have c: "contiguous 0 ps = Some (length p)" and ne: "\<forall>(o1, d) \<in> set ps. d \<noteq> []" and two: "2 \<le> length ps"
    using assms by (auto simp: tiling_def)
  show s: "sorted_wrt (<) (map fst ps)" by (rule contiguous_sorted [OF c ne])
  show "distinct (map fst ps)" using s by (simp add: strict_sorted_iff)
  show "(o1, d) \<in> set ps \<Longrightarrow> o1 + length d \<le> length p \<and> d \<noteq> []"
    using contiguous_bounds [OF c] ne by fastforce
  show "(o1, d) \<in> set ps \<Longrightarrow> o1 = 0 \<Longrightarrow> length d < length p"
  proof -
    assume m: "(o1, d) \<in> set ps" and z: "o1 = 0"
    obtain q1 q2 qs where ps: "ps = q1 # q2 # qs" using two by (cases ps; cases "tl ps") auto
    obtain a x b y where q: "q1 = (a, x)" "q2 = (b, y)" by (metis prod.exhaust)
    have "a = 0" "b = length x" using c ps q by (auto split: if_splits)
    moreover have "d = x"
      using m z s ps q \<open>a = 0\<close> by auto
    moreover have "length x + length y \<le> length p" using contiguous_bounds [OF c, of b y] ps q calculation by auto
    moreover have "y \<noteq> []" using ne ps q by auto
    ultimately show "length d < length p" by (cases y) auto
  qed
qed

lemma number_contiguous:
  "\<forall>d \<in> set (butlast ds). length d = c \<Longrightarrow> contiguous (i * c) (number c i ds) = Some (i * c + length (List.concat ds))"
proof (induction c i ds rule: number.induct)
  case (2 c i d ds)
  then show ?case by (cases ds) (auto simp: add.commute add.left_commute)
qed simp

lemma chunks_full: "0 < c \<Longrightarrow> d \<in> set (butlast (chunks c p)) \<Longrightarrow> length d = c"
proof (induction c p rule: chunks.induct)
  case (1 c p)
  show ?case
  proof (cases "p = []")
    case False
    then have ch: "chunks c p = take c p # chunks c (drop c p)" using 1 by (subst chunks.simps) simp
    show ?thesis
    proof (cases "drop c p = []")
      case True
      then show ?thesis using 1 ch by simp
    next
      case more: False
      then have "chunks c (drop c p) \<noteq> []" using 1 by (subst chunks.simps) simp
      then show ?thesis using 1 ch more False by auto
    qed
  qed (use 1 in simp)
qed

lemma snd_number: "map snd (number c i ds) = ds"
  by (induction c i ds rule: number.induct) auto

lemma length_number: "length (number c i ds) = length ds"
  by (induction c i ds rule: number.induct) auto

lemma number_mult: "(o1, d) \<in> set (number c i ds) \<Longrightarrow> o1 mod c = 0 \<and> d \<in> set ds"
  by (induction c i ds rule: number.induct) auto

lemma chunks_count: "0 < c \<Longrightarrow> p \<noteq> [] \<Longrightarrow> (length (chunks c p) - 1) * c < length p"
proof (induction c p rule: chunks.induct)
  case (1 c p)
  then have ch: "chunks c p = take c p # chunks c (drop c p)" by (subst chunks.simps) simp
  show ?case
  proof (cases "drop c p = []")
    case True
    then show ?thesis using 1 ch by simp
  next
    case False
    then have "chunks c (drop c p) \<noteq> []" using 1 by (subst chunks.simps) simp
    then show ?thesis using 1 ch False by (cases "chunks c (drop c p)") auto
  qed
qed

lemma number_short:
  "\<forall>d \<in> set (butlast ds). length d = c \<Longrightarrow> (o1, d) \<in> set (number c i ds) \<Longrightarrow>
     length d = c \<or> o1 + length d = i * c + length (List.concat ds)"
proof (induction c i ds rule: number.induct)
  case (2 c i d' ds)
  then show ?case by (cases ds) (auto simp: add.commute add.left_commute)
qed simp

lemma pieces_tiling:
  assumes "0 < c" and "c mod 8 = 0" and "c < length p"
  shows "tiling p (pieces c p)"
proof -
  have full: "\<forall>d \<in> set (butlast (chunks c p)). length d = c" using chunks_full [OF assms(1)] by blast
  have cc: "List.concat (chunks c p) = p" by (rule concat_chunks [OF assms(1)])
  have ct: "contiguous 0 (pieces c p) = Some (length p)"
    using number_contiguous [OF full, of 0] by (simp only: pieces_def cc) simp
  have "chunks c p = take c p # take c (drop c p) # chunks c (drop c (drop c p))"
    using assms chunks.simps [of c p] chunks.simps [of c "drop c p"] by auto
  then have two: "2 \<le> length (pieces c p)" by (simp add: pieces_def length_number)
  have "d \<noteq> [] \<and> (o1 + length d < length p \<longrightarrow> length d mod 8 = 0)" if "(o1, d) \<in> set (pieces c p)" for o1 d
    using number_short [OF full, of o1 d 0] number_mult [of o1 d c 0 "chunks c p"] chunks_le [of d c p] that assms(2)
    unfolding pieces_def cc by auto
  then show ?thesis using ct two cc by (auto simp: tiling_def pieces_def snd_number)
qed

section \<open>Reassembly in any order\<close>

text \<open>The fragment that carries a piece, and the context that holds a set of pieces.\<close>

definition frag_of :: "rkey \<Rightarrow> bytes \<Rightarrow> bytes \<Rightarrow> nat \<times> bytes \<Rightarrow> fragment" where
  "frag_of key h p q = \<lparr>fr_key = key, fr_header = h, fr_offset = fst q, fr_more = (fst q + length (snd q) < length p),
     fr_payload = snd q\<rparr>"

definition holds_pieces :: "bytes \<Rightarrow> bytes \<Rightarrow> u64 \<Rightarrow> (nat \<times> bytes) set \<Rightarrow> frag_context \<Rightarrow> bool" where
  "holds_pieces h p now S c \<longleftrightarrow> cx_header c = h \<and> cx_deadline c = saturating_add now 60000
     \<and> (\<forall>o1 d. bt_get (cx_parts c) o1 = Some d \<longleftrightarrow> (o1, d) \<in> S)
     \<and> cx_end c = (if \<exists>(o1, d) \<in> S. o1 + length d = length p then Some (length p) else None)"

lemma sum_list_map_set: "distinct xs \<Longrightarrow> sum_list (map f xs) = sum f (set xs)" for f :: "'a \<Rightarrow> nat"
  by (rule sum_list_distinct_conv_sum_set)

text \<open>Incomplete pieces are never taken for the whole datagram.\<close>

lemma partial_incomplete:
  assumes t: "tiling p ps" and S: "S \<subset> set ps" and c: "holds_pieces h p now S c"
  shows "contiguous 0 (entries (cx_parts c)) = None \<or> cx_end c \<noteq> contiguous 0 (entries (cx_parts c))"
proof (rule ccontr)
  assume "\<not> ?thesis"
  then obtain n where n: "contiguous 0 (entries (cx_parts c)) = Some n" "cx_end c = Some n" by auto
  then have "n = length p" using c by (auto simp: holds_pieces_def split: if_splits)
  have dist: "distinct (entries (cx_parts c))" "distinct ps"
    using entries_distinct [of "cx_parts c"] tiling_facts(2) [OF t] by (auto simp: distinct_map)
  have "set (entries (cx_parts c)) = S"
    using c entries_get [of _ _ "cx_parts c"] by (auto simp: holds_pieces_def)
  then have "length p = (\<Sum>q\<in>S. length (snd q))"
    using contiguous_sum [OF n(1)] \<open>n = length p\<close> sum_list_map_set [OF dist(1), of "\<lambda>q. length (snd q)"] by simp
  also have "\<dots> < (\<Sum>q\<in>set ps. length (snd q))"
  proof -
    from S obtain q where q: "q \<in> set ps" "q \<notin> S" by blast
    then have "0 < length (snd q)" using tiling_facts(3) [OF t, of "fst q" "snd q"] by simp
    moreover have "(\<Sum>q\<in>insert q S. length (snd q)) \<le> (\<Sum>q\<in>set ps. length (snd q))"
      using S q by (intro sum_mono2) auto
    moreover have "finite S" using S finite_subset by blast
    ultimately show ?thesis using q(2) by (cases "snd q") auto
  qed
  also have "\<dots> = length (List.concat (map snd ps))"
    by (simp add: length_concat comp_def sum_list_map_set [OF dist(2), symmetric])
  finally show False using t by (simp add: tiling_def)
qed

lemma full_complete:
  assumes t: "tiling p ps" and c: "holds_pieces h p now (set ps) c"
  shows "contiguous 0 (entries (cx_parts c)) = Some (length p)" and "cx_end c = Some (length p)"
    and "List.concat (bt_values (cx_parts c)) = p"
proof -
  have "map_of (entries (cx_parts c)) = map_of ps"
  proof (rule ext)
    fix k
    have "map_of (entries (cx_parts c)) k = Some d \<longleftrightarrow> map_of ps k = Some d" for d
      using c tiling_facts(2) [OF t] by (simp add: holds_pieces_def bt_get_def)
    then show "map_of (entries (cx_parts c)) k = map_of ps k" by (metis not_Some_eq)
  qed
  then have e: "entries (cx_parts c) = ps"
    using sorted_keys_unique [OF entries_sorted tiling_facts(1) [OF t]] by blast
  then show "contiguous 0 (entries (cx_parts c)) = Some (length p)" using t by (simp add: tiling_def)
  show "List.concat (bt_values (cx_parts c)) = p" using t e by (simp add: bt_values_def tiling_def)
  obtain qs q where qs: "ps = qs @ [q]" using t by (cases ps rule: rev_cases) (auto simp: tiling_def)
  then have "fst q + length (snd q) = length p"
    using t by (cases q) (auto simp: tiling_def contiguous_append split: option.splits if_splits)
  then show "cx_end c = Some (length p)" using c qs by (force simp: holds_pieces_def)
qed

text \<open>
  A datagram in transit: its pieces, the header and key its fragments share, and a reassembler
  \<open>m0\<close> with room for it that holds nothing of it yet. \<open>in_progress\<close> are the states in which a
  set of its pieces has arrived.
\<close>

definition transit :: "rkey \<Rightarrow> bytes \<Rightarrow> bytes \<Rightarrow> (nat \<times> bytes) list \<Rightarrow> u64 \<Rightarrow> reassembler \<Rightarrow> bool" where
  "transit key h p ps now m0 \<longleftrightarrow> tiling p ps \<and> header_ok h \<and> overhead h + length p \<le> 65535
     \<and> bt_get m0 key = None \<and> bt_len m0 < 64 \<and> reasm_expire now m0 = m0 \<and> now \<noteq> - 1
     \<and> retained_bytes m0 + 128 + length h + length p + 128 * length ps \<le> 4194304"

definition in_progress :: "rkey \<Rightarrow> bytes \<Rightarrow> bytes \<Rightarrow> u64 \<Rightarrow> reassembler \<Rightarrow> (nat \<times> bytes) set \<Rightarrow> reassembler \<Rightarrow> bool" where
  "in_progress key h p now m0 S m \<longleftrightarrow>
     (if S = {} then m = m0 else \<exists>c. m = bt_insert key c m0 \<and> holds_pieces h p now S c)"

lemma held_bytes:
  assumes t: "tiling p ps" and S: "S \<subseteq> set ps" and c: "holds_pieces h p now S c"
  shows "context_bytes c \<le> 128 + length h + length p + 128 * length ps" 
    and "q \<in> set ps \<Longrightarrow> q \<notin> S \<Longrightarrow> context_bytes c + length (snd q) + 128 \<le> 128 + length h + length p + 128 * length ps"
proof -
  have dist: "distinct (entries (cx_parts c))" "distinct ps"
    using entries_distinct [of "cx_parts c"] tiling_facts(2) [OF t] by (auto simp: distinct_map)
  have ent: "set (entries (cx_parts c)) = S"
    using c entries_get [of _ _ "cx_parts c"] by (auto simp: holds_pieces_def)
  have fin: "finite S" using S finite_subset by blast
  let ?f = "\<lambda>q :: nat \<times> bytes. length (snd q) + 128"
  have cb: "context_bytes c = 128 + length h + sum ?f S"
    using c sum_list_map_set [OF dist(1), of ?f] ent
    by (simp add: context_bytes_def bt_sum_def holds_pieces_def case_prod_beta)
  have all: "sum ?f (set ps) = length p + 128 * length ps"
  proof -
    have "sum ?f (set ps) = sum_list (map ?f ps)" by (rule sum_list_map_set [OF dist(2), symmetric])
    also have "\<dots> = length (List.concat (map snd ps)) + 128 * length ps"
      by (induction ps) auto
    finally show ?thesis using t by (simp add: tiling_def)
  qed
  show "context_bytes c \<le> 128 + length h + length p + 128 * length ps"
    using sum_mono2 [OF _ S, of ?f] cb all by simp
  show "context_bytes c + length (snd q) + 128 \<le> 128 + length h + length p + 128 * length ps" if "q \<in> set ps" "q \<notin> S"
  proof -
    have "sum ?f (insert q S) \<le> sum ?f (set ps)" using S that by (intro sum_mono2) auto
    then show ?thesis using cb all fin that(2) by simp
  qed
qed

lemma piece_end:
  assumes "transit key h p ps now m0" and "q \<in> set ps"
  shows "frag_end (frag_of key h p q) = Ok (fst q + length (snd q))"
proof -
  have "fst q + length (snd q) \<le> length p" "snd q \<noteq> []"
    "fst q + length (snd q) < length p \<longrightarrow> length (snd q) mod 8 = 0"
    using assms tiling_facts(3) [of p ps "fst q" "snd q"] by (auto simp: transit_def tiling_def)
  moreover have "h \<noteq> []" using assms by (auto simp: transit_def header_ok_def split: if_splits)
  ultimately show ?thesis using assms(1)
    by (auto simp: frag_end_def frag_of_def transit_def header_ok_def overhead_def v6_header_def Let_def idx_def
        sub_chk_def split: if_splits)
qed

lemma piece_no_conflict:
  assumes t: "tiling p ps" and S: "S \<subseteq> set ps" and q: "q \<in> set ps" "q \<notin> S" and c: "holds_pieces h p now S c"
  shows "\<not> conflict c (frag_of key h p q) (fst q + length (snd q))"
proof -
  have ct: "contiguous 0 ps = Some (length p)" using t by (simp add: tiling_def)
  have apart: "a + length x \<le> fst q \<or> fst q + length (snd q) \<le> a" if "(a, x) \<in> S" for a x
  proof -
    have m: "(a, x) \<in> set ps" "(fst q, snd q) \<in> set ps" using that S q(1) by auto
    have ne: "x \<noteq> []" "snd q \<noteq> []" using tiling_facts(3) [OF t m(1)] tiling_facts(3) [OF t m(2)] by auto
    have "a \<noteq> fst q" using tiling_facts(2) [OF t] m that q(2) by (metis eq_key_imp_eq_value prod.collapse)
    then show ?thesis using contiguous_disjoint [OF ct m _ ne] contiguous_disjoint [OF ct m(2,1) _ ne(2,1)] by linarith
  qed
  have le: "a + length x \<le> length p" if "(a, x) \<in> S" for a x
    using that S tiling_facts(3) [OF t] by blast
  have leq: "fst q + length (snd q) \<le> length p" using tiling_facts(3) [OF t, of "fst q" "snd q"] q(1) by simp
  have ent: "(a, x) \<in> set (entries (cx_parts c)) \<longleftrightarrow> (a, x) \<in> S" for a x
    using c by (simp add: holds_pieces_def entries_get)
  have "\<not> list_ex (\<lambda>(at, b). fst q < at + length b \<and> at < fst q + length (snd q)) (entries (cx_parts c))"
    using apart ent by (fastforce simp: list_ex_iff)
  moreover have "\<not> list_ex (\<lambda>(at, b). fst q + length (snd q) < at + length b) (entries (cx_parts c))"
    if "\<not> fst q + length (snd q) < length p"
    using le ent that by (fastforce simp: list_ex_iff)
  ultimately show ?thesis using c leq
    by (auto simp: conflict_def frag_of_def holds_pieces_def split: if_splits option.splits)
qed

lemma grown_pieces:
  assumes t: "tiling p ps" and q: "q \<in> set ps" "q \<notin> S" and S: "S \<subseteq> set ps"
    and c: "holds_pieces h p now S c"
  shows "holds_pieces h p now (insert q S) (grown (frag_of key h p q) (fst q + length (snd q)) c)"
proof -
  have le: "fst q + length (snd q) \<le> length p" using tiling_facts(3) [OF t, of "fst q" "snd q"] q(1) by simp
  have keys: "d = snd q" if "(fst q, d) \<in> insert q S" for d
  proof -
    have "(fst q, d) \<in> set ps" "(fst q, snd q) \<in> set ps" using that q(1) S by auto
    then show ?thesis using eq_key_imp_eq_value [OF tiling_facts(2) [OF t]] by blast
  qed
  have "(o1, d) \<in> insert q S \<longleftrightarrow> (if o1 = fst q then d = snd q else (o1, d) \<in> S)" for o1 d
    using keys by (cases q) auto
  then show ?thesis using c le
    by (auto simp: holds_pieces_def grown_def frag_of_def not_less split: if_splits)
qed

lemma saturating_later: "now \<noteq> - 1 \<Longrightarrow> now < saturating_add now 60000" for now :: u64
proof -
  assume "now \<noteq> - 1"
  then have "now < - 1" using word_order.extremum [of now] by (simp only: order.strict_iff_order) simp
  moreover have "now < now + 60000" if "unat now + 60000 < 2 ^ 64"
    using that by (simp add: word_less_nat_alt unat_word_ariths)
  ultimately show ?thesis by (simp add: saturating_add_def)
qed

text \<open>One more piece arrives: the datagram is delivered exactly when it was the last one missing.\<close>

lemma piece_step:
  assumes tr: "transit key h p ps now m0" and S: "S \<subseteq> set ps" and q: "q \<in> set ps" "q \<notin> S"
    and prog: "in_progress key h p now m0 S m"
    and parse: "frag_parse b = Ok (Some f0)" "f0\<lparr>fr_key := (scope, snd (fr_key f0))\<rparr> = frag_of key h p q"
  shows "if insert q S = set ps
    then input_scoped b now scope m = (map_ok (\<lambda>x. Some \<lparr>dg_packet = x, dg_fragment_id = Some (snd (snd (snd (snd key))))\<rparr>) (complete h p), m0)
    else \<exists>m'. input_scoped b now scope m = (Ok None, m') \<and> in_progress key h p now m0 (insert q S) m'"
proof -
  let ?f = "frag_of key h p q" and ?fin = "fst q + length (snd q)"
  have t: "tiling p ps" and m0: "bt_get m0 key = None" "bt_len m0 < 64" "reasm_expire now m0 = m0" "now \<noteq> - 1"
    and cap: "retained_bytes m0 + 128 + length h + length p + 128 * length ps \<le> 4194304"
    using tr by (auto simp: transit_def)
  have nc0: "\<not> bt_contains m0 key" using m0(1) by (simp add: bt_contains_def)
  have key: "fr_key ?f = key" by (simp add: frag_of_def)
  obtain c where c: "slot now ?f m = c" and hp: "holds_pieces h p now S c"
    and m: "m = (if S = {} then m0 else bt_insert key c m0)"
    using prog m0(1) by (auto simp: in_progress_def slot_def key holds_pieces_def frag_of_def split: if_splits)
  have live: "reasm_expire now m = m"
  proof (rule bt_ext, rule ext)
    fix k
    have "bt_get (reasm_expire now m0) k = bt_get m0 k" using m0(3) by simp
    then show "bt_get (reasm_expire now m) k = bt_get m k"
      using hp saturating_later [OF m0(4)] unfolding m
      by (cases "S = {}"; cases "bt_get m0 k") (auto simp: reasm_expire_def holds_pieces_def split: if_splits)
  qed
  have first: "\<not> (fr_offset ?f = 0 \<and> \<not> fr_more ?f)"
    using tiling_facts(4) [OF t, of "fst q" "snd q"] q(1) by (cases q; cases "fst q = 0") (auto simp: frag_of_def)
  have "\<not> conflict x ?f ?fin" if "bt_get m key = Some x" for x
    using piece_no_conflict [OF t S q hp, of key] that m0(1) unfolding m by (auto split: if_splits)
  then have run: "input_scoped b now scope m = reasm_store now ?f ?fin m"
    unfolding input_scoped_def Let_def live parse outcome.case option.case piece_end [OF tr q(1)] key
    using first by (auto split: option.splits)
  have fits: "\<not> (\<not> bt_contains m (fr_key ?f) \<and> 64 \<le> bt_len m \<or> 4194304 < retained_bytes m + charge ?f m)"
  proof (cases "S = {}")
    case True
    have "length (snd q) \<le> length p" "0 < length ps" using tiling_facts(3) [OF t, of "fst q" "snd q"] q(1) by auto
    then show ?thesis using True m m0(2) cap nc0 by (cases ps) (auto simp: charge_def key frag_of_def)
  next
    case False
    then have "retained_bytes m = retained_bytes m0 + context_bytes c"
      using m m0(1) by (simp add: retained_bytes_def bt.total_ins_fresh)
    moreover have "bt_contains m key" using False m by simp
    ultimately show ?thesis
      using held_bytes(2) [OF t S hp q] cap by (simp add: charge_def key frag_of_def)
  qed
  have rem: "bt_remove key m = m0"
    using m m0(1) by (simp add: bt.del_fresh bt.del_ins)
  have ins: "bt_insert key x m = bt_insert key x m0" for x
    using m by (auto intro!: bt_ext simp: fun_eq_iff)
  note g = grown_pieces [OF t q S hp, of key]
  show ?thesis
  proof (cases "insert q S = set ps")
    case True
    note full = full_complete [OF t g [unfolded True]]
    have "cx_header (grown ?f ?fin c) = h" using g by (simp add: holds_pieces_def)
    then show ?thesis using True full fits rem by (auto simp: run reasm_store_eq Let_def key c)
  next
    case False
    then have "insert q S \<subset> set ps" using S q(1) by blast
    from partial_incomplete [OF t this g] have "input_scoped b now scope m = (Ok None, bt_insert key (grown ?f ?fin c) m0)"
      using fits by (auto simp: run reasm_store_eq Let_def key c ins)
    then show ?thesis using False g by (auto simp: in_progress_def)
  qed
qed

text \<open>A sequence of packets handed to the reassembler at one time.\<close>

fun feed :: "u64 \<Rightarrow> u8 \<Rightarrow> bytes list \<Rightarrow> reassembler \<Rightarrow> (io_error, datagram option) outcome list \<times> reassembler" where
  "feed now scope [] m = ([], m)"
| "feed now scope (b # bs) m =
     (case input_scoped b now scope m of (r, m) \<Rightarrow> case feed now scope bs m of (rs, m) \<Rightarrow> (r # rs, m))"

lemma feed_pieces:
  assumes tr: "transit key h p ps now m0"
    and parse: "\<And>q. q \<in> set ps \<Longrightarrow> \<exists>f0. frag_parse (pkt q) = Ok (Some f0) \<and> f0\<lparr>fr_key := (scope, snd (fr_key f0))\<rparr> = frag_of key h p q"
  shows "qs \<noteq> [] \<Longrightarrow> distinct qs \<Longrightarrow> set qs \<inter> S = {} \<Longrightarrow> S \<union> set qs = set ps \<Longrightarrow> in_progress key h p now m0 S m \<Longrightarrow>
    feed now scope (map pkt qs) m = (replicate (length qs - 1) (Ok None)
      @ [map_ok (\<lambda>x. Some \<lparr>dg_packet = x, dg_fragment_id = Some (snd (snd (snd (snd key))))\<rparr>) (complete h p)], m0)"
proof (induction qs arbitrary: S m)
  case (Cons q qs)
  have q: "q \<in> set ps" "q \<notin> S" and S: "S \<subseteq> set ps" using Cons.prems by auto
  obtain f0 where f0: "frag_parse (pkt q) = Ok (Some f0)" "f0\<lparr>fr_key := (scope, snd (fr_key f0))\<rparr> = frag_of key h p q"
    using parse [OF q(1)] by blast
  note step = piece_step [OF tr S q Cons.prems(5) f0]
  show ?case
  proof (cases "qs = []")
    case True
    then have "insert q S = set ps" using Cons.prems by auto
    then show ?thesis using step True by simp
  next
    case False
    then have "insert q S \<noteq> set ps" using Cons.prems by (cases qs) auto
    then obtain m' where m': "input_scoped (pkt q) now scope m = (Ok None, m')" "in_progress key h p now m0 (insert q S) m'"
      using step by auto
    have "feed now scope (map pkt qs) m' = (replicate (length qs - 1) (Ok None)
      @ [map_ok (\<lambda>x. Some \<lparr>dg_packet = x, dg_fragment_id = Some (snd (snd (snd (snd key))))\<rparr>) (complete h p)], m0)"
      using Cons.prems by (intro Cons.IH [OF False _ _ _ m'(2)]) auto
    then show ?thesis using m'(1) False by (cases qs) auto
  qed
qed simp

lemma permuted_map: "mset ys = mset (map f xs) \<Longrightarrow> \<exists>zs. mset zs = mset xs \<and> ys = map f zs"
proof (induction ys arbitrary: xs)
  case (Cons y ys)
  then have "y \<in> set (map f xs)" by (metis list.set_intros(1) set_mset_mset)
  then obtain x where x: "x \<in> set xs" "y = f x" by auto
  then have "mset ys = mset (map f (remove1 x xs))"
    using Cons.prems by (simp add: image_mset_Diff) (metis add_mset_remove_trivial)
  then obtain zs where "mset zs = mset (remove1 x xs)" "ys = map f zs" using Cons.IH by blast
  then show ?case using x by (intro exI [of _ "x # zs"]) simp
qed simp

section \<open>IPv6 fragments\<close>

definition pkt6 :: "bytes \<Rightarrow> u32 \<Rightarrow> bytes \<Rightarrow> nat \<times> bytes \<Rightarrow> bytes" where
  "pkt6 b ident p q = put (put (take 40 b) 6 [44]) 4 (to_be 2 (of_nat (length (snd q) + 8) :: u16))
     @ [b ! 6, 0] @ to_be 2 ((of_nat (fst q) :: u16) OR of_bool (fst q + length (snd q) < length p)) @ to_be 4 ident @ snd q"

lemma fragment_loop6:
  "40 \<le> length b \<Longrightarrow> fragment_loop b 40 ident c (length p) i ds = Ok (map (pkt6 b ident p) (number c i ds))"
proof (induction ds arbitrary: i)
  case (Cons d ds)
  then show ?case by (simp add: fragment_one_def pkt6_def Let_def)
qed simp

text \<open>The fields of an IPv6 header.\<close>

lemma header6_split:
  assumes "40 \<le> length b"
  obtains v x1 x2 x3 l0 l1 nx hl src dst where "b = [v, x1, x2, x3, l0, l1, nx, hl] @ src @ dst @ drop 40 b"
    and "length src = 16" and "length dst = 16"
proof -
  have "take 16 (drop 24 b) @ drop 40 b = drop 24 b" using append_take_drop_id [of 16 "drop 24 b"] by simp
  moreover have "take 16 (drop 8 b) @ drop 24 b = drop 8 b" using append_take_drop_id [of 16 "drop 8 b"] by simp
  ultimately have "b = take 8 b @ take 16 (drop 8 b) @ take 16 (drop 24 b) @ drop 40 b" by simp
  moreover have "take 8 b = [b ! 0, b ! 1, b ! 2, b ! 3, b ! 4, b ! 5, b ! 6, b ! 7]"
    using assms by (intro nth_equalityI) (auto simp: less_Suc_eq numeral_eq_Suc)
  ultimately show ?thesis using that [of "b ! 0" "b ! 1" "b ! 2" "b ! 3" "b ! 4" "b ! 5" "b ! 6" "b ! 7" "take 16 (drop 8 b)" "take 16 (drop 24 b)"] assms
    by simp
qed

definition header6 :: "bytes \<Rightarrow> bytes" where
  "header6 b = put (take 40 b) 4 [0, 0]"

lemma flags6:
  assumes "o1 mod 8 = 0" and "o1 < 65536" and w_def: "w = (of_nat o1 :: u16) OR of_bool mf"
  shows "w AND 6 = 0" and "unat (w AND 0xfff8) = o1" and "w AND 1 \<noteq> 0 \<longleftrightarrow> mf"
proof -
  obtain k where k: "o1 = 8 * k" using assms(1) by (metis mod_0_imp_dvd dvd_def)
  have o1: "(of_nat o1 :: u16) = push_bit 3 (of_nat k)" by (simp add: k push_bit_eq_mult)
  have low: "\<not> bit (of_nat o1 :: u16) n" if "n < 3" for n using that by (simp add: o1 bit_push_bit_iff)
  have b: "bit (of_bool mf :: u16) n \<longleftrightarrow> mf \<and> n = 0" for n by (cases mf) (auto simp: bit_1_iff)
  have six: "bit (6 :: u16) n \<longleftrightarrow> n = 1 \<or> n = 2" for n by (cases n; cases "n - 1"; cases "n - 2") (auto simp: bit_numeral_rec)
  have m: "bit (0xfff8 :: u16) n \<longleftrightarrow> 3 \<le> n \<and> n < 16" for n
  proof -
    have "(0xfff8 :: u16) = NOT (mask 3)" by (simp add: mask_eq_exp_minus_1)
    then show ?thesis by (simp only: bit_not_iff bit_mask_iff) auto
  qed
  have "\<not> (bit w n \<and> bit (6 :: u16) n)" for n unfolding six by (auto simp: w_def bit_or_iff b low)
  then show "w AND 6 = 0" by (intro bit_word_eqI) (simp only: bit_and_iff, simp)
  have "bit w n \<and> bit (0xfff8 :: u16) n \<longleftrightarrow> bit (of_nat o1 :: u16) n" if "n < 16" for n
    unfolding m using low [of n] that by (cases "n < 3") (auto simp: w_def bit_or_iff b)
  then have "w AND 0xfff8 = of_nat o1" by (intro bit_word_eqI) (simp only: bit_and_iff, simp)
  then show "unat (w AND 0xfff8) = o1" using assms(2) by (simp add: unat_of_nat)
  show "w AND 1 \<noteq> 0 \<longleftrightarrow> mf"
  proof -
    have "w AND 1 = of_bool (bit w 0)" by (rule bit_word_eqI) (auto simp: bit_and_iff bit_1_iff intro!: gr0I)
    then show ?thesis using low [of 0] by (auto simp: w_def bit_or_iff b)
  qed
qed

lemma pkt6_parse:
  assumes len: "40 \<le> length b" and v: "drop_bit 4 (b ! 0) = 6" and nx: "b ! 6 \<notin> {0, 43, 44, 51, 60}"
    and q: "fst q mod 8 = 0" "fst q < 65536" "length (snd q) + 8 < 65536"
  shows "frag_parse (pkt6 b ident p q) = Ok (Some (frag_of (0, IpV6 (from_be (take 16 (drop 8 b))), IpV6 (from_be (take 16 (drop 24 b))), 0, ident)
    (header6 b) p q))"
proof -
  obtain v' x1 x2 x3 l0 l1 nx' hl src dst where b: "b = [v', x1, x2, x3, l0, l1, nx', hl] @ src @ dst @ drop 40 b"
    and l: "length src = 16" "length dst = 16" by (rule header6_split [OF len])
  define tail where "tail = drop 40 b"
  have b': "b = [v', x1, x2, x3, l0, l1, nx', hl] @ src @ dst @ tail" unfolding tail_def by (rule b)
  define fl where "fl = (of_nat (fst q) :: u16) OR of_bool (fst q + length (snd q) < length p)"
  define n where "n = (of_nat (length (snd q) + 8) :: u16)"
  have pk: "pkt6 b ident p q = [v', x1, x2, x3] @ to_be 2 n @ [44, hl] @ src @ dst @ [nx', 0] @ to_be 2 fl @ to_be 4 ident @ snd q"
    unfolding pkt6_def b' fl_def [symmetric] n_def [symmetric] using l by (simp add: put_def)
  have un: "unat n = length (snd q) + 8" unfolding n_def by (rule unat_of_nat_u16 [OF q(3)])
  have tb: "to_be 2 n = [ucast (drop_bit 8 n), ucast n]" "to_be 2 fl = [ucast (drop_bit 8 fl), ucast fl]"
    by (rule to_be_nth)+
  have fb: "from_be [ucast (drop_bit 8 fl), ucast fl] = fl" using from_be_to_be_u16 [of fl] by (simp only: tb)
  let ?b = "pkt6 b ident p q"
  have lb: "length ?b = 48 + length (snd q)" using l by (simp add: pk)
  have reads: "?b ! 0 = v'" "?b ! 6 = 44" "take 2 (drop 4 ?b) = to_be 2 n" "take 16 (drop 8 ?b) = src" "take 16 (drop 24 ?b) = dst"
    "?b ! 40 = nx'" "?b ! 41 = 0" "take 2 (drop 42 ?b) = to_be 2 fl" "take 4 (drop 44 ?b) = to_be 4 ident" "drop 48 ?b = snd q"
    "take 40 ?b = [v', x1, x2, x3] @ to_be 2 n @ [44, hl] @ src @ dst"
    using l by (simp_all add: pk tb nth_append)
  have b0: "b ! 0 = v'" "b ! 6 = nx'" "take 16 (drop 8 b) = src" "take 16 (drop 24 b) = dst"
    "header6 b = [v', x1, x2, x3, 0, 0, nx', hl] @ src @ dst"
    using l by (simp_all add: b' header6_def put_def)
  obtain e where e: "envelope RawIpv6 ?b = Ok e" "e_packet e = ?b" "e_source e = from_be src" "e_destination e = from_be dst"
    using lb v reads un b0 by (simp add: envelope_def Let_def idx_def u16_at_def)
  note fl = flags6 [OF q(1,2) fl_def]
  have "nx' \<noteq> 0 \<and> nx' \<noteq> 43 \<and> nx' \<noteq> 44 \<and> nx' \<noteq> 51 \<and> nx' \<noteq> 60" using nx b0 by simp
  then have "fragment_header ?b e 40 6 = Ok (Some (frag_of (0, IpV6 (from_be src), IpV6 (from_be dst), 0, ident) (header6 b) p q))"
    using lb reads fl b0 e l unfolding fragment_header_def
    by (simp add: idx_def u16_at_def u32_at_def slice_r_def put_r_def put_def frag_of_def tb fb)
  moreover have "parse_chain 16 ?b e 40 6 = fragment_header ?b e 40 6"
    using lb reads(2) by (simp add: numeral_eq_Suc idx_def)
  moreover have "frag_parse ?b = parse_v6 ?b"
    using v b0(1) by (simp add: pk frag_parse_def)
  ultimately show ?thesis using e b0 by (simp add: parse_v6_def)
qed

text \<open>The completed datagram is the packet that was split.\<close>

lemma complete6:
  assumes env: "envelope RawIpv6 b = Ok e" "e_packet e = b"
  shows "complete (header6 b) (drop 40 b) = Ok b" and "40 \<le> length b" and "drop_bit 4 (b ! 0) = 6"
    and "length b \<le> 65575" and "e_next_header e = b ! 6"
    and "e_source e = from_be (take 16 (drop 8 b))" and "e_destination e = from_be (take 16 (drop 24 b))"
proof -
  show len: "40 \<le> length b" using env(1) by (auto simp: envelope_def split: if_splits)
  let ?n = "40 + unat (from_be (take 2 (drop 4 b)) :: u16)"
  have E: "drop_bit 4 (b ! 0) = 6" "?n \<le> length b" "\<lparr>e_packet = take ?n b, e_payload = drop 40 (take ?n b),
      e_source = from_be (take 16 (drop 8 b)), e_destination = from_be (take 16 (drop 24 b)), e_next_header = b ! 6, e_hop_limit = b ! 7\<rparr> = e"
    using env(1) len by (auto simp: envelope_def Let_def idx_def u16_at_def split: if_splits)
  have b0: "drop_bit 4 (b ! 0) = 6" "e_next_header e = b ! 6" using E(1) arg_cong [OF E(3), of e_next_header] by simp_all
  have "take ?n b = b" using arg_cong [OF E(3), of e_packet] env(2) by simp
  from arg_cong [OF this, of length] have n: "unat (from_be (take 2 (drop 4 b)) :: u16) + 40 = length b" using E(2) by simp
  show "drop_bit 4 (b ! 0) = 6" "e_next_header e = b ! 6" by (fact b0)+
  show "e_source e = from_be (take 16 (drop 8 b))" "e_destination e = from_be (take 16 (drop 24 b))"
    using arg_cong [OF E(3), of e_source] arg_cong [OF E(3), of e_destination] by simp_all
  obtain v' x1 x2 x3 l0 l1 nx' hl src dst where b: "b = [v', x1, x2, x3, l0, l1, nx', hl] @ src @ dst @ drop 40 b"
    and l: "length src = 16" "length dst = 16" by (rule header6_split [OF len])
  define tail where "tail = drop 40 b"
  have b': "b = [v', x1, x2, x3, l0, l1, nx', hl] @ src @ dst @ tail" unfolding tail_def by (rule b)
  have lt: "unat (from_be [l0, l1] :: u16) = length tail" using n l unfolding b' by simp
  moreover have "unat (from_be [l0, l1] :: u16) < 2 ^ LENGTH(16)" by (rule unsigned_less)
  ultimately have small: "length tail < 65536" by simp
  have "(of_nat (length tail) :: u16) = from_be [l0, l1]" unfolding lt [symmetric] by simp
  then have "to_be 2 (of_nat (length tail) :: u16) = [l0, l1]" using to_be_from_be [of "[l0, l1]" 2] by simp
  moreover have "header6 b = [v', x1, x2, x3, 0, 0, nx', hl] @ src @ dst" "drop 40 b = tail" "b ! 0 = v'"
    using l by (simp_all add: b' header6_def put_def)
  ultimately show "complete (header6 b) (drop 40 b) = Ok b"
    using b0(1) small l by (simp add: complete_def idx_def sub_chk_def u16_try_from_def put_r_def put_def b')
  show "length b \<le> 65575" using small l by (simp add: b')
qed

lemma header6_ok:
  assumes "40 \<le> length b" and "drop_bit 4 (b ! 0) = 6"
  shows "header_ok (header6 b) \<and> overhead (header6 b) = 0 \<and> length (header6 b) = 40"
proof -
  have "length (header6 b) = 40" using assms(1) by (simp add: header6_def)
  moreover have "header6 b ! 0 = b ! 0" unfolding header6_def by (subst nth_put_0) (use assms(1) in auto)
  ultimately show ?thesis using assms(2) by (simp add: header_ok_def overhead_def v6_header_def)
qed

section \<open>Properties\<close>

text \<open>
  C30: Reassembly is bounded and never mixes overlapping data: whatever packets arrive, in every
  reachable state there are at most 64 datagrams in progress and 4 MiB retained, the fragments kept
  for one datagram are disjoint and end before its known end, and no input panics.
\<close>

theorem reassembly_bounded:
  assumes "reasm_call\<^sup>*\<^sup>* bt_empty m"
  shows "context_count m \<le> 64 \<and> retained_bytes m \<le> 4194304 \<and> fst (input_scoped b now scope m) \<noteq> Panic
    \<and> (\<forall>k c a x a' y. bt_get m k = Some c \<and> bt_get (cx_parts c) a = Some x \<and> bt_get (cx_parts c) a' = Some y \<and> a < a'
         \<longrightarrow> a + length x \<le> a' \<and> (\<forall>e. cx_end c = Some e \<longrightarrow> a' + length y \<le> e))"
proof -
  have inv: "reasm_inv m" by (rule reasm.reachable_inv [OF refl assms])
  then show ?thesis using input_scoped_ok [OF inv, of b now scope]
    by (auto simp: reasm_inv_def context_ok_def parts_disjoint_def context_count_def)
qed

theorem reassembly_bounded_witness:
  "context_count (snd (input_scoped [0x45] 5 0 bt_empty)) \<le> 64 \<and> fst (input_scoped [0x60, 1] 7 1 (snd (input_scoped [0x45] 5 0 bt_empty))) \<noteq> Panic"
proof -
  have "reasm_call\<^sup>*\<^sup>* bt_empty (snd (input_scoped [0x45] 5 0 bt_empty))" by (intro r_into_rtranclp reasm_call.intros)
  from reassembly_bounded [OF this] show ?thesis by blast
qed


definition sample6 :: bytes where
  "sample6 = [0x60, 0, 0, 0] @ to_be 2 (1300 :: u16) @ [17, 64] @ replicate 16 1 @ replicate 16 2 @ replicate 1300 0"


end
