(* ===== verification/Ipv4_Host.thy ===== *)
theory Ipv4_Host
  imports BTree_Map Ipv4_Wire
begin

text \<open>
  The IPv4 host on the adjacent link (\<open>ipv4/mod.rs\<close>): configuration, routes, next-hop lookup,
  address resolution with its queues, timers and rate limit. The hardware address is a byte string
  of length six.
\<close>

section \<open>Definitions\<close>

subsection \<open>Checked predicates over lists\<close>

text \<open>\<open>iter().any\<close> and \<open>iter().filter\<close> with a test that may panic, and \<open>iter().max_by_key\<close>.\<close>

fun any_r :: "('a \<Rightarrow> ('e, bool) outcome) \<Rightarrow> 'a list \<Rightarrow> ('e, bool) outcome" where
  "any_r p [] = Ok False"
| "any_r p (x # xs) = and_then (p x) (\<lambda>t. if t then Ok True else any_r p xs)"

fun filter_r :: "('a \<Rightarrow> ('e, bool) outcome) \<Rightarrow> 'a list \<Rightarrow> ('e, 'a list) outcome" where
  "filter_r p [] = Ok []"
| "filter_r p (x # xs) = and_then (p x) (\<lambda>t. and_then (filter_r p xs) (\<lambda>ys. Ok (if t then x # ys else ys)))"

fun max_by_key :: "('a \<Rightarrow> 'k::linorder) \<Rightarrow> 'a list \<Rightarrow> 'a option" where
  "max_by_key f [] = None"
| "max_by_key f (x # xs) = (case max_by_key f xs of None \<Rightarrow> Some x | Some y \<Rightarrow> if f x \<le> f y then Some y else Some x)"

text \<open>\<open>u32::MAX.checked_shl(n).unwrap_or(0)\<close> and \<open>checked_shr\<close>.\<close>

definition shl_mask :: "nat \<Rightarrow> u32" where
  "shl_mask n = (if n < 32 then push_bit n (- 1) else 0)"

definition shr_mask :: "nat \<Rightarrow> u32" where
  "shr_mask n = (if n < 32 then drop_bit n (- 1) else 0)"

definition same_prefix :: "ipv4 \<Rightarrow> ipv4 \<Rightarrow> u8 \<Rightarrow> (io_error, bool) outcome" where
  "same_prefix a b length1 =
     and_then (sub_chk 32 (unat length1)) (\<lambda>n. Ok (a AND shl_mask n = b AND shl_mask n))"

definition host_address :: "ipv4 \<Rightarrow> u8 \<Rightarrow> bool" where
  "host_address address length1 \<longleftrightarrow>
     31 \<le> length1 \<or> address AND shr_mask (unat length1) \<noteq> 0 \<and> address AND shr_mask (unat length1) \<noteq> shr_mask (unat length1)"

subsection \<open>State\<close>

record neighbor =
  n_mac :: "bytes option"
  n_deadline :: u64
  n_attempts :: u8
  n_queue :: "bytes list"

record route4 =
  r_network :: ipv4
  r_length :: u8
  r_gateway :: ipv4

record host4 =
  h_mac :: bytes
  h_address :: "(ipv4 \<times> u8) option"
  h_gateway :: "ipv4 option"
  h_neighbors :: "(ipv4, neighbor) btree"
  h_routes :: "route4 list"
  h_input :: "bytes list"
  h_arp_window :: u64
  h_arp_sent :: u8

definition host4_new :: "bytes \<Rightarrow> host4" where
  "host4_new mac = \<lparr>h_mac = mac, h_address = None, h_gateway = None, h_neighbors = bt_empty, h_routes = [], h_input = [],
     h_arp_window = 0, h_arp_sent = 0\<rparr>"

subsection \<open>Configuration\<close>

definition gateway_bad :: "ipv4 \<Rightarrow> u8 \<Rightarrow> ipv4 option \<Rightarrow> (io_error, bool) outcome" where
  "gateway_bad address length1 gateway = (case gateway of
      None \<Rightarrow> Ok False
    | Some g \<Rightarrow> if \<not> unicast g then Ok True else map_ok Not (same_prefix address g length1))"

definition configure4 :: "ipv4 \<Rightarrow> u8 \<Rightarrow> ipv4 option \<Rightarrow> host4 \<Rightarrow> (io_error, unit) outcome \<times> host4" where
  "configure4 address length1 gateway s =
     (if 32 < length1 \<or> \<not> unicast address \<or> \<not> host_address address length1 then (Err OtherError, s)
      else case gateway_bad address length1 gateway of
        Panic \<Rightarrow> (Panic, s)
      | Err e \<Rightarrow> (Err e, s)
      | Ok bad \<Rightarrow>
          if bad then (Err OtherError, s)
          else (Ok (), s\<lparr>h_address := Some (address, length1), h_gateway := gateway, h_neighbors := bt_empty,
                        h_routes := [], h_input := []\<rparr>))"

definition unavailable :: "host4 \<Rightarrow> host4" where
  "unavailable s = s\<lparr>h_address := None, h_gateway := None, h_neighbors := bt_empty, h_routes := [], h_input := []\<rparr>"

definition route_bad :: "ipv4 \<Rightarrow> u8 \<Rightarrow> route4 \<Rightarrow> (io_error, bool) outcome" where
  "route_bad address length1 r =
     (if 32 < r_length r \<or> (r_length r \<noteq> 0 \<and> \<not> unicast (r_network r))
         \<or> r_network r AND shr_mask (unat (r_length r)) \<noteq> 0 then Ok True
      else if unspecified4 (r_gateway r) then Ok False
      else if \<not> unicast (r_gateway r) \<or> \<not> host_address (r_gateway r) length1 then Ok True
      else map_ok Not (same_prefix address (r_gateway r) length1))"

definition set_routes :: "route4 list \<Rightarrow> host4 \<Rightarrow> (io_error, unit) outcome \<times> host4" where
  "set_routes routes s = (case h_address s of
      None \<Rightarrow> (Err OtherError, s)
    | Some (address, length1) \<Rightarrow>
        if 64 < length routes then (Err OtherError, s)
        else case any_r (route_bad address length1) routes of
          Panic \<Rightarrow> (Panic, s)
        | Err e \<Rightarrow> (Err e, s)
        | Ok bad \<Rightarrow> if bad then (Err OtherError, s) else (Ok (), s\<lparr>h_routes := routes, h_neighbors := bt_empty\<rparr>))"

definition pending_input :: "host4 \<Rightarrow> nat \<times> nat" where
  "pending_input s = (length (h_input s), sum_list (map length (h_input s)))"

definition take_packet :: "host4 \<Rightarrow> bytes option \<times> host4" where
  "take_packet s = (case h_input s of [] \<Rightarrow> (None, s) | p # ps \<Rightarrow> (Some p, s\<lparr>h_input := ps\<rparr>))"

subsection \<open>Routing\<close>

definition subnet_edge :: "ipv4 \<Rightarrow> u8 \<Rightarrow> ipv4 \<Rightarrow> (io_error, bool) outcome" where
  "subnet_edge address length1 destination =
     (if length1 < 31 then
        and_then (same_prefix address destination length1) (\<lambda>same.
          let m = shr_mask (unat length1) in Ok (same \<and> (destination AND m = m \<or> destination AND m = 0)))
      else Ok False)"

text \<open>The most specific route, unless the destination is on a subnet at least as specific.\<close>

definition chosen_route :: "ipv4 \<Rightarrow> u8 \<Rightarrow> route4 list \<Rightarrow> ipv4 \<Rightarrow> (io_error, route4 option) outcome" where
  "chosen_route address length1 routes destination =
     and_then (filter_r (\<lambda>r. same_prefix (r_network r) destination (r_length r)) routes) (\<lambda>rs.
     case max_by_key r_length rs of
       None \<Rightarrow> Ok None
     | Some r \<Rightarrow>
         if length1 < r_length r then Ok (Some r)
         else map_ok (\<lambda>same. if same then None else Some r) (same_prefix address destination length1))"

definition next_hop :: "host4 \<Rightarrow> ipv4 \<Rightarrow> (io_error, ipv4 option) outcome" where
  "next_hop s destination = (case h_address s of
      None \<Rightarrow> Ok None
    | Some (address, length1) \<Rightarrow>
        if \<not> unicast destination then Ok None
        else and_then (subnet_edge address length1 destination) (\<lambda>edge.
          if edge then Ok None
          else and_then (chosen_route address length1 (h_routes s) destination) (\<lambda>route.
            case route of
              Some r \<Rightarrow> Ok (Some (if unspecified4 (r_gateway r) then destination else r_gateway r))
            | None \<Rightarrow>
                and_then (same_prefix address destination length1) (\<lambda>same.
                  Ok (if same then Some destination else h_gateway s)))))"

subsection \<open>Address resolution\<close>

definition ethernet :: "bytes \<Rightarrow> bytes \<Rightarrow> bytes \<Rightarrow> bytes" where
  "ethernet source destination payload = destination @ source @ [8, 0] @ payload"

definition probe :: "host4 \<Rightarrow> ipv4 \<Rightarrow> (io_error, bytes) outcome" where
  "probe s destination =
     and_then (unwrap (h_address s)) (\<lambda>(address, _).
       Ok (arp_encode \<lparr>a_operation = 1, a_sender_mac = h_mac s, a_sender = address, a_target_mac = replicate 6 0,
                       a_target = destination\<rparr> (replicate 6 255)))"

definition allow_arp :: "u64 \<Rightarrow> host4 \<Rightarrow> (io_error, bool) outcome \<times> host4" where
  "allow_arp now s =
     (let s = (if saturating_add (h_arp_window s) 1000 \<le> now then s\<lparr>h_arp_window := now, h_arp_sent := 0\<rparr> else s) in
      if 32 \<le> h_arp_sent s then (Ok False, s)
      else case add_chk (h_arp_sent s) 1 of
        Ok n \<Rightarrow> (Ok True, s\<lparr>h_arp_sent := n\<rparr>) | Err e \<Rightarrow> (Err e, s) | Panic \<Rightarrow> (Panic, s))"

definition neighbor_count :: "host4 \<Rightarrow> nat" where
  "neighbor_count s = bt_len (h_neighbors s)"

definition queued :: "host4 \<Rightarrow> nat \<times> nat" where
  "queued s = (bt_sum (\<lambda>_ n. length (n_queue n)) (h_neighbors s),
     bt_sum (\<lambda>_ n. sum_list (map length (n_queue n))) (h_neighbors s))"

text \<open>The capacity check of \<open>send\<close> and the entry a packet waits in.\<close>

definition send_full :: "host4 \<Rightarrow> ipv4 \<Rightarrow> bytes \<Rightarrow> bool" where
  "send_full s nxt packet \<longleftrightarrow>
     (\<not> bt_contains (h_neighbors s) nxt \<and> 256 \<le> bt_len (h_neighbors s))
     \<or> 64 \<le> fst (queued s) \<or> 262144 < snd (queued s) + length packet
     \<or> (case bt_get (h_neighbors s) nxt of None \<Rightarrow> False | Some n \<Rightarrow> 4 \<le> length (n_queue n))"

definition unresolved :: "u64 \<Rightarrow> neighbor" where
  "unresolved deadline = \<lparr>n_mac = None, n_deadline = deadline, n_attempts = 0, n_queue = []\<rparr>"

definition enqueue :: "ipv4 \<Rightarrow> u64 \<Rightarrow> bytes \<Rightarrow> host4 \<Rightarrow> host4" where
  "enqueue nxt now b s =
     (let n = (case bt_get (h_neighbors s) nxt of Some n \<Rightarrow> n | None \<Rightarrow> unresolved (saturating_add now 1000))
      in s\<lparr>h_neighbors := bt_insert nxt (n\<lparr>n_queue := n_queue n @ [b]\<rparr>) (h_neighbors s)\<rparr>)"

text \<open>Set the attempts of an entry that must exist: \<open>get_mut(..).unwrap()\<close>.\<close>

definition first_probe :: "ipv4 \<Rightarrow> host4 \<Rightarrow> (io_error, bytes list) outcome \<times> host4" where
  "first_probe nxt s = (case bt_get (h_neighbors s) nxt of
      None \<Rightarrow> (Panic, s)
    | Some n \<Rightarrow>
        let s = s\<lparr>h_neighbors := bt_insert nxt (n\<lparr>n_attempts := 1\<rparr>) (h_neighbors s)\<rparr> in
        (map_ok (\<lambda>b. [b]) (probe s nxt), s))"

definition send4 :: "bytes \<Rightarrow> u64 \<Rightarrow> host4 \<Rightarrow> (io_error, bytes list) outcome \<times> host4" where
  "send4 packet now s =
     then_do (inspect (packet_parse packet) s) (\<lambda>p s.
     then_do (inspect (and_then (next_hop s (p_destination p)) (ok_or OtherError)) s) (\<lambda>nxt s.
     case (case bt_get (h_neighbors s) nxt of None \<Rightarrow> None | Some n \<Rightarrow> if now < n_deadline n then n_mac n else None) of
       Some mac \<Rightarrow> (Ok [ethernet (h_mac s) mac (p_bytes p)], s)
     | None \<Rightarrow>
         let s = s\<lparr>h_neighbors := bt_retain (\<lambda>_ n. n_mac n = None \<or> now < n_deadline n) (h_neighbors s)\<rparr> in
         if send_full s nxt packet then (Err WouldBlock, s)
         else
           let first = (\<not> bt_contains (h_neighbors s) nxt); s = enqueue nxt now (p_bytes p) s in
           if first then then_do (allow_arp now s) (\<lambda>allowed s. if allowed then first_probe nxt s else (Ok [], s))
           else (Ok [], s)))"

subsection \<open>Received frames\<close>

text \<open>The frames that \<open>receive\<close> drops before it looks at the protocol.\<close>

definition frame_dropped :: "bytes \<Rightarrow> bytes \<Rightarrow> (io_error, bool) outcome" where
  "frame_dropped mac frame =
     (if length frame < 14 then Ok True
      else and_then (slice_r frame 6 12) (\<lambda>source.
        if source = mac then Ok True
        else and_then (idx frame 6) (\<lambda>s0.
          if s0 AND 1 \<noteq> 0 \<or> source = replicate 6 0 then Ok True
          else and_then (idx frame 0) (\<lambda>d0.
            and_then (slice_r frame 0 6) (\<lambda>destination.
              Ok (d0 AND 1 = 0 \<and> destination \<noteq> mac))))))"

definition accept_packet :: "bytes \<Rightarrow> ipv4 \<Rightarrow> packet4 \<Rightarrow> host4 \<Rightarrow> (io_error, host4) outcome" where
  "accept_packet frame address p s =
     and_then (slice_r frame 0 6) (\<lambda>destination.
       Ok (if p_destination p = address \<and> unicast (p_source p) \<and> 0 < p_ttl p \<and> destination = h_mac s
              \<and> fst (pending_input s) < 64 \<and> snd (pending_input s) + length (p_bytes p) \<le> 262144
           then s\<lparr>h_input := h_input s @ [p_bytes p]\<rparr> else s))"

definition arp_dropped :: "host4 \<Rightarrow> ipv4 \<Rightarrow> u8 \<Rightarrow> arp \<Rightarrow> (io_error, bool) outcome" where
  "arp_dropped s address length1 a =
     (if a_sender_mac a = h_mac s \<or> a_sender a = address \<or> a_target a \<noteq> address then Ok True
      else if unspecified4 (a_sender a) then Ok False
      else map_ok Not (same_prefix address (a_sender a) length1))"

definition learns :: "host4 \<Rightarrow> arp \<Rightarrow> bool" where
  "learns s a \<longleftrightarrow>
     \<not> unspecified4 (a_sender a)
     \<and> (bt_contains (h_neighbors s) (a_sender a) \<or> a_operation a = 1)
     \<and> (bt_contains (h_neighbors s) (a_sender a) \<or> bt_len (h_neighbors s) < 256)
     \<and> (a_operation a = 1
        \<or> (case bt_get (h_neighbors s) (a_sender a) of None \<Rightarrow> False
             | Some n \<Rightarrow> n_mac n = None \<or> n_mac n = Some (a_sender_mac a)))"

text \<open>A resolved neighbour: its waiting packets leave in order.\<close>

definition learn :: "u64 \<Rightarrow> arp \<Rightarrow> host4 \<Rightarrow> bytes list \<times> host4" where
  "learn now a s =
     (let n = (case bt_get (h_neighbors s) (a_sender a) of Some n \<Rightarrow> n | None \<Rightarrow> unresolved now) in
      (map (ethernet (h_mac s) (a_sender_mac a)) (n_queue n),
       s\<lparr>h_neighbors := bt_insert (a_sender a) (n\<lparr>n_mac := Some (a_sender_mac a), n_deadline := saturating_add now 60000,
            n_attempts := 0, n_queue := []\<rparr>) (h_neighbors s)\<rparr>))"

definition arp_reply :: "host4 \<Rightarrow> ipv4 \<Rightarrow> arp \<Rightarrow> bytes" where
  "arp_reply s address a = arp_encode \<lparr>a_operation = 2, a_sender_mac = h_mac s, a_sender = address,
     a_target_mac = a_sender_mac a, a_target = a_sender a\<rparr> (a_sender_mac a)"

definition receive_arp :: "ipv4 \<Rightarrow> u8 \<Rightarrow> arp \<Rightarrow> u64 \<Rightarrow> host4 \<Rightarrow> (io_error, bytes list) outcome \<times> host4" where
  "receive_arp address length1 a now s =
     then_do (inspect (arp_dropped s address length1 a) s) (\<lambda>dropped s.
     if dropped then (Ok [], s)
     else case (if learns s a then learn now a s else ([], s)) of
       (out, s) \<Rightarrow>
         if a_operation a = 1 then
           then_do (allow_arp now s) (\<lambda>allowed s. (Ok (if allowed then out @ [arp_reply s address a] else out), s))
         else (Ok out, s))"

definition receive4 :: "bytes \<Rightarrow> u64 \<Rightarrow> host4 \<Rightarrow> (io_error, bytes list) outcome \<times> host4" where
  "receive4 frame now s = (case h_address s of
      None \<Rightarrow> (Ok [], s)
    | Some (address, length1) \<Rightarrow>
        then_do (inspect (frame_dropped (h_mac s) frame) s) (\<lambda>dropped s.
        if dropped then (Ok [], s)
        else then_do (inspect (slice_r frame 12 14) s) (\<lambda>ethertype s.
          if ethertype = [8, 0] then
            then_do (inspect (slice_from frame 14) s) (\<lambda>body s.
              case packet_parse body of
                Panic \<Rightarrow> (Panic, s)
              | Err _ \<Rightarrow> (Ok [], s)
              | Ok p \<Rightarrow> then_do (modify (accept_packet frame address p) s) (\<lambda>_ s. (Ok [], s)))
          else case arp_parse frame of
            Panic \<Rightarrow> (Panic, s)
          | Err _ \<Rightarrow> (Ok [], s)
          | Ok a \<Rightarrow> receive_arp address length1 a now s)))"

subsection \<open>Timers\<close>

definition poll_kept :: "u64 \<Rightarrow> neighbor \<Rightarrow> bool" where
  "poll_kept now n \<longleftrightarrow> now < n_deadline n \<or> \<not> (n_mac n \<noteq> None \<or> 3 \<le> n_attempts n)"

definition reprobe :: "u64 \<Rightarrow> ipv4 \<Rightarrow> host4 \<Rightarrow> (io_error, bytes) outcome \<times> host4" where
  "reprobe now ip s = (case bt_get (h_neighbors s) ip of
      None \<Rightarrow> (Panic, s)
    | Some n \<Rightarrow> (case add_chk (n_attempts n) 1 of
        Ok k \<Rightarrow>
          let s = s\<lparr>h_neighbors := bt_insert ip (n\<lparr>n_attempts := k, n_deadline := saturating_add now 1000\<rparr>) (h_neighbors s)\<rparr>
          in (probe s ip, s)
      | Err e \<Rightarrow> (Err e, s)
      | Panic \<Rightarrow> (Panic, s)))"

fun poll_loop :: "u64 \<Rightarrow> ipv4 list \<Rightarrow> host4 \<Rightarrow> (io_error, bytes list) outcome \<times> host4" where
  "poll_loop now [] s = (Ok [], s)"
| "poll_loop now (ip # ips) s =
     then_do (allow_arp now s) (\<lambda>allowed s.
     if \<not> allowed then (Ok [], s)
     else then_do (reprobe now ip s) (\<lambda>b s.
       then_do (poll_loop now ips s) (\<lambda>out s. (Ok (b # out), s))))"

definition poll4 :: "u64 \<Rightarrow> host4 \<Rightarrow> (io_error, bytes list) outcome \<times> host4" where
  "poll4 now s =
     (let destinations = map fst (filter (\<lambda>(_, n). \<not> now < n_deadline n \<and> poll_kept now n) (entries (h_neighbors s)))
      in poll_loop now destinations (s\<lparr>h_neighbors := bt_retain (\<lambda>_ n. poll_kept now n) (h_neighbors s)\<rparr>))"

end
