(* ===== verification/Ipv4_Host_Props.thy ===== *)
theory Ipv4_Host_Props
  imports Ipv4_Host
begin

text \<open>
  Properties of the IPv4 host: prefixes and longest-prefix routing, the invariant of its tables and
  that every call keeps it, the rate limiter over time, and the delivery of queued packets.
\<close>

section \<open>Prefixes and routes\<close>

text \<open>The meaning of a prefix: the leading bits agree.\<close>

definition covers :: "ipv4 \<Rightarrow> u8 \<Rightarrow> ipv4 \<Rightarrow> bool" where
  "covers network length1 a \<longleftrightarrow> drop_bit (32 - unat length1) network = drop_bit (32 - unat length1) a"

lemma mask_drop: "n \<le> 32 \<Longrightarrow> a AND shl_mask n = b AND shl_mask n \<longleftrightarrow> drop_bit n a = drop_bit n b"
proof -
  assume n: "n \<le> 32"
  have bit: "bit (x AND shl_mask n) k \<longleftrightarrow> bit x k \<and> n \<le> k" for x k
    using bit_imp_le_length [of x k] n by (auto simp: shl_mask_def bit_simps)
  have "a AND shl_mask n = b AND shl_mask n \<longleftrightarrow> (\<forall>k. n \<le> k \<longrightarrow> bit a k = bit b k)"
  proof
    assume "a AND shl_mask n = b AND shl_mask n"
    then have "bit (a AND shl_mask n) k = bit (b AND shl_mask n) k" for k by simp
    then show "\<forall>k. n \<le> k \<longrightarrow> bit a k = bit b k" unfolding bit by blast
  next
    assume "\<forall>k. n \<le> k \<longrightarrow> bit a k = bit b k"
    then show "a AND shl_mask n = b AND shl_mask n" by (intro bit_word_eqI) (use bit in blast)
  qed
  also have "\<dots> \<longleftrightarrow> (\<forall>j. bit a (n + j) = bit b (n + j))" by (auto simp: le_iff_add)
  also have "\<dots> \<longleftrightarrow> drop_bit n a = drop_bit n b"
  proof
    assume "\<forall>j. bit a (n + j) = bit b (n + j)"
    then show "drop_bit n a = drop_bit n b" by (intro bit_word_eqI) (simp add: bit_drop_bit_eq)
  next
    assume "drop_bit n a = drop_bit n b"
    then have "bit (drop_bit n a) j = bit (drop_bit n b) j" for j by simp
    then show "\<forall>j. bit a (n + j) = bit b (n + j)" by (simp add: bit_drop_bit_eq)
  qed
  finally show ?thesis .
qed

lemma same_prefix_covers: "unat l \<le> 32 \<Longrightarrow> same_prefix a b l = Ok (covers a l b)"
  by (simp add: same_prefix_def sub_chk_def covers_def mask_drop)

lemma any_r_ok: "(\<And>x. x \<in> set xs \<Longrightarrow> p x = Ok (q x)) \<Longrightarrow> any_r p xs = Ok (list_ex q xs)"
  by (induction xs) auto

lemma filter_r_ok: "(\<And>x. x \<in> set xs \<Longrightarrow> p x = Ok (q x)) \<Longrightarrow> filter_r p xs = Ok (filter q xs)"
  by (induction xs) auto

lemma max_by_key_None [simp]: "max_by_key f xs = None \<longleftrightarrow> xs = []"
  by (cases xs) (auto split: option.splits)

lemma max_by_key_Some: "max_by_key f xs = Some y \<Longrightarrow> y \<in> set xs \<and> (\<forall>x \<in> set xs. f x \<le> f y)"
proof (induction xs arbitrary: y)
  case (Cons x xs)
  then show ?case
    by (cases "max_by_key f xs") (auto split: if_splits)
qed simp

text \<open>A subnet, its routes and its gateway as \<open>configure\<close> and \<open>set_routes\<close> accept them.\<close>

definition route_good :: "ipv4 \<Rightarrow> u8 \<Rightarrow> route4 \<Rightarrow> bool" where
  "route_good address l r \<longleftrightarrow> unat (r_length r) \<le> 32 \<and> (r_length r \<noteq> 0 \<longrightarrow> unicast (r_network r))
     \<and> r_network r AND shr_mask (unat (r_length r)) = 0
     \<and> (unspecified4 (r_gateway r)
        \<or> unicast (r_gateway r) \<and> host_address (r_gateway r) l \<and> covers address l (r_gateway r))"

definition addressing_ok :: "host4 \<Rightarrow> bool" where
  "addressing_ok s \<longleftrightarrow> length (h_routes s) \<le> 64 \<and> (case h_address s of
      None \<Rightarrow> h_gateway s = None \<and> h_neighbors s = bt_empty \<and> h_routes s = [] \<and> h_input s = []
    | Some (a, l) \<Rightarrow> unat l \<le> 32 \<and> unicast a \<and> host_address a l
        \<and> (\<forall>g. h_gateway s = Some g \<longrightarrow> unicast g \<and> covers a l g)
        \<and> list_all (route_good a l) (h_routes s))"

lemma u8_le32: "(32 < l) \<longleftrightarrow> \<not> unat l \<le> 32" for l :: u8
  by (simp add: word_less_nat_alt not_le)

lemma route_bad_ok: "unat l \<le> 32 \<Longrightarrow> route_bad a l r = Ok (\<not> route_good a l r)"
  by (auto simp: route_bad_def route_good_def same_prefix_covers u8_le32)

text \<open>The matching routes of a host, and the reference semantics of a lookup.\<close>

definition matching :: "host4 \<Rightarrow> ipv4 \<Rightarrow> route4 list" where
  "matching s d = filter (\<lambda>r. covers (r_network r) (r_length r) d) (h_routes s)"

definition edge_of :: "ipv4 \<Rightarrow> u8 \<Rightarrow> ipv4 \<Rightarrow> bool" where
  "edge_of a l d \<longleftrightarrow> l < 31 \<and> covers a l d \<and> (d AND shr_mask (unat l) = shr_mask (unat l) \<or> d AND shr_mask (unat l) = 0)"

lemma next_hop_eq:
  assumes ok: "addressing_ok s" and a: "h_address s = Some (a, l)"
  shows "next_hop s d = Ok (
    if \<not> unicast d \<or> edge_of a l d then None
    else case max_by_key r_length (matching s d) of
      Some r \<Rightarrow> if l < r_length r \<or> \<not> covers a l d
                then Some (if unspecified4 (r_gateway r) then d else r_gateway r)
                else Some d
    | None \<Rightarrow> if covers a l d then Some d else h_gateway s)"
proof -
  have l: "unat l \<le> 32" and r: "unat (r_length x) \<le> 32" if "x \<in> set (h_routes s)" for x
    using ok a that by (auto simp: addressing_ok_def list_all_iff route_good_def)
  have l: "unat l \<le> 32" using ok a by (simp add: addressing_ok_def)
  have f: "filter_r (\<lambda>r. same_prefix (r_network r) d (r_length r)) (h_routes s) = Ok (matching s d)"
    unfolding matching_def by (rule filter_r_ok) (simp add: same_prefix_covers r)
  show ?thesis
    by (auto simp: next_hop_def a subnet_edge_def chosen_route_def f same_prefix_covers [OF l] edge_of_def Let_def
        split: option.splits)
qed

section \<open>The invariant\<close>

definition n_ok :: "neighbor \<Rightarrow> bool" where
  "n_ok n \<longleftrightarrow> length (n_queue n) \<le> 4 \<and> n_attempts n \<le> 3 \<and> (n_mac n \<noteq> None \<longrightarrow> n_queue n = [])"

definition nb_ok :: "(ipv4, neighbor) btree \<Rightarrow> bool" where
  "nb_ok m \<longleftrightarrow> bt_len m \<le> 256 \<and> bt_sum (\<lambda>_ n. length (n_queue n)) m \<le> 64
     \<and> bt_sum (\<lambda>_ n. sum_list (map length (n_queue n))) m \<le> 262144 \<and> (\<forall>k n. bt_get m k = Some n \<longrightarrow> n_ok n)"

definition host_inv :: "host4 \<Rightarrow> bool" where
  "host_inv s \<longleftrightarrow> addressing_ok s \<and> nb_ok (h_neighbors s) \<and> length (h_input s) \<le> 64
     \<and> sum_list (map length (h_input s)) \<le> 262144 \<and> h_arp_sent s \<le> 32"

lemma nb_ok_empty [simp]: "nb_ok bt_empty" by (simp add: nb_ok_def)

lemma nb_ok_retain: "nb_ok m \<Longrightarrow> nb_ok (bt_retain P m)"
  using bt_len_retain_le [of P m] bt_sum_retain_le [of "\<lambda>_ n. length (n_queue n)" P m]
    bt_sum_retain_le [of "\<lambda>_ n. sum_list (map length (n_queue n))" P m]
  by (auto simp: nb_ok_def split: option.splits if_splits)

text \<open>An entry is replaced by one that queues no more than before.\<close>

lemma nb_ok_update:
  assumes ok: "nb_ok m" and n: "n_ok n'"
    and le: "\<And>n. bt_get m k = Some n \<Longrightarrow> n_queue n' = n_queue n \<or> n_queue n' = []"
    and fresh: "bt_get m k = None \<Longrightarrow> n_queue n' = [] \<and> bt_len m < 256"
  shows "nb_ok (bt_insert k n' m)"
proof (cases "bt_get m k")
  case None
  then have "\<not> bt_contains m k" by (simp add: bt_contains_def)
  then show ?thesis using ok n fresh [OF None] by (auto simp: nb_ok_def bt_len_insert bt.total_ins_fresh [OF None])
next
  case (Some n0)
  have "bt_sum f (bt_insert k n' m) = bt_sum f m - f k n0 + f k n'" and "f k n0 \<le> bt_sum f m" for f :: "ipv4 \<Rightarrow> neighbor \<Rightarrow> nat"
    by (rule bt.total_ins_present [OF Some]) (rule bt.total_ge [OF Some])
  note s = this [of "\<lambda>_ n. length (n_queue n)"] this [of "\<lambda>_ n. sum_list (map length (n_queue n))"]
  have "n_queue n' = n_queue n0 \<or> n_queue n' = []" by (rule le [OF Some])
  then show ?thesis using ok n s bt_get_Some_contains [OF Some] by (auto simp: nb_ok_def bt_len_insert)
qed

lemma nb_ok_enqueue:
  assumes ok: "nb_ok (h_neighbors s)" and room: "\<not> send_full s k p" and b: "length b \<le> length p"
    and un: "\<And>n. bt_get (h_neighbors s) k = Some n \<Longrightarrow> n_mac n = None"
  shows "nb_ok (h_neighbors (enqueue k now b s))"
proof -
  let ?m = "h_neighbors s"
  have cap: "bt_sum (\<lambda>_ n. length (n_queue n)) ?m < 64"
    "bt_sum (\<lambda>_ n. sum_list (map length (n_queue n))) ?m + length p \<le> 262144"
    using room by (auto simp: send_full_def queued_def)
  show ?thesis
  proof (cases "bt_get ?m k")
    case None
    have "\<not> bt_contains ?m k" using None by (simp add: bt_contains_def)
    then show ?thesis using ok room cap b None
      by (auto simp: nb_ok_def enqueue_def unresolved_def n_ok_def bt.total_ins_fresh [OF None] bt_len_insert send_full_def)
  next
    case (Some n)
    have "length (n_queue n) < 4" using room Some by (simp add: send_full_def)
    moreover have "n_mac n = None" "n_ok n" using un [OF Some] ok Some by (auto simp: nb_ok_def)
    moreover have "bt_sum f (bt_insert k n' ?m) = bt_sum f ?m - f k n + f k n'" and "f k n \<le> bt_sum f ?m" for f n'
      by (rule bt.total_ins_present [OF Some]) (rule bt.total_ge [OF Some])
    note this [of "\<lambda>_ n. length (n_queue n)"] this [of "\<lambda>_ n. sum_list (map length (n_queue n))"]
    ultimately show ?thesis using ok cap b Some bt_get_Some_contains [OF Some]
      by (auto simp: nb_ok_def enqueue_def n_ok_def bt_len_insert Let_def)
  qed
qed

lemma addressing_same:
  assumes "addressing_ok s" and "h_address t = h_address s" "h_gateway t = h_gateway s" "h_routes t = h_routes s"
    and "h_address s \<noteq> None"
  shows "addressing_ok t"
  using assms by (auto simp: addressing_ok_def)

lemma host_inv_arp: "host_inv s \<Longrightarrow> k \<le> 32 \<Longrightarrow> host_inv (s\<lparr>h_arp_window := w, h_arp_sent := k\<rparr>)"
  by (auto simp: host_inv_def addressing_ok_def split: option.splits)

text \<open>The rate limiter of one address resolution packet: 32 in a window of a second.\<close>

definition limiter :: "u64 \<Rightarrow> u64 \<times> u8 \<Rightarrow> bool \<times> u64 \<times> u8" where
  "limiter now ws = (case ws of (w, k) \<Rightarrow>
     let (w, k) = (if saturating_add w 1000 \<le> now then (now, 0) else (w, k)) in
     if 32 \<le> k then (False, w, k) else (True, w, k + 1))"

lemma limiter_le: "snd ws \<le> 32 \<Longrightarrow> snd (snd (limiter now ws)) \<le> 32"
proof -
  assume "snd ws \<le> 32"
  moreover have "x + 1 \<le> 32" if "\<not> 32 \<le> x" for x :: u8
    using that by (simp add: word_le_nat_alt unat_word_ariths)
  ultimately show ?thesis by (auto simp: limiter_def Let_def split: prod.splits if_splits)
qed

lemma add_chk_limited: "\<not> 32 \<le> x \<Longrightarrow> add_chk x 1 = Ok (x + 1)" for x :: u8
  by (simp add: word_le_nat_alt add_chk_def)

lemma allow_arp_eq:
  "allow_arp now s = (case limiter now (h_arp_window s, h_arp_sent s) of
     (g, w, k) \<Rightarrow> (Ok g, s\<lparr>h_arp_window := w, h_arp_sent := k\<rparr>))"
  using add_chk_limited [of 0] add_chk_limited [of "h_arp_sent s"]
  by (cases "saturating_add (h_arp_window s) 1000 \<le> now"; cases "32 \<le> h_arp_sent s")
    (auto simp: allow_arp_def limiter_def Let_def add_chk_limited intro: host4.equality)

lemma allow_arp_ok:
  assumes "host_inv s"
  shows "\<exists>g w k. allow_arp now s = (Ok g, s\<lparr>h_arp_window := w, h_arp_sent := k\<rparr>) \<and> host_inv (s\<lparr>h_arp_window := w, h_arp_sent := k\<rparr>)"
proof -
  obtain g w k where l: "limiter now (h_arp_window s, h_arp_sent s) = (g, w, k)" by (metis prod.exhaust)
  have "k \<le> 32" using limiter_le [of "(h_arp_window s, h_arp_sent s)" now] assms l by (simp add: host_inv_def)
  then have "host_inv (s\<lparr>h_arp_window := w, h_arp_sent := k\<rparr>)" by (rule host_inv_arp [OF assms])
  moreover have "allow_arp now s = (Ok g, s\<lparr>h_arp_window := w, h_arp_sent := k\<rparr>)" by (simp add: allow_arp_eq l)
  ultimately show ?thesis by blast
qed

lemma probe_ok: "h_address s \<noteq> None \<Longrightarrow> \<exists>b. probe s d = Ok b"
  by (auto simp: probe_def)

lemma host_inv_neighbors:
  "host_inv s \<Longrightarrow> h_address s \<noteq> None \<Longrightarrow> nb_ok m \<Longrightarrow> host_inv (s\<lparr>h_neighbors := m\<rparr>)"
  by (auto simp: host_inv_def addressing_ok_def)

lemma first_probe_ok:
  assumes inv: "host_inv s" and a: "h_address s \<noteq> None" and n: "bt_get (h_neighbors s) k = Some n"
  shows "holds (first_probe k s) (\<lambda>_. host_inv) (\<lambda>_. False)"
proof -
  let ?m = "bt_insert k (n\<lparr>n_attempts := 1\<rparr>) (h_neighbors s)"
  have "nb_ok ?m" using inv n by (intro nb_ok_update) (auto simp: host_inv_def nb_ok_def n_ok_def)
  then have "host_inv (s\<lparr>h_neighbors := ?m\<rparr>)" by (rule host_inv_neighbors [OF inv a])
  moreover obtain b where "probe (s\<lparr>h_neighbors := ?m\<rparr>) k = Ok b" using probe_ok [of "s\<lparr>h_neighbors := ?m\<rparr>"] a by auto
  ultimately show ?thesis by (simp add: first_probe_def n)
qed

lemma next_hop_None: "h_address s = None \<Longrightarrow> next_hop s d = Ok None"
  by (simp add: next_hop_def)

lemma next_hop_ok: "addressing_ok s \<Longrightarrow> \<exists>r. next_hop s d = Ok r \<and> (h_address s = None \<longrightarrow> r = None)"
  by (cases "h_address s") (auto simp: next_hop_None next_hop_eq)

lemma send4_ok:
  assumes inv: "host_inv s"
  shows "holds (send4 packet now s) (\<lambda>_. host_inv) host_inv"
proof (cases "packet_parse packet")
  case (Ok p)
  have len: "length (p_bytes p) \<le> length packet" using ensuresD [OF packet_parse_ensures Ok] by (simp add: packet_wf_def)
  obtain r where r: "next_hop s (p_destination p) = Ok r" "h_address s = None \<longrightarrow> r = None"
    using next_hop_ok [of s] inv by (auto simp: host_inv_def)
  show ?thesis
  proof (cases r)
    case None
    then show ?thesis using Ok r inv by (simp add: send4_def inspect_def)
  next
    case (Some nxt)
    have a: "h_address s \<noteq> None" using r Some by auto
    let ?hit = "case bt_get (h_neighbors s) nxt of None \<Rightarrow> None | Some n \<Rightarrow> if now < n_deadline n then n_mac n else None"
    let ?s = "s\<lparr>h_neighbors := bt_retain (\<lambda>_ n. n_mac n = None \<or> now < n_deadline n) (h_neighbors s)\<rparr>"
    show ?thesis
    proof (cases ?hit)
      case (Some mac)
      then show ?thesis using Ok r inv \<open>r = Some nxt\<close> by (simp add: send4_def inspect_def)
    next
      case miss: None
      have inv': "host_inv ?s" using inv a by (intro host_inv_neighbors nb_ok_retain) (auto simp: host_inv_def)
      have un: "n_mac n = None" if "bt_get (h_neighbors ?s) nxt = Some n" for n
        using that miss by (auto split: option.splits if_splits)
      show ?thesis
      proof (cases "send_full ?s nxt packet")
        case True
        then show ?thesis using Ok r inv' miss \<open>r = Some nxt\<close> by (simp add: send4_def inspect_def Let_def)
      next
        case room: False
        define t where "t = enqueue nxt now (p_bytes p) ?s"
        have t: "t = ?s\<lparr>h_neighbors := h_neighbors t\<rparr>" by (simp add: t_def enqueue_def Let_def)
        have "nb_ok (h_neighbors t)" unfolding t_def
          by (rule nb_ok_enqueue [OF _ room len un]) (use inv' in \<open>simp add: host_inv_def\<close>)
        then have inv_t: "host_inv t" using host_inv_neighbors [OF inv', of "h_neighbors t"] a by (subst t) simp
        obtain g w k where g: "allow_arp now t = (Ok g, t\<lparr>h_arp_window := w, h_arp_sent := k\<rparr>)"
          and inv_u: "host_inv (t\<lparr>h_arp_window := w, h_arp_sent := k\<rparr>)" using allow_arp_ok [OF inv_t] by blast
        obtain n where n: "bt_get (h_neighbors t) nxt = Some n" by (simp add: t_def enqueue_def Let_def)
        have "h_address t \<noteq> None" using a by (simp add: t_def enqueue_def Let_def)
        then have fp: "holds (first_probe nxt (t\<lparr>h_arp_window := w, h_arp_sent := k\<rparr>)) (\<lambda>_. host_inv) host_inv"
          using holds_mono [OF first_probe_ok [OF inv_u, of nxt n]] n by simp
        have "send4 packet now s =
          (if \<not> bt_contains (h_neighbors ?s) nxt then then_do (allow_arp now t) (\<lambda>allowed s. if allowed then first_probe nxt s else (Ok [], s))
           else (Ok [], t))"
          using Ok r miss room \<open>r = Some nxt\<close> by (simp add: send4_def inspect_def Let_def t_def)
        then show ?thesis using g fp inv_u inv_t by simp
      qed
    qed
  qed
qed (use inv packet_parse_ensures [of packet] in \<open>auto simp: send4_def inspect_def\<close>)

lemma learn_ok:
  assumes inv: "host_inv s" and a: "h_address s \<noteq> None" and l: "learns s arp"
  shows "host_inv (snd (learn now arp s))"
proof -
  have "nb_ok (h_neighbors (snd (learn now arp s)))"
  proof (cases "bt_get (h_neighbors s) (a_sender arp)")
    case None
    then have "\<not> bt_contains (h_neighbors s) (a_sender arp)" by (simp add: bt_contains_def)
    then show ?thesis using inv l None
      by (auto simp: learn_def learns_def host_inv_def n_ok_def unresolved_def intro!: nb_ok_update)
  next
    case (Some n)
    then show ?thesis using inv by (auto simp: learn_def host_inv_def n_ok_def Let_def intro!: nb_ok_update)
  qed
  from host_inv_neighbors [OF inv a this] show ?thesis by (simp add: learn_def Let_def)
qed

lemma receive_arp_ok:
  assumes inv: "host_inv s" and a: "h_address s = Some (address, l)"
  shows "holds (receive_arp address l arp now s) (\<lambda>_. host_inv) (\<lambda>_. False)"
proof -
  have l: "unat l \<le> 32" using inv a by (simp add: host_inv_def addressing_ok_def)
  have "\<exists>d. arp_dropped s address l arp = Ok d" unfolding arp_dropped_def same_prefix_covers [OF l] map_ok.simps by metis
  then obtain d where d: "arp_dropped s address l arp = Ok d" by blast
  define r where "r = (if learns s arp then learn now arp s else ([], s))"
  obtain out t where r': "r = (out, t)" by (cases r)
  have inv_t: "host_inv t" using learn_ok [OF inv _, of arp now] inv a r' by (auto simp: r_def split: if_splits)
  obtain g w k where g: "allow_arp now t = (Ok g, t\<lparr>h_arp_window := w, h_arp_sent := k\<rparr>)"
    and inv_u: "host_inv (t\<lparr>h_arp_window := w, h_arp_sent := k\<rparr>)" using allow_arp_ok [OF inv_t] by blast
  have "receive_arp address l arp now s = (if d then (Ok [], s) else
      if a_operation arp = 1 then
        then_do (allow_arp now t) (\<lambda>allowed s. (Ok (if allowed then out @ [arp_reply s address arp] else out), s))
      else (Ok out, t))"
    using r' by (simp add: receive_arp_def inspect_def d r_def)
  then show ?thesis using inv inv_t inv_u g by simp
qed

lemma frame_dropped_ensures: "ensures (frame_dropped mac frame) (\<lambda>d. \<not> d \<longrightarrow> 14 \<le> length frame)"
  by (auto simp: frame_dropped_def wp)

lemma receive4_ok:
  assumes inv: "host_inv s"
  shows "holds (receive4 frame now s) (\<lambda>_. host_inv) (\<lambda>_. False)"
proof (cases "h_address s")
  case None
  then show ?thesis using inv by (simp add: receive4_def)
next
  case (Some al)
  obtain address l where al: "al = (address, l)" by (cases al)
  have "frame_dropped (h_mac s) frame \<noteq> Panic" using frame_dropped_ensures [of "h_mac s" frame] by (auto simp: ensures_iff)
  moreover have "frame_dropped (h_mac s) frame \<noteq> Err e" for e
    by (auto simp: frame_dropped_def outcome_iffs slice_r_def idx_def split: if_splits)
  ultimately obtain d where d: "frame_dropped (h_mac s) frame = Ok d" by (cases "frame_dropped (h_mac s) frame") auto
  show ?thesis
  proof (cases d)
    case True
    then show ?thesis using inv Some d al by (simp add: receive4_def inspect_def)
  next
    case False
    then have len: "14 \<le> length frame" using d ensuresD [OF frame_dropped_ensures d] by simp
    show ?thesis
    proof (cases "take 2 (drop 12 frame) = [8, 0]")
      case True
      have acc: "\<exists>t. accept_packet frame address p s = Ok t \<and> host_inv t" for p
        using inv len Some by (auto simp: accept_packet_def pending_input_def host_inv_def addressing_ok_def)
      show ?thesis
      proof (cases "packet_parse (drop 14 frame)")
        case (Ok p)
        obtain t where "accept_packet frame address p s = Ok t" "host_inv t" using acc by blast
        then show ?thesis using Ok True len Some al d False by (simp add: receive4_def inspect_def modify_def)
      qed (use inv True len Some al d False packet_parse_ensures [of "drop 14 frame"] in
          \<open>auto simp: receive4_def inspect_def\<close>)
    next
      case arp: False
      show ?thesis
      proof (cases "arp_parse frame")
        case (Ok a)
        have "holds (receive_arp address l a now s) (\<lambda>_. host_inv) (\<lambda>_. False)"
          using receive_arp_ok [OF inv] Some al by simp
        then show ?thesis using Ok arp len Some al d False by (simp add: receive4_def inspect_def)
      qed (use inv arp len Some al d False arp_parse_ensures [of frame] in \<open>auto simp: receive4_def inspect_def\<close>)
    qed
  qed
qed

lemma reprobe_ok:
  assumes inv: "host_inv s" and a: "h_address s \<noteq> None" and n: "bt_get (h_neighbors s) ip = Some n" "n_attempts n < 3"
  shows "\<exists>b m. reprobe now ip s = (Ok b, s\<lparr>h_neighbors := m\<rparr>) \<and> host_inv (s\<lparr>h_neighbors := m\<rparr>)
    \<and> (\<forall>k. k \<noteq> ip \<longrightarrow> bt_get m k = bt_get (h_neighbors s) k)"
proof -
  have k: "\<not> 32 \<le> n_attempts n" "n_attempts n + 1 \<le> 3"
    using n(2) by (simp_all add: word_less_nat_alt word_le_nat_alt unat_word_ariths)
  let ?m = "bt_insert ip (n\<lparr>n_attempts := n_attempts n + 1, n_deadline := saturating_add now 1000\<rparr>) (h_neighbors s)"
  have "nb_ok ?m" using inv n k by (intro nb_ok_update) (auto simp: host_inv_def nb_ok_def n_ok_def)
  then have "host_inv (s\<lparr>h_neighbors := ?m\<rparr>)" by (rule host_inv_neighbors [OF inv a])
  moreover obtain b where "probe (s\<lparr>h_neighbors := ?m\<rparr>) ip = Ok b" using probe_ok [of "s\<lparr>h_neighbors := ?m\<rparr>"] a by auto
  ultimately show ?thesis using n(1) k(1) by (intro exI [of _ b] exI [of _ ?m]) (simp add: reprobe_def add_chk_limited Let_def)
qed

lemma poll_loop_ok:
  assumes "host_inv s" and "h_address s \<noteq> None" and "distinct ips"
    and "\<And>ip. ip \<in> set ips \<Longrightarrow> \<exists>n. bt_get (h_neighbors s) ip = Some n \<and> n_attempts n < 3"
  shows "holds (poll_loop now ips s) (\<lambda>_. host_inv) (\<lambda>_. False)"
  using assms
proof (induction ips arbitrary: s)
  case Nil
  then show ?case by simp
next
  case (Cons ip ips)
  obtain g w k where g: "allow_arp now s = (Ok g, s\<lparr>h_arp_window := w, h_arp_sent := k\<rparr>)"
    and inv: "host_inv (s\<lparr>h_arp_window := w, h_arp_sent := k\<rparr>)" using allow_arp_ok [OF Cons.prems(1)] by blast
  let ?s = "s\<lparr>h_arp_window := w, h_arp_sent := k\<rparr>"
  obtain n where n: "bt_get (h_neighbors ?s) ip = Some n" "n_attempts n < 3" using Cons.prems(4) [of ip] by auto
  obtain b m where b: "reprobe now ip ?s = (Ok b, ?s\<lparr>h_neighbors := m\<rparr>)" "host_inv (?s\<lparr>h_neighbors := m\<rparr>)"
    "\<forall>k. k \<noteq> ip \<longrightarrow> bt_get m k = bt_get (h_neighbors ?s) k"
    using reprobe_ok [OF inv _ n, of now] Cons.prems(2) by auto
  have "holds (poll_loop now ips (?s\<lparr>h_neighbors := m\<rparr>)) (\<lambda>_. host_inv) (\<lambda>_. False)"
  proof (rule Cons.IH [OF b(2)])
    fix i assume i: "i \<in> set ips"
    then have "i \<noteq> ip" using Cons.prems(3) by auto
    then show "\<exists>n. bt_get (h_neighbors (?s\<lparr>h_neighbors := m\<rparr>)) i = Some n \<and> n_attempts n < 3"
      using Cons.prems(4) [of i] b(3) i by simp
  qed (use Cons.prems in auto)
  then have "holds (then_do (poll_loop now ips (?s\<lparr>h_neighbors := m\<rparr>)) (\<lambda>out s. (Ok (b # out), s))) (\<lambda>_. host_inv) (\<lambda>_. False)"
    by (rule holds_then_do) simp
  then show ?case using g b(1) inv by simp
qed

lemma poll4_ok:
  assumes inv: "host_inv s"
  shows "holds (poll4 now s) (\<lambda>_. host_inv) (\<lambda>_. False)"
proof (cases "h_address s")
  case None
  then have "h_neighbors s = bt_empty" using inv by (simp add: host_inv_def addressing_ok_def)
  moreover have "bt_retain P bt_empty = bt_empty" for P :: "ipv4 \<Rightarrow> neighbor \<Rightarrow> bool"
    by (rule bt_ext) (simp add: fun_eq_iff)
  ultimately have "poll4 now s = (Ok [], s)"
    by (simp add: poll4_def bt_empty.rep_eq)
  then show ?thesis using inv by simp
next
  case (Some al)
  let ?s = "s\<lparr>h_neighbors := bt_retain (\<lambda>_ n. poll_kept now n) (h_neighbors s)\<rparr>"
  let ?ips = "map fst (filter (\<lambda>(_, n). \<not> now < n_deadline n \<and> poll_kept now n) (entries (h_neighbors s)))"
  have "host_inv ?s" using inv Some by (intro host_inv_neighbors nb_ok_retain) (auto simp: host_inv_def)
  moreover have "distinct ?ips" using entries_distinct [of "h_neighbors s"] by (simp add: distinct_map_filter)
  moreover have "\<exists>n. bt_get (h_neighbors ?s) ip = Some n \<and> n_attempts n < 3" if "ip \<in> set ?ips" for ip
    using that by (auto simp: entries_get poll_kept_def not_le)
  ultimately have "holds (poll_loop now ?ips ?s) (\<lambda>_. host_inv) (\<lambda>_. False)"
    using Some by (intro poll_loop_ok) auto
  then show ?thesis by (simp add: poll4_def)
qed

lemma configure4_ok:
  assumes inv: "host_inv s"
  shows "holds (configure4 a l gw s) (\<lambda>_. host_inv) (\<lambda>t. t = s)"
proof (cases "32 < l \<or> \<not> unicast a \<or> \<not> host_address a l")
  case True
  then show ?thesis by (simp add: configure4_def)
next
  case False
  then have l: "unat l \<le> 32" by (simp add: u8_le32)
  have "gateway_bad a l gw = Ok (\<not> (\<forall>g. gw = Some g \<longrightarrow> unicast g \<and> covers a l g))"
    by (auto simp: gateway_bad_def same_prefix_covers [OF l] split: option.splits)
  then show ?thesis using False l inv by (auto simp: configure4_def host_inv_def addressing_ok_def)
qed

lemma set_routes_ok:
  assumes inv: "host_inv s"
  shows "holds (set_routes rs s) (\<lambda>_. host_inv) (\<lambda>t. t = s)"
proof (cases "h_address s")
  case None
  then show ?thesis by (simp add: set_routes_def)
next
  case (Some al)
  obtain a l where al: "al = (a, l)" by (cases al)
  have l: "unat l \<le> 32" using inv Some al by (simp add: host_inv_def addressing_ok_def)
  have "any_r (route_bad a l) rs = Ok (list_ex (\<lambda>r. \<not> route_good a l r) rs)"
    by (rule any_r_ok) (rule route_bad_ok [OF l])
  then show ?thesis using inv Some al
    by (auto simp: set_routes_def host_inv_def addressing_ok_def list_ex_iff list_all_iff)
qed

section \<open>Calls\<close>

inductive host_call :: "host4 \<Rightarrow> host4 \<Rightarrow> bool" where
  "host_call s (snd (configure4 a l gw s))"
| "host_call s (unavailable s)"
| "host_call s (snd (set_routes rs s))"
| "host_call s (snd (take_packet s))"
| "host_call s (snd (send4 packet now s))"
| "host_call s (snd (receive4 frame now s))"
| "host_call s (snd (poll4 now s))"

definition host_start :: "host4 \<Rightarrow> bool" where
  "host_start s \<longleftrightarrow> (\<exists>mac. s = host4_new mac)"

lemma take_packet_ok: "host_inv s \<Longrightarrow> host_inv (snd (take_packet s))"
  by (auto simp: take_packet_def host_inv_def addressing_ok_def split: list.splits option.splits)

interpretation host: call_invariant host_start host_call host_inv
proof unfold_locales
  show "host_start s \<Longrightarrow> host_inv s" for s
    by (auto simp: host_start_def host4_new_def host_inv_def addressing_ok_def)
  show "host_call s t \<Longrightarrow> host_inv s \<Longrightarrow> host_inv t" for s t
  proof (induction rule: host_call.induct)
    case (2 s)
    then show ?case by (auto simp: unavailable_def host_inv_def addressing_ok_def)
  qed (auto intro: take_packet_ok holds_snd [OF configure4_ok] holds_snd [OF set_routes_ok] holds_snd [OF send4_ok]
      holds_snd [OF receive4_ok] holds_snd [OF poll4_ok])
qed

section \<open>The rate limiter over time\<close>

text \<open>The grants of the limiter for a sequence of requests.\<close>

fun grants :: "u64 list \<Rightarrow> u64 \<times> u8 \<Rightarrow> nat list" where
  "grants [] ws = []"
| "grants (t # ts) ws = (case limiter t ws of (g, ws) \<Rightarrow> (if g then [unat t] else []) @ grants ts ws)"

definition during :: "nat \<Rightarrow> nat list \<Rightarrow> nat" where
  "during t xs = length (filter (\<lambda>x. t \<le> x \<and> x < t + 1000) xs)"

text \<open>
  What holds of the grants \<open>G\<close> up to time \<open>n\<close> with the window \<open>w\<close> and the count \<open>k\<close>: none is later
  than the window reaches, \<open>k\<close> of them are in the window, at most 32 more in the second before it.
\<close>

definition limited :: "nat list \<Rightarrow> nat \<Rightarrow> nat \<Rightarrow> nat \<Rightarrow> bool" where
  "limited G n w k \<longleftrightarrow> (\<forall>x \<in> set G. x \<le> n \<and> x < w + 1000) \<and> length (filter (\<lambda>x. w \<le> x) G) \<le> k \<and> k \<le> 32
     \<and> length (filter (\<lambda>x. w < x + 1000) G) \<le> 32 + k \<and> w \<le> n \<and> (\<forall>t. during t G \<le> 64)"

lemma filter_length_mono: "(\<And>x. x \<in> set xs \<Longrightarrow> P x \<Longrightarrow> Q x) \<Longrightarrow> length (filter P xs) \<le> length (filter Q xs)"
proof (induction xs)
  case (Cons x xs)
  then have "length (filter P xs) \<le> length (filter Q xs)" by simp
  then show ?case using Cons.prems [of x] by auto
qed simp

lemma limited_step:
  assumes lim: "limited G n (unat w) (unat k)" and t: "n \<le> unat t" "unat t + 1000 < 2 ^ 64" and w: "unat w + 1000 < 2 ^ 64"
    and step: "limiter t (w, k) = (g, w', k')"
  shows "limited (G @ (if g then [unat t] else [])) (unat t) (unat w') (unat k') \<and> unat w' + 1000 < 2 ^ 64"
proof -
  have sat: "saturating_add w 1000 \<le> t \<longleftrightarrow> unat w + 1000 \<le> unat t"
    using w by (simp add: saturating_add_def word_le_nat_alt unat_word_ariths)
  have "\<exists>w1 k1. limited G (unat t) (unat w1) (unat k1) \<and> unat t < unat w1 + 1000 \<and> unat w1 + 1000 < 2 ^ 64
      \<and> (g, w', k') = (if 32 \<le> k1 then (False, w1, k1) else (True, w1, k1 + 1)) \<and> unat w1 \<le> unat t"
  proof (cases "unat w + 1000 \<le> unat t")
    case True
    have old: "x < unat t" "\<not> unat t \<le> x" if "x \<in> set G" for x using lim that True by (auto simp: limited_def)
    have none: "filter (\<lambda>x. unat t \<le> x) G = []" using old by (auto simp: filter_empty_conv)
    have "length (filter (\<lambda>x. unat t < x + 1000) G) \<le> length (filter (\<lambda>x. unat w \<le> x) G)"
      using True by (intro filter_length_mono) auto
    then have "length (filter (\<lambda>x. unat t < x + 1000) G) \<le> 32" using lim by (simp add: limited_def)
    then have "limited G (unat t) (unat t) (unat (0 :: u8))"
      using lim none old by (fastforce simp: limited_def)
    then show ?thesis using True sat step t(2) by (intro exI [of _ t] exI [of _ "0 :: u8"]) (simp add: limiter_def)
  next
    case False
    have "limited G (unat t) (unat w) (unat k)" using lim t(1) by (fastforce simp: limited_def)
    moreover have "unat w \<le> unat t" using lim t(1) by (simp add: limited_def)
    ultimately show ?thesis using False sat step w by (intro exI [of _ w] exI [of _ k]) (simp add: limiter_def)
  qed
  then obtain w1 k1 where l1: "limited G (unat t) (unat w1) (unat k1)" "unat t < unat w1 + 1000" "unat w1 + 1000 < 2 ^ 64" "unat w1 \<le> unat t"
    and res: "(g, w', k') = (if 32 \<le> k1 then (False, w1, k1) else (True, w1, k1 + 1))" by blast
  show ?thesis
  proof (cases "32 \<le> k1")
    case True
    then show ?thesis using l1 res by simp
  next
    case False
    then have k: "unat k1 < 32" "unat (k1 + 1) = unat k1 + 1" by (simp_all add: word_le_nat_alt unat_word_ariths)
    have "during \<tau> (G @ [unat t]) \<le> 64" for \<tau>
    proof (cases "\<tau> \<le> unat t \<and> unat t < \<tau> + 1000")
      case True
      have "during \<tau> G \<le> length (filter (\<lambda>x. unat w1 < x + 1000) G)"
        unfolding during_def using True l1(4) by (intro filter_length_mono) auto
      also have "\<dots> \<le> 32 + unat k1" using l1(1) by (simp add: limited_def)
      finally show ?thesis using True k(1) by (simp add: during_def)
    next
      case False
      then show ?thesis using l1(1) by (auto simp: during_def limited_def)
    qed
    then have "limited (G @ [unat t]) (unat t) (unat w1) (unat k1 + 1)" using l1 k(1) by (auto simp: limited_def)
    then show ?thesis using False res l1(3) k(2) by simp
  qed
qed

lemma grants_limited:
  assumes "limited G n (unat w) (unat k)" and "unat w + 1000 < 2 ^ 64" and "sorted (map unat ts)"
    and "\<And>t. t \<in> set ts \<Longrightarrow> n \<le> unat t \<and> unat t + 1000 < 2 ^ 64"
  shows "during \<tau> (G @ grants ts (w, k)) \<le> 64"
  using assms
proof (induction ts arbitrary: G n w k)
  case Nil
  then show ?case by (simp add: limited_def)
next
  case (Cons t ts)
  obtain g w' k' where l: "limiter t (w, k) = (g, w', k')" by (metis prod.exhaust)
  have st: "limited (G @ (if g then [unat t] else [])) (unat t) (unat w') (unat k')" "unat w' + 1000 < 2 ^ 64"
    using limited_step [OF Cons.prems(1) _ _ Cons.prems(2) l] Cons.prems(4) [of t] by auto
  have "during \<tau> ((G @ (if g then [unat t] else [])) @ grants ts (w', k')) \<le> 64"
    using Cons.prems by (intro Cons.IH [OF st]) auto
  then show ?case by (simp add: l)
qed

section \<open>Properties\<close>

text \<open>
  C32: The IPv4 host stays within its limits whatever is configured, sent and received: at most 256
  neighbours, 64 queued packets with 256 KiB, four packets for one neighbour, 64 received packets
  with 256 KiB and 64 routes; a resolved neighbour has nothing queued; and no call panics.
\<close>

theorem ipv4_host_bounded:
  assumes "host_start s0" and "host_call\<^sup>*\<^sup>* s0 s"
  shows "neighbor_count s \<le> 256 \<and> fst (queued s) \<le> 64 \<and> snd (queued s) \<le> 262144
    \<and> fst (pending_input s) \<le> 64 \<and> snd (pending_input s) \<le> 262144 \<and> length (h_routes s) \<le> 64
    \<and> (\<forall>ip n. bt_get (h_neighbors s) ip = Some n \<longrightarrow> length (n_queue n) \<le> 4 \<and> (n_mac n \<noteq> None \<longrightarrow> n_queue n = []))
    \<and> fst (configure4 a l gw s) \<noteq> Panic \<and> fst (set_routes rs s) \<noteq> Panic \<and> next_hop s d \<noteq> Panic
    \<and> fst (send4 packet now s) \<noteq> Panic \<and> fst (receive4 frame now s) \<noteq> Panic \<and> fst (poll4 now s) \<noteq> Panic"
proof -
  have inv: "host_inv s" by (rule host.reachable_inv [OF assms])
  have "next_hop s d \<noteq> Panic" using next_hop_ok [of s d] inv by (auto simp: host_inv_def)
  then show ?thesis
    using inv holds_no_panic [OF configure4_ok [OF inv]] holds_no_panic [OF set_routes_ok [OF inv]]
      holds_no_panic [OF send4_ok [OF inv]] holds_no_panic [OF receive4_ok [OF inv]] holds_no_panic [OF poll4_ok [OF inv]]
    by (auto simp: host_inv_def nb_ok_def n_ok_def neighbor_count_def queued_def pending_input_def addressing_ok_def)
qed

theorem ipv4_host_bounded_witness:
  "neighbor_count (unavailable (host4_new [2, 0, 0, 0, 0, 1])) \<le> 256
     \<and> fst (receive4 [1, 2, 3] 5 (unavailable (host4_new [2, 0, 0, 0, 0, 1]))) \<noteq> Panic"
proof -
  have "host_call\<^sup>*\<^sup>* (host4_new [2, 0, 0, 0, 0, 1]) (unavailable (host4_new [2, 0, 0, 0, 0, 1]))"
    by (intro r_into_rtranclp host_call.intros)
  moreover have "host_start (host4_new [2, 0, 0, 0, 0, 1])" by (auto simp: host_start_def)
  ultimately show ?thesis using ipv4_host_bounded by blast
qed


text \<open>A host at 192.168.1.2/24 behind 192.168.1.1 that has a packet waiting for its gateway.\<close>

definition mac0 :: bytes where "mac0 = [2, 0, 0, 0, 0, 2]"

definition host0 :: host4 where
  "host0 = (host4_new mac0)\<lparr>h_address := Some (0xC0A80102, 24), h_gateway := Some 0xC0A80101\<rparr>"

lemmas unicast_defs = unicast_def unspecified4_def multicast4_def broadcast4_def loopback4_def octet0_def

lemma host0_configured: "configure4 0xC0A80102 24 (Some 0xC0A80101) (host4_new mac0) = (Ok (), host0)"
  by (simp add: configure4_def gateway_bad_def same_prefix_def shl_mask_def shr_mask_def host_address_def unicast_defs
      host0_def host4_new_def sub_chk_def mask_eq_exp_minus_1)

lemma host0_reachable: "host_start (host4_new mac0)" "host_call\<^sup>*\<^sup>* (host4_new mac0) host0"
proof -
  show "host_start (host4_new mac0)" by (auto simp: host_start_def)
  have "host_call (host4_new mac0) (snd (configure4 0xC0A80102 24 (Some 0xC0A80101) (host4_new mac0)))" by (rule host_call.intros)
  then show "host_call\<^sup>*\<^sup>* (host4_new mac0) host0" unfolding host0_configured by (simp add: r_into_rtranclp)
qed

lemma host0_gateway: "next_hop host0 0x08080808 = Ok (Some 0xC0A80101)"
  by (simp add: next_hop_def host0_def host4_new_def subnet_edge_def same_prefix_def chosen_route_def shl_mask_def shr_mask_def
      unicast_defs sub_chk_def mask_eq_exp_minus_1)


text \<open>The requests that the host grants, for a sequence of times.\<close>

fun arp_grants :: "u64 list \<Rightarrow> host4 \<Rightarrow> nat list" where
  "arp_grants [] s = []"
| "arp_grants (t # ts) s = (case allow_arp t s of (r, s) \<Rightarrow> (if r = Ok True then [unat t] else []) @ arp_grants ts s)"

lemma arp_grants_eq: "arp_grants ts s = grants ts (h_arp_window s, h_arp_sent s)"
  by (induction ts arbitrary: s) (auto simp: allow_arp_eq split: prod.splits)



text \<open>
  C33: A resolved neighbour gets what waited for it. When the reply of an unresolved neighbour
  arrives, exactly its queued packets leave in order to the hardware address of the reply, and for
  a minute every further packet that is routed to it leaves at once, without another request.
\<close>

theorem arp_resolution:
  assumes "host_start s0" and "host_call\<^sup>*\<^sup>* s0 s" and a: "h_address s = Some (address, l)"
    and n: "bt_get (h_neighbors s) (a_sender arp) = Some n" "n_mac n = None"
    and arp: "arp_wf arp (h_mac s)" "a_operation arp = 2" "a_target arp = address" "a_sender arp \<noteq> address"
      "a_sender_mac arp \<noteq> h_mac s" "covers address l (a_sender arp)" "now \<le> - 60001"
  shows "\<exists>s'. receive4 (arp_encode arp (h_mac s)) now s = (Ok (map (ethernet (h_mac s) (a_sender_mac arp)) (n_queue n)), s')
    \<and> (\<forall>packet p later. packet_parse packet = Ok p \<and> next_hop s' (p_destination p) = Ok (Some (a_sender arp))
         \<and> now \<le> later \<and> later < now + 60000
         \<longrightarrow> send4 packet later s' = (Ok [ethernet (h_mac s) (a_sender_mac arp) (p_bytes p)], s'))"
proof -
  have ok: "addressing_ok s" using host.reachable_inv [OF assms(1,2)] by (simp add: host_inv_def)
  then have l: "unat l \<le> 32" using a by (simp add: addressing_ok_def)
  have un: "\<not> unspecified4 (a_sender arp)" using arp(1,2) by (simp add: arp_wf_def)
  let ?f = "arp_encode arp (h_mac s)"
  have len: "length (h_mac s) = 6" "length (a_sender_mac arp) = 6" "length (a_target_mac arp) = 6" "a_sender_mac arp ! 0 AND 1 = 0"
    "a_sender_mac arp \<noteq> replicate 6 0" using arp(1) by (simp_all add: arp_wf_def)
  have f: "length ?f = 42" "take 6 (drop 6 ?f) = a_sender_mac arp" "take 6 ?f = h_mac s" "?f ! 6 = a_sender_mac arp ! 0"
    "take 2 (drop 12 ?f) = [8, 6]"
    using len by (simp_all add: arp_encode_def nth_append)
  have dr: "frame_dropped (h_mac s) ?f = Ok False"
    using f len arp(5) by (simp add: frame_dropped_def slice_r_def idx_def)
  let ?n' = "n\<lparr>n_mac := Some (a_sender_mac arp), n_deadline := saturating_add now 60000, n_attempts := 0, n_queue := []\<rparr>"
  let ?s' = "s\<lparr>h_neighbors := bt_insert (a_sender arp) ?n' (h_neighbors s)\<rparr>"
  have "learns s arp" using n un by (simp add: learns_def bt_contains_def)
  then have "receive_arp address l arp now s = (Ok (map (ethernet (h_mac s) (a_sender_mac arp)) (n_queue n)), ?s')"
    using n un arp(2-6) by (simp add: receive_arp_def inspect_def arp_dropped_def same_prefix_covers [OF l] learn_def)
  then have run: "receive4 ?f now s = (Ok (map (ethernet (h_mac s) (a_sender_mac arp)) (n_queue n)), ?s')"
    using a dr f arp_encode_parse [OF arp(1)] by (simp add: receive4_def inspect_def slice_r_def)
  have dl: "saturating_add now 60000 = now + 60000"
    using arp(7) by (simp add: saturating_add_def word_le_nat_alt)
  have "send4 packet later ?s' = (Ok [ethernet (h_mac s) (a_sender_mac arp) (p_bytes p)], ?s')"
    if "packet_parse packet = Ok p" "next_hop ?s' (p_destination p) = Ok (Some (a_sender arp))" "later < now + 60000" for packet p later
    using that dl by (simp add: send4_def inspect_def)
  then show ?thesis using run by blast
qed

definition arp0 :: arp where
  "arp0 = \<lparr>a_operation = 2, a_sender_mac = [2, 0, 0, 0, 0, 1], a_sender = 0xC0A80101, a_target_mac = mac0, a_target = 0xC0A80102\<rparr>"

definition packet0 :: bytes where
  "packet0 = encoded4 0xC0A80102 0x08080808 17 64 [1, 2]"

definition host1 :: host4 where
  "host1 = snd (send4 packet0 5 host0)"

lemma host1_waiting:
  "bt_get (h_neighbors host1) 0xC0A80101 = Some \<lparr>n_mac = None, n_deadline = 1005, n_attempts = 1, n_queue = [packet0]\<rparr>"
  "h_address host1 = Some (0xC0A80102, 24)" "h_mac host1 = mac0"
proof -
  have "\<exists>p. packet_parse packet0 = Ok p \<and> p_destination p = 0x08080808 \<and> p_bytes p = packet0"
    unfolding packet0_def by (subst encoded4_parse) simp_all
  then obtain p where p: "packet_parse packet0 = Ok p" "p_destination p = 0x08080808" "p_bytes p = packet0" by blast
  have m: "bt_retain P bt_empty = bt_empty" for P :: "ipv4 \<Rightarrow> neighbor \<Rightarrow> bool" by (rule bt_ext) (simp add: fun_eq_iff)
  have l: "length packet0 = 22" by (simp add: packet0_def encoded4_def Let_def)
  show "bt_get (h_neighbors host1) 0xC0A80101 = Some \<lparr>n_mac = None, n_deadline = 1005, n_attempts = 1, n_queue = [packet0]\<rparr>"
    "h_address host1 = Some (0xC0A80102, 24)" "h_mac host1 = mac0"
    unfolding host1_def send4_def
    using p host0_gateway l
    by (simp_all add: inspect_def host0_def host4_new_def m send_full_def queued_def enqueue_def unresolved_def allow_arp_eq limiter_def
      first_probe_def Let_def saturating_add_def)
qed

theorem arp_resolution_witness:
  "\<exists>s'. receive4 (arp_encode arp0 mac0) 100 host1 = (Ok [ethernet mac0 [2, 0, 0, 0, 0, 1] packet0], s')"
proof -
  have call: "host_call\<^sup>*\<^sup>* (host4_new mac0) host1"
    unfolding host1_def by (rule rtranclp.rtrancl_into_rtrancl [OF host0_reachable(2)]) (rule host_call.intros)
  have "replicate 6 0 = [0, 0, 0, 0, 0, 0 :: u8]" by (simp add: eval_nat_numeral)
  then have wf: "arp_wf arp0 (h_mac host1)"
    by (simp add: arp_wf_def arp0_def mac0_def host1_waiting unicast_defs)
  have n: "bt_get (h_neighbors host1) (a_sender arp0) = Some \<lparr>n_mac = None, n_deadline = 1005, n_attempts = 1, n_queue = [packet0]\<rparr>"
    by (simp add: arp0_def host1_waiting)
  from arp_resolution [OF host0_reachable(1) call host1_waiting(2) n _ wf, of 100] show ?thesis
    by (auto simp: arp0_def mac0_def covers_def host1_waiting)
qed

end
