(* ===== verification/Nat64_Packets.thy ===== *)
theory Nat64_Packets
  imports Nat64_Tables Wire
begin

text \<open>
  The packet formats of the translator, \<open>nat64/translate/headers.rs\<close>, the pure functions of
  \<open>nat64/translate.rs\<close> and \<open>nat64/translate/errors.rs\<close>: the ordered walk over IPv6 extension
  headers, source routes, transport ports and checksums, quoted packets in both directions with the
  incremental checksum update, and the RFC 4884 extensions. The lemmas show that none of them
  panics and that the incremental update is the full recomputation.
\<close>

section \<open>Definitions\<close>

subsection \<open>Extension headers\<close>

text \<open>The four flags of \<open>transport6\<close>: which ordered headers were met.\<close>

record ext_seen =
  x_hop :: bool
  x_route :: bool
  x_before :: bool
  x_after :: bool

text \<open>The arms of \<open>match next\<close>; \<open>None\<close> is the last one.\<close>

definition ext_step :: "u8 \<Rightarrow> nat \<Rightarrow> ext_seen \<Rightarrow> ext_seen option" where
  "ext_step nxt at x =
     (if nxt = 0 \<and> at = 40 \<and> \<not> x_hop x then Some (x\<lparr>x_hop := True\<rparr>)
      else if nxt = 43 \<and> \<not> x_route x \<and> \<not> x_after x then Some (x\<lparr>x_route := True\<rparr>)
      else if nxt = 60 \<and> \<not> x_route x \<and> \<not> x_before x then Some (x\<lparr>x_before := True\<rparr>)
      else if nxt = 60 \<and> x_route x \<and> \<not> x_after x then Some (x\<lparr>x_after := True\<rparr>)
      else None)"

text \<open>The options of a hop-by-hop or destination header that ends at \<open>stop\<close>.\<close>

function option6_loop :: "bytes \<Rightarrow> nat \<Rightarrow> nat \<Rightarrow> (io_error, unit) outcome" where
  "option6_loop b stop opt =
     (if opt < stop then
        and_then (idx b opt) (\<lambda>kind.
          if kind = 0 then option6_loop b stop (opt + 1)
          else if stop < opt + 2 then Err InvalidData
          else and_then (idx b (opt + 1)) (\<lambda>l.
            if stop < opt + (unat l + 2) then Err InvalidData else option6_loop b stop (opt + (unat l + 2))))
      else Ok ())"
  by pat_completeness auto
termination
  by (relation "measure (\<lambda>(b, stop, opt). stop - opt)") auto

declare option6_loop.simps [simp del]

fun transport6_loop :: "nat \<Rightarrow> bytes \<Rightarrow> u8 \<Rightarrow> nat \<Rightarrow> ext_seen \<Rightarrow> u32 option \<Rightarrow> (io_error, u8 \<times> nat \<times> u32 option) outcome" where
  "transport6_loop 0 b nxt at x problem = Err InvalidData"
| "transport6_loop (Suc k) b nxt at x problem =
     (if \<not> List.member [0, 43, 60] nxt then Ok (nxt, at, problem)
      else if length b < at + 8 then Err InvalidData
      else and_then (idx b (at + 1)) (\<lambda>l.
        let n = (unat l + 1) * 8 in
        if length b < at + n then Err InvalidData
        else case ext_step nxt at x of
          None \<Rightarrow> Err InvalidData
        | Some x' \<Rightarrow>
            and_then (if nxt = 43
                then map_ok (\<lambda>left. if left \<noteq> 0 then Some (of_nat (at + 3)) else problem) (idx b (at + 3))
                else Ok problem) (\<lambda>problem'.
            and_then (if nxt \<noteq> 43 then option6_loop b (at + n) (at + 2) else Ok ()) (\<lambda>_.
            and_then (idx b at) (\<lambda>nxt'. transport6_loop k b nxt' (at + n) x' problem')))))"

definition transport6 :: "bytes \<Rightarrow> (io_error, u8 \<times> nat \<times> u32 option) outcome" where
  "transport6 b =
     and_then (idx b 6) (\<lambda>nxt.
       transport6_loop 16 b nxt 40 \<lparr>x_hop = False, x_route = False, x_before = False, x_after = False\<rparr> None)"

text \<open>
  The loop of \<open>unexpired_source_route\<close> advances by the length octet of an option, which the
  packet parser has checked to be at least two. The first argument counts the steps left; a loop
  that does not end within them is a \<open>Panic\<close> here, so that the absence of panics below also says
  that the loop ends.
\<close>

fun source_route_loop :: "nat \<Rightarrow> bytes \<Rightarrow> nat \<Rightarrow> nat \<Rightarrow> (io_error, bool) outcome" where
  "source_route_loop 0 b h at = (if at < h then Panic else Ok False)"
| "source_route_loop (Suc k) b h at =
     (if \<not> at < h then Ok False
      else and_then (idx b at) (\<lambda>kind.
        if kind = 0 then Ok False
        else if kind = 1 then source_route_loop k b h (at + 1)
        else and_then (idx b (at + 1)) (\<lambda>l.
          let len = unat l in
          if List.member [131, 137] kind then
            if len < 3 \<or> (len - 3) mod 4 \<noteq> 0 then Err InvalidData
            else and_then (idx b (at + 2)) (\<lambda>ptr.
              let pointer = unat ptr in
              if pointer < 4 \<or> (pointer - 4) mod 4 \<noteq> 0 then Err InvalidData
              else if pointer \<le> len then Ok True
              else source_route_loop k b h (at + len))
          else source_route_loop k b h (at + len))))"

definition unexpired_source_route :: "packet4 \<Rightarrow> (io_error, bool) outcome" where
  "unexpired_source_route p = source_route_loop (p_header_len p) (p_bytes p) (p_header_len p) 20"

subsection \<open>Transport headers and checksums\<close>

definition udp_ports :: "bytes \<Rightarrow> (io_error, u16 \<times> u16) outcome" where
  "udp_ports b =
     (if length b < 8 then Err InvalidData
      else and_then (u16_at b 4) (\<lambda>len.
        if unat len \<noteq> length b then Err InvalidData
        else and_then (u16_at b 0) (\<lambda>source. and_then (u16_at b 2) (\<lambda>dest.
          if dest = 0 then Err InvalidData else Ok (source, dest)))))"

definition packet_ports :: "u8 \<Rightarrow> bytes \<Rightarrow> (io_error, u16 \<times> u16) outcome" where
  "packet_ports protocol b =
     (if protocol = 6 then tcp_ports b
      else if protocol = 17 then udp_ports b
      else if protocol = 1 \<or> protocol = 58 then
        if length b < 8 then Err InvalidData
        else and_then (idx b 1) (\<lambda>code. and_then (idx b 0) (\<lambda>kind.
          if code \<noteq> 0 \<or> \<not> List.member (if protocol = 1 then [0, 8] else [128, 129]) kind then Err InvalidData
          else and_then (u16_at b 4) (\<lambda>id. Ok (id, id))))
      else Err InvalidData)"

definition checksum_offset :: "u8 \<Rightarrow> nat" where
  "checksum_offset protocol = (if protocol = 6 then 16 else if protocol = 17 then 6 else 2)"

definition nonzero :: "u16 \<Rightarrow> u16" where
  "nonzero v = (if v = 0 then 65535 else v)"

definition transport_sum :: "u8 \<Rightarrow> u16 \<Rightarrow> u16" where
  "transport_sum protocol v = (if protocol = 17 then nonzero v else v)"

definition checksum4 :: "ipv4 \<Rightarrow> ipv4 \<Rightarrow> u8 \<Rightarrow> bytes \<Rightarrow> u16" where
  "checksum4 source destination protocol b =
     (if protocol = 1 then ipv4_checksum b
      else ipv4_checksum (to_be 4 source @ to_be 4 destination @ [0, protocol]
             @ to_be 2 (of_nat (length b) :: u16) @ b))"

text \<open>\<open>payload[at..at + 2].fill(0)\<close>, the sum, and its two octets.\<close>

definition fill_sum :: "u8 \<Rightarrow> (bytes \<Rightarrow> u16) \<Rightarrow> bytes \<Rightarrow> (io_error, bytes) outcome" where
  "fill_sum protocol ck payload =
     (let at = checksum_offset protocol in
      and_then (put_r payload at [0, 0]) (\<lambda>payload.
        put_r payload at (to_be 2 (transport_sum protocol (ck payload)))))"

definition encode6 :: "u8 \<Rightarrow> ipv6 \<Rightarrow> ipv6 \<Rightarrow> u8 \<Rightarrow> u8 \<Rightarrow> bytes \<Rightarrow> (io_error, bytes) outcome" where
  "encode6 protocol source dest class hop payload =
     and_then (fill_sum protocol (checksum source dest protocol) payload) (\<lambda>payload.
     and_then (map_err (\<lambda>_. InvalidData) (ipv6_packet source dest protocol hop payload)) (\<lambda>out.
     and_then (idx out 0) (\<lambda>b0.
     and_then (put_r out 0 [b0 OR drop_bit 4 class]) (\<lambda>out. put_r out 1 [push_bit 4 class]))))"

subsection \<open>Quoted packets\<close>

text \<open>The last four octets of an IPv6 address.\<close>

definition extract4 :: "ipv6 \<Rightarrow> ipv4" where
  "extract4 a = from_be (drop 12 (to_be 16 a))"

definition icmp4_filled :: "bytes \<Rightarrow> (io_error, bytes) outcome" where
  "icmp4_filled b = put_r b 2 (to_be 2 (ipv4_checksum b))"

definition quoted_ports :: "u8 \<Rightarrow> bytes \<Rightarrow> (io_error, (u16 \<times> u16) option) outcome" where
  "quoted_ports protocol b =
     (if length b < 8 then Ok None
      else if protocol = 6 \<or> protocol = 17 then
        and_then (u16_at b 0) (\<lambda>source. and_then (u16_at b 2) (\<lambda>dest. Ok (Some (source, dest))))
      else if protocol = 1 \<or> protocol = 58 then
        and_then (idx b 1) (\<lambda>code. and_then (idx b 0) (\<lambda>kind.
          if code = 0 \<and> List.member (if protocol = 1 then [0, 8] else [128, 129]) kind
          then and_then (u16_at b 4) (\<lambda>id. Ok (Some (id, id))) else Ok None))
      else Ok None)"

record quote6 =
  q_source :: ipv6
  q_dest :: ipv6
  q_protocol :: u8
  q_hop :: u8
  q_class :: u8
  q_len :: nat
  q_payload :: bytes
  q_fragment :: "(u32 \<times> bool) option"
  q_non_initial :: bool

text \<open>
  The block \<open>if protocol == 44\<close> of \<open>Quote6::parse\<close>: the inner protocol, the offset behind the
  Fragment header, the fragment and whether it is not the first.
\<close>

definition quote_fragment :: "bytes \<Rightarrow> u8 \<Rightarrow> nat \<Rightarrow> (io_error, u8 \<times> nat \<times> (u32 \<times> bool) option \<times> bool) outcome" where
  "quote_fragment b protocol offset =
     (if protocol \<noteq> 44 then Ok (protocol, offset, None, False)
      else if length b < offset + 8 then Err InvalidData
      else and_then (idx b (offset + 1)) (\<lambda>reserved.
        if reserved \<noteq> 0 then Err InvalidData
        else and_then (u16_at b (offset + 2)) (\<lambda>flags. and_then (idx b offset) (\<lambda>inner.
          if flags AND 6 \<noteq> 0 \<or> List.member [0, 43, 44, 51, 60] inner then Err InvalidData
          else and_then (u32_at b (offset + 4)) (\<lambda>id.
            Ok (inner, offset + 8, Some (id, flags AND 1 \<noteq> 0), flags AND 0xfff8 \<noteq> 0))))))"

definition quote6_parse :: "bytes \<Rightarrow> (io_error, quote6) outcome" where
  "quote6_parse b =
     (if length b < 48 then Err InvalidData
      else and_then (idx b 0) (\<lambda>b0.
        if drop_bit 4 b0 \<noteq> 6 then Err InvalidData
        else and_then (u16_at b 4) (\<lambda>total.
        and_then (transport6 b) (\<lambda>(protocol, offset, problem).
        if problem \<noteq> None then Err InvalidData
        else and_then (quote_fragment b protocol offset) (\<lambda>(protocol, offset, fragment, non_initial).
        and_then (sub_chk offset 40) (\<lambda>extra.
        if unat total < extra then Err InvalidData
        else let len = unat total - extra in
        if \<not> (8 \<le> len \<and> len \<le> 65515) \<or> length b < offset + 8 then Err InvalidData
        else
          and_then (ipv6_at b 8) (\<lambda>source. and_then (ipv6_at b 24) (\<lambda>dest.
          and_then (idx b 7) (\<lambda>hop. and_then (idx b 1) (\<lambda>b1.
          and_then (slice_r b offset (min (length b) (offset + len))) (\<lambda>payload.
            Ok \<lparr>q_source = source, q_dest = dest, q_protocol = protocol, q_hop = hop,
                q_class = push_bit 4 (b0 AND 15) OR drop_bit 4 b1, q_len = len, q_payload = payload,
                q_fragment = fragment, q_non_initial = non_initial\<rparr>)))))))))))"

definition pseudo4_bytes :: "ipv4 \<Rightarrow> ipv4 \<Rightarrow> u8 \<Rightarrow> nat \<Rightarrow> bytes" where
  "pseudo4_bytes src dst p len =
     (if p = 1 then [] else to_be 4 src @ to_be 4 dst @ [0, p] @ to_be 2 (of_nat len :: u16))"

definition pseudo6_bytes :: "ipv6 \<Rightarrow> ipv6 \<Rightarrow> u8 \<Rightarrow> nat \<Rightarrow> bytes" where
  "pseudo6_bytes src dst p len = to_be 16 src @ to_be 16 dst @ to_be 4 (of_nat len :: u32) @ [0, 0, 0, p]"

text \<open>\<open>u16::from_be_bytes([chunk[0], *chunk.get(1).unwrap_or(&0)])\<close> of a nonempty chunk.\<close>

definition chunk16 :: "bytes \<Rightarrow> u16" where
  "chunk16 c = from_be [c ! 0, if 1 < length c then c ! 1 else 0]"

text \<open>A loop \<open>sum += u32::from(...)\<close> over the chunks, with its overflow check.\<close>

fun add_chunks :: "(u16 \<Rightarrow> u16) \<Rightarrow> bytes list \<Rightarrow> u32 \<Rightarrow> (io_error, u32) outcome" where
  "add_chunks f [] n = Ok n"
| "add_chunks f (c # cs) n = and_then (add_chk n (ucast (f (chunk16 c)))) (add_chunks f cs)"

definition adjust :: "u8 \<Rightarrow> bytes \<Rightarrow> bytes \<Rightarrow> bytes \<Rightarrow> bytes \<Rightarrow> nat \<Rightarrow> (io_error, bytes) outcome" where
  "adjust p old b before after len =
     (let at = checksum_offset p in
      if length b < at + 2 then Ok b
      else and_then (u16_at old at) (\<lambda>c.
        if p = 17 \<and> c = 0 then
          if length b \<noteq> len then Err InvalidData
          else put_r b at (to_be 2 (nonzero (ipv4_checksum (after @ b))))
        else
          and_then (add_chunks NOT (chunks 2 (before @ old)) (ucast (NOT c))) (\<lambda>n.
          and_then (add_chunks (\<lambda>w. w) (chunks 2 (after @ b)) n) (\<lambda>n.
            put_r b at (to_be 2 (transport_sum p (NOT (ucast (fold16_v4 n)))))))))"

definition quote4_to_6 :: "packet4 \<Rightarrow> ipv6 \<Rightarrow> ipv6 \<Rightarrow> u16 \<Rightarrow> (io_error, bytes) outcome" where
  "quote4_to_6 q src dst port =
     and_then (u16_at (p_bytes q) 2) (\<lambda>total.
     and_then (sub_chk (unat total) (p_header_len q)) (\<lambda>len.
     let b = p_payload q; p = (if p_protocol q = 1 then 58 else p_protocol q) in
     and_then
       (if p = 58 then
          and_then (idx b 0) (\<lambda>kind. and_then (put_r b 0 [if kind = 8 then 128 else 129]) (\<lambda>b.
            put_r b 4 (to_be 2 port)))
        else put_r b 0 (to_be 2 port)) (\<lambda>b.
     and_then (adjust p (p_payload q) b (pseudo4_bytes (p_source q) (p_destination q) (p_protocol q) len)
         (pseudo6_bytes src dst p len) len) (\<lambda>b.
     and_then (map_err (\<lambda>_. InvalidData) (ipv6_packet src dst p (p_ttl q) b)) (\<lambda>out.
     and_then (idx out 0) (\<lambda>b0.
     and_then (put_r out 0 [b0 OR drop_bit 4 (p_traffic_class q)]) (\<lambda>out.
     and_then (put_r out 1 [push_bit 4 (p_traffic_class q)]) (\<lambda>out.
     and_then (put_r out 4 (to_be 2 (of_nat len :: u16))) (\<lambda>out.
     if p_more_fragments q then
       and_then (put_r out 6 [44]) (\<lambda>out.
       and_then (ok_or InvalidData (u16_try_from (len + 8))) (\<lambda>n.
       and_then (put_r out 4 (to_be 2 n)) (\<lambda>out.
       and_then (slice_r out 0 40) (\<lambda>front. and_then (slice_from out 40) (\<lambda>back.
         Ok (front @ [p, 0, 0, 1] @ to_be 4 (ucast (p_id q) :: u32) @ back))))))
     else Ok out)))))))))"

definition quote6_to_4 :: "quote6 \<Rightarrow> ipv4 \<Rightarrow> ipv4 \<Rightarrow> u16 \<Rightarrow> (io_error, bytes) outcome" where
  "quote6_to_4 q src dst port =
     (let b = q_payload q; p = (if q_protocol q = 58 then 1 else q_protocol q) in
      and_then
        (if p = 1 then
           and_then (idx b 0) (\<lambda>kind. and_then (put_r b 0 [if kind = 128 then 8 else 0]) (\<lambda>b.
             put_r b 4 (to_be 2 port)))
         else put_r b 2 (to_be 2 port)) (\<lambda>b.
      and_then (adjust p (q_payload q) b (pseudo6_bytes (q_source q) (q_dest q) (q_protocol q) (q_len q))
          (pseudo4_bytes src dst p (q_len q)) (q_len q)) (\<lambda>b.
      and_then (encode4 src dst p (q_hop q) b) (\<lambda>out.
      and_then (put_r out 1 [q_class q]) (\<lambda>out.
      and_then (put_r out 2 (to_be 2 (of_nat (q_len q + 20) :: u16))) (\<lambda>out.
      and_then
        (case q_fragment q of
           Some (ident, m) \<Rightarrow> and_then (put_r out 4 (to_be 2 (ucast ident :: u16))) (\<lambda>out.
             put_r out 6 [if m then 0x20 else 0])
         | None \<Rightarrow> if 1260 < q_len q + 20 then put_r out 6 [0x40] else Ok out) (\<lambda>out.
      and_then (put_r out 10 [0, 0]) (\<lambda>out.
      and_then (slice_r out 0 20) (\<lambda>header.
        put_r out 10 (to_be 2 (ipv4_checksum header)))))))))))"

subsection \<open>Extension objects of RFC 4884\<close>

function extension_loop :: "bytes \<Rightarrow> nat \<Rightarrow> (io_error, unit) outcome" where
  "extension_loop x at =
     (if at < length x then
        if length x < at + 4 then Err InvalidData
        else and_then (u16_at x at) (\<lambda>w.
          if unat w < 4 \<or> unat w mod 4 \<noteq> 0 \<or> length x < at + unat w then Err InvalidData
          else extension_loop x (at + unat w))
      else Ok ())"
  by pat_completeness auto
termination
  by (relation "measure (\<lambda>(x, at). length x - at)") auto

declare extension_loop.simps [simp del]

definition split_extensions :: "bytes \<Rightarrow> bool \<Rightarrow> (io_error, bytes \<times> bytes) outcome" where
  "split_extensions b v4 =
     and_then (idx b 0) (\<lambda>kind.
     and_then
       (if List.member (if v4 then [3, 11, 12] else [1, 3]) kind
        then map_ok unat (idx b (if v4 then 5 else 4)) else Ok 0) (\<lambda>units.
     if units = 0 then map_ok (\<lambda>q. (q, [])) (slice_from b 8)
     else let len = units * (if v4 then 4 else 8) in
     if len < 128 \<or> length b < 8 + len + 8 then Err InvalidData
     else
       and_then (slice_from b (8 + len)) (\<lambda>ext.
       and_then (idx ext 0) (\<lambda>e0. and_then (slice_r ext 2 4) (\<lambda>n.
       if drop_bit 4 e0 \<noteq> 2 \<or> length ext mod 4 \<noteq> 0 \<or> n \<noteq> [0, 0] \<and> ipv4_checksum ext \<noteq> 0
       then Err InvalidData
       else and_then (extension_loop ext 4) (\<lambda>_.
         map_ok (\<lambda>q. (q, ext)) (slice_r b 8 (8 + len))))))))"

definition join_extensions :: "u8 \<Rightarrow> u8 \<Rightarrow> u32 \<Rightarrow> bytes \<Rightarrow> bytes \<Rightarrow> bool \<Rightarrow> bytes" where
  "join_extensions kind code value quote ext v4 =
     (let body = [kind, code, 0, 0] @ to_be 4 value;
          cap = (if v4 then 548 else 1232);
          unit = (if v4 then 4 else 8);
          padded = div_ceil (max (length quote) 128) unit * unit;
          supported = List.member (if v4 then [3, 11, 12] else [1, 3]) kind
      in if supported \<and> ext \<noteq> [] \<and> padded + length ext \<le> cap \<and> padded div unit \<le> 255
         then body[(if v4 then 5 else 4) := of_nat (padded div unit)]
                @ (quote @ replicate (padded - length quote) 0) @ ext
         else body @ take cap quote)"

section \<open>Lemmas\<close>

lemma option6_loop_ensures: "stop \<le> length b \<Longrightarrow> ensures (option6_loop b stop opt) (\<lambda>_. True)"
proof (induction b stop opt rule: option6_loop.induct)
  case (1 b stop opt)
  then show ?case by (subst option6_loop.simps) (auto simp: wp)
qed

lemmas option6_loop_wp [wp] = ensures_call [OF option6_loop_ensures]

lemma transport6_loop_ensures:
  "40 \<le> at \<Longrightarrow> at \<le> length b \<Longrightarrow>
    ensures (transport6_loop k b nxt at x problem) (\<lambda>(_, at', _). 40 \<le> at' \<and> at' \<le> length b)"
proof (induction k arbitrary: nxt at x problem)
  case 0
  then show ?case by simp
next
  case (Suc k)
  show ?case
    using Suc.prems by (auto simp: wp Let_def split: option.splits intro!: Suc.IH)
qed

lemma transport6_ensures: "40 \<le> length b \<Longrightarrow> ensures (transport6 b) (\<lambda>(_, at, _). 40 \<le> at \<and> at \<le> length b)"
  by (simp add: transport6_def wp transport6_loop_ensures)

lemmas transport6_wp [wp] = ensures_call [OF transport6_ensures]

text \<open>The walk over source routes stays inside options that the packet parser has accepted.\<close>

lemma source_route_loop_ensures:
  "option_loop b h at = Ok () \<Longrightarrow> h \<le> length b \<Longrightarrow> h \<le> at + k \<Longrightarrow>
    ensures (source_route_loop k b h at) (\<lambda>_. True)"
proof (induction k arbitrary: at)
  case 0
  then show ?case by simp
next
  case (Suc k)
  show ?case
  proof (cases "at < h")
    case True
    note step = Suc.prems(1) [unfolded option_loop.simps [of b h at]]
    have next1: "option_loop b h (at + 1) = Ok ()" if "b ! at = 1" using step True Suc.prems(2) that by simp
    have tlv: "at + 2 \<le> h \<and> 2 \<le> unat (b ! (at + 1)) \<and> at + unat (b ! (at + 1)) \<le> h
        \<and> option_loop b h (at + unat (b ! (at + 1))) = Ok ()" if "b ! at \<noteq> 0" "b ! at \<noteq> 1"
      using step True Suc.prems(2) that by (auto split: if_splits)
    show ?thesis
      using True Suc.prems next1 tlv Suc.IH [of "at + 1"] Suc.IH [of "at + unat (b ! (at + 1))"]
      by (auto simp: wp Let_def)
  qed simp
qed

lemma option_loop_take:
  "h \<le> n \<Longrightarrow> n \<le> length b \<Longrightarrow> option_loop (take n b) h at = option_loop b h at"
proof (induction b h at rule: option_loop.induct)
  case (1 b h at)
  show ?case
  proof (cases "at < h")
    case True
    then show ?thesis
      using 1 by (subst (1 2) option_loop.simps) (auto simp: idx_def slice_r_def drop_take min_def)
  qed (simp add: option_loop.simps)
qed

text \<open>What the translator uses of an accepted packet beyond \<open>packet_wf\<close>.\<close>

definition packet_walk :: "packet4 \<Rightarrow> bool" where
  "packet_walk p \<longleftrightarrow> option_loop (p_bytes p) (p_header_len p) 20 = Ok ()
     \<and> p_header_len p \<le> unat (from_be (take 2 (drop 2 (p_bytes p))) :: u16)"

lemma parse_inner_walk: "parse_inner b quoted = Ok p \<Longrightarrow> packet_walk p"
proof -
  assume parse: "parse_inner b quoted = Ok p"
  let ?h = "unat (b ! 0 AND 15) * 4" and ?n = "unat (from_be (take 2 (drop 2 b)) :: u16)"
  from parse have len: "20 \<le> ?h" "?h \<le> length b" "?h \<le> ?n" and opt: "option_loop b ?h 20 = Ok ()"
    and p: "p = fields_of b ?h ?n"
    by (auto simp: parse_inner_eq Let_def and_then_Ok_iff split: if_splits)
  have t2: "take 2 (drop 2 (p_bytes p)) = take 2 (drop 2 b)"
    using len by (auto simp: p fields_of_def drop_take min_def)
  have "option_loop (p_bytes p) (p_header_len p) 20 = Ok ()"
    using option_loop_take [of ?h "min ?n (length b)" b 20] len opt by (simp add: p fields_of_def)
  then show ?thesis using len unfolding packet_walk_def t2 by (simp add: p fields_of_def)
qed

lemma unexpired_source_route_ensures:
  assumes "packet_walk p" and "p_header_len p \<le> length (p_bytes p)"
  shows "ensures (unexpired_source_route p) (\<lambda>_. True)"
  using source_route_loop_ensures [of "p_bytes p" "p_header_len p" 20 "p_header_len p"] assms
  by (simp add: unexpired_source_route_def packet_walk_def)

lemma udp_ports_ensures: "ensures (udp_ports b) (\<lambda>_. 8 \<le> length b)"
  by (auto simp: udp_ports_def wp)

lemmas udp_ports_wp [wp] = ensures_call [OF udp_ports_ensures]

lemma packet_ports_ensures:
  "ensures (packet_ports protocol b) (\<lambda>_. 8 \<le> length b \<and> (protocol = 6 \<longrightarrow> 20 \<le> length b))"
  using ensures_mono [OF tcp_ports_ensures [of b]] ensures_mono [OF udp_ports_ensures [of b]]
  by (auto simp: packet_ports_def wp)

lemma checksum_offset_le: "checksum_offset p + 2 \<le> (if p = 6 then 18 else 8)"
  by (simp add: checksum_offset_def)

lemma checksum_offset_even [simp]: "even (checksum_offset p)"
  by (simp add: checksum_offset_def)

lemma fill_sum_ensures:
  "checksum_offset p + 2 \<le> length b \<Longrightarrow> ensures (fill_sum p ck b) (\<lambda>b'. length b' = length b)"
  by (simp add: fill_sum_def Let_def wp)

lemma encode6_ensures: "checksum_offset p + 2 \<le> length b \<Longrightarrow> ensures (encode6 p s d c h b) (\<lambda>_. True)"
  unfolding encode6_def
  by (auto simp: wp ipv6_packet_def ensures_call [OF fill_sum_ensures])

lemma quoted_ports_ensures: "ensures (quoted_ports p b) (\<lambda>_. True)"
  by (auto simp: quoted_ports_def wp)

lemma quote_fragment_ensures:
  "40 \<le> at \<Longrightarrow> at \<le> length b \<Longrightarrow> ensures (quote_fragment b p at) (\<lambda>(_, at', _). 40 \<le> at' \<and> at' \<le> length b)"
  by (auto simp: quote_fragment_def wp)

lemma quote6_parse_ensures:
  "ensures (quote6_parse b) (\<lambda>q. 8 \<le> length (q_payload q) \<and> length (q_payload q) \<le> q_len q \<and> q_len q \<le> 65515
     \<and> length (q_payload q) + 40 \<le> length b)"
proof (cases "length b < 48")
  case False
  have f: "ensures (quote_fragment b p at) Q \<longleftrightarrow> (\<forall>x. quote_fragment b p at = Ok x \<longrightarrow> Q x)" if "40 \<le> at" "at \<le> length b" for p at Q
    by (rule ensures_call [OF quote_fragment_ensures [OF that]])
  show ?thesis
  proof (cases "transport6 b")
    case (Ok x)
    obtain p at pr where x: "x = (p, at, pr)" by (cases x)
    have at: "40 \<le> at" "at \<le> length b" using transport6_ensures [of b] False Ok x by auto
    show ?thesis
    proof (cases "quote_fragment b p at")
      case o2: (Ok y)
      obtain p' at' fr n where y: "y = (p', at', fr, n)" by (cases y)
      have "40 \<le> at'" "at' \<le> length b" using quote_fragment_ensures [OF at, of p] o2 y by auto
      then show ?thesis using False by (auto simp: quote6_parse_def wp Ok x o2 y Let_def)
    next
      case Panic
      then show ?thesis using quote_fragment_ensures [OF at, of p] by simp
    qed (use False in \<open>auto simp: quote6_parse_def wp Ok x\<close>)
  next
    case Panic
    then show ?thesis using transport6_ensures [of b] False by simp
  qed (use False in \<open>auto simp: quote6_parse_def wp\<close>)
qed (simp add: quote6_parse_def)

subsection \<open>Incremental checksum update\<close>

lemma ones_sum_cong:
  assumes "0 < a" and "0 < b" and "a mod 65535 = b mod 65535"
  shows "ones_sum a = ones_sum b"
proof -
  obtain x y where xy: "a = Suc x" "b = Suc y" using assms(1,2) by (metis gr0_implies_Suc)
  have "(a + 65534) mod 65535 = (b + 65534) mod 65535" using assms(3) by (metis mod_add_left_eq)
  then have "(x + 65535) mod 65535 = (y + 65535) mod 65535" by (simp add: xy)
  then have "x mod 65535 = y mod 65535" by simp
  then show ?thesis by (simp add: ones_sum_def xy)
qed

lemma ones_sum_full: "ones_sum n = 65535 \<longleftrightarrow> 0 < n \<and> n mod 65535 = 0"
proof (cases n)
  case (Suc m)
  have "m mod 65535 < 65535" by simp
  then have "m mod 65535 + 1 = 65535 \<longleftrightarrow> (m + 1) mod 65535 = 0"
    by (simp add: mod_Suc)
  then show ?thesis by (simp add: ones_sum_def Suc)
qed (simp add: ones_sum_def)

lemma chunks2_simps [simp]: "chunks 2 [a] = [[a]]" "chunks 2 (a # b # bs) = [a, b] # chunks 2 bs"
  by (simp_all add: chunks.simps)

lemma unat_chunk16 [simp]: "unat (chunk16 [a]) = 256 * unat a" "unat (chunk16 [a, b]) = 256 * unat a + unat b"
  using unat_from_be2 [of a 0] by (simp_all add: chunk16_def unat_from_be2)

lemma chunk_sum: "(\<Sum>c \<leftarrow> chunks 2 bs. unat (chunk16 c)) = word_sum bs"
  by (induction bs rule: word_sum.induct) simp_all

lemma unat_not16: "unat (NOT (w :: u16)) = 65535 - unat w"
proof -
  have "NOT w = - 1 - w" by (simp add: not_eq_complement)
  then show ?thesis by (simp add: unat_sub unsigned_minus_1_eq_mask mask_eq_exp_minus_1)
qed

lemma chunk_not_sum:
  "(\<Sum>c \<leftarrow> chunks 2 bs. unat (NOT (chunk16 c))) + word_sum bs = 65535 * length (chunks 2 bs)"
proof (induction bs rule: word_sum.induct)
  case (2 a)
  then show ?case using u8_less [of a] by (simp add: unat_not16)
next
  case (3 a b bs)
  then show ?case using u8_less [of a] u8_less [of b] by (simp add: unat_not16)
qed simp

lemma length_chunks2: "length (chunks 2 (bs :: bytes)) = (length bs + 1) div 2"
  by (induction bs rule: word_sum.induct) simp_all

lemma add_chunks_Ok:
  "unat n + (\<Sum>c \<leftarrow> cs. unat (f (chunk16 c))) < 2 ^ 32 \<Longrightarrow>
    \<exists>m. add_chunks f cs n = Ok m \<and> unat m = unat n + (\<Sum>c \<leftarrow> cs. unat (f (chunk16 c)))"
proof (induction cs arbitrary: n)
  case Nil
  then show ?case by simp
next
  case (Cons c cs)
  let ?n = "n + ucast (f (chunk16 c))"
  have n: "unat ?n = unat n + unat (f (chunk16 c))" using Cons.prems by (simp add: unat_word_ariths)
  then have "unat ?n + (\<Sum>c \<leftarrow> cs. unat (f (chunk16 c))) < 2 ^ 32" using Cons.prems by simp
  from Cons.IH [OF this] n Cons.prems show ?case by (auto simp: add_chk_def)
qed

text \<open>The two loops of \<open>adjust\<close> compute the old sum's complement plus the new sum.\<close>

lemma adjust_sum:
  assumes "length before \<le> 40" and "length after \<le> 40" and "length old = length b" and "length b \<le> 65490"
  obtains m m' where "add_chunks NOT (chunks 2 (before @ old)) (ucast (NOT c :: u16)) = Ok m"
    and "add_chunks (\<lambda>w. w) (chunks 2 (after @ b)) m = Ok m'"
    and "unat m' + word_sum (before @ old) + unat c
      = 65535 * (1 + length (chunks 2 (before @ old))) + word_sum (after @ b)"
proof -
  let ?k = "length (chunks 2 (before @ old))" and ?l = "length (chunks 2 (after @ b))"
  let ?x = "\<Sum>c \<leftarrow> chunks 2 (before @ old). unat (NOT (chunk16 c))"
  have kl: "?k + ?l \<le> 65532" using assms by (simp add: length_chunks2)
  have x: "?x + word_sum (before @ old) = 65535 * ?k" by (rule chunk_not_sum)
  have "word_sum (after @ b) \<le> 65535 * ?l" unfolding length_chunks2 by (rule word_sum_le)
  moreover have "65535 * ?k + 65535 * ?l \<le> 65535 * 65532" using kl by (metis mult_le_mono2 add_mult_distrib2)
  ultimately have s: "?x + word_sum (after @ b) \<le> 65535 * 65532" using x by linarith
  have c: "unat (NOT c) = 65535 - unat c" "unat c \<le> 65535" by (simp_all add: unat_not16 u16_le)
  obtain m where m: "add_chunks NOT (chunks 2 (before @ old)) (ucast (NOT c)) = Ok m" "unat m = (65535 - unat c) + ?x"
  proof -
    have "unat (ucast (NOT c) :: u32) + ?x < 2 ^ 32" using s c by simp
    from add_chunks_Ok [OF this] show thesis using that c by auto
  qed
  obtain m' where m': "add_chunks (\<lambda>w. w) (chunks 2 (after @ b)) m = Ok m'" "unat m' = unat m + word_sum (after @ b)"
  proof -
    have "unat m + (\<Sum>c \<leftarrow> chunks 2 (after @ b). unat (chunk16 c)) < 2 ^ 32" using s c m(2) by (simp add: chunk_sum)
    from add_chunks_Ok [where f = "\<lambda>w. w", OF this] show thesis using that by (auto simp: chunk_sum)
  qed
  show ?thesis
  proof (rule that [OF m(1) m'(1)])
    show "unat m' + word_sum (before @ old) + unat c = 65535 * (1 + ?k) + word_sum (after @ b)"
      using m(2) m'(2) x c(2) by simp
  qed
qed

lemma adjust_ensures:
  assumes "length before \<le> 40" and "length after \<le> 40" and "length old = length b" and "length b \<le> 65490"
  shows "ensures (adjust p old b before after len) (\<lambda>b'. length b' = length b)"
proof (cases "length b < checksum_offset p + 2")
  case False
  let ?c = "from_be (take 2 (drop (checksum_offset p) old)) :: u16"
  obtain m m' where "add_chunks NOT (chunks 2 (before @ old)) (ucast (NOT ?c)) = Ok m"
    "add_chunks (\<lambda>w. w) (chunks 2 (after @ b)) m = Ok m'"
    by (rule adjust_sum [OF assms, of ?c])
  with False assms(3) show ?thesis by (auto simp: adjust_def wp Let_def)
qed (simp add: adjust_def)

text \<open>The reference: the checksum field zeroed and the sum taken over everything.\<close>

definition recompute :: "u8 \<Rightarrow> bytes \<Rightarrow> bytes \<Rightarrow> bytes" where
  "recompute p after b =
     (let at = checksum_offset p in
      put b at (to_be 2 (transport_sum p (ipv4_checksum (after @ put b at [0, 0])))))"

lemma put_self: "i + length v \<le> length b \<Longrightarrow> take (length v) (drop i b) = v \<Longrightarrow> put b i v = b"
  unfolding put_def by (metis append_take_drop_id drop_drop add.commute)

lemma put_put [simp]: "length v = length w \<Longrightarrow> i + length v \<le> length b \<Longrightarrow> put (put b i v) i w = put b i w"
  by (simp add: put_def)

lemma word_sum_field:
  assumes "even i" and "i + 2 \<le> length b" and "take 2 (drop i b) = to_be 2 c"
  shows "word_sum b = word_sum (put b i [0, 0]) + unat (c :: u16)"
proof -
  have "put (put b i [0, 0]) i (to_be 2 c) = b"
    using assms put_self [of i "to_be 2 c" b] by simp
  moreover have "take 2 (drop i (put b i [0, 0])) = [0, 0]" using assms(2) by (simp add: put_def)
  ultimately show ?thesis using word_sum_put [of i "put b i [0, 0]" c] assms(1,2) by simp
qed

lemma ipv4_checksum_zero:
  assumes "length b \<le> 131000"
  shows "ipv4_checksum b = 0 \<longleftrightarrow> 0 < word_sum b \<and> word_sum b mod 65535 = 0"
proof -
  have "ipv4_checksum b = 0 \<longleftrightarrow> unat (ipv4_checksum b) = 0" by (simp add: unsigned_eq_0_iff)
  also have "\<dots> \<longleftrightarrow> ones_sum (word_sum b) = 65535"
    using ck4.spec [OF assms] ones_sum_le [of "word_sum b"] by (simp del: ones_sum_le)
  finally show ?thesis by (simp add: ones_sum_full)
qed

text \<open>What the update writes when the old checksum was good, up to the sum of nothing.\<close>

lemma adjust_folds:
  assumes len: "length before \<le> 40" "length after \<le> 40" "length old = length b" "length b \<le> 65490"
    and even: "even (length after)"
    and room: "checksum_offset p + 2 \<le> length b"
    and field: "take 2 (drop (checksum_offset p) b) = take 2 (drop (checksum_offset p) old)"
    and valid: "ipv4_checksum (before @ old) = 0"
    and used: "p \<noteq> 17 \<or> from_be (take 2 (drop (checksum_offset p) old)) \<noteq> (0 :: u16)"
  obtains m where "adjust p old b before after n
        = Ok (put b (checksum_offset p) (to_be 2 (transport_sum p (NOT (ucast (fold16_v4 m))))))"
    and "0 < unat m" and "unat m mod 65535 = word_sum (after @ put b (checksum_offset p) [0, 0]) mod 65535"
proof -
  let ?at = "checksum_offset p" and ?w = "after @ put b (checksum_offset p) [0, 0]"
  define c :: u16 where "c = from_be (take 2 (drop ?at old))"
  have cb: "take 2 (drop ?at b) = to_be 2 c" using room len by (simp add: c_def field)
  have read: "(u16_at old ?at :: (io_error, u16) outcome) = Ok c" using room len by (simp add: c_def)
  obtain m m' where m: "add_chunks NOT (chunks 2 (before @ old)) (ucast (NOT c)) = Ok m"
      "add_chunks (\<lambda>w. w) (chunks 2 (after @ b)) m = Ok m'"
    and m': "unat m' + word_sum (before @ old) + unat c
      = 65535 * (1 + length (chunks 2 (before @ old))) + word_sum (after @ b)"
    by (rule adjust_sum [OF len, of c])
  have wb: "word_sum (after @ b) = word_sum ?w + unat c"
    using word_sum_field [OF _ room cb] even by (simp add: word_sum_append)
  have B: "word_sum (before @ old) mod 65535 = 0" using valid len by (simp add: ipv4_checksum_zero)
  have eq: "unat m' + word_sum (before @ old) = 65535 * (1 + length (chunks 2 (before @ old))) + word_sum ?w"
    using m' wb by simp
  have "word_sum (before @ old) \<le> 65535 * length (chunks 2 (before @ old))"
    unfolding length_chunks2 by (rule word_sum_le)
  then have pos: "0 < unat m'" using eq unfolding add_mult_distrib2 by linarith
  have "unat m' mod 65535 = (unat m' + word_sum (before @ old)) mod 65535" using B by (metis mod_add_right_eq add.right_neutral)
  also have "\<dots> = word_sum ?w mod 65535" unfolding eq by (metis mod_mult_self4)
  finally have cong: "unat m' mod 65535 = word_sum ?w mod 65535" .
  have "adjust p old b before after n = Ok (put b ?at (to_be 2 (transport_sum p (NOT (ucast (fold16_v4 m'))))))"
    using m used read room by (auto simp: adjust_def Let_def c_def)
  then show ?thesis using pos cong by (rule that)
qed

lemma adjust_recomputes:
  assumes len: "length before \<le> 40" "length after \<le> 40" "length old = length b" "length b \<le> 65490"
    and even: "even (length after)"
    and room: "checksum_offset p + 2 \<le> length b" "length b = n"
    and field: "take 2 (drop (checksum_offset p) b) = take 2 (drop (checksum_offset p) old)"
    and valid: "ipv4_checksum (before @ old) = 0 \<or> p = 17 \<and> take 2 (drop (checksum_offset p) old) = [0, 0]"
    and some: "0 < word_sum (after @ put b (checksum_offset p) [0, 0])"
  shows "adjust p old b before after n = Ok (recompute p after b)"
proof (cases "p = 17 \<and> from_be (take 2 (drop (checksum_offset p) old)) = (0 :: u16)")
  case True
  have two: "length (take 2 (drop (checksum_offset p) old)) = 2" using room len by simp
  have "take 2 (drop (checksum_offset p) b) = to_be 2 (0 :: u16)"
    using True field to_be_from_be_u16 [OF two] by metis
  then have "put b (checksum_offset p) [0, 0] = b"
    using put_self [of "checksum_offset p" "[0, 0]" b] room by (simp add: numeral_2_eq_2)
  moreover have "from_be (take 2 (drop (checksum_offset p) old)) = (0 :: u16)" using True by blast
  then have "(u16_at old (checksum_offset p) :: (io_error, u16) outcome) = Ok 0" using room len by simp
  ultimately show ?thesis using True room by (simp add: adjust_def recompute_def transport_sum_def Let_def)
next
  case False
  let ?w = "after @ put b (checksum_offset p) [0, 0]"
  have good: "ipv4_checksum (before @ old) = 0" using valid False by (auto simp: from_be_zeros)
  obtain m where m: "adjust p old b before after n
      = Ok (put b (checksum_offset p) (to_be 2 (transport_sum p (NOT (ucast (fold16_v4 m))))))"
    "0 < unat m" "unat m mod 65535 = word_sum ?w mod 65535"
    by (rule adjust_folds [OF len even room(1) field good, of n]) (use False in auto)
  have "ones_sum (unat m) = ones_sum (word_sum ?w)" by (rule ones_sum_cong [OF m(2) some m(3)])
  moreover have lw: "length ?w \<le> 131000" using len room by simp
  ultimately have "unat (NOT (ucast (fold16_v4 m)) :: u16) = unat (ipv4_checksum ?w)"
    using ck4.spec [OF lw] ones_sum_le by (simp add: unat_not_ucast fold16_v4_eq unat_fold16)
  then have "NOT (ucast (fold16_v4 m)) = ipv4_checksum ?w" by (simp add: word_unat_eq_iff)
  with m(1) show ?thesis by (simp add: recompute_def Let_def)
qed

text \<open>
  The hypothesis that something is left to sum is needed: for a message that is zero except for
  its checksum field, such as an echo reply with identifier and sequence number zero and no
  data, the incremental update writes zero, where the checksum of nothing is all ones.
\<close>

lemma adjust_zero_message:
  assumes len: "length before \<le> 40" "length after \<le> 40" "length old = length b" "length b \<le> 65490"
    and even: "even (length after)" and room: "checksum_offset p + 2 \<le> length b"
    and field: "take 2 (drop (checksum_offset p) b) = take 2 (drop (checksum_offset p) old)"
    and valid: "ipv4_checksum (before @ old) = 0" and p: "p \<noteq> 17"
    and none: "word_sum (after @ put b (checksum_offset p) [0, 0]) = 0"
  shows "adjust p old b before after n = Ok (put b (checksum_offset p) [0, 0])
    \<and> ipv4_checksum (after @ put b (checksum_offset p) [0, 0]) = - 1"
proof -
  let ?w = "after @ put b (checksum_offset p) [0, 0]"
  obtain m where m: "adjust p old b before after n
      = Ok (put b (checksum_offset p) (to_be 2 (transport_sum p (NOT (ucast (fold16_v4 m))))))"
    "0 < unat m" "unat m mod 65535 = word_sum ?w mod 65535"
    by (rule adjust_folds [OF len even room field valid, of n]) (use p in auto)
  have "ones_sum (unat m) = 65535" using m(2,3) none by (simp add: ones_sum_full)
  then have "unat (NOT (ucast (fold16_v4 m)) :: u16) = 0" by (simp add: unat_not_ucast fold16_v4_eq unat_fold16)
  then have "NOT (ucast (fold16_v4 m)) = (0 :: u16)" by (simp add: unsigned_eq_0_iff)
  moreover have "unat (ipv4_checksum ?w) = 65535" using ck4.spec [of ?w] len room none by (simp add: ones_sum_def)
  then have "ipv4_checksum ?w = - 1" by (simp add: word_unat_eq_iff unsigned_minus_1_eq_mask mask_eq_exp_minus_1)
  ultimately show ?thesis using m(1) p by (simp add: transport_sum_def numeral_2_eq_2)
qed

subsection \<open>Quoted packets\<close>

lemma length_pseudo [simp]: "length (pseudo6_bytes s d p n) = 40" "length (pseudo4_bytes s4 d4 p n) = (if p = 1 then 0 else 12)"
  by (simp_all add: pseudo6_bytes_def pseudo4_bytes_def)

lemma word_sum_pseudo6: "word_sum (pseudo6_bytes s d p n) = pseudo6 (s, d, p) n"
  by (simp add: pseudo6_bytes_def pseudo6_def word_sum_append)

lemma checksum_pseudo6: "length b \<le> 65535 \<Longrightarrow> ipv4_checksum (pseudo6_bytes s d p (length b) @ b) = checksum s d p b"
proof -
  assume len: "length b \<le> 65535"
  have "unat (ipv4_checksum (pseudo6_bytes s d p (length b) @ b)) = unat (checksum s d p b)"
    using ck4.spec [of "pseudo6_bytes s d p (length b) @ b"] ck6.spec [of b "(s, d, p)"] len
    by (simp add: word_sum_append word_sum_pseudo6)
  then show ?thesis by (simp add: word_unat_eq_iff)
qed

lemma checksum4_pseudo: "checksum4 s d p b = ipv4_checksum (pseudo4_bytes s d p (length b) @ b)"
  by (simp add: checksum4_def pseudo4_bytes_def)

lemma fill_sum_recompute:
  assumes "checksum_offset p + 2 \<le> length b" and "length b \<le> 65535"
  shows "fill_sum p (checksum s d p) b = Ok (recompute p (pseudo6_bytes s d p (length b)) b)"
proof -
  have "length (put b (checksum_offset p) [0, 0]) = length b" using assms(1) by simp
  then have "ipv4_checksum (pseudo6_bytes s d p (length b) @ put b (checksum_offset p) [0, 0])
      = checksum s d p (put b (checksum_offset p) [0, 0])"
    using checksum_pseudo6 [of "put b (checksum_offset p) [0, 0]" s d p] assms by simp
  then show ?thesis using assms by (simp add: fill_sum_def recompute_def Let_def)
qed

text \<open>The payload with the inside port and, for an echo, the other family's type.\<close>

definition relabel6 :: "u8 \<Rightarrow> u16 \<Rightarrow> bytes \<Rightarrow> bytes" where
  "relabel6 p port b =
     (if p = 58 then put (put b 0 [if b ! 0 = 8 then 128 else 129]) 4 (to_be 2 port) else put b 0 (to_be 2 port))"

lemma length_relabel6 [simp]: "8 \<le> length b \<Longrightarrow> length (relabel6 p port b) = length b"
  by (simp add: relabel6_def)

lemma relabel6_field:
  assumes "checksum_offset p + 2 \<le> length b" and "8 \<le> length b"
  shows "take 2 (drop (checksum_offset p) (relabel6 p port b)) = take 2 (drop (checksum_offset p) b)"
proof (rule nth_equalityI)
  show "length (take 2 (drop (checksum_offset p) (relabel6 p port b))) = length (take 2 (drop (checksum_offset p) b))"
    using assms by simp
  fix i assume "i < length (take 2 (drop (checksum_offset p) (relabel6 p port b)))"
  then have "i < 2" using assms by simp
  then show "take 2 (drop (checksum_offset p) (relabel6 p port b)) ! i = take 2 (drop (checksum_offset p) b) ! i"
    using assms by (auto simp: relabel6_def nth_put checksum_offset_def)
qed

lemma pseudo6_pos: "p \<noteq> 0 \<Longrightarrow> 0 < word_sum (pseudo6_bytes s d p n @ b)"
  by (simp add: word_sum_append word_sum_pseudo6 pseudo6_def unat_gt_0)

text \<open>The step of \<open>quote4_to_6\<close> that rewrites the payload.\<close>

lemma relabel6_step:
  assumes "8 \<le> length b"
  shows "(if p = 58 then and_then (idx b 0) (\<lambda>kind. and_then (put_r b 0 [if kind = 8 then 128 else 129]) (\<lambda>b.
            put_r b 4 (to_be 2 port)))
          else put_r b 0 (to_be 2 port)) = (Ok (relabel6 p port b) :: (io_error, bytes) outcome)"
proof -
  have "(idx b 0 :: (io_error, u8) outcome) = Ok (b ! 0)" using assms by (intro idx_in) linarith
  then show ?thesis using assms by (simp add: relabel6_def)
qed

definition quote_shape :: "packet4 \<Rightarrow> bool" where
  "quote_shape q \<longleftrightarrow> packet_walk q \<and> 20 \<le> p_header_len q \<and> p_header_len q + length (p_payload q) = length (p_bytes q)
     \<and> 8 \<le> length (p_payload q) \<and> length (p_payload q) \<le> 65490"

abbreviation quote_len :: "packet4 \<Rightarrow> nat" where
  "quote_len q \<equiv> unat (from_be (take 2 (drop 2 (p_bytes q))) :: u16) - p_header_len q"

lemma quote4_to_6_eq:
  assumes "quote_shape q"
  shows "quote4_to_6 q src dst port =
    (let p = (if p_protocol q = 1 then 58 else p_protocol q); len = quote_len q in
     and_then (adjust p (p_payload q) (relabel6 p port (p_payload q))
         (pseudo4_bytes (p_source q) (p_destination q) (p_protocol q) len) (pseudo6_bytes src dst p len) len) (\<lambda>b.
     and_then (map_err (\<lambda>_. InvalidData) (ipv6_packet src dst p (p_ttl q) b)) (\<lambda>out.
     and_then (idx out 0) (\<lambda>b0.
     and_then (put_r out 0 [b0 OR drop_bit 4 (p_traffic_class q)]) (\<lambda>out.
     and_then (put_r out 1 [push_bit 4 (p_traffic_class q)]) (\<lambda>out.
     and_then (put_r out 4 (to_be 2 (of_nat len :: u16))) (\<lambda>out.
     if p_more_fragments q then
       and_then (put_r out 6 [44]) (\<lambda>out.
       and_then (ok_or InvalidData (u16_try_from (len + 8))) (\<lambda>n.
       and_then (put_r out 4 (to_be 2 n)) (\<lambda>out.
       and_then (slice_r out 0 40) (\<lambda>front. and_then (slice_from out 40) (\<lambda>back.
         Ok (front @ [p, 0, 0, 1] @ to_be 4 (ucast (p_id q) :: u32) @ back))))))
     else Ok out)))))))"
proof -
  have reads: "(u16_at (p_bytes q) 2 :: (io_error, u16) outcome) = Ok (from_be (take 2 (drop 2 (p_bytes q))))"
    "(sub_chk (unat (from_be (take 2 (drop 2 (p_bytes q))) :: u16)) (p_header_len q) :: (io_error, nat) outcome) = Ok (quote_len q)"
    using assms by (simp_all add: quote_shape_def packet_walk_def sub_chk_def)
  show ?thesis
    unfolding quote4_to_6_def reads and_then.simps Let_def
    using assms by (simp add: quote_shape_def relabel6_step [of "p_payload q"])
qed

lemma quote4_to_6_ensures: "quote_shape q \<Longrightarrow> ensures (quote4_to_6 q src dst port) (\<lambda>_. True)"
proof -
  assume q: "quote_shape q"
  define p where "p = (if p_protocol q = 1 then 58 else p_protocol q)"
  define b where "b = relabel6 p port (p_payload q)"
  define len where "len = quote_len q"
  have lb: "length b = length (p_payload q)" using q by (simp add: b_def quote_shape_def)
  have ad: "ensures (adjust p (p_payload q) b (pseudo4_bytes (p_source q) (p_destination q) (p_protocol q) len)
      (pseudo6_bytes src dst p len) len) (\<lambda>b'. length b' = length b)"
    by (rule adjust_ensures) (use q lb in \<open>auto simp: quote_shape_def\<close>)
  show ?thesis
    unfolding quote4_to_6_eq [OF q] Let_def p_def [symmetric] b_def [symmetric] len_def [symmetric]
    by (auto simp: wp ensures_call [OF ad] ipv6_packet_def)
qed

text \<open>For a complete quote with a good checksum the incremental path is the full encoder.\<close>

lemma quote4_to_6_encode6:
  assumes q: "quote_shape q" and complete: "quote_len q = length (p_payload q)"
    and pr: "p_protocol q \<in> {1, 6, 17}" and whole: "\<not> p_more_fragments q"
    and room: "p_protocol q = 6 \<longrightarrow> 18 \<le> length (p_payload q)"
    and valid: "checksum4 (p_source q) (p_destination q) (p_protocol q) (p_payload q) = 0
      \<or> p_protocol q = 17 \<and> take 2 (drop 6 (p_payload q)) = [0, 0]"
  shows "quote4_to_6 q src dst port =
    (let p = (if p_protocol q = 1 then 58 else p_protocol q) in
     encode6 p src dst (p_traffic_class q) (p_ttl q) (relabel6 p port (p_payload q)))"
proof -
  define p where "p = (if p_protocol q = 1 then 58 else p_protocol q)"
  define b where "b = relabel6 p port (p_payload q)"
  let ?pl = "p_payload q" and ?n = "length (p_payload q)"
  have len: "8 \<le> ?n" "?n \<le> 65490" using q by (simp_all add: quote_shape_def)
  have lb: "length b = ?n" using len by (simp add: b_def)
  have at: "checksum_offset p + 2 \<le> ?n" using checksum_offset_le [of p] room len pr by (auto simp: p_def split: if_splits)
  have at_eq: "checksum_offset p + 2 \<le> length b" using at lb by simp
  have "p \<noteq> 0" using pr by (auto simp: p_def)
  then have adj: "adjust p ?pl b (pseudo4_bytes (p_source q) (p_destination q) (p_protocol q) ?n) (pseudo6_bytes src dst p ?n) ?n
      = Ok (recompute p (pseudo6_bytes src dst p ?n) b)"
    using len lb valid relabel6_field [OF at len(1), of port] at_eq
    by (intro adjust_recomputes) (auto simp: b_def checksum4_pseudo pseudo6_pos p_def checksum_offset_def)
  define r where "r = recompute p (pseudo6_bytes src dst p ?n) b"
  have lr: "length r = ?n" using at_eq lb by (simp add: r_def recompute_def Let_def)
  have fill: "fill_sum p (checksum src dst p) b = Ok r"
    using fill_sum_recompute [OF at_eq, of src dst] lb len by (simp add: r_def)
  have pkt: "ipv6_packet src dst p (p_ttl q) r = Ok ([0x60, 0, 0, 0] @ to_be 2 (of_nat ?n :: u16) @ [p, p_ttl q]
      @ to_be 16 src @ to_be 16 dst @ r)"
    using lr len by (simp add: ipv6_packet_def u16_try_from_def)
  let ?c = "p_traffic_class q"
  have "put (put (put ([0x60, 0, 0, 0] @ to_be 2 (of_nat ?n :: u16) @ [p, p_ttl q] @ to_be 16 src @ to_be 16 dst @ r)
         0 [0x60 OR drop_bit 4 ?c]) 1 [push_bit 4 ?c]) 4 (to_be 2 (of_nat ?n :: u16))
      = put (put ([0x60, 0, 0, 0] @ to_be 2 (of_nat ?n :: u16) @ [p, p_ttl q] @ to_be 16 src @ to_be 16 dst @ r)
         0 [0x60 OR drop_bit 4 ?c]) 1 [push_bit 4 ?c]"
    by (intro put_self) (simp_all add: put_def)
  then show ?thesis
    unfolding quote4_to_6_eq [OF q] encode6_def Let_def complete p_def [symmetric] b_def [symmetric] adj fill r_def [symmetric]
      and_then.simps pkt map_err.simps
    using whole by simp
qed

subsection \<open>The other direction and extensions\<close>

lemma quote6_to_4_ensures:
  assumes len: "8 \<le> length (q_payload q)" "length (q_payload q) \<le> 65470"
  shows "ensures (quote6_to_4 q src dst port) (\<lambda>_. True)"
proof -
  define p where "p = (if q_protocol q = 58 then 1 else q_protocol q)"
  define b where "b = (if p = 1 then put (put (q_payload q) 0 [if q_payload q ! 0 = 128 then 8 else 0]) 4 (to_be 2 port)
      else put (q_payload q) 2 (to_be 2 port))"
  have "(idx (q_payload q) 0 :: (io_error, u8) outcome) = Ok (q_payload q ! 0)" using len by (intro idx_in) linarith
  then have relabel: "(if p = 1 then and_then (idx (q_payload q) 0) (\<lambda>kind. and_then (put_r (q_payload q) 0 [if kind = 128 then 8 else 0]) (\<lambda>b.
            put_r b 4 (to_be 2 port)))
          else put_r (q_payload q) 2 (to_be 2 port)) = (Ok b :: (io_error, bytes) outcome)"
    using len by (simp add: b_def)
  have lb: "length b = length (q_payload q)" using len by (simp add: b_def)
  have ad: "ensures (adjust p (q_payload q) b (pseudo6_bytes (q_source q) (q_dest q) (q_protocol q) (q_len q))
      (pseudo4_bytes src dst p (q_len q)) (q_len q)) (\<lambda>b'. length b' = length b)"
    by (rule adjust_ensures) (use len lb in auto)
  show ?thesis
    unfolding quote6_to_4_def Let_def p_def [symmetric] relabel and_then.simps
    by (auto simp: wp ensures_call [OF ad] encode4_eq encoded4_bytes split: option.splits)
qed

lemma extension_loop_ensures: "ensures (extension_loop x at) (\<lambda>_. True)"
proof (induction x at rule: extension_loop.induct)
  case (1 x at)
  then show ?case by (subst extension_loop.simps) (auto simp: wp)
qed

lemmas extension_loop_wp [wp] = ensures_call [OF extension_loop_ensures]

lemma split_extensions_ensures:
  "8 \<le> length b \<Longrightarrow> ensures (split_extensions b v4) (\<lambda>(quoted, _). length quoted + 8 \<le> length b)"
proof -
  assume len: "8 \<le> length b"
  then have "idx b 0 = (Ok (b ! 0) :: (io_error, u8) outcome)" by (intro idx_in) linarith
  then show ?thesis using len by (auto simp: split_extensions_def wp Let_def)
qed

lemmas split_extensions_wp [wp] = ensures_call [OF split_extensions_ensures]

lemma length_join_extensions: "8 \<le> length (join_extensions k c v q x v4)"
  by (simp add: join_extensions_def Let_def)

lemma icmp4_filled_ensures: "4 \<le> length b \<Longrightarrow> ensures (icmp4_filled b) (\<lambda>b'. length b' = length b)"
  by (simp add: icmp4_filled_def wp)

section \<open>Properties\<close>



text \<open>
  C4: A complete, unfragmented packet quoted in an ICMPv4 error, with a good transport checksum or,
  for UDP, with none, is translated to exactly the packet the full encoder builds from its payload with the inside
  port and the IPv6 echo type: same header, same length, same checksum.
\<close>

theorem quoted_packet_reencoded:
  assumes "packet_quoted bs = Ok q" and "length bs \<le> 65507"
    and "length (p_bytes q) = unat (from_be (take 2 (drop 2 bs)) :: u16)" and "\<not> p_more_fragments q"
    and "p_protocol q \<in> {1, 6, 17}" and "8 \<le> length (p_payload q)" and "p_protocol q = 6 \<longrightarrow> 18 \<le> length (p_payload q)"
    and "checksum4 (p_source q) (p_destination q) (p_protocol q) (p_payload q) = 0
      \<or> p_protocol q = 17 \<and> take 2 (drop 6 (p_payload q)) = [0, 0]"
  shows "quote4_to_6 q src dst port =
    (let p = (if p_protocol q = 1 then 58 else p_protocol q) in
     encode6 p src dst (p_traffic_class q) (p_ttl q) (relabel6 p port (p_payload q)))"
proof -
  have wf: "packet_wf bs True q" using packet_quoted_ensures [of bs] assms(1) by simp
  have walk: "packet_walk q" using assms(1) parse_inner_walk by (simp add: packet_quoted_def)
  have "quote_shape q" using wf walk assms(2,6) by (auto simp: quote_shape_def packet_wf_def)
  moreover have "take 2 (drop 2 (p_bytes q)) = take 2 (drop 2 bs)"
  proof -
    have "20 \<le> length (p_bytes q)" "p_bytes q = take (length (p_bytes q)) bs" using wf by (auto simp: packet_wf_def)
    moreover from this(1) have "take 2 (drop 2 (take (length (p_bytes q)) bs)) = take 2 (drop 2 bs)" by (simp add: drop_take)
    ultimately show ?thesis by metis
  qed
  ultimately show ?thesis
    using wf assms by (intro quote4_to_6_encode6) (auto simp: packet_wf_def)
qed

lemma parsed_quoted: "packet_parse b = Ok q \<Longrightarrow> packet_quoted b = Ok q"
  by (auto simp: packet_parse_def packet_quoted_def parse_inner_eq Let_def split: if_splits)

text \<open>A quoted echo request of twenty-eight octets.\<close>

definition quote0 :: bytes where
  "quote0 = encoded4 0xc0000201 0xc6336401 1 64 [8, 0, 0xf7, 0xff, 0, 0, 0, 0]"

theorem quoted_packet_reencoded_witness:
  "\<exists>q. packet_quoted quote0 = Ok q
     \<and> quote4_to_6 q 1 2 5 = encode6 58 1 2 0 64 [128, 0, 0xf7, 0xff, 0, 5, 0, 0]"
proof -
  let ?pl = "[8, 0, 0xf7, 0xff, 0, 0, 0, 0] :: bytes"
  let ?q = "\<lparr>p_source = 0xc0000201, p_destination = 0xc6336401, p_ttl = 64,
    p_protocol = 1, p_payload = ?pl, p_bytes = quote0, p_header_len = 20,
    p_fragment_offset = 0, p_more_fragments = False, p_dont_fragment = False, p_id = 0, p_traffic_class = 0\<rparr>"
  have parse: "packet_parse quote0 = Ok ?q"
    unfolding quote0_def by (rule encoded4_parse) simp
  then have quoted: "packet_quoted quote0 = Ok ?q" by (rule parsed_quoted)
  have "ipv4_checksum ?pl = 0" by code_simp
  moreover have "length quote0 = 28" "unat (from_be (take 2 (drop 2 quote0)) :: u16) = 28"
    by (simp_all add: quote0_def encoded4_bytes from_be_to_be_u16)
  ultimately have "quote4_to_6 ?q 1 2 5 = encode6 58 1 2 0 64 (relabel6 58 5 ?pl)"
    using quoted_packet_reencoded [OF quoted, of 1 2 5] by (simp add: checksum4_def)
  moreover have "relabel6 58 5 ?pl = [128, 0, 0xf7, 0xff, 0, 5, 0, 0]" by code_simp
  ultimately show ?thesis using quoted by metis
qed

end
