(* ===== verification/Nat64_Translate.thy ===== *)
theory Nat64_Translate
  imports Nat64_Packets Nat64_Bindings Nat64_Selection Reassembly
begin

text \<open>
  The translator of \<open>nat64/translate.rs\<close> and \<open>nat64/translate/errors.rs\<close>: its state, the
  configuration calls, the translation of datagrams in both directions over the binding tables,
  ICMP errors with their rate limit, and the timer. Each method of the source is a function that
  returns its result with the state it leaves behind; the parts of the two long methods are named
  after what they do and composed in the source's order.
\<close>

section \<open>Definitions\<close>

subsection \<open>The translator\<close>

record tx =
  tx_link :: link
  tx_packet :: bytes

text \<open>\<open>mtus\<close> is indexed by the link: the adjacent link first, then the stub link.\<close>

record translator =
  tr_bindings :: bindings
  tr_prefixes :: "prefix list"
  tr_ipv4 :: "ipv4 option"
  tr_identification :: u16
  tr_mtus :: "u32 \<times> u32"
  tr_lowest_ipv6_mtu :: u32
  tr_error_window :: u64
  tr_error_count :: u8

abbreviation mtu4 :: "translator \<Rightarrow> u32" where "mtu4 t \<equiv> fst (tr_mtus t)"
abbreviation mtu6 :: "translator \<Rightarrow> u32" where "mtu6 t \<equiv> snd (tr_mtus t)"

text \<open>A call on the field \<open>bindings\<close>, without and with the random source.\<close>

definition on_bindings :: "(bindings \<Rightarrow> (io_error, 'a) outcome \<times> bindings) \<Rightarrow> translator \<Rightarrow> (io_error, 'a) outcome \<times> translator" where
  "on_bindings f t = (case f (tr_bindings t) of (x, s) \<Rightarrow> (x, t\<lparr>tr_bindings := s\<rparr>))"

definition on_bindings_rng :: "(bindings \<times> rng \<Rightarrow> (io_error, 'a) outcome \<times> bindings \<times> rng) \<Rightarrow> translator \<times> rng
    \<Rightarrow> (io_error, 'a) outcome \<times> translator \<times> rng" where
  "on_bindings_rng f tr = (case f (tr_bindings (fst tr), snd tr) of (x, s, r) \<Rightarrow> (x, (fst tr)\<lparr>tr_bindings := s\<rparr>, r))"

definition set_domain :: "ipv6 \<Rightarrow> translator \<Rightarrow> translator" where
  "set_domain d t = t\<lparr>tr_bindings := (tr_bindings t)\<lparr>bi_domain := d\<rparr>\<rparr>"

definition synthesize :: "translator \<Rightarrow> ipv4 \<Rightarrow> ipv6" where
  "synthesize t a = bi_domain (tr_bindings t) OR ucast a"

definition translator_new :: "prefix \<Rightarrow> ipv4 \<Rightarrow> ports \<Rightarrow> (io_error, translator) outcome" where
  "translator_new p ipv4 registry =
     (if px_length p \<noteq> 96 \<or> \<not> usable p \<or> \<not> unicast ipv4 then Err InvalidData
      else Ok \<lparr>tr_bindings = (with_ports registry)\<lparr>bi_domain := px_address p\<rparr>, tr_prefixes = [p],
               tr_ipv4 = Some ipv4, tr_identification = 0, tr_mtus = (1500, 1500),
               tr_lowest_ipv6_mtu = 1280, tr_error_window = 0, tr_error_count = 0\<rparr>)"

definition set_prefixes :: "prefix list \<Rightarrow> translator \<Rightarrow> (io_error, unit) outcome \<times> translator" where
  "set_prefixes ps t =
     (if 8 < length ps \<or> list_ex (\<lambda>p. px_length p \<noteq> 96 \<or> \<not> usable p) ps then (Err InvalidData, t)
      else if tr_prefixes t \<noteq> ps then
        then_do (on_bindings (modify (retain_domains ps)) t) (\<lambda>_ t. (Ok (), t\<lparr>tr_prefixes := ps\<rparr>))
      else (Ok (), t))"

definition set_lowest_ipv6_mtu :: "u32 \<Rightarrow> translator \<Rightarrow> (io_error, unit) outcome \<times> translator" where
  "set_lowest_ipv6_mtu mtu t =
     (if \<not> (1280 \<le> mtu \<and> mtu \<le> 65535) then (Err InvalidData, t) else (Ok (), t\<lparr>tr_lowest_ipv6_mtu := mtu\<rparr>))"

definition set_mtus :: "u32 \<times> u32 \<Rightarrow> translator \<Rightarrow> translator" where
  "set_mtus mtus t = t\<lparr>tr_mtus := mtus\<rparr>"

definition set_ipv4 :: "ipv4 option \<Rightarrow> translator \<Rightarrow> (io_error, unit) outcome \<times> translator" where
  "set_ipv4 a t =
     (if (case a of None \<Rightarrow> False | Some a \<Rightarrow> \<not> unicast a) then (Err InvalidData, t)
      else if tr_ipv4 t \<noteq> a then
        then_do (on_bindings (modify (\<lambda>s. map_ok fst (bind_clear s))) t) (\<lambda>_ t. (Ok (), t\<lparr>tr_ipv4 := a\<rparr>))
      else (Ok (), t))"

subsection \<open>Errors\<close>

definition allow_error :: "u64 \<Rightarrow> translator \<Rightarrow> (io_error, bool) outcome \<times> translator" where
  "allow_error now t =
     (let t = (if 1000 \<le> saturating_sub now (tr_error_window t)
               then t\<lparr>tr_error_window := now, tr_error_count := 0\<rparr> else t) in
      if tr_error_count t = 32 then (Ok False, t)
      else case add_chk (tr_error_count t) 1 of
        Ok n \<Rightarrow> (Ok True, t\<lparr>tr_error_count := n\<rparr>) | Err e \<Rightarrow> (Err e, t) | Panic \<Rightarrow> (Panic, t))"

text \<open>An admitted error goes out as one packet; one beyond the rate goes nowhere.\<close>

definition if_allowed :: "u64 \<Rightarrow> (translator \<Rightarrow> (io_error, tx) outcome) \<Rightarrow> translator \<Rightarrow> (io_error, tx list) outcome \<times> translator" where
  "if_allowed now f t =
     then_do (allow_error now t) (\<lambda>ok t. if \<not> ok then (Ok [], t) else (map_ok (\<lambda>x. [x]) (f t), t))"

definition generate6 :: "envelope \<Rightarrow> u8 \<Rightarrow> u8 \<Rightarrow> u32 \<Rightarrow> u64 \<Rightarrow> translator \<Rightarrow> (io_error, tx list) outcome \<times> translator" where
  "generate6 e kind code value now =
     if_allowed now (\<lambda>_. map_ok (\<lambda>packet. \<lparr>tx_link = Stub, tx_packet = packet\<rparr>)
       (encode6 58 (e_destination e) (e_source e) 0 64
          ([kind, code, 0, 0] @ to_be 4 value @ take 1232 (e_packet e))))"

definition generate4 :: "packet4 \<Rightarrow> u8 \<Rightarrow> u8 \<Rightarrow> u32 \<Rightarrow> u64 \<Rightarrow> translator \<Rightarrow> (io_error, tx list) outcome \<times> translator" where
  "generate4 p kind code value now =
     if_allowed now (\<lambda>_. map_ok (\<lambda>packet. \<lparr>tx_link = Ail, tx_packet = packet\<rparr>)
       (and_then (icmp4_filled ([kind, code, 0, 0] @ to_be 4 value @ take 548 (p_bytes p))) (\<lambda>body.
          encode4 (p_destination p) (p_source p) 1 64 body)))"

text \<open>
  \<open>error4\<close>. \<open>error4_check\<close> is its part up to the lookup of the session: the quoted packet, the
  extension, the translated type, code and value, and the quoted ports.
\<close>

definition error4_check :: "packet4 \<Rightarrow> translator
    \<Rightarrow> (io_error, (packet4 \<times> bytes \<times> (u8 \<times> u8 \<times> u32) \<times> u16 \<times> u16) option) outcome" where
  "error4_check p t =
     (let b = p_payload p in
      if length b < 8 \<or> ipv4_checksum b \<noteq> 0 then Err InvalidData
      else if tr_ipv4 t \<noteq> Some (p_destination p) \<or> \<not> unicast (p_source p) then Ok None
      else
        and_then (split_extensions b True) (\<lambda>(quoted, ext).
        and_then (packet_quoted quoted) (\<lambda>q.
        if length (p_payload q) < 8 then Err InvalidData
        else
          and_then (idx b 0) (\<lambda>b0. and_then (idx b 1) (\<lambda>b1.
          and_then (if b0 = 12 then map_ok ucast (idx b 4) else map_ok ucast (u16_at b 6)) (\<lambda>value.
          and_then (u16_at b 10) (\<lambda>quoted_length.
          case v4_to_v6 b0 b1 value (ucast quoted_length) (mtu4 t) (mtu6 t) of
            None \<Rightarrow> Ok None
          | Some kcv \<Rightarrow>
              if p_source q \<noteq> p_destination p \<or> \<not> unicast (p_destination q) \<or> p_fragment_offset q \<noteq> 0
              then Ok None
              else map_ok (map_option (\<lambda>sd. (q, ext, kcv, sd))) (quoted_ports (p_protocol q) (p_payload q)))))))))"

definition error4_send :: "packet4 \<Rightarrow> u64 \<Rightarrow> packet4 \<times> bytes \<times> (u8 \<times> u8 \<times> u32) \<times> u16 \<times> u16 \<Rightarrow> translator
    \<Rightarrow> (io_error, tx list) outcome \<times> translator" where
  "error4_send p now y t = (case y of (q, ext, (kind, code, value), sport, dport) \<Rightarrow>
     (case error_in (tr_bindings t) (p_protocol q) sport (p_destination q, if p_protocol q = 1 then 0 else dport) now of
        None \<Rightarrow> (Ok [], t)
      | Some (host, port) \<Rightarrow>
          then_do (inspect (unwrap (domain_for (tr_bindings t) (p_protocol q) sport)) t) (\<lambda>d t.
          let t = set_domain d t in
          then_do (inspect (quote4_to_6 q host (synthesize t (p_destination q)) port) t) (\<lambda>quote t.
          if_allowed now (\<lambda>t. and_then (word_sub_chk (p_ttl p) 1) (\<lambda>hop.
            map_ok (\<lambda>packet. \<lparr>tx_link = Stub, tx_packet = packet\<rparr>)
              (encode6 58 (synthesize t (p_source p)) host (p_traffic_class p) hop
                 (join_extensions kind code value quote ext False)))) t))))"

definition error4 :: "packet4 \<Rightarrow> u64 \<Rightarrow> translator \<Rightarrow> (io_error, tx list) outcome \<times> translator" where
  "error4 p now t =
     then_do (inspect (error4_check p t) t) (\<lambda>x t. case x of None \<Rightarrow> (Ok [], t) | Some y \<Rightarrow> error4_send p now y t)"

text \<open>\<open>error6\<close>, likewise: the check ends with the outside port of the session.\<close>

definition in_domain :: "translator \<Rightarrow> ipv6 \<Rightarrow> (io_error, bool) outcome" where
  "in_domain t a = map_ok (\<lambda>p. prefix_contains p a) (unwrap (prefix_new (bi_domain (tr_bindings t)) 96))"

definition error6_translate :: "bytes \<Rightarrow> bytes \<Rightarrow> quote6 \<Rightarrow> ipv4 \<Rightarrow> ipv4 \<Rightarrow> u16 \<Rightarrow> translator \<Rightarrow> (io_error, bytes option) outcome" where
  "error6_translate b ext q dest pool port t =
     and_then (idx b 0) (\<lambda>b0. and_then (idx b 1) (\<lambda>b1. and_then (u32_at b 4) (\<lambda>value.
     let adjustment = (if b0 = 2 \<and> q_fragment q \<noteq> None then 8 else 0) in
     case v6_to_v4 b0 b1 (saturating_sub value adjustment) (mtu4 t) (saturating_sub (mtu6 t) adjustment) of
       None \<Rightarrow> Ok None
     | Some (kind, code, value) \<Rightarrow>
         map_ok (\<lambda>quote. Some (join_extensions kind code (if kind = 12 then push_bit 24 value else value) quote ext True))
           (quote6_to_4 q dest pool port))))"

definition error6_check :: "envelope \<Rightarrow> u64 \<Rightarrow> translator \<Rightarrow> (io_error, (ipv4 \<times> ipv4 \<times> bytes) option) outcome" where
  "error6_check e now t =
     (let b = e_payload e in
      if length b < 8 \<or> checksum (e_source e) (e_destination e) 58 b \<noteq> 0 then Err InvalidData
      else case tr_ipv4 t of None \<Rightarrow> Ok None | Some pool \<Rightarrow>
        and_then (in_domain t (e_destination e)) (\<lambda>to_us. and_then (in_domain t (e_source e)) (\<lambda>from_us.
        if \<not> to_us \<or> from_us \<or> is_multicast (e_source e) \<or> is_unspecified (e_source e)
           \<or> is_loopback (e_source e) \<or> link_local (e_source e) then Ok None
        else
          and_then (split_extensions b False) (\<lambda>(quoted, ext).
          and_then (quote6_parse quoted) (\<lambda>q.
          and_then (in_domain t (q_source q)) (\<lambda>from_domain.
          if q_non_initial q \<or> \<not> from_domain \<or> q_source q \<noteq> e_destination e then Ok None
          else let dest = extract4 (q_source q) in
          if \<not> unicast dest then Ok None
          else
            and_then (quoted_ports (q_protocol q) (q_payload q)) (\<lambda>pp. case pp of
              None \<Rightarrow> Ok None
            | Some (sport, dport) \<Rightarrow>
                let protocol = (if q_protocol q = 58 then 1 else q_protocol q) in
                (case error_out (tr_bindings t) protocol (q_dest q) dport (dest, if protocol = 1 then 0 else sport) now of
                   None \<Rightarrow> Ok None
                 | Some port \<Rightarrow> map_ok (map_option (\<lambda>body. (pool, dest, body)))
                     (error6_translate b ext q dest pool port t)))))))))"

definition error6 :: "envelope \<Rightarrow> u64 \<Rightarrow> translator \<Rightarrow> (io_error, tx list) outcome \<times> translator" where
  "error6 e now t =
     then_do (inspect (error6_check e now t) t) (\<lambda>x t. case x of
       None \<Rightarrow> (Ok [], t)
     | Some (pool, dest, body) \<Rightarrow>
         if dest = pool then
           then_do (inspect (and_then (icmp4_filled body) (\<lambda>icmp.
             and_then (encode4 pool pool 1 (e_hop_limit e) icmp) packet_parse)) t) (\<lambda>p t. error4 p now t)
         else
           if_allowed now (\<lambda>_. and_then (word_sub_chk (e_hop_limit e) 1) (\<lambda>hop. and_then (icmp4_filled body) (\<lambda>icmp.
             map_ok (\<lambda>packet. \<lparr>tx_link = Ail, tx_packet = packet\<rparr>) (encode4 pool dest 1 hop icmp)))) t)"

subsection \<open>From IPv6 to IPv4\<close>

text \<open>The parse at the start of \<open>outbound_datagram\<close>: the envelope with the transport payload.\<close>

definition outbound_parse :: "bytes \<Rightarrow> (io_error, envelope \<times> u32 option) outcome" where
  "outbound_parse packet =
     and_then (map_err (\<lambda>_. InvalidData) (Wire.envelope RawIpv6 packet)) (\<lambda>e.
     if length (e_packet e) \<noteq> length packet then Err InvalidData
     else and_then (transport6 packet) (\<lambda>(protocol, offset, problem).
       and_then (slice_from packet offset) (\<lambda>payload.
       if 65515 < length payload then Err InvalidData
       else Ok (e\<lparr>e_next_header := protocol, e_payload := payload\<rparr>, problem))))"

definition source_refused :: "(ipv6 \<Rightarrow> bool) \<Rightarrow> prefix list \<Rightarrow> envelope \<Rightarrow> bool" where
  "source_refused allowed ps e \<longleftrightarrow>
     \<not> allowed (e_source e) \<or> is_unspecified (e_source e) \<or> is_loopback (e_source e) \<or> is_multicast (e_source e)
     \<or> link_local (e_source e) \<or> ipv4_mapped (e_source e) \<or> list_ex (\<lambda>p. prefix_contains p (e_source e)) ps
     \<or> \<not> list_ex (\<lambda>p. prefix_contains p (e_destination e)) ps"

text \<open>The ports, and the checks of the transport checksum.\<close>

definition outbound_ports :: "envelope \<Rightarrow> (io_error, u16 \<times> u16) outcome" where
  "outbound_ports e =
     and_then (packet_ports (e_next_header e) (e_payload e)) (\<lambda>sd.
     and_then (if e_next_header e = 17 then map_ok (\<lambda>field. field = [0, 0]) (slice_r (e_payload e) 6 8) else Ok False) (\<lambda>unsummed.
     if unsummed \<or> checksum (e_source e) (e_destination e) (e_next_header e) (e_payload e) \<noteq> 0
     then Err InvalidData else Ok sd))"

text \<open>The binding of the flow; \<open>None\<close> is a TCP packet that opens nothing.\<close>

definition assign :: "envelope \<Rightarrow> u16 \<Rightarrow> u16 \<Rightarrow> ipv4 \<Rightarrow> u64 \<Rightarrow> translator \<times> rng
    \<Rightarrow> (io_error, u16 option) outcome \<times> translator \<times> rng" where
  "assign e sport dport dest now tr =
     (if e_next_header e = 17 then
        then_do (on_bindings_rng (udp_out (e_source e) sport (dest, dport) now (\<lambda>_. False)) tr) (\<lambda>p tr. (Ok (Some p), tr))
      else if e_next_header e = 58 then
        then_do (on_bindings_rng (icmp_out (e_source e) sport dest now) tr) (\<lambda>p tr. (Ok (Some p), tr))
      else
        then_do (inspect (idx (e_payload e) 13) tr) (\<lambda>flags tr.
          on_bindings_rng (tcp_out (e_source e) sport (dest, dport) flags now) tr))"

definition put_port :: "u8 \<Rightarrow> nat \<Rightarrow> u16 \<Rightarrow> bytes \<Rightarrow> (io_error, bytes) outcome" where
  "put_port protocol at port payload = put_r payload (if protocol = 1 \<or> protocol = 58 then 4 else at) (to_be 2 port)"

text \<open>RFC 6146 3.8: a packet to the pool address itself turns around inside the translator.\<close>

definition hairpin_in :: "u8 \<Rightarrow> u16 \<Rightarrow> u16 \<Rightarrow> ipv4 \<Rightarrow> bytes \<Rightarrow> u64 \<Rightarrow> translator
    \<Rightarrow> (io_error, (ipv6 \<times> u16) option) outcome \<times> translator" where
  "hairpin_in protocol assigned dport pool payload now t =
     (if protocol = 17 then on_bindings (udp_in dport (pool, assigned) now) t
      else if protocol = 58 then on_bindings (icmp_in assigned pool now) t
      else then_do (inspect (idx payload 13) t) (\<lambda>flags t. on_bindings (tcp_in dport (pool, assigned) flags now) t))"

definition hairpin :: "envelope \<Rightarrow> u16 \<Rightarrow> u16 \<Rightarrow> ipv4 \<Rightarrow> u8 \<Rightarrow> bytes \<Rightarrow> u64 \<Rightarrow> translator
    \<Rightarrow> (io_error, tx list) outcome \<times> translator" where
  "hairpin e assigned dport pool class payload now t =
     then_do (hairpin_in (e_next_header e) assigned dport pool payload now t) (\<lambda>x t. case x of
       None \<Rightarrow> (Ok [], t)
     | Some (target, port) \<Rightarrow>
         (and_then (put_port (e_next_header e) 2 port payload) (\<lambda>payload.
          and_then (word_sub_chk (e_hop_limit e) 1) (\<lambda>hop.
          map_ok (\<lambda>packet. [\<lparr>tx_link = Stub, tx_packet = packet\<rparr>])
            (encode6 (e_next_header e) (synthesize t pool) target class hop payload))), t))"

text \<open>The IPv4 packet before it is fragmented.\<close>

definition packet6_to_4 :: "datagram \<Rightarrow> envelope \<Rightarrow> ipv4 \<Rightarrow> ipv4 \<Rightarrow> u8 \<Rightarrow> bytes \<Rightarrow> u16 \<Rightarrow> (io_error, bytes) outcome" where
  "packet6_to_4 d e pool dest class payload ident =
     and_then
       (if e_next_header e = 58
        then and_then (idx payload 0) (\<lambda>kind. map_ok (Pair 1) (put_r payload 0 [if kind = 128 then 8 else 0]))
        else Ok (e_next_header e, payload)) (\<lambda>(protocol, payload).
     and_then (fill_sum protocol (checksum4 pool dest protocol) payload) (\<lambda>payload.
     and_then (word_sub_chk (e_hop_limit e) 1) (\<lambda>hop.
     and_then (encode4 pool dest protocol hop payload) (\<lambda>out.
     and_then (put_r out 1 [class]) (\<lambda>out.
     and_then (put_r out 4 (to_be 2 (case dg_fragment_id d of None \<Rightarrow> ident | Some ident \<Rightarrow> ucast ident))) (\<lambda>out.
     and_then (if 1260 < length out \<and> dg_fragment_id d = None then put_r out 6 [0x40] else Ok out) (\<lambda>out.
     and_then (put_r out 10 [0, 0]) (\<lambda>out.
     and_then (slice_r out 0 20) (\<lambda>header. put_r out 10 (to_be 2 (ipv4_checksum header)))))))))))"

definition emit4 :: "datagram \<Rightarrow> envelope \<Rightarrow> ipv4 \<Rightarrow> ipv4 \<Rightarrow> u8 \<Rightarrow> bytes \<Rightarrow> translator
    \<Rightarrow> (io_error, tx list) outcome \<times> translator" where
  "emit4 d e pool dest class payload t =
     then_do (inspect (packet6_to_4 d e pool dest class payload (tr_identification t)) t) (\<lambda>out t.
       (and_then (u16_at out 4) (\<lambda>id. map_ok (map (\<lambda>packet. \<lparr>tx_link = Ail, tx_packet = packet\<rparr>))
          (frag_split out (unat (mtu4 t)) (ucast id))),
        t\<lparr>tr_identification := tr_identification t + 1\<rparr>))"

text \<open>The end of \<open>outbound_datagram\<close>, from the binding of the flow on.\<close>

definition outbound_forward :: "datagram \<Rightarrow> envelope \<Rightarrow> u16 \<Rightarrow> u16 \<Rightarrow> ipv4 \<Rightarrow> ipv4 \<Rightarrow> u64 \<Rightarrow> translator \<times> rng
    \<Rightarrow> (io_error, tx list) outcome \<times> translator \<times> rng" where
  "outbound_forward d e sport dport pool dest now tr =
     then_do (assign e sport dport dest now tr) (\<lambda>x tr. case x of
       None \<Rightarrow> (Ok [], tr)
     | Some assigned \<Rightarrow>
         then_do (inspect (and_then (idx (dg_packet d) 0) (\<lambda>b0. and_then (idx (dg_packet d) 1) (\<lambda>b1.
             Ok (push_bit 4 (b0 AND 15) OR drop_bit 4 b1)))) tr) (\<lambda>class tr.
         then_do (inspect (put_port (e_next_header e) 0 assigned (e_payload e)) tr) (\<lambda>payload tr.
         if dest = pool then on_fst (hairpin e assigned dport pool class payload now) tr
         else on_fst (emit4 d e pool dest class payload) tr)))"

definition too_big :: "datagram \<Rightarrow> envelope \<Rightarrow> ipv4 \<Rightarrow> ipv4 \<Rightarrow> translator \<Rightarrow> bool" where
  "too_big d e pool dest t \<longleftrightarrow> unat (mtu4 t) < length (e_payload e) + 20 \<and> 1260 < length (e_payload e) + 20
     \<and> dest \<noteq> pool \<and> dg_fragment_id d = None"

text \<open>From the choice of the translation domain to the binding: refusals and ICMP errors.\<close>

definition outbound_admit :: "datagram \<Rightarrow> envelope \<Rightarrow> u32 option \<Rightarrow> ipv4 \<Rightarrow> ipv4 \<Rightarrow> u64 \<Rightarrow> translator \<times> rng
    \<Rightarrow> (io_error, tx list) outcome \<times> translator \<times> rng" where
  "outbound_admit d e problem pool dest now tr =
     (let protocol = e_next_header e in
      if protocol = 58 \<and> (case e_payload e of [] \<Rightarrow> False | kind # _ \<Rightarrow> kind < 128) then
        if e_hop_limit e \<le> 1 \<or> problem \<noteq> None then (Ok [], tr) else on_fst (error6 e now) tr
      else case problem of
        Some pointer \<Rightarrow> on_fst (generate6 e 4 0 pointer now) tr
      | None \<Rightarrow>
          if \<not> List.member [6, 17, 58] protocol then on_fst (generate6 e 1 4 0 now) tr
          else
            then_do (inspect (outbound_ports e) tr) (\<lambda>(sport, dport) tr.
            if e_hop_limit e \<le> 1 then on_fst (generate6 e 3 0 0 now) tr
            else if too_big d e pool dest (fst tr)
            then on_fst (generate6 e 2 0 (max (saturating_add (mtu4 (fst tr)) 20) 1280) now) tr
            else outbound_forward d e sport dport pool dest now tr))"

definition outbound_datagram :: "datagram \<Rightarrow> u64 \<Rightarrow> (ipv6 \<Rightarrow> bool) \<Rightarrow> (ipv4 \<Rightarrow> bool) \<Rightarrow> translator \<times> rng
    \<Rightarrow> (io_error, tx list) outcome \<times> translator \<times> rng" where
  "outbound_datagram d now source_allowed reachable tr =
     then_do (inspect (outbound_parse (dg_packet d)) tr) (\<lambda>(e, problem) tr.
     case tr_ipv4 (fst tr) of
       None \<Rightarrow> (Ok [], tr)
     | Some pool \<Rightarrow>
         if source_refused source_allowed (tr_prefixes (fst tr)) e then (Ok [], tr)
         else
           then_do (inspect (unwrap (find (\<lambda>p. prefix_contains p (e_destination e)) (tr_prefixes (fst tr)))) tr) (\<lambda>p tr.
           let tr = (set_domain (px_address p) (fst tr), snd tr); dest = extract4 (e_destination e) in
           if \<not> unicast dest \<or> dest \<noteq> pool \<and> \<not> reachable dest then (Ok [], tr)
           else outbound_admit d e problem pool dest now tr))"

definition translate_outbound :: "bytes \<Rightarrow> u64 \<Rightarrow> (ipv6 \<Rightarrow> bool) \<Rightarrow> (ipv4 \<Rightarrow> bool) \<Rightarrow> translator \<times> rng
    \<Rightarrow> (io_error, tx list) outcome \<times> translator \<times> rng" where
  "translate_outbound packet = outbound_datagram \<lparr>dg_packet = packet, dg_fragment_id = None\<rparr>"

subsection \<open>From IPv4 to IPv6\<close>

definition inbound_parse :: "bytes \<Rightarrow> (io_error, packet4) outcome" where
  "inbound_parse packet =
     and_then (packet_parse packet) (\<lambda>p.
     if length (p_bytes p) \<noteq> length packet \<or> \<not> List.member [1, 6, 17] (p_protocol p)
        \<or> p_fragment_offset p \<noteq> 0 \<or> p_more_fragments p
     then Err InvalidData else Ok p)"

definition inbound_ports :: "packet4 \<Rightarrow> (io_error, u16 \<times> u16) outcome" where
  "inbound_ports p =
     and_then (packet_ports (p_protocol p) (p_payload p)) (\<lambda>sd.
     and_then (if p_protocol p \<noteq> 17 then Ok True
         else map_ok (\<lambda>field. field \<noteq> [0, 0]) (slice_r (p_payload p) 6 8)) (\<lambda>summed.
     if summed \<and> checksum4 (p_source p) (p_destination p) (p_protocol p) (p_payload p) \<noteq> 0
     then Err InvalidData else Ok sd))"

text \<open>The branch for packets that cannot go on: only a live session earns an ICMP error.\<close>

definition inbound_reject :: "packet4 \<Rightarrow> bool \<Rightarrow> u16 \<Rightarrow> u16 \<Rightarrow> u64 \<Rightarrow> translator \<Rightarrow> (io_error, tx list) outcome \<times> translator" where
  "inbound_reject p source_route sport dport now t =
     (let (port, remote) = (if p_protocol p = 1 then (sport, (p_source p, 0)) else (dport, (p_source p, sport))) in
      if error_in (tr_bindings t) (p_protocol p) port remote now = None then (Ok [], t)
      else if p_ttl p \<le> 1 then generate4 p 11 0 0 now t
      else if source_route then generate4 p 3 5 0 now t
      else generate4 p 3 4 (max (saturating_sub (mtu6 t) 20) 68) now t)"

definition session_lookup :: "packet4 \<Rightarrow> u16 \<Rightarrow> u16 \<Rightarrow> u64 \<Rightarrow> translator \<Rightarrow> (io_error, (ipv6 \<times> u16) option) outcome \<times> translator" where
  "session_lookup p sport dport now t =
     (if p_protocol p = 17 then on_bindings (udp_in dport (p_source p, sport) now) t
      else if p_protocol p = 1 then on_bindings (icmp_in sport (p_source p) now) t
      else then_do (inspect (idx (p_payload p) 13) t) (\<lambda>flags t.
        on_bindings (tcp_in_packet dport (p_source p, sport) flags now (p_bytes p)) t))"

definition packet4_to_6 :: "packet4 \<Rightarrow> ipv6 \<Rightarrow> u16 \<Rightarrow> translator \<Rightarrow> (io_error, bytes) outcome" where
  "packet4_to_6 p target port t =
     and_then
       (if p_protocol p = 1 then
          and_then (put_r (p_payload p) 4 (to_be 2 port)) (\<lambda>payload.
          and_then (idx payload 0) (\<lambda>kind. map_ok (Pair 58) (put_r payload 0 [if kind = 8 then 128 else 129])))
        else map_ok (Pair (p_protocol p)) (put_r (p_payload p) 2 (to_be 2 port))) (\<lambda>(protocol, payload).
     and_then (word_sub_chk (p_ttl p) 1) (\<lambda>hop.
       encode6 protocol (synthesize t (p_source p)) target (p_traffic_class p) hop payload))"

definition inbound_forward :: "packet4 \<Rightarrow> u16 \<Rightarrow> u16 \<Rightarrow> u64 \<Rightarrow> translator \<Rightarrow> (io_error, tx list) outcome \<times> translator" where
  "inbound_forward p sport dport now t =
     then_do (session_lookup p sport dport now t) (\<lambda>x t. case x of
       None \<Rightarrow> (Ok [], t)
     | Some (target, port) \<Rightarrow>
         (and_then (packet4_to_6 p target port t) (\<lambda>out.
            let mtu = (if p_dont_fragment p then mtu6 t else min (mtu6 t) (tr_lowest_ipv6_mtu t)) in
            map_ok (map (\<lambda>packet. \<lparr>tx_link = Stub, tx_packet = packet\<rparr>))
              (frag_split out (unat mtu) (ucast (p_id p)))), t))"

definition translate_inbound :: "bytes \<Rightarrow> u64 \<Rightarrow> translator \<Rightarrow> (io_error, tx list) outcome \<times> translator" where
  "translate_inbound packet now t =
     then_do (inspect (inbound_parse packet) t) (\<lambda>p t.
     if p_protocol p = 1 \<and> (case p_payload p of [] \<Rightarrow> False | kind # _ \<Rightarrow> \<not> List.member [0, 8] kind) then
       if p_ttl p \<le> 1 then (Ok [], t) else error4 p now t
     else
       then_do (inspect (inbound_ports p) t) (\<lambda>(sport, dport) t.
       if tr_ipv4 t \<noteq> Some (p_destination p) \<or> \<not> unicast (p_source p) then (Ok [], t)
       else
         then_do (inspect (unexpired_source_route p) t) (\<lambda>source_route t.
         if p_ttl p \<le> 1 \<or> source_route
            \<or> p_dont_fragment p \<and> unat (mtu6 t) < length (p_payload p) + 40
         then inbound_reject p source_route sport dport now t
         else inbound_forward p sport dport now t)))"

subsection \<open>Timers\<close>

fun probe_packets :: "tcp_probe list \<Rightarrow> tx list \<Rightarrow> translator \<Rightarrow> (io_error, tx list) outcome \<times> translator" where
  "probe_packets [] sent t = (Ok sent, t)"
| "probe_packets ((source, port, allocated, remote) # ps) sent t =
     then_do (inspect (unwrap (domain_for (tr_bindings t) 6 allocated)) t) (\<lambda>d t.
     let t = set_domain d t;
         tcp = to_be 2 (snd remote) @ to_be 2 port @ replicate 8 0 @ [0x50, 16] @ replicate 6 0 in
     then_do (inspect (encode6 6 (synthesize t (fst remote)) source 0 64 tcp) t) (\<lambda>packet t.
       probe_packets ps (sent @ [\<lparr>tx_link = Stub, tx_packet = packet\<rparr>]) t))"

fun timeout_packets :: "ipv4 \<Rightarrow> bytes list \<Rightarrow> tx list \<Rightarrow> (io_error, tx list) outcome" where
  "timeout_packets pool [] sent = Ok sent"
| "timeout_packets pool (quote # qs) sent =
     and_then (packet_quoted quote) (\<lambda>p.
     and_then (icmp4_filled ([3, 3, 0, 0, 0, 0, 0, 0] @ quote)) (\<lambda>icmp.
     and_then (encode4 pool (p_source p) 1 64 icmp) (\<lambda>packet.
       timeout_packets pool qs (sent @ [\<lparr>tx_link = Ail, tx_packet = packet\<rparr>]))))"

definition translator_poll :: "u64 \<Rightarrow> translator \<Rightarrow> (io_error, tx list) outcome \<times> translator" where
  "translator_poll now t =
     then_do (on_bindings (run_expire now) t) (\<lambda>_ t.
     case tr_ipv4 t of
       None \<Rightarrow> (Ok [], t)
     | Some pool \<Rightarrow>
         then_do (on_bindings (\<lambda>s. case take_tcp_probes 32 s of
             Ok (s', probes) \<Rightarrow> (Ok probes, s') | Err e \<Rightarrow> (Err e, s) | Panic \<Rightarrow> (Panic, s)) t) (\<lambda>probes t.
         then_do (probe_packets probes [] t) (\<lambda>sent t.
         then_do (inspect (sub_chk 32 (length sent)) t) (\<lambda>room t.
         then_do (on_bindings (\<lambda>s. case take_tcp_timeouts room s of (quotes, s') \<Rightarrow> (Ok quotes, s')) t) (\<lambda>quotes t.
           (timeout_packets pool quotes sent, t))))))"

end
