(* ===== verification/Nat64_Translate_Inv.thy ===== *)
theory Nat64_Translate_Inv
  imports Nat64_Translate Nat64_Bindings_Calls
begin

text \<open>
  The invariant of the translator: the binding tables are consistent, every binding belongs to the
  domain of a configured prefix, and the configuration is well formed. Every call keeps it, does
  not panic, and sends only packets under the translator's own addresses (\<open>safe\<close>).
\<close>

section \<open>Addresses of emitted packets\<close>

definition source6 :: "bytes \<Rightarrow> ipv6" where "source6 b = from_be (take 16 (drop 8 b))"
definition dest6 :: "bytes \<Rightarrow> ipv6" where "dest6 b = from_be (take 16 (drop 24 b))"
definition source4 :: "bytes \<Rightarrow> ipv4" where "source4 b = from_be (take 4 (drop 12 b))"

definition addressed6 :: "bytes \<Rightarrow> ipv6 \<Rightarrow> ipv6 \<Rightarrow> bool" where
  "addressed6 b s d \<longleftrightarrow> b \<noteq> [] \<and> drop_bit 4 (b ! 0) = 6 \<and> take 32 (drop 8 b) = to_be 16 s @ to_be 16 d"

definition addressed4 :: "bytes \<Rightarrow> ipv4 \<Rightarrow> ipv4 \<Rightarrow> bool" where
  "addressed4 b s d \<longleftrightarrow> b \<noteq> [] \<and> drop_bit 4 (b ! 0) = 4 \<and> take 8 (drop 12 b) = to_be 4 s @ to_be 4 d"

lemma addressed6_source: "addressed6 b s d \<Longrightarrow> source6 b = s" "addressed6 b s d \<Longrightarrow> dest6 b = d"
proof -
  assume a: "addressed6 b s d"
  have "take 16 (drop 8 b) = take 16 (take 32 (drop 8 b))" by simp
  also have "\<dots> = to_be 16 s" using a by (simp add: addressed6_def)
  finally show "source6 b = s" by (simp add: source6_def)
  have "take 16 (drop 24 b) = drop 16 (take 32 (drop 8 b))" by (simp add: drop_take)
  also have "\<dots> = to_be 16 d" using a by (simp add: addressed6_def)
  finally show "dest6 b = d" by (simp add: dest6_def)
qed

lemma addressed4_source: "addressed4 b s d \<Longrightarrow> source4 b = s"
proof -
  assume a: "addressed4 b s d"
  have "take 4 (drop 12 b) = take 4 (take 8 (drop 12 b))" by simp
  also have "\<dots> = to_be 4 s" using a by (simp add: addressed4_def)
  finally show ?thesis by (simp add: source4_def)
qed

lemma put_addressed6:
  assumes "addressed6 b s d" and "i + length v \<le> 8" and "8 \<le> length b" and "i = 0 \<longrightarrow> v \<noteq> [] \<longrightarrow> drop_bit 4 (v ! 0) = 6"
  shows "addressed6 (put b i v) s d"
proof -
  have "drop 8 (put b i v) = drop 8 b" using assms(2,3) by (simp add: put_def)
  moreover have "drop_bit 4 (put b i v ! 0) = 6"
    using assms by (cases "i = 0") (auto simp: nth_put addressed6_def)
  ultimately show ?thesis using assms(1) by (auto simp: addressed6_def put_def)
qed

lemma ipv6_packet_addressed: "ensures (ipv6_packet s d p h b) (\<lambda>out. addressed6 out s d \<and> out ! 0 = 0x60 \<and> 40 \<le> length out)"
  by (auto simp: ipv6_packet_def wp addressed6_def)

lemma class_nibble: "drop_bit 4 (0x60 OR drop_bit 4 c) = (6 :: u8)"
proof -
  have "drop_bit 8 c = (0 :: u8)" by (rule bit_word_eqI) (auto simp: bit_simps dest: bit_imp_le_length)
  then show ?thesis by (simp add: drop_bit_or)
qed

lemma encode6_addressed: 
  assumes "checksum_offset p + 2 \<le> length b"
  shows "ensures (encode6 p s d c h b) (\<lambda>out. addressed6 out s d)"
proof -
  have "addressed6 (put (put x 0 [x ! 0 OR drop_bit 4 c]) (Suc 0) [push_bit 4 c]) s d \<and> 2 \<le> length x" if "ipv6_packet s d p h b' = Ok x" for x b'
  proof -
    have x: "addressed6 x s d" "x ! 0 = 0x60" "40 \<le> length x" using ipv6_packet_addressed [of s d p h b'] that by auto
    have "addressed6 (put x 0 [x ! 0 OR drop_bit 4 c]) s d"
      by (rule put_addressed6 [OF x(1)]) (use x in \<open>simp_all add: class_nibble\<close>)
    then have "addressed6 (put (put x 0 [x ! 0 OR drop_bit 4 c]) 1 [push_bit 4 c]) s d"
      by (rule put_addressed6) (use x in simp_all)
    then show ?thesis using x(3) by simp
  qed
  note shape = this
  obtain b' where b': "fill_sum p (checksum s d p) b = Ok b'"
    using fill_sum_ensures [OF assms, of "checksum s d p"] assms by (auto simp: fill_sum_def Let_def)
  show ?thesis
  proof (cases "ipv6_packet s d p h b'")
    case (Ok x)
    then have "0 < length x" "2 \<le> length x" using shape [OF Ok] by auto
    then show ?thesis using shape [OF Ok] by (simp add: encode6_def b' Ok wp)
  next
    case Panic
    then show ?thesis using ipv6_packet_addressed [of s d p h b'] by simp
  qed (simp add: encode6_def b')
qed

lemma encode4_addressed: "ensures (encode4 s d p t b) (\<lambda>out. addressed4 out s d \<and> length out = 20 + length b)"
  by (auto simp: encode4_eq encoded4_bytes addressed4_def)

lemma put_addressed4:
  assumes "addressed4 b s d" and "i + length v \<le> 12" and "12 \<le> length b" and "0 < i"
  shows "addressed4 (put b i v) s d"
proof -
  have "drop 12 (put b i v) = drop 12 b" using assms(2,3) by (simp add: put_def)
  moreover have "put b i v ! 0 = b ! 0" by (subst nth_put) (use assms in auto)
  ultimately show ?thesis using assms(1,3) by (auto simp: addressed4_def put_def)
qed

section \<open>Fragmentation keeps the addresses\<close>

lemma fragment_shape_ensures:
  "ensures (fragment_shape b mtu) (\<lambda>(header, overhead). header \<le> length b \<and> overhead + 8 \<le> mtu
     \<and> (drop_bit 4 (b ! 0) = 6 \<and> header = 40 \<or> drop_bit 4 (b ! 0) = 4 \<and> header = 20))"
proof (cases b)
  case (Cons v xs)
  have l6: "40 \<le> length b" if "Wire.envelope RawIpv6 b = Ok e" for e
    using that by (auto simp: Wire.envelope_def split: if_splits)
  have l4: "20 \<le> length b" if "packet_parse b = Ok p" for p
    using packet_parse_ensures [of b] that by (auto simp: packet_wf_def)
  show ?thesis
    using l6 l4 unfolding fragment_shape_def by (auto simp: wp Cons ensures_call [OF envelope_ensures])
qed (simp add: fragment_shape_def)

lemma fragment_one_v6:
  assumes "40 \<le> length b"
  shows "ensures (fragment_one b 40 ident offset mf data) (\<lambda>f. f \<noteq> [] \<and> f ! 0 = b ! 0 \<and> take 32 (drop 8 f) = take 32 (drop 8 b))"
proof -
  define h where "h = put (put (take 40 b) 6 [44]) 4 (to_be 2 (of_nat (length data + 8) :: u16))"
  have h: "length h = 40" "h ! 0 = b ! 0" using assms by (simp_all add: h_def nth_put)
  have "drop 8 h = drop 8 (take 40 b)" using assms by (simp add: h_def put_def)
  then have "take 32 (drop 8 h) = take 32 (drop 8 b)" using assms by (simp add: drop_take)
  with h show ?thesis
    unfolding fragment_one_def using assms by (auto simp: wp h_def [symmetric] nth_append simp del: of_nat_add)
qed

lemma fragment_one_v4:
  assumes "20 \<le> length b"
  shows "ensures (fragment_one b 20 ident offset mf data) (\<lambda>f. f \<noteq> [] \<and> f ! 0 = b ! 0 \<and> take 8 (drop 12 f) = take 8 (drop 12 b))"
proof -
  define h where "h = put (put (put (put (take 20 b) 2 (to_be 2 (of_nat (length data + 20) :: u16))) 4 (to_be 2 (ucast ident :: u16)))
    6 (to_be 2 ((of_nat offset :: u16) div 8 OR (if mf then 0x2000 else 0)))) 10 [0, 0]"
  define k where "k = put h 10 (to_be 2 (ipv4_checksum h))"
  have lh: "length h = 20" using assms by (simp add: h_def)
  have k: "length k = 20" "k ! 0 = b ! 0" using assms by (simp_all add: k_def h_def nth_put)
  have "drop 12 h = drop 12 (take 20 b)" using assms by (simp add: h_def put_def)
  then have "drop 12 k = drop 12 (take 20 b)" using lh by (simp add: k_def put_def)
  then have "take 8 (drop 12 k) = take 8 (drop 12 b)" using assms by (simp add: drop_take)
  with k show ?thesis
    unfolding fragment_one_def using assms lh
    by (auto simp: wp h_def [symmetric] k_def [symmetric] nth_append simp del: of_nat_add)
qed

lemma fragment_loop_ensures:
  assumes "\<And>offset mf data. ensures (fragment_one b header ident offset mf data) P"
  shows "ensures (fragment_loop b header ident chunk whole i ds) (list_all P)"
proof (induction ds arbitrary: i)
  case (Cons d ds)
  show ?case by (auto simp: wp Let_def ensures_call [OF assms] ensures_call [OF Cons] dest: ensuresD [OF assms] ensuresD [OF Cons])
qed simp

lemma frag_split_v6:
  assumes "addressed6 b s d"
  shows "ensures (frag_split b mtu ident) (list_all (\<lambda>f. addressed6 f s d))"
proof (cases "length b \<le> mtu")
  case False
  have l: "ensures (fragment_loop b 40 ident c w i ds) (list_all (\<lambda>f. addressed6 f s d))" if "40 \<le> length b" for c w i ds
    by (rule fragment_loop_ensures [OF ensures_mono [OF fragment_one_v6 [OF that]]]) (use assms in \<open>auto simp: addressed6_def\<close>)
  show ?thesis
  proof (cases "fragment_shape b mtu")
    case (Ok x)
    then have "fst x = 40" "40 \<le> length b" "snd x + 8 \<le> mtu"
      using fragment_shape_ensures [of b mtu] assms by (auto simp: addressed6_def)
    then show ?thesis using Ok False l by (cases x) (auto simp: frag_split_def wp Let_def)
  next
    case Panic
    then show ?thesis using fragment_shape_ensures [of b mtu] by simp
  qed (use False in \<open>simp add: frag_split_def\<close>)
qed (use assms in \<open>simp add: frag_split_def\<close>)

lemma frag_split_v4:
  assumes "addressed4 b s d"
  shows "ensures (frag_split b mtu ident) (list_all (\<lambda>f. addressed4 f s d))"
proof (cases "length b \<le> mtu")
  case False
  have l: "ensures (fragment_loop b 20 ident c w i ds) (list_all (\<lambda>f. addressed4 f s d))" if "20 \<le> length b" for c w i ds
    by (rule fragment_loop_ensures [OF ensures_mono [OF fragment_one_v4 [OF that]]]) (use assms in \<open>auto simp: addressed4_def\<close>)
  show ?thesis
  proof (cases "fragment_shape b mtu")
    case (Ok x)
    then have "fst x = 20" "20 \<le> length b" "snd x + 8 \<le> mtu"
      using fragment_shape_ensures [of b mtu] assms by (auto simp: addressed4_def)
    then show ?thesis using Ok False l by (cases x) (auto simp: frag_split_def wp Let_def)
  next
    case Panic
    then show ?thesis using fragment_shape_ensures [of b mtu] by simp
  qed (use False in \<open>simp add: frag_split_def\<close>)
qed (use assms in \<open>simp add: frag_split_def\<close>)

section \<open>The invariant of the translator\<close>

declare split_paired_All [simp del] split_paired_Ex [simp del]

definition domain_of :: "translator \<Rightarrow> ipv6 \<Rightarrow> bool" where
  "domain_of t d \<longleftrightarrow> (\<exists>p \<in> set (tr_prefixes t). px_address p = d)"

definition tr_inv :: "translator \<Rightarrow> bool" where
  "tr_inv t \<longleftrightarrow> bind_inv (tr_bindings t) \<and> (\<forall>k q. has_binding (tr_bindings t) k q \<longrightarrow> domain_of t (k_domain k))
     \<and> length (tr_prefixes t) \<le> 8 \<and> (\<forall>p \<in> set (tr_prefixes t). px_length p = 96 \<and> usable p)
     \<and> (\<forall>a. tr_ipv4 t = Some a \<longrightarrow> unicast a) \<and> unat (tr_error_count t) \<le> 32"

text \<open>The source addresses the translator may use on each link.\<close>

definition own_source :: "translator \<Rightarrow> tx \<Rightarrow> bool" where
  "own_source t x \<longleftrightarrow> (case tx_link x of
      Stub \<Rightarrow> \<exists>p \<in> set (tr_prefixes t). prefix_contains p (source6 (tx_packet x))
    | Ail \<Rightarrow> tr_ipv4 t = Some (source4 (tx_packet x)))"

definition same_config :: "translator \<Rightarrow> translator \<Rightarrow> bool" where
  "same_config t t' \<longleftrightarrow> tr_prefixes t' = tr_prefixes t \<and> tr_ipv4 t' = tr_ipv4 t"

lemma same_config_refl [simp]: "same_config t t"
  by (simp add: same_config_def)

lemma same_config_trans: "same_config t u \<Longrightarrow> same_config u v \<Longrightarrow> same_config t v"
  by (simp add: same_config_def)

lemma own_source_same: "same_config t u \<Longrightarrow> own_source u x = own_source t x"
  by (simp add: own_source_def same_config_def split: link.splits)

text \<open>A call that keeps the invariant and the configuration and sends under its own addresses.\<close>

abbreviation safe :: "translator \<Rightarrow> (io_error, tx list) outcome \<times> translator \<Rightarrow> bool" where
  "safe t r \<equiv> holds r (\<lambda>out t'. tr_inv t' \<and> same_config t t' \<and> list_all (own_source t) out) (\<lambda>t'. tr_inv t' \<and> same_config t t')"

lemma tr_inv_domain [simp]: "tr_inv (set_domain d t) = tr_inv t" "same_config u (set_domain d t) = same_config u t"
  "bi_domain (tr_bindings (set_domain d t)) = d"
  by (simp_all add: tr_inv_def set_domain_def domain_of_def has_binding_def same_config_def)

lemma set_domain_simps [simp]: "tr_prefixes (set_domain d t) = tr_prefixes t" "tr_ipv4 (set_domain d t) = tr_ipv4 t"
  "tr_mtus (set_domain d t) = tr_mtus t"
  by (simp_all add: set_domain_def)

lemma own_source_domain [simp]: "own_source (set_domain d t) = own_source t"
  by (rule HOL.ext) (simp add: own_source_def split: link.splits)

lemma tr_inv_kept:
  assumes "tr_inv t" and "kept now (tr_bindings t) s" and "no_new (tr_bindings t) s \<or> domain_of t (bi_domain (tr_bindings t))"
  shows "tr_inv (t\<lparr>tr_bindings := s\<rparr>)"
  using assms unfolding tr_inv_def confined_def no_new_def domain_of_def by (simp, metis)

lemma same_config_bindings [simp]: "same_config t (u\<lparr>tr_bindings := s\<rparr>) = same_config t u"
  by (simp add: same_config_def)

lemma holds_on_bindings:
  "holds (f (tr_bindings t)) (\<lambda>x s. Q x (t\<lparr>tr_bindings := s\<rparr>)) (\<lambda>s. E (t\<lparr>tr_bindings := s\<rparr>)) \<Longrightarrow> holds (on_bindings f t) Q E"
  unfolding on_bindings_def by (cases "f (tr_bindings t)"; cases "fst (f (tr_bindings t))") auto

lemma holds_on_bindings_rng:
  "holds (f (tr_bindings t, r)) (\<lambda>x (s, r). Q x (t\<lparr>tr_bindings := s\<rparr>, r)) (\<lambda>(s, r). E (t\<lparr>tr_bindings := s\<rparr>, r))
    \<Longrightarrow> holds (on_bindings_rng f (t, r)) Q E"
  unfolding on_bindings_rng_def by (cases "f (tr_bindings t, r)"; cases "fst (f (tr_bindings t, r))") auto

text \<open>A configured prefix covers the addresses synthesized in its domain.\<close>

lemma synthesized_inside:
  assumes "usable p" and "px_length p = 96"
  shows "prefix_contains p (px_address p OR ucast (a :: ipv4))"
proof -
  have new: "prefix_new (px_address p) 96 = Some p" using assms by (simp add: usable_def)
  let ?m = "push_bit 32 (- 1) :: ipv6"
  have p: "p = Prefix (px_address p AND ?m) 96" using new by (simp add: prefix_new_def Let_def)
  have "ucast a AND ?m = 0" by (rule bit_word_eqI) (auto simp: bit_simps dest: bit_imp_le_length)
  then have "(px_address p OR ucast a) AND ?m = px_address p AND ?m"
    by (simp add: bit.conj_disj_distrib2)
  then show ?thesis using p by (simp add: prefix_contains_def assms(2) prefix_new_def Let_def)
qed

lemma own_source_synthesized:
  assumes "tr_inv t" and "domain_of t (bi_domain (tr_bindings u))" and "addressed6 b (synthesize u a) d"
  shows "own_source t \<lparr>tx_link = Stub, tx_packet = b\<rparr>"
proof -
  obtain p where p: "p \<in> set (tr_prefixes t)" "px_address p = bi_domain (tr_bindings u)"
    using assms(2) by (auto simp: domain_of_def)
  have "prefix_contains p (px_address p OR ucast a)"
    by (rule synthesized_inside) (use assms(1) p(1) in \<open>auto simp: tr_inv_def\<close>)
  then show ?thesis using p assms(3) by (auto simp: own_source_def synthesize_def addressed6_source)
qed

lemma own_source_pool: "tr_ipv4 t = Some a \<Longrightarrow> addressed4 b a d \<Longrightarrow> own_source t \<lparr>tx_link = Ail, tx_packet = b\<rparr>"
  by (simp add: own_source_def addressed4_source)

section \<open>Errors\<close>

lemma add_chk_count: "unat n \<le> 32 \<Longrightarrow> n \<noteq> 32 \<Longrightarrow> add_chk n 1 = Ok (n + 1)" "unat n \<le> 32 \<Longrightarrow> n \<noteq> 32 \<Longrightarrow> unat (n + 1) \<le> 32" for n :: u8
proof -
  have "unat n < 32" if "unat n \<le> 32" "n \<noteq> 32" using that by (auto simp: word_unat_eq_iff order_le_less)
  then show "unat n \<le> 32 \<Longrightarrow> n \<noteq> 32 \<Longrightarrow> add_chk n 1 = Ok (n + 1)" "unat n \<le> 32 \<Longrightarrow> n \<noteq> 32 \<Longrightarrow> unat (n + 1) \<le> 32"
    by (simp_all add: add_chk_def unat_word_ariths)
qed

lemma allow_error_ok:
  assumes "tr_inv t"
  shows "holds (allow_error now t) (\<lambda>_ t'. tr_inv t' \<and> same_config t t' \<and> tr_bindings t' = tr_bindings t \<and> tr_mtus t' = tr_mtus t) E"
proof -
  define u where "u = (if 1000 \<le> saturating_sub now (tr_error_window t)
      then t\<lparr>tr_error_window := now, tr_error_count := 0\<rparr> else t)"
  have u: "tr_inv u" "same_config t u" "tr_bindings u = tr_bindings t" "tr_mtus u = tr_mtus t"
    using assms by (simp_all add: u_def tr_inv_def domain_of_def same_config_def)
  then have c: "unat (tr_error_count u) \<le> 32" by (simp add: tr_inv_def)
  have inv: "tr_inv (u\<lparr>tr_error_count := tr_error_count u + 1\<rparr>)" if "tr_error_count u \<noteq> 32"
    using u(1) add_chk_count(2) [OF c that] by (simp add: tr_inv_def domain_of_def)
  show ?thesis
    unfolding allow_error_def u_def [symmetric] Let_def
    using u inv c by (auto simp: same_config_def add_chk_count(1))
qed

text \<open>One error packet, built from a state that differs only in the counters.\<close>

lemma if_allowed_ok:
  assumes inv: "tr_inv t"
    and f: "\<And>u. tr_inv u \<Longrightarrow> same_config t u \<Longrightarrow> tr_bindings u = tr_bindings t \<Longrightarrow> ensures (f u) (own_source t)"
  shows "safe t (if_allowed now f t)"
  unfolding if_allowed_def
proof (rule holds_then_do [OF allow_error_ok [OF inv]])
  fix ok u
  assume u: "tr_inv u \<and> same_config t u \<and> tr_bindings u = tr_bindings t \<and> tr_mtus u = tr_mtus t"
  then have "ensures (f u) (own_source t)" by (intro f) simp_all
  then show "safe t (if \<not> ok then (Ok [], u) else (map_ok (\<lambda>x. [x]) (f u), u))"
    using u by (cases "f u") auto
qed

lemma generate4_ok:
  assumes inv: "tr_inv t" and pool: "tr_ipv4 t = Some (p_destination p)"
  shows "safe t (generate4 p kind code v now t)"
  unfolding generate4_def
proof (rule if_allowed_ok [OF inv])
  fix u
  have "ensures (encode4 (p_destination p) (p_source p) 1 64 b)
      (\<lambda>out. own_source t \<lparr>tx_link = Ail, tx_packet = out\<rparr>)" for b
    by (rule ensures_mono [OF encode4_addressed]) (use own_source_pool [OF pool] in auto)
  then show "ensures (map_ok (\<lambda>packet. \<lparr>tx_link = Ail, tx_packet = packet\<rparr>)
       (and_then (icmp4_filled ([kind, code, 0, 0] @ to_be 4 v @ take 548 (p_bytes p))) (\<lambda>body.
          encode4 (p_destination p) (p_source p) 1 64 body))) (own_source t)"
    by (simp add: wp icmp4_filled_def)
qed

lemma generate6_ok:
  assumes inv: "tr_inv t" and dom: "\<exists>p \<in> set (tr_prefixes t). prefix_contains p (e_destination e)"
  shows "safe t (generate6 e kind code v now t)"
  unfolding generate6_def
proof (rule if_allowed_ok [OF inv])
  have "ensures (encode6 58 (e_destination e) (e_source e) 0 64 ([kind, code, 0, 0] @ to_be 4 v @ take 1232 (e_packet e)))
      (\<lambda>out. own_source t \<lparr>tx_link = Stub, tx_packet = out\<rparr>)"
    by (rule ensures_mono [OF encode6_addressed])
      (use dom in \<open>auto simp: checksum_offset_def own_source_def addressed6_source\<close>)
  then show "ensures (map_ok (\<lambda>packet. \<lparr>tx_link = Stub, tx_packet = packet\<rparr>)
       (encode6 58 (e_destination e) (e_source e) 0 64 ([kind, code, 0, 0] @ to_be 4 v @ take 1232 (e_packet e))))
      (own_source t)"
    by (simp add: wp)
qed

text \<open>The shape of the packets \<open>error4\<close> works on: accepted ones, not too long to quote.\<close>

lemma error4_check_ensures:
  assumes "length (p_payload p) \<le> 65515"
  shows "ensures (error4_check p t) (\<lambda>x. \<forall>q ext kcv sd. x = Some (q, ext, kcv, sd) \<longrightarrow>
    quote_shape q \<and> tr_ipv4 t = Some (p_destination p))"
proof (cases "length (p_payload p) < 8 \<or> ipv4_checksum (p_payload p) \<noteq> 0
    \<or> tr_ipv4 t \<noteq> Some (p_destination p) \<or> \<not> unicast (p_source p)")
  case True
  then show ?thesis by (auto simp: error4_check_def Let_def)
next
  case False
  let ?b = "p_payload p"
  have shape: "quote_shape q \<and> 28 \<le> length ?b"
    if "split_extensions ?b True = Ok (quoted, ext)" "packet_quoted quoted = Ok q" "\<not> length (p_payload q) < 8" for quoted ext q
  proof -
    have l: "length quoted + 8 \<le> length ?b" using ensuresD [OF split_extensions_ensures that(1)] False by simp
    have wf: "packet_wf quoted True q" using ensuresD [OF packet_quoted_ensures that(2)] .
    have "packet_walk q" using that(2) parse_inner_walk by (simp add: packet_quoted_def)
    then show ?thesis using l wf that(3) assms by (auto simp: quote_shape_def packet_wf_def)
  qed
  have i0: "0 < length ?b" using False by linarith
  show ?thesis
  proof (cases "split_extensions ?b True")
    case (Ok x)
    obtain quoted ext where x: "x = (quoted, ext)" by (cases x)
    show ?thesis
    proof (cases "packet_quoted quoted")
      case q: (Ok q)
      show ?thesis
        using False i0 shape [OF Ok [unfolded x] q]
        by (cases "length (p_payload q) < 8")
          (auto simp: error4_check_def Let_def Ok x q wp ensures_call [OF quoted_ports_ensures] split: option.splits)
    next
      case Panic
      then show ?thesis using packet_quoted_ensures [of quoted] by simp
    qed (use False in \<open>auto simp: error4_check_def Let_def Ok x\<close>)
  next
    case Panic
    then show ?thesis using split_extensions_ensures [of ?b True] False by simp
  qed (use False in \<open>auto simp: error4_check_def Let_def\<close>)
qed

lemma error_in_Some:
  assumes inv: "tr_inv t" and err: "error_in (tr_bindings t) protocol port remote now = Some (host, inside)"
  obtains key where "domain_for (tr_bindings t) protocol port = Some (k_domain key)" "domain_of t (k_domain key)"
    "has_binding (tr_bindings t) key port" "host = k_host key"
proof -
  from err obtain key where key: "bt_get (bi_reverse (tr_bindings t)) (protocol, port) = Some key" "host = k_host key"
    by (auto simp: error_in_def split: option.splits if_splits)
  have "bind_inv (tr_bindings t)" using inv by (simp add: tr_inv_def)
  from reverse_binding(2) [OF this key(1)] have b: "has_binding (tr_bindings t) key port" .
  then have "domain_of t (k_domain key)" using inv by (auto simp: tr_inv_def)
  with b key show ?thesis by (intro that) (simp_all add: domain_for_def)
qed

lemma error4_send_ok:
  assumes inv: "tr_inv t" and p: "1 \<le> p_ttl p" and q: "quote_shape (fst y)"
  shows "safe t (error4_send p now y t)"
proof -
  obtain q ext kind code v sport dport where y: "y = (q, ext, (kind, code, v), sport, dport)" by (cases y) auto
  let ?err = "error_in (tr_bindings t) (p_protocol q) sport (p_destination q, if p_protocol q = 1 then 0 else dport) now"
  show ?thesis
  proof (cases ?err)
    case None
    then show ?thesis using inv y by (simp add: error4_send_def)
  next
    case e: (Some hp)
    obtain host port where hp: "hp = (host, port)" by (cases hp)
    obtain key where key: "domain_for (tr_bindings t) (p_protocol q) sport = Some (k_domain key)" "domain_of t (k_domain key)"
      by (rule error_in_Some [OF inv e [unfolded hp]])
    let ?t = "set_domain (k_domain key) t"
    have body: "safe ?t (if_allowed now (\<lambda>t. and_then (word_sub_chk (p_ttl p) 1) (\<lambda>hop.
              map_ok (\<lambda>packet. \<lparr>tx_link = Stub, tx_packet = packet\<rparr>)
                (encode6 58 (synthesize t (p_source p)) host (p_traffic_class p) hop
                   (join_extensions kind code v quote ext False)))) ?t)" for quote
    proof (rule if_allowed_ok)
      show "tr_inv ?t" using inv by simp
      fix w assume w: "tr_inv w" "same_config ?t w" "tr_bindings w = tr_bindings ?t"
      have dom: "domain_of ?t (bi_domain (tr_bindings w))" using key(2) w(3) by (simp add: domain_of_def)
      have "checksum_offset 58 + 2 \<le> length (join_extensions kind code v quote ext False)"
        using length_join_extensions [of kind code v quote ext False] by (simp add: checksum_offset_def)
      from ensures_mono [OF encode6_addressed [OF this] own_source_synthesized [OF _ dom]] inv
      show "ensures (and_then (word_sub_chk (p_ttl p) 1) (\<lambda>hop. map_ok (\<lambda>packet. \<lparr>tx_link = Stub, tx_packet = packet\<rparr>)
          (encode6 58 (synthesize w (p_source p)) host (p_traffic_class p) hop (join_extensions kind code v quote ext False))))
        (own_source ?t)"
        using p by (simp add: wp)
    qed
    have "quote4_to_6 q host (synthesize ?t (p_destination q)) port \<noteq> Panic"
      using quote4_to_6_ensures [of q] q y by (simp add: no_panic_ensures)
    then show ?thesis
      using inv body key(1) y e hp
      by (cases "quote4_to_6 q host (synthesize ?t (p_destination q)) port")
        (auto simp: error4_send_def inspect_def same_config_def Let_def)
  qed
qed

lemma error4_ok:
  assumes inv: "tr_inv t" and p: "length (p_payload p) \<le> 65515" "1 \<le> p_ttl p"
  shows "safe t (error4 p now t)"
proof (cases "error4_check p t")
  case (Ok x)
  have "quote_shape (fst y)" if "x = Some y" for y
    using error4_check_ensures [OF p(1), of t] Ok that by (cases y) auto
  then show ?thesis
    using inv Ok error4_send_ok [OF inv p(2)] by (cases x) (auto simp: error4_def inspect_def)
next
  case Panic
  then show ?thesis using error4_check_ensures [OF p(1), of t] by simp
qed (use inv in \<open>simp add: error4_def inspect_def\<close>)

lemma in_domain_Ok: "\<exists>v. in_domain t a = Ok v"
proof -
  have "\<exists>p. prefix_new d 96 = Some p" for d by (simp add: prefix_new_Some_iff)
  then obtain p where "prefix_new (bi_domain (tr_bindings t)) 96 = Some p" by blast
  then show ?thesis by (simp add: in_domain_def)
qed

lemma error6_translate_ensures:
  assumes "8 \<le> length b" and "8 \<le> length (q_payload q)" and "length (q_payload q) \<le> 65470"
  shows "ensures (error6_translate b ext q dest pool port t) (\<lambda>x. \<forall>body. x = Some body \<longrightarrow> 8 \<le> length body)"
proof -
  have i: "0 < length b" "1 < length b" using assms(1) by linarith+
  have q: "ensures (quote6_to_4 q dest pool port) Q \<longleftrightarrow> (\<forall>x. quote6_to_4 q dest pool port = Ok x \<longrightarrow> Q x)" for Q
    by (rule ensures_call [OF quote6_to_4_ensures [OF assms(2,3)]])
  show ?thesis
    using assms(1) i by (auto simp: error6_translate_def wp Let_def q length_join_extensions split: option.splits prod.splits)
qed

lemma error6_check_ensures:
  assumes "length (e_payload e) \<le> 65515"
  shows "ensures (error6_check e now t) (\<lambda>x. \<forall>pool dest body. x = Some (pool, dest, body) \<longrightarrow>
    tr_ipv4 t = Some pool \<and> 8 \<le> length body)"
proof (cases "length (e_payload e) < 8 \<or> checksum (e_source e) (e_destination e) 58 (e_payload e) \<noteq> 0 \<or> tr_ipv4 t = None")
  case True
  then show ?thesis by (auto simp: error6_check_def Let_def split: option.splits)
next
  case False
  let ?b = "e_payload e"
  obtain pool where pool: "tr_ipv4 t = Some pool" using False by auto
  have dom: "ensures (in_domain t a) Q \<longleftrightarrow> (\<forall>v. in_domain t a = Ok v \<longrightarrow> Q v)" for a Q
    using in_domain_Ok [of t a] by auto
  have len: "8 \<le> length ?b" using False by linarith
  have body: "ensures (error6_translate ?b ext q dest pool port t) Q \<longleftrightarrow> (\<forall>x. error6_translate ?b ext q dest pool port t = Ok x \<longrightarrow> Q x)"
    and some: "error6_translate ?b ext q dest pool port t = Ok (Some body) \<Longrightarrow> 8 \<le> length body"
    if s: "split_extensions ?b False = Ok (quoted, ext)" and p: "quote6_parse quoted = Ok q" for quoted ext q dest port Q body
  proof -
    have "length quoted + 8 \<le> length ?b" using ensuresD [OF split_extensions_ensures s] len by simp
    then have "length (q_payload q) \<le> 65470" using ensuresD [OF quote6_parse_ensures p] assms by simp
    moreover have "8 \<le> length (q_payload q)" using ensuresD [OF quote6_parse_ensures p] by simp
    ultimately have e: "ensures (error6_translate ?b ext q dest pool port t) (\<lambda>x. \<forall>body. x = Some body \<longrightarrow> 8 \<le> length body)"
      by (intro error6_translate_ensures [OF len])
    show "ensures (error6_translate ?b ext q dest pool port t) Q \<longleftrightarrow> (\<forall>x. error6_translate ?b ext q dest pool port t = Ok x \<longrightarrow> Q x)"
      by (rule ensures_call [OF e])
    show "error6_translate ?b ext q dest pool port t = Ok (Some body) \<Longrightarrow> 8 \<le> length body"
      using ensuresD [OF e] by blast
  qed
  show ?thesis
    unfolding error6_check_def Let_def
    using False pool len body some
    by (auto simp: wp dom ensures_call [OF quote6_parse_ensures] ensures_call [OF quoted_ports_ensures] split: option.splits prod.splits)
qed

lemma error6_ok:
  assumes inv: "tr_inv t" and e: "length (e_payload e) \<le> 65515" "1 \<le> e_hop_limit e"
  shows "safe t (error6 e now t)"
proof (cases "error6_check e now t")
  case (Ok x)
  show ?thesis
  proof (cases x)
    case None
    then show ?thesis using Ok inv by (simp add: error6_def inspect_def)
  next
    case (Some y)
    obtain pool dest body where y: "y = (pool, dest, body)" by (cases y)
    have pool: "tr_ipv4 t = Some pool" and lb: "8 \<le> length body"
      using error6_check_ensures [OF e(1), of now t] Ok Some y by auto
    show ?thesis
    proof (cases "dest = pool")
      case False
      have "safe t (if_allowed now (\<lambda>_. and_then (word_sub_chk (e_hop_limit e) 1) (\<lambda>hop. and_then (icmp4_filled body) (\<lambda>icmp.
           map_ok (\<lambda>packet. \<lparr>tx_link = Ail, tx_packet = packet\<rparr>) (encode4 pool dest 1 hop icmp)))) t)"
      proof (rule if_allowed_ok [OF inv])
        have "ensures (encode4 pool dest 1 hop icmp) (\<lambda>out. own_source t \<lparr>tx_link = Ail, tx_packet = out\<rparr>)" for hop icmp
          by (rule ensures_mono [OF encode4_addressed]) (use own_source_pool [OF pool] in auto)
        then show "ensures (and_then (word_sub_chk (e_hop_limit e) 1) (\<lambda>hop. and_then (icmp4_filled body) (\<lambda>icmp.
           map_ok (\<lambda>packet. \<lparr>tx_link = Ail, tx_packet = packet\<rparr>) (encode4 pool dest 1 hop icmp)))) (own_source t)"
          using e(2) lb by (simp add: wp icmp4_filled_def)
      qed
      then show ?thesis using Ok Some y False by (simp add: error6_def inspect_def)
    next
      case True
      have fill: "icmp4_filled body = Ok (put body 2 (to_be 2 (ipv4_checksum body)))" using lb by (simp add: icmp4_filled_def)
      let ?icmp = "put body 2 (to_be 2 (ipv4_checksum body))"
      show ?thesis
      proof (cases "length ?icmp \<le> 65515")
        case len: True
        from encoded4_parse [OF len, of pool pool 1 "e_hop_limit e"] obtain p where
          p: "packet_parse (encoded4 pool pool 1 (e_hop_limit e) ?icmp) = Ok p" "p_payload p = ?icmp" "p_ttl p = e_hop_limit e"
          by auto
        have "safe t (error4 p now t)" by (rule error4_ok [OF inv]) (use p len e in simp_all)
        then show ?thesis using Ok Some y True fill len p by (simp add: error6_def inspect_def encode4_eq)
      next
        case len: False
        then show ?thesis using Ok Some y True fill inv by (simp add: error6_def inspect_def encode4_eq)
      qed
    qed
  qed
next
  case Panic
  then show ?thesis using error6_check_ensures [OF e(1), of now t] by simp
qed (use inv in \<open>simp add: error6_def inspect_def\<close>)

section \<open>Table calls under the translator\<close>

lemma served_kept: "served now key remote p e s s' \<Longrightarrow> k_domain key = bi_domain s \<Longrightarrow> kept now s s'"
  using served_confined [of now key remote p e s s'] by (simp add: served_def)

text \<open>What the four inbound calls have in common.\<close>

definition delivers :: "u64 \<Rightarrow> bindings \<Rightarrow> (io_error, (ipv6 \<times> u16) option) outcome \<times> bindings \<Rightarrow> bool" where
  "delivers now s r \<longleftrightarrow> holds r (\<lambda>x s'. kept now s s' \<and> no_new s s' \<and> adopted s x s') (expired now s)"

lemma expired_adopted: "expired now s s' \<Longrightarrow> adopted s None s'"
  by (simp add: expired_def steady_def adopted_def)

lemma query_delivers:
  assumes inv: "bind_inv s"
    and h: "holds r (\<lambda>x s'. if x = None then expired now s s' else \<exists>key. P key \<and> inbound now key (remote key) port e s x s') (expired now s)"
  shows "delivers now s r"
  unfolding delivers_def
proof (rule holds_mono [OF h])
  fix x s'
  assume "if x = None then expired now s s' else \<exists>key. P key \<and> inbound now key (remote key) port e s x s'"
  then consider "x = None" "expired now s s'" | key where "inbound now key (remote key) port e s x s'" by (auto split: if_splits)
  then show "kept now s s' \<and> no_new s s' \<and> adopted s x s'"
  proof cases
    case 1
    then show ?thesis using expired_kept [OF inv] expired_adopted by auto
  next
    case 2
    then show ?thesis using inbound_adopted [of now key "remote key" port e s x s'] by (simp add: inbound_def served_def)
  qed
qed

lemma table_delivers:
  assumes inv: "bind_inv s"
  shows "delivers now s (udp_in port remote now s)" "delivers now s (icmp_in ident address now s)"
    "delivers now s (tcp_in port remote flags now s)" "packet \<noteq> [] \<Longrightarrow> delivers now s (tcp_in_packet port remote flags now packet s)"
proof -
  show "delivers now s (udp_in port remote now s)"
    by (rule query_delivers [where P = "\<lambda>key. k_protocol key = 17" and remote = "\<lambda>_. remote", OF inv])
      (rule udp_in_ok [OF inv])
  show "delivers now s (icmp_in ident address now s)"
    by (rule query_delivers [where P = "\<lambda>key. k_protocol key = 1 \<and> live_session s (key, (address, 0)) now"
        and remote = "\<lambda>_. (address, 0)", OF inv]) (simp only: conj_assoc, rule icmp_in_ok [OF inv])
  show "delivers now s (tcp_in port remote flags now s)"
    unfolding delivers_def
    by (rule holds_mono [OF tcp_in_ok [OF inv]]) (use tcp_received_kept [OF inv] in blast)+
  show "packet \<noteq> [] \<Longrightarrow> delivers now s (tcp_in_packet port remote flags now packet s)"
    unfolding delivers_def by (rule holds_mono [OF tcp_in_packet_ok [OF inv]]) auto
qed

text \<open>The state after an inbound lookup, and where a delivered packet comes from.\<close>

definition looked_up :: "translator \<Rightarrow> (ipv6 \<times> u16) option \<Rightarrow> translator \<Rightarrow> bool" where
  "looked_up t x t' \<longleftrightarrow> tr_inv t' \<and> same_config t t' \<and> (x \<noteq> None \<longrightarrow> domain_of t (bi_domain (tr_bindings t')))"

lemma delivers_ok:
  assumes inv: "tr_inv t" and d: "delivers now (tr_bindings t) (f (tr_bindings t))"
  shows "holds (on_bindings f t) (looked_up t) (\<lambda>t'. tr_inv t' \<and> same_config t t')"
proof (rule holds_on_bindings, rule holds_mono [OF d [unfolded delivers_def]])
  have b: "bind_inv (tr_bindings t)" using inv by (simp add: tr_inv_def)
  fix x s assume s: "kept now (tr_bindings t) s \<and> no_new (tr_bindings t) s \<and> adopted (tr_bindings t) x s"
  have "domain_of t (bi_domain s)" if ne: "x \<noteq> None"
  proof -
    obtain hp where "x = Some hp" using ne by blast
    then have "\<exists>key q. has_binding (tr_bindings t) key q \<and> bi_domain s = k_domain key"
      using s by (simp add: adopted_def) blast
    then show ?thesis using inv unfolding tr_inv_def by metis
  qed
  then show "looked_up t x (t\<lparr>tr_bindings := s\<rparr>)"
    using tr_inv_kept [OF inv, where now = now and s = s] s by (simp add: looked_up_def)
next
  have b: "bind_inv (tr_bindings t)" using inv by (simp add: tr_inv_def)
  fix s assume "expired now (tr_bindings t) s"
  then show "tr_inv (t\<lparr>tr_bindings := s\<rparr>) \<and> same_config t (t\<lparr>tr_bindings := s\<rparr>)"
    using tr_inv_kept [OF inv, where now = now and s = s] expired_kept [OF b, of now s] by simp
qed

lemma hairpin_in_ok:
  assumes inv: "tr_inv t" and "protocol = 17 \<or> protocol = 58 \<or> 20 \<le> length payload"
  shows "holds (hairpin_in protocol assigned dport pool payload now t) (looked_up t) (\<lambda>t'. tr_inv t' \<and> same_config t t')"
proof -
  have b: "bind_inv (tr_bindings t)" using inv by (simp add: tr_inv_def)
  have i: "20 \<le> length payload \<Longrightarrow> (idx payload 13 :: (io_error, u8) outcome) = Ok (payload ! 13)" by (simp add: idx_in)
  show ?thesis
    using assms(2) delivers_ok [where f = "udp_in dport (pool, assigned) now", OF inv table_delivers(1) [OF b]]
      delivers_ok [where f = "icmp_in assigned pool now", OF inv table_delivers(2) [OF b]]
      delivers_ok [where f = "tcp_in dport (pool, assigned) (payload ! 13) now", OF inv table_delivers(3) [OF b]]
    by (auto simp: hairpin_in_def inspect_def i)
qed

lemma session_lookup_ok:
  assumes inv: "tr_inv t" and p: "p_protocol p = 17 \<or> p_protocol p = 1 \<or> 20 \<le> length (p_payload p)" "p_bytes p \<noteq> []"
  shows "holds (session_lookup p sport dport now t) (looked_up t) (\<lambda>t'. tr_inv t' \<and> same_config t t')"
proof -
  have b: "bind_inv (tr_bindings t)" using inv by (simp add: tr_inv_def)
  have i: "20 \<le> length (p_payload p) \<Longrightarrow> (idx (p_payload p) 13 :: (io_error, u8) outcome) = Ok (p_payload p ! 13)" by (simp add: idx_in)
  show ?thesis
    using p(1) delivers_ok [where f = "udp_in dport (p_source p, sport) now", OF inv table_delivers(1) [OF b]]
      delivers_ok [where f = "icmp_in sport (p_source p) now", OF inv table_delivers(2) [OF b]]
      delivers_ok [where f = "tcp_in_packet dport (p_source p, sport) (p_payload p ! 13) now (p_bytes p)", OF inv table_delivers(4) [OF b p(2)]]
    by (auto simp: session_lookup_def inspect_def i)
qed

text \<open>The binding of an outbound flow, in the domain the destination chose.\<close>

lemma assign_ok:
  assumes inv: "tr_inv t" and dom: "domain_of t (bi_domain (tr_bindings t))"
    and p: "e_next_header e = 17 \<or> e_next_header e = 58 \<or> 20 \<le> length (e_payload e)"
  shows "holds (assign e sport dport dest now (t, r)) (\<lambda>_ (t', _). tr_inv t' \<and> same_config t t') (\<lambda>(t', _). tr_inv t' \<and> same_config t t')"
proof -
  let ?s = "tr_bindings t"
  have b: "bind_inv ?s" using inv by (simp add: tr_inv_def)
  have upd: "tr_inv (t\<lparr>tr_bindings := s\<rparr>)" if "kept now ?s s" for s by (rule tr_inv_kept [OF inv that]) (simp add: dom)
  have udp: "holds (on_bindings_rng (udp_out (e_source e) sport (dest, dport) now (\<lambda>_. False)) (t, r))
      (\<lambda>_ (t', _). tr_inv t' \<and> same_config t t') (\<lambda>(t', _). tr_inv t' \<and> same_config t t')"
    by (rule holds_on_bindings_rng, rule holds_mono [OF udp_out_ok [OF b]]) (auto simp: upd served_kept)
  have icmp: "holds (on_bindings_rng (icmp_out (e_source e) sport dest now) (t, r))
      (\<lambda>_ (t', _). tr_inv t' \<and> same_config t t') (\<lambda>(t', _). tr_inv t' \<and> same_config t t')"
    by (rule holds_on_bindings_rng, rule holds_mono [OF icmp_out_ok [OF b]]) (auto simp: upd served_kept)
  have tcp: "holds (on_bindings_rng (tcp_out (e_source e) sport (dest, dport) flags now) (t, r))
      (\<lambda>_ (t', _). tr_inv t' \<and> same_config t t') (\<lambda>(t', _). tr_inv t' \<and> same_config t t')" for flags
    by (rule holds_on_bindings_rng, rule holds_mono [OF tcp_out_ok [OF b]]) (auto simp: upd served_kept split: option.splits)
  have i: "20 \<le> length (e_payload e) \<Longrightarrow> (idx (e_payload e) 13 :: (io_error, u8) outcome) = Ok (e_payload e ! 13)" by (simp add: idx_in)
  have "holds (then_do (on_bindings_rng (udp_out (e_source e) sport (dest, dport) now (\<lambda>_. False)) (t, r)) (\<lambda>p tr. (Ok (Some p), tr)))
      (\<lambda>_ (t', _). tr_inv t' \<and> same_config t t') (\<lambda>(t', _). tr_inv t' \<and> same_config t t')"
    by (rule holds_then_do [OF udp]) simp
  moreover have "holds (then_do (on_bindings_rng (icmp_out (e_source e) sport dest now) (t, r)) (\<lambda>p tr. (Ok (Some p), tr)))
      (\<lambda>_ (t', _). tr_inv t' \<and> same_config t t') (\<lambda>(t', _). tr_inv t' \<and> same_config t t')"
    by (rule holds_then_do [OF icmp]) simp
  ultimately show ?thesis using p tcp by (auto simp: assign_def inspect_def i)
qed

section \<open>Outbound\<close>

lemma put_port_ensures: "8 \<le> length b \<Longrightarrow> at \<le> 2 \<Longrightarrow> ensures (put_port protocol at port b) (\<lambda>b'. length b' = length b)"
  by (simp add: put_port_def wp)

lemma offset_room: "8 \<le> length b \<Longrightarrow> (p = 6 \<longrightarrow> 20 \<le> length b) \<Longrightarrow> checksum_offset p + 2 \<le> length b"
  using checksum_offset_le [of p] by (auto split: if_splits)

lemma hairpin_ok:
  assumes inv: "tr_inv t" and len: "8 \<le> length payload" "e_next_header e = 6 \<longrightarrow> 20 \<le> length payload"
    and nh: "e_next_header e \<in> {6, 17, 58}" and hop: "1 \<le> e_hop_limit e"
  shows "safe t (hairpin e assigned dport pool cls payload now t)"
  unfolding hairpin_def
proof (rule holds_then_do [OF hairpin_in_ok [OF inv]])
  show "e_next_header e = 17 \<or> e_next_header e = 58 \<or> 20 \<le> length payload" using len nh by auto
  fix x u assume u: "looked_up t x u"
  show "safe t (case x of None \<Rightarrow> (Ok [], u)
     | Some (target, port) \<Rightarrow>
         (and_then (put_port (e_next_header e) 2 port payload) (\<lambda>payload.
          and_then (word_sub_chk (e_hop_limit e) 1) (\<lambda>hop.
          map_ok (\<lambda>packet. [\<lparr>tx_link = Stub, tx_packet = packet\<rparr>])
            (encode6 (e_next_header e) (synthesize u pool) target cls hop payload))), u))"
  proof (cases x)
    case None
    then show ?thesis using u by (simp add: looked_up_def)
  next
    case (Some y)
    obtain target port where y: "y = (target, port)" by (cases y)
    have dom: "domain_of t (bi_domain (tr_bindings u))" using u Some by (simp add: looked_up_def)
    have own: "ensures (encode6 (e_next_header e) (synthesize u pool) target cls hop b)
        (\<lambda>out. own_source t \<lparr>tx_link = Stub, tx_packet = out\<rparr>)" if "length b = length payload" for b hop
      by (rule ensures_mono [OF encode6_addressed own_source_synthesized [OF inv dom]])
        (use that len offset_room in auto)
    obtain b where b: "put_port (e_next_header e) 2 port payload = Ok b" "length b = length payload"
      using len by (auto simp: put_port_def)
    have "safe t (map_ok (\<lambda>packet. [\<lparr>tx_link = Stub, tx_packet = packet\<rparr>])
        (encode6 (e_next_header e) (synthesize u pool) target cls (e_hop_limit e - 1) b), u)"
      using own [OF b(2), of "e_hop_limit e - 1"] u
      by (cases "encode6 (e_next_header e) (synthesize u pool) target cls (e_hop_limit e - 1) b") (auto simp: looked_up_def)
    then show ?thesis using Some y b(1) hop by (simp add: word_sub_chk_def)
  qed
qed

lemma packet6_to_4_ensures:
  assumes len: "8 \<le> length payload" "e_next_header e = 6 \<longrightarrow> 20 \<le> length payload" and hop: "1 \<le> e_hop_limit e"
  shows "ensures (packet6_to_4 d e pool dest cls payload ident) (\<lambda>out. addressed4 out pool dest \<and> 20 \<le> length out)"
proof -
  define p b where "p = (if e_next_header e = 58 then 1 else e_next_header e)"
    and "b = (if e_next_header e = 58 then put payload 0 [if payload ! 0 = 128 then 8 else 0] else payload)"
  have i: "(idx payload 0 :: (io_error, u8) outcome) = Ok (payload ! 0)" using len(1) by (intro idx_in) linarith
  have first: "(if e_next_header e = 58
        then and_then (idx payload 0) (\<lambda>kind. map_ok (Pair 1) (put_r payload 0 [if kind = 128 then 8 else 0]))
        else Ok (e_next_header e, payload)) = (Ok (p, b) :: (io_error, u8 \<times> bytes) outcome)"
    using len(1) by (simp add: p_def b_def i)
  have lb: "length b = length payload" using len(1) by (simp add: b_def)
  have at: "checksum_offset p + 2 \<le> length b" by (rule offset_room) (use len lb in \<open>auto simp: p_def split: if_splits\<close>)
  show ?thesis
  proof (cases "fill_sum p (checksum4 pool dest p) b")
    case (Ok b')
    show ?thesis
    proof (cases "encode4 pool dest p (e_hop_limit e - 1) b'")
      case o2: (Ok out)
      have out: "addressed4 out pool dest" "20 \<le> length out" using encode4_addressed [of pool dest p "e_hop_limit e - 1" b'] o2 by auto
      define ident' where "ident' = to_be 2 (case dg_fragment_id d of None \<Rightarrow> ident | Some ident \<Rightarrow> ucast ident)"
      define x where "x = put (put out 1 [cls]) 4 ident'"
      have x: "addressed4 x pool dest" "length x = length out"
        using out put_addressed4 by (auto simp: x_def ident'_def intro!: put_addressed4)
      define y where "y = (if 1260 < length out \<and> dg_fragment_id d = None then put x 6 [0x40] else x)"
      have y: "addressed4 y pool dest" "length y = length out"
        using x out by (auto simp: y_def intro!: put_addressed4)
      let ?z = "put y 10 [0, 0]"
      have z: "addressed4 (put ?z 10 (to_be 2 c)) pool dest" for c :: u16 using y out by (auto intro!: put_addressed4)
      have steps: "(put_r out 1 [cls] :: (io_error, bytes) outcome) = Ok (put out 1 [cls])"
        "(put_r (put out 1 [cls]) 4 ident' :: (io_error, bytes) outcome) = Ok x"
        "((if 1260 < length x \<and> dg_fragment_id d = None then put_r x 6 [0x40] else Ok x) :: (io_error, bytes) outcome) = Ok y"
        "(put_r y 10 [0, 0] :: (io_error, bytes) outcome) = Ok ?z" "(slice_r ?z 0 20 :: (io_error, bytes) outcome) = Ok (take 20 ?z)"
        "(put_r ?z 10 (to_be 2 c) :: (io_error, bytes) outcome) = Ok (put ?z 10 (to_be 2 c))"
        "(word_sub_chk (e_hop_limit e) 1 :: (io_error, u8) outcome) = Ok (e_hop_limit e - 1)" for c :: u16
        using out(2) x(2) y(2) hop by (auto simp: x_def y_def ident'_def word_sub_chk_def)
      have "packet6_to_4 d e pool dest cls payload ident = Ok (put ?z 10 (to_be 2 (ipv4_checksum (take 20 ?z))))"
        unfolding packet6_to_4_def first and_then.simps prod.case Ok o2 ident'_def [symmetric] steps ..
      then show ?thesis using z y(2) out(2) by simp
    next
      case Panic
      then show ?thesis using encode4_addressed [of pool dest p "e_hop_limit e - 1" b'] by simp
    qed (use hop in \<open>simp add: packet6_to_4_def first Ok word_sub_chk_def\<close>)
  next
    case Panic
    then show ?thesis using fill_sum_ensures [OF at, of "checksum4 pool dest p"] by simp
  qed (simp add: packet6_to_4_def first)
qed

lemma tr_inv_identification: "tr_inv t \<Longrightarrow> tr_inv (t\<lparr>tr_identification := n\<rparr>) \<and> same_config t (t\<lparr>tr_identification := n\<rparr>)"
  by (simp add: tr_inv_def domain_of_def same_config_def)

lemma emit4_ok:
  assumes inv: "tr_inv t" and pool: "tr_ipv4 t = Some pool"
    and len: "8 \<le> length payload" "e_next_header e = 6 \<longrightarrow> 20 \<le> length payload" and hop: "1 \<le> e_hop_limit e"
  shows "safe t (emit4 d e pool dest cls payload t)"
proof (cases "packet6_to_4 d e pool dest cls payload (tr_identification t)")
  case (Ok out)
  have out: "addressed4 out pool dest" "20 \<le> length out"
    using packet6_to_4_ensures [OF len hop, of d pool dest cls "tr_identification t"] Ok by auto
  let ?t = "t\<lparr>tr_identification := tr_identification t + 1\<rparr>" and ?id = "ucast (from_be (take 2 (drop 4 out)) :: u16) :: u32"
  have own: "list_all (own_source t) (map (\<lambda>packet. \<lparr>tx_link = Ail, tx_packet = packet\<rparr>) fs)"
    if "list_all (\<lambda>f. addressed4 f pool dest) fs" for fs
    using that own_source_pool [OF pool] by (auto simp: list_all_iff)
  show ?thesis
    using tr_inv_identification [OF inv] frag_split_v4 [OF out(1), of "unat (mtu4 t)" ?id] own out(2)
    by (cases "frag_split out (unat (mtu4 t)) ?id") (auto simp: emit4_def Ok inspect_def)
next
  case Panic
  then show ?thesis using packet6_to_4_ensures [OF len hop, of d pool dest cls "tr_identification t"] by simp
qed (use inv in \<open>simp add: emit4_def inspect_def\<close>)

abbreviation safe_rng :: "translator \<Rightarrow> (io_error, tx list) outcome \<times> translator \<times> rng \<Rightarrow> bool" where
  "safe_rng t z \<equiv> holds z (\<lambda>out (t', _). tr_inv t' \<and> same_config t t' \<and> list_all (own_source t) out)
     (\<lambda>(t', _). tr_inv t' \<and> same_config t t')"

lemma safe_on_fst: "safe t (f t) \<Longrightarrow> safe_rng t (on_fst f (t, r))"
  by (rule holds_on_fst) simp

text \<open>A later call of the same run, from a state with the same configuration.\<close>

lemma safe_same: "safe u z \<Longrightarrow> same_config t u \<Longrightarrow> safe t z"
proof (erule holds_mono)
  fix x s assume c: "same_config t u" and s: "tr_inv s \<and> same_config u s \<and> list_all (own_source u) x"
  have "own_source u = own_source t" by (rule HOL.ext) (rule own_source_same [OF c])
  then show "tr_inv s \<and> same_config t s \<and> list_all (own_source t) x" using s same_config_trans [OF c] by simp
qed (use same_config_trans in blast)

lemma outbound_forward_ok:
  assumes inv: "tr_inv t" and dom: "domain_of t (bi_domain (tr_bindings t))" and pool: "tr_ipv4 t = Some pool"
    and len: "8 \<le> length (e_payload e)" "e_next_header e = 6 \<longrightarrow> 20 \<le> length (e_payload e)"
    and nh: "e_next_header e \<in> {6, 17, 58}" and hop: "1 \<le> e_hop_limit e" and pk: "2 \<le> length (dg_packet d)"
  shows "safe_rng t (outbound_forward d e sport dport pool dest now (t, r))"
  unfolding outbound_forward_def
proof (rule holds_then_do [OF assign_ok [OF inv dom]])
  show "e_next_header e = 17 \<or> e_next_header e = 58 \<or> 20 \<le> length (e_payload e)" using len nh by auto
  fix x and tr :: "translator \<times> rng" assume "case tr of (t', _) \<Rightarrow> tr_inv t' \<and> same_config t t'"
  then obtain u r' where tr: "tr = (u, r')" and u: "tr_inv u" "same_config t u" by (cases tr) auto
  have pool': "tr_ipv4 u = Some pool" using u(2) pool by (simp add: same_config_def)
  show "safe_rng t (case x of None \<Rightarrow> (Ok [], tr)
     | Some assigned \<Rightarrow>
         then_do (inspect (and_then (idx (dg_packet d) 0) (\<lambda>b0. and_then (idx (dg_packet d) 1) (\<lambda>b1.
             Ok (push_bit 4 (b0 AND 15) OR drop_bit 4 b1)))) tr) (\<lambda>cls tr.
         then_do (inspect (put_port (e_next_header e) 0 assigned (e_payload e)) tr) (\<lambda>payload tr.
         if dest = pool then on_fst (hairpin e assigned dport pool cls payload now) tr
         else on_fst (emit4 d e pool dest cls payload) tr)))"
  proof (cases x)
    case None
    then show ?thesis using tr u by simp
  next
    case (Some assigned)
    obtain b where b: "put_port (e_next_header e) 0 assigned (e_payload e) = Ok b" "length b = length (e_payload e)"
      using len(1) by (auto simp: put_port_def)
    have lb: "8 \<le> length b" "e_next_header e = 6 \<longrightarrow> 20 \<le> length b" using len b(2) by auto
    have i: "(idx (dg_packet d) 0 :: (io_error, u8) outcome) = Ok (dg_packet d ! 0)"
      "(idx (dg_packet d) (Suc 0) :: (io_error, u8) outcome) = Ok (dg_packet d ! 1)" using pk by (auto intro!: idx_in)
    have "safe_rng t (on_fst (hairpin e assigned dport pool cls b now) (u, r'))" for cls
      using safe_same [OF hairpin_ok [OF u(1) lb nh hop] u(2)] by (intro holds_on_fst) simp
    moreover have "safe_rng t (on_fst (emit4 d e pool dest cls b) (u, r'))" for cls
      using safe_same [OF emit4_ok [OF u(1) pool' lb hop] u(2)] by (intro holds_on_fst) simp
    ultimately show ?thesis
      by (simp add: Some tr inspect_def i b(1))
  qed
qed

lemma outbound_ports_ensures:
  "ensures (outbound_ports e) (\<lambda>_. 8 \<le> length (e_payload e) \<and> (e_next_header e = 6 \<longrightarrow> 20 \<le> length (e_payload e)))"
proof (cases "packet_ports (e_next_header e) (e_payload e)")
  case (Ok sd)
  then show ?thesis
    using packet_ports_ensures [of "e_next_header e" "e_payload e"] by (auto simp: outbound_ports_def wp)
next
  case Panic
  then show ?thesis using packet_ports_ensures [of "e_next_header e" "e_payload e"] by simp
qed (simp add: outbound_ports_def)

lemma outbound_admit_ok:
  assumes inv: "tr_inv t" and dom: "domain_of t (bi_domain (tr_bindings t))" and pool: "tr_ipv4 t = Some pool"
    and dest: "\<exists>p \<in> set (tr_prefixes t). prefix_contains p (e_destination e)"
    and len: "length (e_payload e) \<le> 65515" and pk: "2 \<le> length (dg_packet d)"
  shows "safe_rng t (outbound_admit d e problem pool dest' now (t, r))"
proof -
  have gen: "safe_rng t (on_fst (generate6 e kind code v now) (t, r))" for kind code v
    by (rule safe_on_fst) (rule generate6_ok [OF inv dest])
  have err: "safe_rng t (on_fst (error6 e now) (t, r))" if "\<not> e_hop_limit e \<le> 1"
    by (rule safe_on_fst, rule error6_ok [OF inv len]) (use that in auto)
  show ?thesis
  proof (cases "e_next_header e = 58 \<and> (case e_payload e of [] \<Rightarrow> False | kind # _ \<Rightarrow> kind < 128)")
    case True
    then show ?thesis using err inv by (auto simp: outbound_admit_def Let_def)
  next
    case False
    show ?thesis
    proof (cases "problem = None \<and> List.member [6, 17, 58] (e_next_header e)")
      case ok: True
      show ?thesis
      proof (cases "outbound_ports e")
        case (Ok sd)
        obtain sport dport where sd: "sd = (sport, dport)" by (cases sd)
        have "safe_rng t (outbound_forward d e sport dport pool dest' now (t, r))" if "\<not> e_hop_limit e \<le> 1"
          using outbound_ports_ensures [of e] Ok ok that by (intro outbound_forward_ok [OF inv dom pool _ _ _ _ pk]) auto
        then show ?thesis
          using False ok gen Ok sd by (auto simp: outbound_admit_def Let_def inspect_def)
      next
        case Panic
        then show ?thesis using outbound_ports_ensures [of e] by simp
      qed (use False ok inv in \<open>auto simp: outbound_admit_def Let_def inspect_def\<close>)
    next
      case bad: False
      then show ?thesis using False gen by (auto simp: outbound_admit_def Let_def split: option.splits)
    qed
  qed
qed

lemma outbound_parse_ensures:
  "ensures (outbound_parse b) (\<lambda>(e, _). length (e_payload e) \<le> 65515 \<and> 40 \<le> length b)"
proof (cases "Wire.envelope RawIpv6 b")
  case (Ok e)
  then have l: "40 \<le> length b" by (auto simp: Wire.envelope_def split: if_splits)
  then show ?thesis by (auto simp: outbound_parse_def Ok wp ensures_call [OF transport6_ensures] dest!: ensuresD [OF transport6_ensures [OF l]])
next
  case Panic
  then show ?thesis using envelope_ensures [of RawIpv6 b] by simp
qed (simp add: outbound_parse_def)

lemma outbound_datagram_ok:
  assumes inv: "tr_inv t"
  shows "safe_rng t (outbound_datagram d now allowed reach (t, r))"
proof (cases "outbound_parse (dg_packet d)")
  case (Ok x)
  obtain e problem where x: "x = (e, problem)" by (cases x)
  have len: "length (e_payload e) \<le> 65515" "2 \<le> length (dg_packet d)"
    using outbound_parse_ensures [of "dg_packet d"] Ok x by auto
  show ?thesis
  proof (cases "tr_ipv4 t = None \<or> source_refused allowed (tr_prefixes t) e")
    case True
    then show ?thesis using inv Ok x by (auto simp: outbound_datagram_def inspect_def split: option.splits)
  next
    case False
    obtain pool where pool: "tr_ipv4 t = Some pool" using False by auto
    have "\<exists>p \<in> set (tr_prefixes t). prefix_contains p (e_destination e)"
      using False by (auto simp: source_refused_def list_ex_iff)
    then obtain p where find: "find (\<lambda>p. prefix_contains p (e_destination e)) (tr_prefixes t) = Some p"
      by (metis (no_types, lifting) find_None_iff not_None_eq)
    then have p: "p \<in> set (tr_prefixes t)" "prefix_contains p (e_destination e)" by (auto simp: find_Some_iff)
    let ?t = "set_domain (px_address p) t"
    have "safe_rng ?t (outbound_admit d e problem pool (extract4 (e_destination e)) now (?t, r))"
      by (rule outbound_admit_ok) (use inv pool p len in \<open>auto simp: domain_of_def\<close>)
    then have "safe_rng t (outbound_admit d e problem pool (extract4 (e_destination e)) now (?t, r))"
      by (rule holds_mono) (auto simp: same_config_def)
    then show ?thesis
      using False inv Ok x pool find by (auto simp: outbound_datagram_def inspect_def Let_def)
  qed
next
  case Panic
  then show ?thesis using outbound_parse_ensures [of "dg_packet d"] by simp
qed (use inv in \<open>simp add: outbound_datagram_def inspect_def\<close>)

section \<open>Inbound\<close>

lemma packet4_to_6_ensures:
  assumes inv: "tr_inv t" and dom: "domain_of t (bi_domain (tr_bindings u))"
    and len: "8 \<le> length (p_payload p)" "p_protocol p = 6 \<longrightarrow> 20 \<le> length (p_payload p)" and ttl: "1 \<le> p_ttl p"
  shows "ensures (packet4_to_6 p target port u) (\<lambda>out. \<exists>d. addressed6 out (synthesize u (p_source p)) d)"
proof -
  have ad: "ensures (encode6 q (synthesize u (p_source p)) target c h b) (\<lambda>out. \<exists>d. addressed6 out (synthesize u (p_source p)) d)"
    if "length b = length (p_payload p)" "q = 58 \<or> q = p_protocol p" for q c h b
    by (rule ensures_mono [OF encode6_addressed]) (use that len offset_room [of b q] in auto)
  have l0: "0 < length (put (p_payload p) 4 (to_be 2 port))" using len(1) by (simp del: length_greater_0_conv)
  show ?thesis
  proof (cases "p_protocol p = 1")
    case True
    then show ?thesis using len ttl l0 by (auto simp: packet4_to_6_def wp intro!: ad)
  next
    case False
    then show ?thesis using len ttl by (auto simp: packet4_to_6_def wp intro!: ad)
  qed
qed

lemma inbound_parse_ensures:
  "ensures (inbound_parse b) (\<lambda>p. packet_wf b False p \<and> packet_walk p \<and> length (p_payload p) \<le> 65515
     \<and> p_protocol p \<in> {1, 6, 17} \<and> p_bytes p \<noteq> [])"
proof (cases "packet_parse b")
  case (Ok p)
  have wf: "packet_wf b False p" using packet_parse_ensures [of b] Ok by simp
  moreover have "packet_walk p" using Ok parse_inner_walk by (simp add: packet_parse_def)
  moreover have "length (p_payload p) \<le> 65515"
    using wf u16_le [of "from_be (take 2 (drop 2 b))"] by (auto simp: packet_wf_def)
  ultimately show ?thesis by (auto simp: inbound_parse_def Ok packet_wf_def)
next
  case Panic
  then show ?thesis using packet_parse_ensures [of b] by simp
qed (simp add: inbound_parse_def)

lemma inbound_ports_ensures:
  "ensures (inbound_ports p) (\<lambda>_. 8 \<le> length (p_payload p) \<and> (p_protocol p = 6 \<longrightarrow> 20 \<le> length (p_payload p)))"
proof (cases "packet_ports (p_protocol p) (p_payload p)")
  case (Ok sd)
  then show ?thesis
    using packet_ports_ensures [of "p_protocol p" "p_payload p"] by (auto simp: inbound_ports_def wp)
next
  case Panic
  then show ?thesis using packet_ports_ensures [of "p_protocol p" "p_payload p"] by simp
qed (simp add: inbound_ports_def)

lemma inbound_forward_ok:
  assumes inv: "tr_inv t" and pr: "p_protocol p \<in> {1, 6, 17}" "p_bytes p \<noteq> []"
    and len: "8 \<le> length (p_payload p)" "p_protocol p = 6 \<longrightarrow> 20 \<le> length (p_payload p)" and ttl: "1 \<le> p_ttl p"
  shows "safe t (inbound_forward p sport dport now t)"
  unfolding inbound_forward_def
proof (rule holds_then_do [OF session_lookup_ok [OF inv _ pr(2)]])
  show "p_protocol p = 17 \<or> p_protocol p = 1 \<or> 20 \<le> length (p_payload p)" using len pr by auto
  fix x u assume u: "looked_up t x u"
  show "safe t (case x of None \<Rightarrow> (Ok [], u)
     | Some (target, port) \<Rightarrow>
         (and_then (packet4_to_6 p target port u) (\<lambda>out.
            let mtu = (if p_dont_fragment p then mtu6 u else min (mtu6 u) (tr_lowest_ipv6_mtu u)) in
            map_ok (map (\<lambda>packet. \<lparr>tx_link = Stub, tx_packet = packet\<rparr>))
              (frag_split out (unat mtu) (ucast (p_id p)))), u))"
  proof (cases x)
    case None
    then show ?thesis using u by (simp add: looked_up_def)
  next
    case (Some y)
    obtain target port where y: "y = (target, port)" by (cases y)
    have dom: "domain_of t (bi_domain (tr_bindings u))" using u Some by (simp add: looked_up_def)
    have "ensures (and_then (packet4_to_6 p target port u) (\<lambda>out. map_ok (map (\<lambda>packet. \<lparr>tx_link = Stub, tx_packet = packet\<rparr>))
              (frag_split out n ident))) (list_all (own_source t))" for n ident
    proof (cases "packet4_to_6 p target port u")
      case (Ok out)
      then obtain d where "addressed6 out (synthesize u (p_source p)) d"
        using packet4_to_6_ensures [OF inv dom len ttl, of target port] by auto
      from frag_split_v6 [OF this, of n ident] show ?thesis
        using own_source_synthesized [OF inv dom] by (cases "frag_split out n ident") (auto simp: Ok list_all_iff)
    next
      case Panic
      then show ?thesis using packet4_to_6_ensures [OF inv dom len ttl, of target port] by simp
    qed simp
    note own = this
    show ?thesis
      using u own [of "unat (if p_dont_fragment p then mtu6 u else min (mtu6 u) (tr_lowest_ipv6_mtu u))" "ucast (p_id p)"]
      by (cases "and_then (packet4_to_6 p target port u) (\<lambda>out. map_ok (map (\<lambda>packet. \<lparr>tx_link = Stub, tx_packet = packet\<rparr>))
            (frag_split out (unat (if p_dont_fragment p then mtu6 u else min (mtu6 u) (tr_lowest_ipv6_mtu u))) (ucast (p_id p))))")
        (auto simp: Some y Let_def looked_up_def)
  qed
qed

lemma inbound_reject_ok:
  assumes inv: "tr_inv t" and pool: "tr_ipv4 t = Some (p_destination p)"
  shows "safe t (inbound_reject p route sport dport now t)"
  using generate4_ok [OF inv pool] inv by (auto simp: inbound_reject_def Let_def split: prod.splits)

lemma translate_inbound_ok:
  assumes inv: "tr_inv t"
  shows "safe t (translate_inbound packet now t)"
proof (cases "inbound_parse packet")
  case (Ok p)
  have p: "packet_wf packet False p" "packet_walk p" "length (p_payload p) \<le> 65515" "p_protocol p \<in> {1, 6, 17}" "p_bytes p \<noteq> []"
    using inbound_parse_ensures [of packet] Ok by auto
  have e4: "safe t (error4 p now t)" if "\<not> p_ttl p \<le> 1" by (rule error4_ok [OF inv p(3)]) (use that in auto)
  show ?thesis
  proof (cases "p_protocol p = 1 \<and> (case p_payload p of [] \<Rightarrow> False | kind # _ \<Rightarrow> \<not> List.member [0, 8] kind)")
    case True
    then show ?thesis using e4 inv by (auto simp: translate_inbound_def inspect_def Ok)
  next
    case False
    show ?thesis
    proof (cases "inbound_ports p")
      case ports: (Ok sd)
      obtain sport dport where sd: "sd = (sport, dport)" by (cases sd)
      have len: "8 \<le> length (p_payload p)" "p_protocol p = 6 \<longrightarrow> 20 \<le> length (p_payload p)"
        using inbound_ports_ensures [of p] ports by auto
      have route: "unexpired_source_route p \<noteq> Panic"
        using unexpired_source_route_ensures [OF p(2)] p(1) by (simp add: no_panic_ensures packet_wf_def)
      have fwd: "safe t (inbound_forward p sport dport now t)" if "\<not> p_ttl p \<le> 1"
        by (rule inbound_forward_ok [OF inv p(4,5) len]) (use that in auto)
      show ?thesis
        using False inv route fwd inbound_reject_ok [OF inv]
        by (cases "unexpired_source_route p") (auto simp: translate_inbound_def inspect_def Ok ports sd)
    next
      case Panic
      then show ?thesis using inbound_ports_ensures [of p] by simp
    qed (use False inv in \<open>auto simp: translate_inbound_def inspect_def Ok\<close>)
  qed
next
  case Panic
  then show ?thesis using inbound_parse_ensures [of packet] by simp
qed (use inv in \<open>simp add: translate_inbound_def inspect_def\<close>)

section \<open>Timers and configuration\<close>

lemma probe_packets_ok:
  assumes "tr_inv t" and "set ps \<subseteq> {x. bt_contains (bi_reverse (tr_bindings t)) (6, fst (snd (snd x)))}"
    and "list_all (own_source t) sent"
  shows "holds (probe_packets ps sent t)
    (\<lambda>out t'. tr_inv t' \<and> same_config t t' \<and> list_all (own_source t) out \<and> length out = length sent + length ps)
    (\<lambda>t'. tr_inv t' \<and> same_config t t')"
  using assms
proof (induction ps sent t rule: probe_packets.induct)
  case (1 sent t)
  then show ?case by simp
next
  case (2 source port allocated remote ps sent t)
  obtain key where key: "bt_get (bi_reverse (tr_bindings t)) (6, allocated) = Some key"
    using 2(3) by (auto simp: bt_contains_def)
  have b: "bind_inv (tr_bindings t)" using 2(2) by (simp add: tr_inv_def)
  have "domain_of t (k_domain key)" using reverse_binding(2) [OF b key] 2(2) unfolding tr_inv_def by blast
  let ?t = "set_domain (k_domain key) t"
  let ?tcp = "to_be 2 (snd remote) @ to_be 2 port @ replicate 8 0 @ [0x50, 16] @ replicate 6 0"
  have dom: "domain_of t (bi_domain (tr_bindings ?t))" using \<open>domain_of t (k_domain key)\<close> by simp
  have enc: "ensures (encode6 6 (synthesize ?t (fst remote)) source 0 64 ?tcp) (\<lambda>out. own_source t \<lparr>tx_link = Stub, tx_packet = out\<rparr>)"
    by (rule ensures_mono [OF encode6_addressed own_source_synthesized [OF 2(2) dom]]) (simp add: checksum_offset_def)
  have d: "domain_for (tr_bindings t) 6 allocated = Some (k_domain key)" using key by (simp add: domain_for_def)
  have rev: "bi_reverse (tr_bindings ?t) = bi_reverse (tr_bindings t)" by (simp add: set_domain_def)
  show ?case
  proof (cases "encode6 6 (synthesize ?t (fst remote)) source 0 64 ?tcp")
    case (Ok packet)
    have "holds (probe_packets ps (sent @ [\<lparr>tx_link = Stub, tx_packet = packet\<rparr>]) ?t)
        (\<lambda>out t'. tr_inv t' \<and> same_config ?t t' \<and> list_all (own_source ?t) out
          \<and> length out = length (sent @ [\<lparr>tx_link = Stub, tx_packet = packet\<rparr>]) + length ps)
        (\<lambda>t'. tr_inv t' \<and> same_config ?t t')"
      by (rule 2(1)) (use 2(2-4) enc Ok rev in auto)
    then show ?thesis
      by (auto simp: inspect_def d Let_def Ok [simplified] same_config_def elim!: holds_mono)
  next
    case Panic
    then show ?thesis using enc by simp
  next
    case (Err e)
    then show ?thesis using 2(2) by (simp add: inspect_def d Let_def same_config_def)
  qed
qed

lemma timeout_packets_ensures:
  assumes pool: "tr_ipv4 t = Some pool"
  shows "list_all (own_source t) sent \<Longrightarrow> ensures (timeout_packets pool qs sent) (list_all (own_source t))"
proof (induction qs arbitrary: sent)
  case (Cons quote qs)
  show ?case
  proof (cases "packet_quoted quote")
    case (Ok p)
    have fill: "\<exists>icmp. icmp4_filled ([3, 3, 0, 0, 0, 0, 0, 0] @ quote) = Ok icmp" by (simp add: icmp4_filled_def)
    then obtain icmp where icmp: "icmp4_filled ([3, 3, 0, 0, 0, 0, 0, 0] @ quote) = Ok icmp" ..
    show ?thesis
    proof (cases "encode4 pool (p_source p) 1 64 icmp")
      case o2: (Ok out)
      have "own_source t \<lparr>tx_link = Ail, tx_packet = out\<rparr>"
        using own_source_pool [OF pool] encode4_addressed [of pool "p_source p" 1 64 icmp] o2 by auto
      then show ?thesis using Cons icmp Ok o2 by simp
    next
      case Panic
      then show ?thesis using encode4_addressed [of pool "p_source p" 1 64 icmp] by simp
    qed (use Ok icmp in simp)
  next
    case Panic
    then show ?thesis using packet_quoted_ensures [of quote] by simp
  qed simp
qed simp

lemma translator_poll_ok:
  assumes inv: "tr_inv t"
  shows "safe t (translator_poll now t)"
  unfolding translator_poll_def
proof (rule holds_then_do [where P = "\<lambda>_ t'. tr_inv t' \<and> same_config t t'"])
  have b: "bind_inv (tr_bindings t)" using inv by (simp add: tr_inv_def)
  show "holds (on_bindings (run_expire now) t) (\<lambda>_ t'. tr_inv t' \<and> same_config t t') (\<lambda>t'. tr_inv t' \<and> same_config t t')"
    by (rule holds_on_bindings, rule holds_mono [OF run_expire_ok [OF b]])
      (use tr_inv_kept [OF inv, where now = now] expired_kept [OF b] in auto)
  fix u assume u: "tr_inv u \<and> same_config t u"
  let ?probes = "\<lambda>s. case take_tcp_probes 32 s of
             Ok (s', probes) \<Rightarrow> (Ok probes, s') | Err e \<Rightarrow> (Err e, s) | Panic \<Rightarrow> (Panic, s)"
  let ?quotes = "\<lambda>room s. case take_tcp_timeouts room s of (quotes, s') \<Rightarrow> (Ok quotes, s')"
  have bu: "bind_inv (tr_bindings u)" using u by (simp add: tr_inv_def)
  show "safe t (case tr_ipv4 u of None \<Rightarrow> (Ok [], u)
     | Some pool \<Rightarrow>
         then_do (on_bindings ?probes u) (\<lambda>probes t.
         then_do (probe_packets probes [] t) (\<lambda>sent t.
         then_do (inspect (sub_chk 32 (length sent)) t) (\<lambda>room t.
         then_do (on_bindings (?quotes room) t) (\<lambda>quotes t.
           (timeout_packets pool quotes sent, t))))))"
  proof (cases "tr_ipv4 u")
    case None
    then show ?thesis using u by simp
  next
    case (Some pool)
    obtain s probes where pr: "take_tcp_probes 32 (tr_bindings u) = Ok (s, probes)" "bind_inv s" "length probes \<le> 32"
      "keeps_all (tr_bindings u) s" "no_new (tr_bindings u) s" "bi_reverse s = bi_reverse (tr_bindings u)"
      "set probes \<subseteq> {x. bt_contains (bi_reverse (tr_bindings u)) (6, fst (snd (snd x)))}"
      using take_tcp_probes_ok [OF bu, of 32] by blast
    let ?u = "u\<lparr>tr_bindings := s\<rparr>"
    have iu: "tr_inv ?u"
      by (rule tr_inv_kept [where now = now]) (use u pr keeps_all_keeps in auto)
    have run: "holds (probe_packets probes [] ?u)
        (\<lambda>out t'. tr_inv t' \<and> same_config ?u t' \<and> list_all (own_source ?u) out \<and> length out = length probes)
        (\<lambda>t'. tr_inv t' \<and> same_config ?u t')"
      using probe_packets_ok [OF iu, of probes "[]"] pr by simp
    have "safe ?u (then_do (probe_packets probes [] ?u) (\<lambda>sent t.
         then_do (inspect (sub_chk 32 (length sent)) t) (\<lambda>room t.
         then_do (on_bindings (?quotes room) t) (\<lambda>quotes t. (timeout_packets pool quotes sent, t)))))"
    proof (rule holds_then_do [OF run])
      fix sent w
      assume w: "tr_inv w \<and> same_config ?u w \<and> list_all (own_source ?u) sent \<and> length sent = length probes"
      let ?room = "32 - length probes"
      obtain quotes s2 where q: "take_tcp_timeouts ?room (tr_bindings w) = (quotes, s2)" by (cases "take_tcp_timeouts ?room (tr_bindings w)")
      have "bind_inv (tr_bindings w)" using w by (simp add: tr_inv_def)
      from take_tcp_timeouts_ok [OF this q] have s2: "bind_inv s2" "keeps_all (tr_bindings w) s2" "no_new (tr_bindings w) s2" by simp_all
      have iw: "tr_inv (w\<lparr>tr_bindings := s2\<rparr>)"
        by (rule tr_inv_kept [where now = now]) (use w s2 keeps_all_keeps in auto)
      have "tr_ipv4 ?u = Some pool" using Some by simp
      from timeout_packets_ensures [OF this, of sent quotes] w
      have "ensures (timeout_packets pool quotes sent) (list_all (own_source ?u))" by blast
      then show "safe ?u (then_do (inspect (sub_chk 32 (length sent)) w) (\<lambda>room t.
         then_do (on_bindings (?quotes room) t) (\<lambda>quotes t. (timeout_packets pool quotes sent, t))))"
        using w pr(3) iw by (cases "timeout_packets pool quotes sent") (auto simp: inspect_def sub_chk_def on_bindings_def q)
    qed
    from safe_same [OF this] u show ?thesis
      by (simp add: Some on_bindings_def pr(1))
  qed
qed

lemma set_prefixes_ok:
  assumes inv: "tr_inv t"
  shows "holds (set_prefixes ps t) (\<lambda>_ t'. tr_inv t' \<and> tr_prefixes t' = ps) (\<lambda>t'. t' = t)"
proof (cases "8 < length ps \<or> list_ex (\<lambda>p. px_length p \<noteq> 96 \<or> \<not> usable p) ps")
  case True
  then show ?thesis by (simp add: set_prefixes_def)
next
  case False
  have b: "bind_inv (tr_bindings t)" using inv by (simp add: tr_inv_def)
  obtain s where s: "retain_domains ps (tr_bindings t) = Ok s" "bind_inv s"
    "\<And>key q. has_binding s key q \<longleftrightarrow> has_binding (tr_bindings t) key q \<and> list_ex (\<lambda>p. px_address p = k_domain key) ps"
    using retain_domains_ok [OF b, of ps] by blast
  have "tr_inv (t\<lparr>tr_bindings := s, tr_prefixes := ps\<rparr>)"
    using inv s(2,3) False by (auto simp: tr_inv_def domain_of_def list_ex_iff)
  then show ?thesis using False inv s(1) by (auto simp: set_prefixes_def on_bindings_def modify_def)
qed

lemma set_ipv4_ok:
  assumes inv: "tr_inv t"
  shows "holds (set_ipv4 a t) (\<lambda>_ t'. tr_inv t' \<and> tr_ipv4 t' = a) (\<lambda>t'. t' = t)"
proof (cases "case a of None \<Rightarrow> False | Some a \<Rightarrow> \<not> unicast a")
  case True
  then show ?thesis by (simp add: set_ipv4_def)
next
  case False
  have b: "bind_inv (tr_bindings t)" using inv by (simp add: tr_inv_def)
  obtain s rel where s: "bind_clear (tr_bindings t) = Ok (s, rel)" "bind_inv s" "bind_counts s = (0, 0, 0)"
    using bind_clear_ok [OF b] by blast
  have "bi_bindings s = bt_empty" using s(1) by (auto simp: bind_clear_def and_then_Ok_iff)
  then have "tr_inv (t\<lparr>tr_bindings := s, tr_ipv4 := a\<rparr>)"
    using inv s(2) False by (auto simp: tr_inv_def domain_of_def has_binding_def split: option.splits)
  then show ?thesis using False inv s(1) by (auto simp: set_ipv4_def on_bindings_def modify_def)
qed

end
