(* ===== verification/Nat64_Translate_Props.thy ===== *)
theory Nat64_Translate_Props
  imports Nat64_Translate_Inv Nat64_Bindings_Props
begin

text \<open>
  Runs of the translator and its properties.
\<close>

section \<open>Runs of the translator\<close>

text \<open>
  One call of the translator, with any packet, any time, any policy on sources and destinations
  and any random bytes; \<open>table\<close> is a call on the public binding tables that creates no binding:
  their timeouts and filtering policy, or another holder of the shared port registry.
\<close>

inductive tr_call :: "translator \<Rightarrow> translator \<Rightarrow> bool" where
  outbound: "outbound_datagram d now source_allowed reachable (t, r) = (x, t', r') \<Longrightarrow> tr_call t t'"
| inbound: "translate_inbound packet now t = (x, t') \<Longrightarrow> tr_call t t'"
| poll: "translator_poll now t = (x, t') \<Longrightarrow> tr_call t t'"
| prefixes: "set_prefixes ps t = (y, t') \<Longrightarrow> tr_call t t'"
| ipv4: "set_ipv4 a t = (y, t') \<Longrightarrow> tr_call t t'"
| mtus: "tr_call t (set_mtus m t)"
| lowest: "set_lowest_ipv6_mtu m t = (y, t') \<Longrightarrow> tr_call t t'"
| table: "bind_call (tr_bindings t) s \<Longrightarrow> no_new (tr_bindings t) s \<Longrightarrow> tr_call t (t\<lparr>tr_bindings := s\<rparr>)"

text \<open>A new translator on a port registry that is already in use.\<close>

definition tr_start :: "translator \<Rightarrow> bool" where
  "tr_start t \<longleftrightarrow> (\<exists>p a c registry hs. ports_start c \<and> ports_call\<^sup>*\<^sup>* c (registry, hs) \<and> translator_new p a registry = Ok t)"

lemma tr_call_inv: "tr_call t t' \<Longrightarrow> tr_inv t \<Longrightarrow> tr_inv t'"
proof (induction rule: tr_call.induct)
  case (outbound d now source_allowed reachable t r x t' r')
  then show ?case using outbound_datagram_ok [of t d now source_allowed reachable r] by (cases x) auto
next
  case (inbound packet now t x t')
  then show ?case using translate_inbound_ok [of t packet now] by (cases x) auto
next
  case (poll now t x t')
  then show ?case using translator_poll_ok [of t now] by (cases x) auto
next
  case (prefixes ps t y t')
  then show ?case using set_prefixes_ok [of t ps] by (cases y) auto
next
  case (ipv4 a t y t')
  then show ?case using set_ipv4_ok [of t a] by (cases y) auto
next
  case (mtus t m)
  then show ?case by (simp add: set_mtus_def tr_inv_def domain_of_def)
next
  case (lowest m t y t')
  then have "t' = t \<or> t' = t\<lparr>tr_lowest_ipv6_mtu := m\<rparr>" by (auto simp: set_lowest_ipv6_mtu_def split: if_splits)
  with lowest(2) show ?case by (elim disjE) (simp_all add: tr_inv_def domain_of_def)
next
  case (table t s)
  then have "bind_inv s" using bind_call_inv by (simp add: tr_inv_def)
  with table show ?case unfolding tr_inv_def no_new_def domain_of_def by (simp, blast)
qed

interpretation tr: call_invariant tr_start tr_call tr_inv
proof unfold_locales
  show "tr_inv t" if start: "tr_start t" for t
  proof -
    obtain p a c registry hs where c: "ports_start c" "ports_call\<^sup>*\<^sup>* c (registry, hs)" and new: "translator_new p a registry = Ok t"
      using start unfolding tr_start_def by blast
    have "bind_inv (with_ports registry)" by (rule bind.start_inv) (use c in \<open>auto simp: bind_start_def\<close>)
    moreover have "\<not> has_binding ((with_ports registry)\<lparr>bi_domain := px_address p\<rparr>) k q" for k q
      by (simp add: has_binding_def with_ports_def)
    ultimately show ?thesis using new by (auto simp: translator_new_def tr_inv_def split: if_splits)
  qed
  show "tr_inv t" if "tr_call s t" "tr_inv s" for s t
    using that by (rule tr_call_inv)
qed

section \<open>Properties\<close>


definition well_known :: prefix where
  "well_known = Prefix 0x64ff9b000000000000000000000000 96"

definition tr0 :: translator where
  "tr0 = \<lparr>tr_bindings = (with_ports ports_new)\<lparr>bi_domain := px_address well_known\<rparr>, tr_prefixes = [well_known],
     tr_ipv4 = Some 0xc0000201, tr_identification = 0, tr_mtus = (1500, 1500), tr_lowest_ipv6_mtu = 1280,
     tr_error_window = 0, tr_error_count = 0\<rparr>"

lemma well_known_usable: "usable well_known" "px_length well_known = 96"
  by code_simp+

lemma tr0_new: "translator_new well_known 0xc0000201 ports_new = Ok tr0"
  by (simp add: translator_new_def tr0_def well_known_usable unicast_def octet0_def unspecified4_def multicast4_def
      broadcast4_def loopback4_def)

lemma tr0_start: "tr_start tr0"
  unfolding tr_start_def using tr0_new empty_start by (force simp: bind_start_def with_ports_def)

lemma encode6_Ok:
  assumes "checksum_offset p + 2 \<le> length b" and "length b \<le> 65535"
  shows "\<exists>out. encode6 p s d c h b = Ok out"
proof -
  obtain b' where b': "fill_sum p (checksum s d p) b = Ok b'" "length b' = length b"
    using assms(1) by (auto simp: fill_sum_def Let_def)
  then have "ipv6_packet s d p h b' \<noteq> Err x" for x using assms(2) by (simp add: ipv6_packet_def u16_try_from_def)
  then obtain out where "ipv6_packet s d p h b' = Ok out" "40 \<le> length out"
    using ipv6_packet_addressed [of s d p h b'] by (cases "ipv6_packet s d p h b'") auto
  moreover from this have "0 < length out" "2 \<le> length out" by linarith+
  ultimately show ?thesis using b'(1) by (simp add: encode6_def)
qed

text \<open>A packet of an untranslatable protocol to the documentation network, and its rejection.\<close>

definition inside0 :: ipv6 where "inside0 = 0x20010db8000000000000000000000001"
definition outside0 :: ipv6 where "outside0 = 0x64ff9b0000000000000000c6336401"
definition sctp0 :: bytes where
  "sctp0 = [0x60, 0, 0, 0, 0, 0, 132, 64] @ to_be 16 inside0 @ to_be 16 outside0"

lemma sctp0_parse: "outbound_parse sctp0 = Ok (\<lparr>e_packet = sctp0, e_payload = [], e_source = inside0,
    e_destination = outside0, e_next_header = 132, e_hop_limit = 64\<rparr>, None)"
proof -
  have "ipv6_packet inside0 outside0 132 64 [] = Ok sctp0" by (simp add: ipv6_packet_def u16_try_from_def sctp0_def numeral_2_eq_2)
  from envelope_ipv6_packet [OF this, of "[]"]
  have "Wire.envelope RawIpv6 sctp0 = Ok \<lparr>e_packet = sctp0, e_payload = [], e_source = inside0,
    e_destination = outside0, e_next_header = 132, e_hop_limit = 64\<rparr>" by simp
  moreover have "transport6 sctp0 = Ok (132, 40, None)"
    using transport6_loop.simps(2) [of 15 sctp0 132 40] by (simp add: transport6_def sctp0_def)
  moreover have "length sctp0 = 40" by (simp add: sctp0_def)
  ultimately show ?thesis by (simp add: outbound_parse_def)
qed

lemma sctp0_accepted: "\<not> source_refused (\<lambda>_. True) [well_known] \<lparr>e_packet = sctp0, e_payload = [], e_source = inside0,
    e_destination = outside0, e_next_header = 132, e_hop_limit = 64\<rparr>"
  "prefix_contains well_known outside0" "unicast (extract4 outside0)" "extract4 outside0 \<noteq> 0xc0000201"
  by code_simp+

lemma sctp0_rejected:
  "\<exists>packet t'. outbound_datagram \<lparr>dg_packet = sctp0, dg_fragment_id = None\<rparr> 5 (\<lambda>_. True) (\<lambda>_. True) (tr0, [])
     = (Ok [\<lparr>tx_link = Stub, tx_packet = packet\<rparr>], t', [])"
proof -
  let ?body = "[1, 4, 0, 0] @ to_be 4 (0 :: u32) @ take 1232 sctp0"
  obtain packet where "encode6 58 outside0 inside0 0 64 ?body = Ok packet"
    using encode6_Ok [of 58 ?body outside0 inside0 0 64] by (auto simp: checksum_offset_def sctp0_def)
  moreover have "tr_ipv4 tr0 = Some 0xc0000201" "tr_prefixes tr0 = [well_known]" "tr_error_count tr0 = 0" "tr_error_window tr0 = 0"
    by (simp_all add: tr0_def)
  ultimately show ?thesis
    using sctp0_accepted
    by (simp add: outbound_datagram_def sctp0_parse inspect_def outbound_admit_def on_fst_def generate6_def if_allowed_def
        allow_error_def set_domain_def add_chk_def Let_def saturating_sub_def)
qed

text \<open>
  C2: The translator never sends under an address that is not its own. Every packet it hands to the
  stub link, a translated one, an ICMP error, a hairpinned one or a TCP probe, has a source inside
  one of its configured prefixes; every packet for the adjacent link, translated, fragmented,
  an ICMP error or a timeout, has its own IPv4 address as source.
\<close>

theorem translator_sends_own_sources:
  assumes "tr_start t0" and "tr_call\<^sup>*\<^sup>* t0 t"
    and "outbound_datagram d now source_allowed reachable (t, r) = (Ok out, t', r') \<or> translate_inbound packet now t = (Ok out, t')
      \<or> translator_poll now t = (Ok out, t')"
    and "x \<in> set out"
  shows "(tx_link x = Stub \<longrightarrow> (\<exists>p \<in> set (tr_prefixes t). prefix_contains p (source6 (tx_packet x))))
    \<and> (tx_link x = Ail \<longrightarrow> tr_ipv4 t = Some (source4 (tx_packet x)))"
proof -
  have inv: "tr_inv t" by (rule tr.reachable_inv [OF assms(1,2)])
  have "list_all (own_source t) out"
    using assms(3) outbound_datagram_ok [OF inv, of d now source_allowed reachable r] translate_inbound_ok [OF inv, of packet now]
      translator_poll_ok [OF inv, of now] by auto
  then have "own_source t x" using assms(4) by (simp add: list_all_iff)
  then show ?thesis by (auto simp: own_source_def)
qed

theorem translator_sends_own_sources_witness:
  "\<exists>packet t'. outbound_datagram \<lparr>dg_packet = sctp0, dg_fragment_id = None\<rparr> 5 (\<lambda>_. True) (\<lambda>_. True) (tr0, [])
     = (Ok [\<lparr>tx_link = Stub, tx_packet = packet\<rparr>], t', []) \<and> (\<exists>p \<in> set (tr_prefixes tr0). prefix_contains p (source6 packet))"
proof -
  obtain packet t' where run: "outbound_datagram \<lparr>dg_packet = sctp0, dg_fragment_id = None\<rparr> 5 (\<lambda>_. True) (\<lambda>_. True) (tr0, [])
     = (Ok [\<lparr>tx_link = Stub, tx_packet = packet\<rparr>], t', [])" using sctp0_rejected by blast
  from translator_sends_own_sources [OF tr0_start rtranclp.rtrancl_refl disjI1 [OF this], of "\<lparr>tx_link = Stub, tx_packet = packet\<rparr>"]
  show ?thesis using run by auto
qed


end
