(* ===== verification/Dhcp4_Wire.thy ===== *)
theory Dhcp4_Wire
  imports Ipv4_Host
begin

text \<open>
  DHCPv4 replies (\<open>ipv4/dhcp/wire.rs\<close>): the message with its option area, spread over up to three
  fields, and the lease read from it with routes, name servers and the search list. A slice that the
  source walks with an index is its unread rest here, except in the search list, whose compression
  pointers are offsets.
\<close>

section \<open>Definitions\<close>

record configuration =
  cf_address :: ipv4
  cf_length :: u8
  cf_routes :: "route4 list"
  cf_dns :: "ipv4 list"
  cf_search :: "bytes list list"

record dhcp4_lease =
  le_config :: configuration
  le_server :: ipv4
  le_t1 :: u64
  le_t2 :: u64
  le_expires :: u64

record dhcp4_message =
  dm_kind :: u8
  dm_xid :: u32
  dm_mac :: bytes
  dm_address :: ipv4
  dm_server :: ipv4
  dm_options :: "(u8, bytes) btree"

definition ip :: "bytes \<Rightarrow> (io_error, ipv4) outcome" where
  "ip b = (if length b = 4 then Ok (from_be b) else Err InvalidData)"

subsection \<open>Options\<close>

text \<open>The state is the options read so far and the octets of the budget used.\<close>

function parse_options :: "bool \<Rightarrow> bytes \<Rightarrow> (u8, bytes) btree \<times> nat \<Rightarrow> (io_error, (u8, bytes) btree \<times> nat) outcome" where
  "parse_options overloaded b st = (case b of
      [] \<Rightarrow> Err InvalidData
    | code # b \<Rightarrow>
        if code = 0 then parse_options overloaded b st
        else if code = 255 then Ok st
        else case b of
          [] \<Rightarrow> Err InvalidData
        | n # b \<Rightarrow>
            if overloaded \<and> code = 52 then Err InvalidData
            else if length b < unat n \<or> 4096 < snd st + unat n then Err InvalidData
            else parse_options overloaded (drop (unat n) b)
              (bt_insert code ((case bt_get (fst st) code of None \<Rightarrow> [] | Some v \<Rightarrow> v) @ take (unat n) b) (fst st), snd st + unat n))"
  by pat_completeness auto
termination
  by (relation "measure (\<lambda>(ov, b, st). length b)") auto

declare parse_options.simps [simp del]

text \<open>The option area, and the file and name fields that option 52 adds to it.\<close>

definition message_options :: "bytes \<Rightarrow> (io_error, (u8, bytes) btree) outcome" where
  "message_options b =
     and_then (slice_from b 240) (\<lambda>area.
     and_then (parse_options False area (bt_empty, 0)) (\<lambda>st. map_ok fst (
       case bt_get (fst st) 52 of
         None \<Rightarrow> Ok st
       | Some v \<Rightarrow>
           if length v \<noteq> 1 then Err InvalidData
           else and_then (idx v 0) (\<lambda>flags.
             if \<not> (1 \<le> flags \<and> flags \<le> 3) then Err InvalidData
             else
               and_then (if flags AND 1 \<noteq> 0 then and_then (slice_r b 108 236) (\<lambda>f. parse_options True f st) else Ok st) (\<lambda>st.
               if flags AND 2 \<noteq> 0 then and_then (slice_r b 44 108) (\<lambda>f. parse_options True f st) else Ok st)))))"

subsection \<open>Messages\<close>

definition udp_verified :: "packet4 \<Rightarrow> bool" where
  "udp_verified p \<longleftrightarrow> ipv4_checksum (to_be 4 (p_source p) @ to_be 4 (p_destination p) @ [0, 17]
      @ to_be 2 (of_nat (length (p_payload p)) :: u16) @ p_payload p) = 0"

text \<open>The datagram from a server to a client, with the BOOTP part it carries.\<close>

definition reply_body :: "bytes \<Rightarrow> (io_error, bytes) outcome" where
  "reply_body bs =
     (if 4096 + 300 < length bs then Err InvalidData
      else and_then (packet_parse bs) (\<lambda>p.
        if p_protocol p \<noteq> 17 \<or> p_ttl p = 0 \<or> p_fragment_offset p \<noteq> 0 \<or> p_more_fragments p
           \<or> length (p_payload p) < 248 \<or> \<not> unicast (p_source p) then Err InvalidData
        else let udp = p_payload p in
          and_then (slice_r udp 0 4) (\<lambda>ports. and_then (u16_at udp 4) (\<lambda>n.
          if ports \<noteq> [0, 67, 0, 68] \<or> unat n \<noteq> length udp then Err InvalidData
          else and_then (slice_r udp 6 8) (\<lambda>field.
            if field \<noteq> [0, 0] \<and> \<not> udp_verified p then Err InvalidData else slice_from udp 8)))))"

definition body_bad :: "bytes \<Rightarrow> (io_error, bool) outcome" where
  "body_bad b =
     and_then (slice_r b 0 3) (\<lambda>front. and_then (slice_r b 236 240) (\<lambda>magic.
     and_then (slice_r b 28 34) (\<lambda>mac. and_then (idx b 28) (\<lambda>m0.
     and_then (idx b 10) (\<lambda>f0. and_then (idx b 11) (\<lambda>f1.
       Ok (front \<noteq> [2, 1, 6] \<or> magic \<noteq> [99, 130, 83, 99] \<or> m0 AND 1 \<noteq> 0 \<or> mac = replicate 6 0
           \<or> f0 AND 0x7f \<noteq> 0 \<or> f1 \<noteq> 0)))))))"

definition dhcp4_parse :: "bytes \<Rightarrow> (io_error, dhcp4_message) outcome" where
  "dhcp4_parse bs =
     and_then (reply_body bs) (\<lambda>b.
     and_then (body_bad b) (\<lambda>bad. if bad then Err InvalidData else
     and_then (message_options b) (\<lambda>options.
     and_then (case bt_get options 53 of Some [k] \<Rightarrow> Ok k | _ \<Rightarrow> Err InvalidData) (\<lambda>kind.
     if \<not> List.member [2, 5, 6] kind then Err InvalidData else
     and_then (ok_or InvalidData (bt_get options 54)) (\<lambda>v. and_then (ip v) (\<lambda>server.
     if \<not> unicast server then Err InvalidData else
     and_then (u32_at b 4) (\<lambda>xid. and_then (slice_r b 28 34) (\<lambda>mac.
     and_then (slice_r b 16 20) (\<lambda>a. and_then (ip a) (\<lambda>address.
       Ok \<lparr>dm_kind = kind, dm_xid = xid, dm_mac = mac, dm_address = address, dm_server = server,
           dm_options = options\<rparr>))))))))))"

subsection \<open>Values of options\<close>

definition number_option :: "dhcp4_message \<Rightarrow> u8 \<Rightarrow> (io_error, u32 option) outcome" where
  "number_option m code = (case bt_get (dm_options m) code of
      None \<Rightarrow> Ok None
    | Some b \<Rightarrow> if length b = 4 then Ok (Some (from_be b)) else Err InvalidData)"

text \<open>\<open>iter().map(f).collect()\<close> into a \<open>Result\<close>.\<close>

fun collect_r :: "('a \<Rightarrow> ('e, 'b) outcome) \<Rightarrow> 'a list \<Rightarrow> ('e, 'b list) outcome" where
  "collect_r f [] = Ok []"
| "collect_r f (x # xs) = and_then (f x) (\<lambda>y. and_then (collect_r f xs) (\<lambda>ys. Ok (y # ys)))"

definition addresses :: "bytes \<Rightarrow> nat \<Rightarrow> (io_error, ipv4 list) outcome" where
  "addresses b cap =
     (if b = [] \<or> length b mod 4 \<noteq> 0 \<or> cap < length b div 4 then Err InvalidData
      else collect_r (\<lambda>c. and_then (ip c) (\<lambda>a. if unicast a then Ok a else Err InvalidData)) (chunks 4 b))"

function routes_loop :: "bytes \<Rightarrow> route4 list \<Rightarrow> (io_error, route4 list) outcome" where
  "routes_loop b out = (case b of
      [] \<Rightarrow> Ok out
    | len # b \<Rightarrow>
        let n = div_ceil (unat len) 8 in
        if 32 < len \<or> length b < n + 4 \<or> 64 \<le> length out then Err InvalidData
        else
          and_then (put_r (replicate 4 0) 0 (take n b)) (\<lambda>network.
          and_then (ip (take 4 (drop n b))) (\<lambda>gateway.
            routes_loop (drop (n + 4) b)
              (out @ [\<lparr>r_network = from_be network AND shl_mask (32 - unat len), r_length = len, r_gateway = gateway\<rparr>]))))"
  by pat_completeness auto
termination
  by (relation "measure (\<lambda>(b, out). length b)") auto

declare routes_loop.simps [simp del]

definition routes :: "bytes \<Rightarrow> (io_error, route4 list) outcome" where
  "routes b = (if b = [] then Err InvalidData else routes_loop b [])"

definition ascii_alphanumeric :: "u8 \<Rightarrow> bool" where
  "ascii_alphanumeric c \<longleftrightarrow> 48 \<le> c \<and> c \<le> 57 \<or> 65 \<le> c \<and> c \<le> 90 \<or> 97 \<le> c \<and> c \<le> 122"

definition domain :: "bytes \<Rightarrow> (io_error, bytes list list) outcome" where
  "domain b =
     (let b = (if b \<noteq> [] \<and> last b = 46 then butlast b else b) in
      if b = [] \<or> 253 < length b
         \<or> list_ex (\<lambda>l. l = [] \<or> 63 < length l \<or> list_ex (\<lambda>c. \<not> ascii_alphanumeric c \<and> c \<noteq> 45) l) (split_dots b)
      then Err InvalidData else Ok [split_dots b])"

text \<open>
  The search list. \<open>name_loop\<close> is the loop over the labels of one name, with its 128 rounds; it
  returns the cursor, unchanged when the rounds end without the closing zero, the labels and the
  offsets at which a label has begun.
\<close>

fun name_loop :: "nat \<Rightarrow> bytes \<Rightarrow> nat \<Rightarrow> nat \<Rightarrow> nat option \<Rightarrow> bytes list \<Rightarrow> nat \<Rightarrow> nat set
    \<Rightarrow> (io_error, nat \<times> bytes list \<times> nat set) outcome" where
  "name_loop 0 b cursor at consumed labels octets boundaries = Ok (cursor, labels, boundaries)"
| "name_loop (Suc k) b cursor at consumed labels octets boundaries =
     and_then (ok_or InvalidData (if at < length b then Some (b ! at) else None)) (\<lambda>w.
     let n = unat w; boundaries = insert at boundaries in
     if n = 0 then Ok (case consumed of None \<Rightarrow> at + 1 | Some c \<Rightarrow> c, labels, boundaries)
     else if w AND 0xc0 = 0xc0 then
       and_then (ok_or InvalidData (if at + 1 < length b then Some (b ! (at + 1)) else None)) (\<lambda>low.
       let ptr = unat (w AND 63) * 256 + unat low in
       if at \<le> ptr \<or> ptr \<notin> boundaries then Err InvalidData
       else name_loop k b cursor ptr (case consumed of None \<Rightarrow> Some (at + 2) | Some c \<Rightarrow> Some c) labels octets boundaries)
     else if 63 < n \<or> length b < at + n + 1 \<or> 255 < octets + n + 1 then Err InvalidData
     else and_then (slice_r b (at + 1) (at + 1 + n)) (\<lambda>label.
       name_loop k b cursor (at + n + 1) consumed (labels @ [label]) (octets + n + 1) boundaries))"

function search_loop :: "bytes \<Rightarrow> nat \<Rightarrow> nat set \<Rightarrow> bytes list list \<Rightarrow> (io_error, bytes list list) outcome" where
  "search_loop b cursor boundaries out =
     (if length b \<le> cursor then Ok out
      else if 16 \<le> length out then Err InvalidData
      else and_then (name_loop 128 b cursor cursor None [] 1 boundaries) (\<lambda>(next, labels, boundaries).
        if next \<le> cursor \<or> labels = [] then Err InvalidData
        else search_loop b next boundaries (out @ [labels])))"
  by pat_completeness auto
termination
  by (relation "measure (\<lambda>(b, cursor, bs, out). length b - cursor)") auto

declare search_loop.simps [simp del]

definition search :: "bytes \<Rightarrow> (io_error, bytes list list) outcome" where
  "search b = (if 1024 < length b then Err InvalidData else search_loop b 0 {} [])"

subsection \<open>The lease\<close>

definition link_local4 :: "ipv4 \<Rightarrow> bool" where
  "link_local4 a \<longleftrightarrow> drop_bit 16 a = 0xA9FE"

definition leading_ones :: "u32 \<Rightarrow> nat" where
  "leading_ones m = length (takeWhile (\<lambda>i. bit m i) (rev [0..<32]))"

definition lease_length :: "dhcp4_message \<Rightarrow> dhcp4_lease option \<Rightarrow> (io_error, u8) outcome" where
  "lease_length m prior = (case bt_get (dm_options m) 1 of
      Some b \<Rightarrow> and_then (ip b) (\<lambda>mask. let n = leading_ones mask in
        if mask \<noteq> shl_mask (32 - n) then Err InvalidData else Ok (of_nat n))
    | None \<Rightarrow> map_ok (\<lambda>l. cf_length (le_config l)) (ok_or InvalidData prior))"

definition lease_routes :: "dhcp4_message \<Rightarrow> dhcp4_lease option \<Rightarrow> (io_error, route4 list) outcome" where
  "lease_routes m prior = (case bt_get (dm_options m) 121 of
      Some b \<Rightarrow> routes b
    | None \<Rightarrow> (case bt_get (dm_options m) 3 of
        Some b \<Rightarrow> map_ok (\<lambda>as. case as of [] \<Rightarrow> [] | g # _ \<Rightarrow> [\<lparr>r_network = 0, r_length = 0, r_gateway = g\<rparr>]) (addresses b 8)
      | None \<Rightarrow> Ok (case prior of None \<Rightarrow> [] | Some l \<Rightarrow> cf_routes (le_config l))))"

definition lease_dns :: "dhcp4_message \<Rightarrow> dhcp4_lease option \<Rightarrow> (io_error, ipv4 list) outcome" where
  "lease_dns m prior = (case bt_get (dm_options m) 6 of
      Some b \<Rightarrow> addresses b 8
    | None \<Rightarrow> Ok (case prior of None \<Rightarrow> [] | Some l \<Rightarrow> cf_dns (le_config l)))"

definition lease_search :: "dhcp4_message \<Rightarrow> dhcp4_lease option \<Rightarrow> (io_error, bytes list list) outcome" where
  "lease_search m prior = (case bt_get (dm_options m) 119 of
      Some b \<Rightarrow> search b
    | None \<Rightarrow> (case bt_get (dm_options m) 15 of
        Some b \<Rightarrow> domain b
      | None \<Rightarrow> Ok (case prior of None \<Rightarrow> [] | Some l \<Rightarrow> cf_search (le_config l))))"

text \<open>The renewal and rebinding times in seconds.\<close>

definition seven_eighths :: "u32 \<Rightarrow> u32" where
  "seven_eighths seconds = ucast (ucast seconds * 7 div 8 :: u64)"

definition lease_times :: "dhcp4_message \<Rightarrow> u32 \<Rightarrow> (io_error, u32 \<times> u32) outcome" where
  "lease_times m seconds =
     and_then (number_option m 58) (\<lambda>x. and_then (number_option m 59) (\<lambda>y.
     let a = (case x of None \<Rightarrow> seconds div 2 | Some a \<Rightarrow> a); b = (case y of None \<Rightarrow> seven_eighths seconds | Some b \<Rightarrow> b) in
     Ok (if 0 < a \<and> a < b \<and> b < seconds then (a, b) else (seconds div 2, seven_eighths seconds))))"

definition lease_deadline :: "u64 \<Rightarrow> u32 \<Rightarrow> u64" where
  "lease_deadline now s = saturating_add now (ucast s * 1000)"

definition lease_expiry :: "u64 \<Rightarrow> u32 \<Rightarrow> u64" where
  "lease_expiry now s = (if s = - 1 then - 1 else lease_deadline now s)"

definition message_lease :: "dhcp4_message \<Rightarrow> u64 \<Rightarrow> dhcp4_lease option \<Rightarrow> (io_error, dhcp4_lease) outcome" where
  "message_lease m now prior =
     and_then (and_then (number_option m 51) (ok_or InvalidData)) (\<lambda>seconds.
     if seconds = 0 \<or> \<not> unicast (dm_address m) \<or> link_local4 (dm_address m) then Err InvalidData
     else and_then (lease_length m prior) (\<lambda>len.
     let (configured, v) = configure4 (dm_address m) len None (host4_new [2, 0, 0, 0, 0, 1]) in
     and_then configured (\<lambda>_. and_then (lease_routes m prior) (\<lambda>routes.
     and_then (fst (set_routes routes v)) (\<lambda>_.
     and_then (lease_dns m prior) (\<lambda>dns. and_then (lease_search m prior) (\<lambda>search.
     and_then (lease_times m seconds) (\<lambda>(a, b).
       Ok \<lparr>le_config = \<lparr>cf_address = dm_address m, cf_length = len, cf_routes = routes, cf_dns = dns, cf_search = search\<rparr>,
           le_server = dm_server m, le_t1 = lease_deadline now a, le_t2 = lease_deadline now b,
           le_expires = lease_expiry now seconds\<rparr>))))))))"

end
