(* ===== verification/Dhcp4_Client.thy ===== *)
theory Dhcp4_Client
  imports Dhcp4_Wire Time_Sched
begin

text \<open>
  The DHCPv4 client (\<open>ipv4/dhcp/mod.rs\<close>): acquisition and renewal of a lease, the probing of an
  address before it is used, the fallback to a link-local address and the defence of the address in
  use. A method that draws random numbers works on the client together with the random source.
\<close>

section \<open>Definitions\<close>

datatype dhcp4_state = Selecting | Requesting | Reboot | Bound | Renewing | Rebinding | Stopped

datatype output_kind = Broadcast | Unicast | Arp

record dhcp4_output =
  ou_kind :: output_kind
  ou_packet :: bytes

record acd_probe =
  pr_address :: ipv4
  pr_lease :: "dhcp4_lease option"
  pr_sent :: u8
  pr_next :: u64

record client =
  c_mac :: bytes
  c_xid :: u32
  c_state :: dhcp4_state
  c_offers :: "dhcp4_lease list"
  c_selected :: "dhcp4_lease option"
  c_active :: "dhcp4_lease option"
  c_probe :: "acd_probe option"
  c_next :: u64
  c_started :: u64
  c_retry :: u64
  c_link_local :: "configuration option"
  c_fallback_at :: u64
  c_conflicts :: u32
  c_defended_at :: "u64 option"

subsection \<open>Random numbers\<close>

text \<open>A draw that leaves the client alone, and \<open>fill\<close> of four octets.\<close>

definition on_snd :: "(rng \<Rightarrow> (io_error, 'a) outcome \<times> rng) \<Rightarrow> 's \<times> rng \<Rightarrow> (io_error, 'a) outcome \<times> 's \<times> rng" where
  "on_snd f sr = (case f (snd sr) of (x, r) \<Rightarrow> (x, fst sr, r))"

definition fill4 :: "rng \<Rightarrow> (io_error, bytes) outcome \<times> rng" where
  "fill4 r = (case fill r of (x, r) \<Rightarrow> (map_ok (\<lambda>v. take 4 (rev (to_be 8 v))) x, r))"

text \<open>\<open>base + rng.sample(span)?\<close>.\<close>

definition jitter :: "u64 \<Rightarrow> u64 \<Rightarrow> 's \<times> rng \<Rightarrow> (io_error, u64) outcome \<times> 's \<times> rng" where
  "jitter base span cr = then_do (on_snd (sample span) cr) (\<lambda>x cr. inspect (add_chk base x) cr)"

subsection \<open>Construction and queries\<close>

definition client_new :: "bytes \<Rightarrow> u64 \<Rightarrow> rng \<Rightarrow> (io_error, client) outcome \<times> rng" where
  "client_new mac now r = (case then_do (on_snd fill4 ((), r)) (\<lambda>b ur. then_do (jitter 1000 9000 ur) (\<lambda>delay ur.
       (Ok \<lparr>c_mac = mac, c_xid = from_be b, c_state = Selecting, c_offers = [], c_selected = None, c_active = None,
            c_probe = None, c_next = saturating_add now delay, c_started = now, c_retry = 4000, c_link_local = None,
            c_fallback_at = saturating_add now 60000, c_conflicts = 0, c_defended_at = None\<rparr>, ur)))
     of (x, ur) \<Rightarrow> (x, snd ur))"

definition client_configuration :: "client \<Rightarrow> configuration option" where
  "client_configuration c = (case c_active c of Some l \<Rightarrow> Some (le_config l) | None \<Rightarrow> c_link_local c)"

definition client_next_deadline :: "client \<Rightarrow> u64 option" where
  "client_next_deadline c =
     (if c_state c = Stopped then None
      else
        let t = (if c_state c = Bound then - 1 else c_next c);
            t = (case c_probe c of None \<Rightarrow> t | Some p \<Rightarrow> min t (pr_next p));
            t = (case c_active c of None \<Rightarrow> t | Some l \<Rightarrow>
                  let t = min t (le_expires l);
                      t = (if c_state c = Bound then min t (le_t1 l) else t)
                  in if c_state c \<noteq> Rebinding then min t (le_t2 l) else t)
        in Some (if client_configuration c = None \<and> c_probe c = None then min t (c_fallback_at c) else t))"

subsection \<open>Transactions\<close>

definition transaction :: "u64 \<Rightarrow> client \<times> rng \<Rightarrow> (io_error, unit) outcome \<times> client \<times> rng" where
  "transaction now cr =
     then_do (on_snd fill4 cr) (\<lambda>b (c, r).
       (Ok (), c\<lparr>c_xid := from_be b, c_started := now, c_next := now, c_retry := 4000\<rparr>, r))"

definition restart :: "u64 \<Rightarrow> client \<times> rng \<Rightarrow> (io_error, unit) outcome \<times> client \<times> rng" where
  "restart now cr = transaction now
     ((fst cr)\<lparr>c_active := None, c_selected := None, c_offers := [], c_probe := None, c_state := Selecting\<rparr>, snd cr)"

text \<open>\<open>self.next = now.saturating_add(1000 + rng.sample(9000)?)\<close>.\<close>

definition wait_random :: "u64 \<Rightarrow> client \<times> rng \<Rightarrow> (io_error, unit) outcome \<times> client \<times> rng" where
  "wait_random now cr =
     then_do (jitter 1000 9000 cr) (\<lambda>delay (c, r). (Ok (), c\<lparr>c_next := saturating_add now delay\<rparr>, r))"

definition restore :: "dhcp4_lease \<Rightarrow> u64 \<Rightarrow> client \<times> rng \<Rightarrow> (io_error, unit) outcome \<times> client \<times> rng" where
  "restore lease now cr =
     then_do (restart now cr) (\<lambda>_ (c, r).
       (Ok (), if now < le_expires lease then c\<lparr>c_selected := Some lease, c_state := Reboot, c_next := now\<rparr> else c, r))"

subsection \<open>Messages from servers\<close>

definition receive_offer :: "dhcp4_message \<Rightarrow> u64 \<Rightarrow> client \<Rightarrow> (io_error, unit) outcome \<times> client" where
  "receive_offer m now c = (case message_lease m now None of
      Panic \<Rightarrow> (Panic, c)
    | Err e \<Rightarrow> (Ok (), c)
    | Ok l \<Rightarrow>
        if list_ex (\<lambda>l. le_server l = dm_server m) (c_offers c) \<or> 8 \<le> length (c_offers c) then (Ok (), c)
        else
          let c = (if c_offers c = [] then c\<lparr>c_next := saturating_add now 1000\<rparr> else c)
          in (Ok (), c\<lparr>c_offers := c_offers c @ [l]\<rparr>))"

definition start_probe :: "ipv4 \<Rightarrow> dhcp4_lease option \<Rightarrow> u64 \<Rightarrow> client \<times> rng \<Rightarrow> (io_error, unit) outcome \<times> client \<times> rng" where
  "start_probe address lease now cr =
     then_do (on_snd (sample 1000) cr) (\<lambda>x (c, r).
       (Ok (), c\<lparr>c_probe := Some \<lparr>pr_address = address, pr_lease = lease, pr_sent = 0, pr_next = saturating_add now x\<rparr>\<rparr>, r))"

definition same_address :: "dhcp4_lease option \<Rightarrow> dhcp4_lease \<Rightarrow> bool" where
  "same_address x lease \<longleftrightarrow> (case x of None \<Rightarrow> False | Some l \<Rightarrow> cf_address (le_config l) = cf_address (le_config lease))"

definition receive_ack :: "dhcp4_message \<Rightarrow> dhcp4_lease option \<Rightarrow> u64 \<Rightarrow> client \<times> rng \<Rightarrow> (io_error, unit) outcome \<times> client \<times> rng" where
  "receive_ack m prior now cr = (case message_lease m now prior of
      Panic \<Rightarrow> (Panic, cr)
    | Err e \<Rightarrow> (Ok (), cr)
    | Ok lease \<Rightarrow>
        if c_selected (fst cr) \<noteq> None \<and> \<not> same_address (c_selected (fst cr)) lease then (Ok (), cr)
        else
          then_do
            (if same_address (c_active (fst cr)) lease then (Ok (), (fst cr)\<lparr>c_active := Some lease\<rparr>, snd cr)
             else start_probe (cf_address (le_config lease)) (Some lease) now cr)
            (\<lambda>_ (c, r). (Ok (), c\<lparr>c_selected := None, c_offers := [], c_state := Bound\<rparr>, r)))"

definition dhcp4_receive :: "bytes \<Rightarrow> u64 \<Rightarrow> client \<times> rng \<Rightarrow> (io_error, unit) outcome \<times> client \<times> rng" where
  "dhcp4_receive packet now cr = (case dhcp4_parse packet of
      Panic \<Rightarrow> (Panic, cr)
    | Err e \<Rightarrow> (Ok (), cr)
    | Ok m \<Rightarrow>
        let c = fst cr; prior = (case c_selected c of Some l \<Rightarrow> Some l | None \<Rightarrow> c_active c) in
        if dm_xid m \<noteq> c_xid c \<or> dm_mac m \<noteq> c_mac c then (Ok (), cr)
        else if dm_kind m = 2 \<and> c_state c = Selecting then on_fst (receive_offer m now) cr
        else if \<not> List.member [Requesting, Reboot, Renewing, Rebinding] (c_state c) then (Ok (), cr)
        else if List.member [Requesting, Renewing] (c_state c)
            \<and> (case prior of None \<Rightarrow> True | Some l \<Rightarrow> le_server l \<noteq> dm_server m) then (Ok (), cr)
        else if dm_kind m = 6 then then_do (restart now cr) (\<lambda>_. wait_random now)
        else if dm_kind m \<noteq> 5 then (Ok (), cr)
        else receive_ack m prior now cr)"

subsection \<open>Messages to servers\<close>

definition renewing_kind :: "client \<Rightarrow> u8 \<Rightarrow> bool" where
  "renewing_kind c kind \<longleftrightarrow> kind = 7 \<or> kind = 3 \<and> List.member [Renewing, Rebinding] (c_state c)"

definition message_ciaddr :: "client \<Rightarrow> u8 \<Rightarrow> ipv4" where
  "message_ciaddr c kind =
     (if renewing_kind c kind then (case c_active c of None \<Rightarrow> 0 | Some l \<Rightarrow> cf_address (le_config l)) else 0)"

text \<open>The BOOTP part of 240 octets, then the options, padded to 300 octets.\<close>

definition message_body :: "client \<Rightarrow> u8 \<Rightarrow> u64 \<Rightarrow> ipv4 \<Rightarrow> bytes" where
  "message_body c kind now destination =
     (let ciaddr = message_ciaddr c kind;
          secs = (if kind \<noteq> 7 \<and> kind \<noteq> 4 then ucast (min (saturating_sub now (c_started c) div 1000) 65535) else 0 :: u16);
          flags = (if unspecified4 ciaddr \<and> kind \<noteq> 4 then 0x80 else 0);
          b = [1, 1, 6, 0] @ to_be 4 (c_xid c) @ to_be 2 secs @ [flags, 0] @ to_be 4 ciaddr @ replicate 12 0
              @ c_mac c @ replicate 202 0 @ [99, 130, 83, 99]
              @ [53, 1, kind, 61, 7, 1] @ c_mac c
              @ (case c_selected c of None \<Rightarrow> [] | Some l \<Rightarrow>
                  (if kind = 3 \<or> kind = 4 then [50, 4] @ to_be 4 (cf_address (le_config l)) else [])
                  @ (if c_state c = Requesting \<or> kind = 4 then [54, 4] @ to_be 4 (le_server l) else []))
              @ (if kind = 7 then [54, 4] @ to_be 4 destination else [])
              @ (if kind \<noteq> 4 \<and> kind \<noteq> 7 then [55, 8, 1, 3, 6, 15, 119, 121, 58, 59, 57, 2, 0x10, 0x00] else [])
              @ [255]
      in b @ replicate (300 - length b) 0)"

definition client_message :: "client \<Rightarrow> u8 \<Rightarrow> u64 \<Rightarrow> (io_error, dhcp4_output) outcome" where
  "client_message c kind now =
     (let ciaddr = message_ciaddr c kind; unicast = (kind = 7 \<or> kind = 3 \<and> c_state c = Renewing) in
      and_then (if unicast then map_ok le_server (unwrap (c_active c)) else Ok 0xffffffff) (\<lambda>destination.
      let b = message_body c kind now destination;
          udp = [0, 68, 0, 67] @ to_be 2 (of_nat (length b + 8) :: u16) @ [0, 0] @ b;
          s = ipv4_checksum (to_be 4 ciaddr @ to_be 4 destination @ [0, 17] @ to_be 2 (of_nat (length udp) :: u16) @ udp) in
      and_then (put_r udp 6 (to_be 2 (if s = 0 then 65535 else s))) (\<lambda>udp.
      map_ok (\<lambda>packet. \<lparr>ou_kind = (if unicast then Unicast else Broadcast), ou_packet = packet\<rparr>)
        (encode4 ciaddr destination 17 64 udp))))"

subsection \<open>Timers\<close>

definition poll_expire :: "u64 \<Rightarrow> client \<times> rng \<Rightarrow> (io_error, unit) outcome \<times> client \<times> rng" where
  "poll_expire now cr = (case c_active (fst cr) of
      None \<Rightarrow> (Ok (), cr)
    | Some l \<Rightarrow> if le_expires l \<le> now then restart now cr else (Ok (), cr))"

definition poll_renew :: "u64 \<Rightarrow> client \<times> rng \<Rightarrow> (io_error, unit) outcome \<times> client \<times> rng" where
  "poll_renew now cr = (case c_active (fst cr) of
      None \<Rightarrow> (Ok (), cr)
    | Some l \<Rightarrow>
        if le_t2 l \<le> now \<and> c_state (fst cr) \<noteq> Rebinding then transaction now ((fst cr)\<lparr>c_state := Rebinding\<rparr>, snd cr)
        else if le_t1 l \<le> now \<and> c_state (fst cr) = Bound then transaction now ((fst cr)\<lparr>c_state := Renewing\<rparr>, snd cr)
        else (Ok (), cr))"

definition poll_probe_expire :: "u64 \<Rightarrow> client \<times> rng \<Rightarrow> (io_error, unit) outcome \<times> client \<times> rng" where
  "poll_probe_expire now cr = (case c_probe (fst cr) of
      None \<Rightarrow> (Ok (), cr)
    | Some p \<Rightarrow> (case pr_lease p of
        None \<Rightarrow> (Ok (), cr)
      | Some l \<Rightarrow> if le_expires l \<le> now then restart now cr else (Ok (), cr)))"

definition poll_fallback :: "u64 \<Rightarrow> client \<times> rng \<Rightarrow> (io_error, unit) outcome \<times> client \<times> rng" where
  "poll_fallback now cr =
     (if c_probe (fst cr) = None \<and> client_configuration (fst cr) = None \<and> c_fallback_at (fst cr) \<le> now then
        then_do (on_snd (sample (254 * 256 - 1)) cr) (\<lambda>x cr.
        then_do (inspect (add_chk 0xA9FE0100 (ucast x)) cr) (\<lambda>address. start_probe address None now))
      else (Ok (), cr))"

definition arp_announce :: "bytes \<Rightarrow> ipv4 \<Rightarrow> ipv4 \<Rightarrow> dhcp4_output" where
  "arp_announce mac sender address = \<lparr>ou_kind = Arp, ou_packet = arp_encode
     \<lparr>a_operation = 1, a_sender_mac = mac, a_sender = sender, a_target_mac = replicate 6 0, a_target = address\<rparr> (replicate 6 255)\<rparr>"

text \<open>What follows the fourth packet, from which on the address is in use, and the fifth.\<close>

definition probe_sent :: "acd_probe \<Rightarrow> client \<Rightarrow> client" where
  "probe_sent p c =
     (let c = c\<lparr>c_probe := Some p\<rparr>;
          c = (if pr_sent p = 4 then
                 (case pr_lease p of
                    Some l \<Rightarrow> c\<lparr>c_probe := Some (p\<lparr>pr_lease := None\<rparr>), c_active := Some l, c_link_local := None\<rparr>
                  | None \<Rightarrow> c\<lparr>c_link_local := Some \<lparr>cf_address = pr_address p, cf_length = 16, cf_routes = [],
                                                 cf_dns = [], cf_search = []\<rparr>\<rparr>)\<lparr>c_defended_at := None\<rparr>
               else c)
      in if pr_sent p = 5 then c\<lparr>c_probe := None\<rparr> else c)"

definition poll_probe :: "u64 \<Rightarrow> client \<times> rng \<Rightarrow> (io_error, dhcp4_output list) outcome \<times> client \<times> rng" where
  "poll_probe now cr = (case c_probe (fst cr) of
      None \<Rightarrow> (Ok [], cr)
    | Some p \<Rightarrow>
        if now < pr_next p then (Ok [], cr)
        else
          let out = [arp_announce (c_mac (fst cr)) (if pr_sent p < 3 then 0 else pr_address p) (pr_address p)] in
          then_do (inspect (add_chk (pr_sent p) 1) cr) (\<lambda>sent (c, r).
          then_do (if sent < 3 then jitter 1000 1000 (c\<lparr>c_probe := Some (p\<lparr>pr_sent := sent\<rparr>)\<rparr>, r)
                   else (Ok 2000, c\<lparr>c_probe := Some (p\<lparr>pr_sent := sent\<rparr>)\<rparr>, r)) (\<lambda>delay (c, r).
            (Ok out, probe_sent (p\<lparr>pr_sent := sent, pr_next := saturating_add now delay\<rparr>) c, r))))"

definition poll_select :: "u64 \<Rightarrow> client \<times> rng \<Rightarrow> (io_error, unit) outcome \<times> client \<times> rng" where
  "poll_select now cr =
     (let c = fst cr in
      if c_state c = Selecting \<and> c_offers c \<noteq> [] then
        (Ok (), c\<lparr>c_selected := max_by_key (\<lambda>l. (le_expires l, NOT (le_server l))) (c_offers c), c_offers := [],
                 c_state := Requesting, c_started := now, c_retry := 4000\<rparr>, snd cr)
      else if List.member [Requesting, Reboot] (c_state c) \<and> saturating_add (c_started c) 60000 \<le> now then restart now cr
      else (Ok (), cr))"

text \<open>The time to the next transmission.\<close>

definition poll_delay :: "u64 \<Rightarrow> client \<times> rng \<Rightarrow> (io_error, u64) outcome \<times> client \<times> rng" where
  "poll_delay now cr =
     (if List.member [Renewing, Rebinding] (c_state (fst cr)) then
        then_do (inspect (unwrap (c_active (fst cr))) cr) (\<lambda>l cr.
          let left = saturating_sub (if c_state (fst cr) = Renewing then le_t2 l else le_expires l) now
          in (Ok (min (max (left div 2) 60000) left), cr))
      else
        then_do (inspect (word_sub_chk (c_retry (fst cr)) 1000) cr) (\<lambda>base cr.
        then_do (jitter base 2000 cr) (\<lambda>delay (c, r).
        then_do (inspect (mul_chk (c_retry c) 2) (c, r)) (\<lambda>twice (c, r).
          (Ok delay, c\<lparr>c_retry := min twice 64000\<rparr>, r)))))"

definition poll_send :: "u64 \<Rightarrow> dhcp4_output list \<Rightarrow> client \<times> rng \<Rightarrow> (io_error, dhcp4_output list) outcome \<times> client \<times> rng" where
  "poll_send now out cr =
     (if now < c_next (fst cr) \<or> List.member [Bound, Stopped] (c_state (fst cr)) then (Ok out, cr)
      else
        then_do (poll_select now cr) (\<lambda>_ cr.
        then_do (inspect (client_message (fst cr) (if c_state (fst cr) = Selecting then 1 else 3) now) cr) (\<lambda>m cr.
        then_do (poll_delay now cr) (\<lambda>delay (c, r).
          (Ok (out @ [m]), c\<lparr>c_next := saturating_add now delay\<rparr>, r)))))"

definition dhcp4_poll :: "u64 \<Rightarrow> client \<times> rng \<Rightarrow> (io_error, dhcp4_output list) outcome \<times> client \<times> rng" where
  "dhcp4_poll now cr =
     (if c_state (fst cr) = Stopped then (Ok [], cr)
      else
        then_do (poll_expire now cr) (\<lambda>_ cr.
        then_do (poll_renew now cr) (\<lambda>_ cr.
        then_do (poll_probe_expire now cr) (\<lambda>_ cr.
        then_do (poll_fallback now cr) (\<lambda>_ cr.
        then_do (poll_probe now cr) (poll_send now))))))"

subsection \<open>Start and stop\<close>

definition dhcp4_stop :: "u64 \<Rightarrow> client \<Rightarrow> (io_error, dhcp4_output list) outcome \<times> client" where
  "dhcp4_stop now c =
     then_do (inspect (if c_active c \<noteq> None then map_ok (\<lambda>x. [x]) (client_message c 7 now) else Ok []) c) (\<lambda>out c.
       (Ok out, c\<lparr>c_state := Stopped, c_active := None, c_link_local := None, c_selected := None, c_probe := None,
                 c_offers := []\<rparr>))"

definition set_link :: "bool \<Rightarrow> u64 \<Rightarrow> client \<times> rng \<Rightarrow> (io_error, unit) outcome \<times> client \<times> rng" where
  "set_link up now cr =
     (if up \<and> c_state (fst cr) = Stopped then
        then_do (restart now cr) (\<lambda>_ cr.
        then_do (wait_random now cr) (\<lambda>_ (c, r). (Ok (), c\<lparr>c_fallback_at := saturating_add now 60000\<rparr>, r)))
      else if \<not> up then
        (Ok (), (fst cr)\<lparr>c_state := Stopped, c_active := None, c_link_local := None, c_probe := None,
                         c_selected := None, c_offers := [], c_defended_at := None\<rparr>, snd cr)
      else (Ok (), cr))"

subsection \<open>Address conflicts\<close>

definition arp_candidate :: "arp \<Rightarrow> client \<Rightarrow> bool" where
  "arp_candidate a c \<longleftrightarrow> (case c_probe c of None \<Rightarrow> False | Some p \<Rightarrow>
      pr_sent p < 4 \<and> (a_sender a = pr_address p \<or> unspecified4 (a_sender a) \<and> a_target a = pr_address p))"

definition arp_active :: "arp \<Rightarrow> client \<Rightarrow> bool" where
  "arp_active a c \<longleftrightarrow> (case client_configuration c of None \<Rightarrow> False | Some f \<Rightarrow> a_sender a = cf_address f)"

definition may_defend :: "u64 \<Rightarrow> client \<Rightarrow> bool" where
  "may_defend now c \<longleftrightarrow> (case c_defended_at c of None \<Rightarrow> True | Some t \<Rightarrow> saturating_add t 10000 \<le> now)"

text \<open>The address is given up: a lease is declined, a link-local address is replaced.\<close>

definition give_up :: "bool \<Rightarrow> u64 \<Rightarrow> client \<times> rng \<Rightarrow> (io_error, dhcp4_output list) outcome \<times> client \<times> rng" where
  "give_up candidate now cr =
     (let c = fst cr;
          (lease, c) = (if candidate then ((case c_probe c of None \<Rightarrow> None | Some p \<Rightarrow> pr_lease p), c\<lparr>c_probe := None\<rparr>)
                        else (c_active c, c\<lparr>c_probe := None, c_active := None\<rparr>));
          c = c\<lparr>c_defended_at := None\<rparr>
      in case lease of
           Some l \<Rightarrow>
             let c = c\<lparr>c_selected := Some l\<rparr> in
             then_do (inspect (client_message c 4 now) (c, snd cr)) (\<lambda>m cr.
             then_do (restart now cr) (\<lambda>_ (c, r). (Ok [m], c\<lparr>c_next := saturating_add now 10000\<rparr>, r)))
         | None \<Rightarrow>
             let k = saturating_add (c_conflicts c) 1 in
             (Ok [], c\<lparr>c_link_local := None, c_conflicts := k,
                       c_fallback_at := saturating_add now (if 10 \<le> k then 60000 else 0)\<rparr>, snd cr))"

definition dhcp4_receive_arp :: "bytes \<Rightarrow> u64 \<Rightarrow> client \<times> rng \<Rightarrow> (io_error, dhcp4_output list) outcome \<times> client \<times> rng" where
  "dhcp4_receive_arp frame now cr = (case arp_parse frame of
      Panic \<Rightarrow> (Panic, cr)
    | Err e \<Rightarrow> (Ok [], cr)
    | Ok a \<Rightarrow>
        let c = fst cr; candidate = arp_candidate a c in
        if a_sender_mac a = c_mac c \<or> c_state c = Stopped then (Ok [], cr)
        else if \<not> candidate \<and> \<not> arp_active a c then (Ok [], cr)
        else if arp_active a c \<and> may_defend now c then
          (Ok [arp_announce (c_mac c) (a_sender a) (a_sender a)], c\<lparr>c_defended_at := Some now\<rparr>, snd cr)
        else give_up candidate now cr)"

end
