(* ===== verification/Dhcp4_Wire_Props.thy ===== *)
theory Dhcp4_Wire_Props
  imports Dhcp4_Wire Ipv4_Host_Props
begin

text \<open>
  DHCPv4 replies: decoders do not panic, what they accept is well formed and bounded, and what a
  server writes is read back.
\<close>

section \<open>Options and messages\<close>

abbreviation option_octets :: "(u8, bytes) btree \<Rightarrow> nat" where
  "option_octets m \<equiv> bt_sum (\<lambda>_. length) m"

lemma option_octets_extend:
  "option_octets (bt_insert k ((case bt_get m k of None \<Rightarrow> [] | Some v \<Rightarrow> v) @ w) m) = option_octets m + length w"
  using bt.total_ins [of "\<lambda>_. length" k "(case bt_get m k of None \<Rightarrow> [] | Some v \<Rightarrow> v) @ w" m]
  by (simp split: option.splits)

lemma parse_options_ensures:
  "option_octets (fst st) = snd st \<Longrightarrow> snd st \<le> 4096 \<Longrightarrow>
   ensures (parse_options ov b st) (\<lambda>st'. option_octets (fst st') = snd st' \<and> snd st' \<le> 4096)"
proof (induction ov b st rule: parse_options.induct)
  case (1 ov b st)
  then show ?case
    unfolding parse_options.simps [of ov b st]
    by (auto simp: option_octets_extend split: list.splits)
qed

lemma message_options_ensures:
  assumes "240 \<le> length b"
  shows "ensures (message_options b) (\<lambda>m. option_octets m \<le> 4096)"
proof -
  have more: "ensures (if c then and_then (slice_r b i j) (\<lambda>f. parse_options True f st) else Ok st)
      (\<lambda>st'. option_octets (fst st') = snd st' \<and> snd st' \<le> 4096)"
    if "option_octets (fst st) = snd st" "snd st \<le> 4096" "i \<le> j" "j \<le> length b" for c i j st
    using that by (auto simp: wp intro: parse_options_ensures)
  show ?thesis
    unfolding message_options_def
    using assms
    by (auto simp: wp split: option.splits intro!: ensures_mono [OF parse_options_ensures] ensures_mono [OF more])
qed

definition message_wf :: "dhcp4_message \<Rightarrow> bool" where
  "message_wf m \<longleftrightarrow> dm_kind m \<in> {2, 5, 6} \<and> unicast (dm_server m) \<and> length (dm_mac m) = 6 \<and> dm_mac m \<noteq> replicate 6 0
     \<and> hd (dm_mac m) AND 1 = 0 \<and> option_octets (dm_options m) \<le> 4096"

lemma reply_body_ensures: "ensures (reply_body bs) (\<lambda>b. 240 \<le> length b)"
  unfolding reply_body_def by (auto simp: wp Let_def)

lemma dhcp4_parse_ensures: "ensures (dhcp4_parse bs) message_wf"
proof -
  have kind: "ensures (case x of Some [k] \<Rightarrow> Ok k | _ \<Rightarrow> Err InvalidData) Q \<longleftrightarrow> (\<forall>k. x = Some [k] \<longrightarrow> Q k)"
    for x :: "bytes option" and Q by (auto split: option.splits list.splits)
  have ipw: "ensures (ip v) Q \<longleftrightarrow> (length v = 4 \<longrightarrow> Q (from_be v))" for v Q by (simp add: ip_def)
  have hd: "hd (take 6 (drop 28 b)) = b ! 28" if "240 \<le> length b" for b :: bytes
    using that by (simp add: hd_drop_conv_nth)
  show ?thesis
    unfolding dhcp4_parse_def
    apply (simp only: ensures_and_then)
    apply (rule ensures_mono [OF reply_body_ensures])
    subgoal for b
      using hd [of b]
      by (auto simp: body_bad_def wp kind ipw message_wf_def intro!: ensures_mono [OF message_options_ensures])
    done
qed

section \<open>Values of options\<close>

lemma ip_wp [wp]: "ensures (ip v) Q \<longleftrightarrow> (length v = 4 \<longrightarrow> Q (from_be v))"
  by (simp add: ip_def)

lemma collect_r_ensures:
  "(\<And>x. x \<in> set xs \<Longrightarrow> ensures (f x) P) \<Longrightarrow> ensures (collect_r f xs) (\<lambda>ys. length ys = length xs \<and> list_all P ys)"
proof (induction xs)
  case (Cons x xs)
  then have "ensures (f x) P" "ensures (collect_r f xs) (\<lambda>ys. length ys = length xs \<and> list_all P ys)" by auto
  then show ?case by (auto simp: wp elim!: ensures_mono)
qed simp

lemma length_chunks_exact: "0 < n \<Longrightarrow> n dvd length b \<Longrightarrow> length (chunks n b) = length b div n"
proof (induction n b rule: chunks.induct)
  case (1 n b)
  show ?case
  proof (cases "b = []")
    case False
    with 1(3) have "n \<le> length b" by (simp add: dvd_imp_le)
    then show ?thesis
      using 1 False by (simp add: chunks.simps [of n b] le_div_geq dvd_minus_self)
  qed (simp add: chunks.simps)
qed

lemma addresses_ensures: "ensures (addresses b cap) (\<lambda>as. as \<noteq> [] \<and> length as \<le> cap \<and> list_all unicast as)"
proof (cases "b = [] \<or> length b mod 4 \<noteq> 0 \<or> cap < length b div 4")
  case False
  then have n: "length (chunks 4 b) = length b div 4" "0 < length b div 4"
    using length_chunks_exact [of 4 b] by (auto simp: mod_eq_0_iff_dvd div_greater_zero_iff dvd_imp_le)
  have "ensures (collect_r (\<lambda>c. and_then (ip c) (\<lambda>a. if unicast a then Ok a else Err InvalidData)) (chunks 4 b))
      (\<lambda>as. length as = length (chunks 4 b) \<and> list_all unicast as)"
    by (rule collect_r_ensures) (simp add: wp)
  then have "ensures (collect_r (\<lambda>c. and_then (ip c) (\<lambda>a. if unicast a then Ok a else Err InvalidData)) (chunks 4 b))
      (\<lambda>as. as \<noteq> [] \<and> length as \<le> cap \<and> list_all unicast as)"
    by (rule ensures_mono) (use n False in auto)
  then show ?thesis using False by (simp add: addresses_def)
qed (auto simp: addresses_def)

definition route_masked :: "route4 \<Rightarrow> bool" where
  "route_masked r \<longleftrightarrow> unat (r_length r) \<le> 32 \<and> r_network r AND shr_mask (unat (r_length r)) = 0"

lemma masks_disjoint: "n \<le> 32 \<Longrightarrow> shl_mask (32 - n) AND shr_mask n = 0"
  by (rule bit_word_eqI) (auto simp: shl_mask_def shr_mask_def bit_simps)

lemma routes_loop_ensures:
  "length out \<le> 64 \<Longrightarrow> list_all route_masked out \<Longrightarrow>
   ensures (routes_loop b out) (\<lambda>rs. length rs \<le> 64 \<and> list_all route_masked rs)"
proof (induction b out rule: routes_loop.induct)
  case (1 b out)
  have m: "route_masked \<lparr>r_network = x AND shl_mask (32 - unat l), r_length = l, r_gateway = g\<rparr>"
    if "\<not> 32 < l" for x g and l :: u8
    using that masks_disjoint [of "unat l"] by (simp add: route_masked_def u8_le32 and.assoc)
  have n: "div_ceil (unat l) 8 \<le> 4" if "\<not> 32 < l" for l :: u8
    using that by (simp add: u8_le32 div_ceil_def)
  show ?case
  proof (cases b)
    case Nil
    then show ?thesis using 1 by (simp add: routes_loop.simps)
  next
    case (Cons l rest)
    show ?thesis
      using 1 Cons unfolding routes_loop.simps [of b out]
      by (auto simp: wp Let_def m n ip_def)
  qed
qed

lemma routes_ensures: "ensures (routes b) (\<lambda>rs. length rs \<le> 64 \<and> list_all route_masked rs)"
  unfolding routes_def by (simp add: wp routes_loop_ensures)

text \<open>A domain name as its labels: no label is empty or over 63 octets, and the name fits 255.\<close>

definition name_octets :: "bytes list \<Rightarrow> nat" where
  "name_octets n = 1 + sum_list (map (\<lambda>l. length l + 1) n)"

definition labels_ok :: "bytes list \<Rightarrow> bool" where
  "labels_ok n \<longleftrightarrow> list_all (\<lambda>l. l \<noteq> [] \<and> length l \<le> 63) n"

definition name_wf :: "bytes list \<Rightarrow> bool" where
  "name_wf n \<longleftrightarrow> n \<noteq> [] \<and> labels_ok n \<and> name_octets n \<le> 255"

lemma labels_ok_simps [simp]: "labels_ok []" "labels_ok (n @ [l]) \<longleftrightarrow> labels_ok n \<and> l \<noteq> [] \<and> length l \<le> 63"
  by (simp_all add: labels_ok_def)

lemma name_octets_simps [simp]: "name_octets [] = 1" "name_octets (n @ [l]) = name_octets n + length l + 1"
  by (simp_all add: name_octets_def)

lemma name_loop_ensures:
  "octets = name_octets labels \<Longrightarrow> labels_ok labels \<Longrightarrow> octets \<le> 255 \<Longrightarrow>
   ensures (name_loop k b cursor at consumed labels octets bs) (\<lambda>(next, labels, bs). labels_ok labels \<and> name_octets labels \<le> 255)"
proof (induction k arbitrary: at consumed labels octets bs)
  case (Suc k)
  have label: "ensures (name_loop k b cursor (at + n + 1) consumed (labels @ [take n (drop (at + 1) b)]) (name_octets labels + n + 1) bs)
      (\<lambda>(next, labels, bs). labels_ok labels \<and> name_octets labels \<le> 255)"
    if "0 < n" "n \<le> 63" "at + n + 1 \<le> length b" "name_octets labels + n + 1 \<le> 255" for n bs
    by (rule Suc.IH) (use that Suc.prems in auto)
  show ?case
    using Suc.prems by (auto simp: wp Let_def not_less intro!: Suc.IH label [simplified])
qed simp

lemma search_loop_ensures:
  "list_all name_wf out \<Longrightarrow> length out \<le> 16 \<Longrightarrow>
   ensures (search_loop b cursor bs out) (\<lambda>ns. length ns \<le> 16 \<and> list_all name_wf ns)"
proof (induction b cursor bs out rule: search_loop.induct)
  case (1 b cursor bs out)
  have name: "ensures (name_loop 128 b cursor cursor None [] 1 bs) (\<lambda>(next, labels, bs). labels_ok labels \<and> name_octets labels \<le> 255)"
    by (rule name_loop_ensures) simp_all
  show ?case
    unfolding search_loop.simps [of b cursor bs out]
    using 1 name by (auto simp: wp ensures_iff [of "name_loop _ _ _ _ _ _ _ _"] name_wf_def split: prod.splits)
qed

lemma search_ensures: "ensures (search b) (\<lambda>ns. length ns \<le> 16 \<and> list_all name_wf ns)"
  unfolding search_def by (simp add: wp search_loop_ensures)

lemma split_dots_octets: "sum_list (map (\<lambda>l. length l + 1) (split_dots b)) = length b + 1"
  by (induction b) (auto split: list.splits)

lemma split_dots_not_Nil [simp]: "split_dots b \<noteq> []"
  by (induction b) (auto split: list.splits)

lemma domain_ensures: "ensures (domain b) (\<lambda>ns. length ns = 1 \<and> list_all name_wf ns)"
proof -
  have "ensures (if c = [] \<or> 253 < length c \<or> list_ex (\<lambda>l. l = [] \<or> 63 < length l \<or> P l) (split_dots c)
      then Err InvalidData else Ok [split_dots c]) (\<lambda>ns. length ns = 1 \<and> list_all name_wf ns)" for c P
    using split_dots_octets [of c]
    by (auto simp: name_wf_def labels_ok_def name_octets_def list_ex_iff list_all_iff not_less)
  then show ?thesis unfolding domain_def Let_def .
qed

section \<open>Leases\<close>

definition config_wf :: "configuration \<Rightarrow> bool" where
  "config_wf f \<longleftrightarrow> unicast (cf_address f) \<and> unat (cf_length f) \<le> 32 \<and> host_address (cf_address f) (cf_length f)
     \<and> length (cf_routes f) \<le> 64 \<and> list_all (route_good (cf_address f) (cf_length f)) (cf_routes f)
     \<and> length (cf_dns f) \<le> 8 \<and> list_all unicast (cf_dns f)
     \<and> length (cf_search f) \<le> 16 \<and> list_all name_wf (cf_search f)"

definition lease_wf :: "dhcp4_lease \<Rightarrow> bool" where
  "lease_wf l \<longleftrightarrow> config_wf (le_config l) \<and> \<not> link_local4 (cf_address (le_config l)) \<and> unicast (le_server l)
     \<and> le_t1 l \<le> le_t2 l \<and> le_t2 l \<le> le_expires l"

lemma number_option_ensures: "ensures (number_option m code) Q \<longleftrightarrow> (\<forall>x. number_option m code = Ok x \<longrightarrow> Q x)"
  by (auto simp: number_option_def ensures_iff split: option.splits if_splits)

lemma leading_ones_le: "leading_ones m \<le> 32"
  using length_takeWhile_le [of "\<lambda>i. bit m i" "rev [0..<32]"] by (simp add: leading_ones_def)

lemma lease_length_ensures:
  "pred_option lease_wf prior \<Longrightarrow> ensures (lease_length m prior) (\<lambda>n. unat n \<le> 32)"
  using leading_ones_le
  by (auto simp: lease_length_def wp Let_def lease_wf_def config_wf_def unat_of_nat split: option.splits intro: le_trans [OF mod_less_eq_dividend])

lemma lease_dns_ensures:
  "pred_option lease_wf prior \<Longrightarrow> ensures (lease_dns m prior) (\<lambda>as. length as \<le> 8 \<and> list_all unicast as)"
  by (auto simp: lease_dns_def lease_wf_def config_wf_def split: option.splits intro!: ensures_mono [OF addresses_ensures])

lemma lease_search_ensures:
  "pred_option lease_wf prior \<Longrightarrow> ensures (lease_search m prior) (\<lambda>ns. length ns \<le> 16 \<and> list_all name_wf ns)"
  by (auto simp: lease_search_def lease_wf_def config_wf_def split: option.splits
      intro!: search_ensures ensures_mono [OF domain_ensures])

lemma lease_routes_ensures: "ensures (lease_routes m prior) (\<lambda>_. True)"
  by (auto simp: lease_routes_def wp split: option.splits intro: ensures_mono [OF routes_ensures] ensures_mono [OF addresses_ensures])

lemma unat_seven_eighths: "unat (seven_eighths s) = unat s * 7 div 8"
proof -
  have s: "unat s < 2 ^ 32" using unsigned_less [of s, where ?'a = nat] by simp
  then have "unat (ucast s * 7 :: u64) = unat s * 7" by (simp add: unat_word_ariths unat_ucast_up)
  then show ?thesis using s by (simp add: seven_eighths_def unat_div unsigned_ucast_eq take_bit_eq_mod)
qed

lemma lease_deadline_mono: "unat a \<le> unat b \<Longrightarrow> lease_deadline now a \<le> lease_deadline now b"
proof -
  assume le: "unat a \<le> unat b"
  have u: "unat (ucast s * 1000 :: u64) = unat s * 1000" for s :: u32
    using unsigned_less [of s, where ?'a = nat] by (simp add: unat_word_ariths unat_ucast_up)
  show ?thesis
    using le by (simp add: lease_deadline_def word_le_nat_alt unat_saturating_add u)
qed

lemma lease_times_ensures: "ensures (lease_times m s) (\<lambda>(a, b). unat a \<le> unat b \<and> unat b \<le> unat s)"
proof -
  have "unat (s div 2) \<le> unat (seven_eighths s)" "unat (seven_eighths s) \<le> unat s"
    by (simp_all add: unat_seven_eighths unat_div) 
  then show ?thesis
    by (auto simp: lease_times_def wp number_option_ensures Let_def word_less_nat_alt)
qed

lemma configured_routes:
  assumes "unat len \<le> 32"
  shows "configure4 a len None (host4_new mac) = (x, v) \<Longrightarrow> ensures x (\<lambda>_. unicast a \<and> host_address a len
    \<and> ensures (fst (set_routes rs v)) (\<lambda>_. length rs \<le> 64 \<and> list_all (route_good a len) rs))"
proof -
  assume c: "configure4 a len None (host4_new mac) = (x, v)"
  have r: "any_r (route_bad a len) rs = Ok (list_ex (\<lambda>r. \<not> route_good a len r) rs)"
    by (rule any_r_ok) (rule route_bad_ok [OF assms])
  show ?thesis
    using c assms by (auto simp: configure4_def gateway_bad_def set_routes_def r list_ex_iff list_all_iff u8_le32 split: if_splits)
qed

lemma message_lease_ensures:
  assumes m: "message_wf m" and prior: "pred_option lease_wf prior"
  shows "ensures (message_lease m now prior) (\<lambda>l. lease_wf l \<and> le_server l = dm_server m \<and> cf_address (le_config l) = dm_address m)"
proof -
  note parts = lease_length_ensures [OF prior, where m = m] lease_dns_ensures [OF prior, where m = m]
    lease_search_ensures [OF prior, where m = m] lease_routes_ensures [where m = m and prior = prior] lease_times_ensures [where m = m]
  note calls = parts [THEN ensures_call] and facts = parts [THEN ensuresD]
  have times: "lease_deadline now a \<le> lease_deadline now b \<and> lease_deadline now b \<le> lease_expiry now s"
    if "unat a \<le> unat b" "unat b \<le> unat s" for a b s :: u32
    using that lease_deadline_mono by (auto simp: lease_expiry_def)
  have configured: "ensures x (\<lambda>_. unicast a \<and> host_address a len
      \<and> ensures (fst (set_routes rs v)) (\<lambda>_. length rs \<le> 64 \<and> list_all (route_good a len) rs))"
    if "configure4 a len None (host4_new [2, 0, 0, 0, 0, 1]) = (x, v)" "lease_length m prior = Ok len" for a len x v rs
    by (rule configured_routes [OF facts(1) that(1)]) (rule that(2))
  have tail: "ensures (and_then x (\<lambda>_. and_then (lease_routes m prior) (\<lambda>routes. and_then (fst (set_routes routes v)) (\<lambda>_.
     and_then (lease_dns m prior) (\<lambda>dns. and_then (lease_search m prior) (\<lambda>search.
     and_then (lease_times m seconds) (\<lambda>(a, b).
       Ok \<lparr>le_config = \<lparr>cf_address = dm_address m, cf_length = len, cf_routes = routes, cf_dns = dns, cf_search = search\<rparr>,
           le_server = dm_server m, le_t1 = lease_deadline now a, le_t2 = lease_deadline now b,
           le_expires = lease_expiry now seconds\<rparr>)))))))
      (\<lambda>l. lease_wf l \<and> le_server l = dm_server m \<and> cf_address (le_config l) = dm_address m)"
    if c: "configure4 (dm_address m) len None (host4_new [2, 0, 0, 0, 0, 1]) = (x, v)" and len: "lease_length m prior = Ok len"
      and a: "\<not> link_local4 (dm_address m)" for len v seconds x
  proof (cases x)
    case (Ok u)
    have r: "ensures (fst (set_routes rs v)) (\<lambda>_. length rs \<le> 64 \<and> list_all (route_good (dm_address m) len) rs)"
      "unicast (dm_address m)" "host_address (dm_address m) len" for rs
      using configured [OF c len, of rs] Ok by auto
    have "lease_wf \<lparr>le_config = \<lparr>cf_address = dm_address m, cf_length = len, cf_routes = rs, cf_dns = dns, cf_search = ns\<rparr>,
           le_server = dm_server m, le_t1 = lease_deadline now t1, le_t2 = lease_deadline now t2,
           le_expires = lease_expiry now seconds\<rparr>"
      if "lease_dns m prior = Ok dns" "lease_search m prior = Ok ns" "lease_times m seconds = Ok (t1, t2)"
        "length rs \<le> 64" "list_all (route_good (dm_address m) len) rs" for rs dns ns t1 t2
      using that m a r(2,3) facts(1) [OF len] facts(2) [OF that(1)] facts(3) [OF that(2)] facts(5) [OF that(3)] times [of t1 t2 seconds]
      by (simp add: lease_wf_def config_wf_def message_wf_def)
    then show ?thesis using r(1) Ok by (auto simp: wp calls ensures_call [OF r(1)] dest: ensuresD [OF r(1)])
  qed (use configured [OF c len] in auto)
  show ?thesis
    unfolding message_lease_def
    using tail
    by (auto simp: ensures_and_then [of "number_option m 51"] ensures_and_then [of "and_then (number_option m 51) _"]
        ensures_and_then [of "lease_length m prior"] ensures_ok_or number_option_ensures calls(1) Let_def split: prod.splits)
qed

section \<open>The search list as an encoder writes it\<close>

definition encode_label :: "bytes \<Rightarrow> bytes" where
  "encode_label l = of_nat (length l) # l"

definition encode_name :: "bytes list \<Rightarrow> bytes" where
  "encode_name n = concat (map encode_label n) @ [0]"

lemma length_encode_label [simp]: "length (encode_label l) = length l + 1"
  by (simp add: encode_label_def)

lemma unat_label_length: "length l \<le> 63 \<Longrightarrow> unat (of_nat (length l) :: u8) = length l"
  by (simp add: unat_of_nat take_bit_nat_eq_self_iff)

lemma label_not_pointer: "unat (w :: u8) \<le> 63 \<Longrightarrow> w AND 0xc0 \<noteq> 0xc0"
proof
  assume le: "unat w \<le> 63" and c: "w AND 0xc0 = 0xc0"
  have "w AND 0xc0 \<le> w" by (rule word_and_le2)
  with c le show False by (simp add: word_le_nat_alt)
qed

lemma name_loop_labels:
  "b = pre @ concat (map encode_label ls) @ 0 # post \<Longrightarrow> labels_ok ls \<Longrightarrow> length ls < k
    \<Longrightarrow> octets + sum_list (map (\<lambda>l. length l + 1) ls) \<le> 255 \<Longrightarrow>
   \<exists>bs'. name_loop k b cursor (length pre) None labels octets bs
     = Ok (length pre + length (concat (map encode_label ls)) + 1, labels @ ls, bs')"
proof (induction ls arbitrary: pre k labels octets bs)
  case Nil
  then obtain j where "k = Suc j" by (cases k) auto
  then show ?case using Nil by (simp add: nth_append)
next
  case (Cons l ls)
  then obtain j where k: "k = Suc j" "length ls < j" by (cases k) auto
  have l: "l \<noteq> []" "length l \<le> 63" "labels_ok ls" using Cons.prems(2) by (auto simp: labels_ok_def)
  have b: "b = (pre @ encode_label l) @ concat (map encode_label ls) @ 0 # post" using Cons.prems(1) by simp
  have w: "b ! length pre = of_nat (length l)" using Cons.prems(1) by (simp add: encode_label_def nth_append)
  have "take (length l) (drop (Suc (length pre)) b) = l" using Cons.prems(1) by (simp add: encode_label_def)
  moreover have "length pre < length b" "length pre + length l + 1 \<le> length b" using Cons.prems(1) by auto
  moreover obtain bs' where "name_loop j b cursor (length (pre @ encode_label l)) None (labels @ [l]) (octets + length l + 1) (insert (length pre) bs)
     = Ok (length (pre @ encode_label l) + length (concat (map encode_label ls)) + 1, (labels @ [l]) @ ls, bs')"
    using Cons.IH [OF b l(3) k(2), of "octets + length l + 1" "labels @ [l]" "insert (length pre) bs"] Cons.prems(4) by auto
  ultimately show ?case
    using l Cons.prems(4) unat_label_length [OF l(2)] label_not_pointer [of "of_nat (length l)"]
    by (simp add: k(1) w Let_def not_less add.assoc)
qed

lemma labels_count: "labels_ok n \<Longrightarrow> 2 * length n \<le> sum_list (map (\<lambda>l. length l + 1) n)"
proof (induction n)
  case (Cons l n)
  then have "1 \<le> length l" by (cases l) (auto simp: labels_ok_def)
  with Cons show ?case by (simp add: labels_ok_def)
qed simp

lemma search_loop_names:
  "b = pre @ concat (map encode_name ns) \<Longrightarrow> list_all name_wf ns \<Longrightarrow> length out + length ns \<le> 16
   \<Longrightarrow> search_loop b (length pre) bs out = Ok (out @ ns)"
proof (induction ns arbitrary: pre bs out)
  case Nil
  then show ?case by (simp add: search_loop.simps)
next
  case (Cons n ns)
  have n: "n \<noteq> []" "labels_ok n" "name_octets n \<le> 255" and ns: "list_all name_wf ns" using Cons.prems(2) by (simp_all add: name_wf_def [of n])
  then have "length n < 128" using labels_count [of n] by (simp add: name_octets_def)
  moreover have b: "b = pre @ concat (map encode_label n) @ 0 # concat (map encode_name ns)"
    using Cons.prems(1) by (simp add: encode_name_def [of n])
  ultimately obtain bs' where "name_loop 128 b (length pre) (length pre) None [] 1 bs
      = Ok (length (pre @ encode_name n), n, bs')"
    using name_loop_labels [OF b n(2), of 128 1 "length pre" "[]" bs] n(3) by (auto simp: name_octets_def encode_name_def)
  moreover have "search_loop b (length (pre @ encode_name n)) bs' (out @ [n]) = Ok ((out @ [n]) @ ns)"
    by (rule Cons.IH) (use Cons.prems ns in auto)
  moreover have "length pre < length b" using b by simp
  ultimately show ?case
    using n(1) Cons.prems(3) by (simp add: search_loop.simps [of b "length pre"] encode_name_def)
qed

section \<open>Replies as a server writes them\<close>

definition encode_options :: "(u8 \<times> bytes) list \<Rightarrow> bytes" where
  "encode_options os = concat (map (\<lambda>(c, v). c # of_nat (length v) # v) os) @ [255]"

definition options_wf :: "(u8 \<times> bytes) list \<Rightarrow> bool" where
  "options_wf os \<longleftrightarrow> distinct (map fst os) \<and> list_all (\<lambda>(c, v). c \<noteq> 0 \<and> c \<noteq> 255 \<and> c \<noteq> 52 \<and> length v \<le> 255) os
     \<and> sum_list (map (length \<circ> snd) os) \<le> 4096"

lemma parse_options_encode:
  "distinct (map fst os) \<Longrightarrow> list_all (\<lambda>(c, v). c \<noteq> 0 \<and> c \<noteq> 255 \<and> c \<noteq> 52 \<and> length v \<le> 255) os \<Longrightarrow>
   n + sum_list (map (length \<circ> snd) os) \<le> 4096 \<Longrightarrow> \<forall>c \<in> fst ` set os. bt_get m c = None \<Longrightarrow>
   \<exists>m' n'. parse_options ov (encode_options os @ pad) (m, n) = Ok (m', n')
     \<and> (\<forall>c. bt_get m' c = (case map_of os c of None \<Rightarrow> bt_get m c | Some v \<Rightarrow> Some v))"
proof (induction os arbitrary: m n)
  case Nil
  then show ?case by (simp add: encode_options_def parse_options.simps)
next
  case (Cons o1 os)
  obtain c v where o1: "o1 = (c, v)" by (cases o1)
  have cv: "c \<noteq> 0" "c \<noteq> 255" "c \<noteq> 52" "length v \<le> 255" "bt_get m c = None" "n + length v \<le> 4096"
    using Cons.prems o1 by auto
  have "parse_options ov (encode_options (o1 # os) @ pad) (m, n) = parse_options ov (encode_options os @ pad) (bt_insert c v m, n + length v)"
    using cv unat_of_nat_u8 [of "length v"] by (subst parse_options.simps) (simp add: encode_options_def o1)
  moreover have "\<exists>m' n'. parse_options ov (encode_options os @ pad) (bt_insert c v m, n + length v) = Ok (m', n')
     \<and> (\<forall>d. bt_get m' d = (case map_of os d of None \<Rightarrow> bt_get (bt_insert c v m) d | Some v \<Rightarrow> Some v))"
    using Cons.prems o1 by (intro Cons.IH) auto
  moreover have "map_of os c = None" using Cons.prems(1) o1 by (simp add: map_of_eq_None_iff)
  ultimately show ?case using o1 by (fastforce split: option.splits if_splits)
qed

text \<open>The datagram: no UDP checksum, the address in \<open>yiaddr\<close>, the hardware address of the client.\<close>

definition reply_udp :: "u32 \<Rightarrow> ipv4 \<Rightarrow> bytes \<Rightarrow> (u8 \<times> bytes) list \<Rightarrow> bytes" where
  "reply_udp xid address mac os =
     (let b = [2, 1, 6, 0] @ to_be 4 xid @ replicate 8 0 @ to_be 4 address @ replicate 8 0 @ mac @ replicate 202 0
              @ [99, 130, 83, 99] @ encode_options os
      in [0, 67, 0, 68] @ to_be 2 (of_nat (length b + 8) :: u16) @ [0, 0] @ b)"

lemma reply_parsed:
  assumes os: "options_wf os" "map_of os 53 = Some [kind]" "kind \<in> {2, 5, 6}" "map_of os 54 = Some (to_be 4 server)" "unicast server"
    and mac: "length mac = 6" "mac \<noteq> replicate 6 0" "hd mac AND 1 = 0" and src: "unicast source"
    and fits: "length (encode_options os) \<le> 4000"
  shows "\<exists>m. dhcp4_parse (encoded4 source destination 17 64 (reply_udp xid address mac os)) = Ok m
    \<and> dm_kind m = kind \<and> dm_xid m = xid \<and> dm_mac m = mac \<and> dm_address m = address \<and> dm_server m = server
    \<and> (\<forall>c. bt_get (dm_options m) c = map_of os c)"
proof -
  define b where "b = [2, 1, 6, 0] @ to_be 4 xid @ replicate 8 0 @ to_be 4 address @ replicate 8 0 @ mac @ replicate 202 0
              @ [99, 130, 83, 99] @ encode_options os"
  let ?udp = "[0, 67, 0, 68] @ to_be 2 (of_nat (length b + 8) :: u16) @ [0, 0] @ b"
  have udp: "reply_udp xid address mac os = ?udp" by (simp add: reply_udp_def b_def)
  have lb: "length b = 240 + length (encode_options os)" by (simp add: b_def mac)
  have n: "unat (of_nat (length b + 8) :: u16) = length b + 8" by (rule unat_of_nat_u16) (use lb fits in simp)
  have body: "reply_body (encoded4 source destination 17 64 ?udp) = Ok b"
  proof -
    have "length (encoded4 source destination 17 64 ?udp) \<le> 4396"
      using lb fits by (simp add: encoded4_def Let_def)
    moreover have "packet_parse (encoded4 source destination 17 64 ?udp) = Ok \<lparr>p_source = source, p_destination = destination, p_ttl = 64,
      p_protocol = 17, p_payload = ?udp, p_bytes = encoded4 source destination 17 64 ?udp, p_header_len = 20,
      p_fragment_offset = 0, p_more_fragments = False, p_dont_fragment = False, p_id = 0, p_traffic_class = 0\<rparr>"
      by (rule encoded4_parse) (use lb fits in simp)
    ultimately show ?thesis
      using src lb n by (simp add: reply_body_def Let_def del: of_nat_add)
  qed
  have mac28: "take 6 (drop 28 b) = mac" "b ! 28 = hd mac"
    using mac(1) by (simp_all add: b_def nth_append hd_conv_nth flip: length_greater_0_conv)
  have fields: "take 3 b = [2, 1, 6]" "take 4 (drop 236 b) = [99, 130, 83, 99]" "b ! 10 = 0" "b ! 11 = 0"
    "take 4 (drop 4 b) = to_be 4 xid" "take 4 (drop 16 b) = to_be 4 address" "drop 240 b = encode_options os"
    using mac(1) by (simp_all add: b_def nth_append)
  have bad: "body_bad b = Ok False" using lb fields mac mac28 by (simp add: body_bad_def)
  have ident: "(case x of None \<Rightarrow> bt_get bt_empty c | Some v \<Rightarrow> Some v) = x" for x :: "bytes option" and c :: u8 by (cases x) simp_all
  obtain mo no where "parse_options False (encode_options os) (bt_empty, 0) = Ok (mo, no)" "\<And>c. bt_get mo c = map_of os c"
    using parse_options_encode [of os 0 bt_empty False "[]"] os(1) by (auto simp: options_wf_def ident)
  moreover from this(2) have "bt_get mo 52 = None"
    using os(1) by (force simp: options_wf_def map_of_eq_None_iff list_all_iff)
  ultimately have "message_options b = Ok mo" "\<And>c. bt_get mo c = map_of os c"
    using lb fields by (simp_all add: message_options_def)
  then show ?thesis
    unfolding udp using body bad os lb fields mac28 by (auto simp: dhcp4_parse_def ip_def)
qed

text \<open>An offer of 192.168.1.50/24 for an hour by 192.168.1.1, and the lease in it.\<close>

definition client_mac :: bytes where "client_mac = [2, 0, 0, 0, 0, 7]"

definition options0 :: "u8 \<Rightarrow> (u8 \<times> bytes) list" where
  "options0 kind = [(53, [kind]), (54, to_be 4 (0xC0A80101 :: ipv4)), (51, [0, 0, 14, 16]), (1, [255, 255, 255, 0])]"

definition reply0 :: "u8 \<Rightarrow> bytes" where
  "reply0 kind = encoded4 0xC0A80101 0xffffffff 17 64 (reply_udp 0 0xC0A80132 client_mac (options0 kind))"

definition lease0 :: "u64 \<Rightarrow> dhcp4_lease" where
  "lease0 now = \<lparr>le_config = \<lparr>cf_address = 0xC0A80132, cf_length = 24, cf_routes = [], cf_dns = [], cf_search = []\<rparr>,
     le_server = 0xC0A80101, le_t1 = lease_deadline now 1800, le_t2 = lease_deadline now 3150, le_expires = lease_deadline now 3600\<rparr>"

lemma reply0_parsed:
  assumes "kind \<in> {2, 5, 6}"
  shows "\<exists>m. dhcp4_parse (reply0 kind) = Ok m \<and> dm_kind m = kind \<and> dm_xid m = 0 \<and> dm_mac m = client_mac
    \<and> dm_address m = 0xC0A80132 \<and> dm_server m = 0xC0A80101 \<and> (\<forall>c. bt_get (dm_options m) c = map_of (options0 kind) c)"
proof -
  have "options_wf (options0 kind)" "map_of (options0 kind) 53 = Some [kind]" "map_of (options0 kind) 54 = Some (to_be 4 (0xC0A80101 :: ipv4))"
    "length (encode_options (options0 kind)) \<le> 4000"
    by (simp_all add: options_wf_def options0_def encode_options_def)
  moreover have "unicast 0xC0A80101" "length client_mac = 6" "client_mac \<noteq> replicate 6 0" "hd client_mac AND 1 = 0" by code_simp+
  ultimately show ?thesis unfolding reply0_def using assms by (intro reply_parsed)
qed

lemma lease0_read:
  assumes "dm_address m = 0xC0A80132" "dm_server m = 0xC0A80101" "\<And>c. bt_get (dm_options m) c = map_of (options0 kind) c"
  shows "message_lease m now None = Ok (lease0 now)"
proof -
  have n: "number_option m 51 = Ok (Some 3600)" "number_option m 58 = Ok None" "number_option m 59 = Ok None"
    by (simp_all add: number_option_def assms options0_def from_be_def push_bit_eq_mult)
  have "leading_ones (from_be [255, 255, 255, 0]) = 24" "from_be [255, 255, 255, 0] = shl_mask 8" by code_simp+
  then have l: "lease_length m None = Ok 24"
    by (simp add: lease_length_def assms options0_def ip_def)
  have u: "unicast 0xC0A80132" "\<not> link_local4 0xC0A80132" "host_address 0xC0A80132 24" by code_simp+
  have t: "lease_times m 3600 = Ok (1800, 3150)" 
    by (simp add: lease_times_def n) code_simp
  show ?thesis
    by (simp add: message_lease_def n l u t assms configure4_def gateway_bad_def set_routes_def lease_routes_def lease_dns_def lease_search_def
        options0_def lease0_def lease_expiry_def)
qed

section \<open>Properties\<close>

text \<open>
  C10: What a DHCPv4 server sends cannot break the client. No byte string makes the parser or the
  reading of a lease panic; an accepted message is an offer, an acknowledgement or a refusal with
  at most 4096 octets of options; and a lease read from it, on its own or completed from a
  well-formed earlier one, is well formed: a unicast host address that is not link local, a contiguous
  mask, at most 64 routes whose gateways are on the subnet, at most 8 unicast name servers, at
  most 16 search names of valid labels, and renewal before rebinding before expiry.
\<close>

theorem dhcp4_lease_well_formed:
  assumes "pred_option lease_wf prior"
  shows "ensures (dhcp4_parse bs) (\<lambda>m. message_wf m \<and> ensures (message_lease m now prior)
    (\<lambda>l. lease_wf l \<and> le_server l = dm_server m \<and> cf_address (le_config l) = dm_address m))"
  by (rule ensures_mono [OF dhcp4_parse_ensures]) (simp add: message_lease_ensures [OF _ assms])

theorem dhcp4_lease_well_formed_witness:
  "\<exists>m. dhcp4_parse (reply0 2) = Ok m \<and> message_lease m 5 None = Ok (lease0 5) \<and> lease_wf (lease0 5)"
proof -
  obtain m where m: "dhcp4_parse (reply0 2) = Ok m" "dm_address m = 0xC0A80132" "dm_server m = 0xC0A80101"
    "\<And>c. bt_get (dm_options m) c = map_of (options0 2) c"
    using reply0_parsed [of 2] by auto
  note l = lease0_read [OF m(2-4), of 5]
  show ?thesis using dhcp4_lease_well_formed [of None "reply0 2" 5] m(1) l by simp
qed


text \<open>
  C11: The search list is read back as it was written: any list of at most 16 well-formed names
  whose encoding fits 1024 octets is decoded to exactly those names.
\<close>

theorem search_list_roundtrip:
  assumes "list_all name_wf ns" and "length ns \<le> 16" and "length (concat (map encode_name ns)) \<le> 1024"
  shows "search (concat (map encode_name ns)) = Ok ns"
  using search_loop_names [of _ "[]" ns "[]" "{}"] assms by (simp add: search_def)

theorem search_list_roundtrip_witness:
  "search (concat (map encode_name [[[108, 97, 110]], [[97], [98, 99]]])) = Ok [[[108, 97, 110]], [[97], [98, 99]]]"
  by (rule search_list_roundtrip) (simp_all add: name_wf_def labels_ok_def name_octets_def encode_name_def encode_label_def)

end
