(* ===== verification/Dhcp4_Client_Steps.thy ===== *)
theory Dhcp4_Client_Steps
  imports Dhcp4_Client Dhcp4_Wire_Props "HOL-Library.Sublist"
begin

text \<open>
  The steps of the DHCPv4 client: its invariant, the phases of the life of an address, and what every
  call keeps of both. A probe and an announcement are what a call sends before an address is used.
\<close>

section \<open>The life of an address\<close>

text \<open>
  The abstract client: it is off, searching for a server, asking for an address it was offered,
  testing one it was granted, using one, or testing a second one while it uses the first. \<open>Lost\<close> is
  a client that holds no lease and asks for none.
\<close>

datatype phase = Off | Searching | Asking ipv4 | Testing ipv4 | Using ipv4 | Moving ipv4 ipv4 | Lost

inductive life :: "phase \<Rightarrow> phase \<Rightarrow> bool" where
  off: "life p Off"
| search: "life p Searching"
| ask: "life Searching (Asking a)"
| grant: "life (Asking a) (Testing a)"
| adopt: "life (Testing a) (Using a)"
| move: "life (Using a) (Moving a b)"
| remove: "life (Moving a b) (Moving a c)"
| moved: "life (Moving a b) (Using b)"
| lose: "life (Testing a) Lost"

definition lease_address :: "dhcp4_lease \<Rightarrow> ipv4" where
  "lease_address l = cf_address (le_config l)"

definition tested :: "client \<Rightarrow> dhcp4_lease option" where
  "tested c = (case c_probe c of None \<Rightarrow> None | Some p \<Rightarrow> pr_lease p)"

fun asking :: "dhcp4_lease option \<Rightarrow> phase" where
  "asking None = Lost"
| "asking (Some l) = Asking (lease_address l)"

fun holding :: "dhcp4_lease option \<Rightarrow> dhcp4_lease option \<Rightarrow> phase" where
  "holding None None = Lost"
| "holding None (Some m) = Testing (lease_address m)"
| "holding (Some l) None = Using (lease_address l)"
| "holding (Some l) (Some m) = Moving (lease_address l) (lease_address m)"

fun phase_at :: "dhcp4_state \<Rightarrow> dhcp4_lease option \<Rightarrow> dhcp4_lease option \<Rightarrow> dhcp4_lease option \<Rightarrow> phase" where
  "phase_at Stopped s a t = Off"
| "phase_at Selecting s a t = Searching"
| "phase_at Requesting s a t = asking s"
| "phase_at Reboot s a t = asking s"
| "phase_at Bound s a t = holding a t"
| "phase_at Renewing s a t = holding a t"
| "phase_at Rebinding s a t = holding a t"

definition phase_of :: "client \<Rightarrow> phase" where
  "phase_of c = phase_at (c_state c) (c_selected c) (c_active c) (tested c)"

text \<open>Link-local addresses are drawn from 169.254.1.0 to 169.254.254.255.\<close>

definition fallback_range :: "ipv4 \<Rightarrow> bool" where
  "fallback_range a \<longleftrightarrow> 0xA9FE0100 \<le> a \<and> a \<le> 0xA9FEFEFF"

definition probe_ok :: "acd_probe \<Rightarrow> bool" where
  "probe_ok p \<longleftrightarrow> pr_sent p \<le> 4 \<and> (case pr_lease p of
      None \<Rightarrow> pr_sent p < 4 \<longrightarrow> fallback_range (pr_address p)
    | Some l \<Rightarrow> lease_wf l \<and> lease_address l = pr_address p \<and> pr_sent p < 4)"

definition state_ok :: "client \<Rightarrow> bool" where
  "state_ok c \<longleftrightarrow>
     (c_state c \<in> {Requesting, Reboot} \<longleftrightarrow> c_selected c \<noteq> None)
     \<and> (c_state c \<in> {Stopped, Selecting, Requesting, Reboot} \<longrightarrow> c_active c = None \<and> tested c = None)
     \<and> (c_state c \<in> {Renewing, Rebinding} \<longrightarrow> c_active c \<noteq> None)
     \<and> (c_state c \<noteq> Selecting \<longrightarrow> c_offers c = [])
     \<and> (c_state c = Stopped \<longrightarrow> c_probe c = None \<and> c_link_local c = None)"

definition client_inv :: "client \<Rightarrow> bool" where
  "client_inv c \<longleftrightarrow> length (c_mac c) = 6 \<and> 4000 \<le> c_retry c \<and> c_retry c \<le> 64000
     \<and> length (c_offers c) \<le> 8 \<and> distinct (map le_server (c_offers c)) \<and> list_all lease_wf (c_offers c)
     \<and> pred_option lease_wf (c_selected c) \<and> pred_option lease_wf (c_active c) \<and> pred_option probe_ok (c_probe c)
     \<and> pred_option (\<lambda>f. config_wf f \<and> fallback_range (cf_address f)) (c_link_local c) \<and> state_ok c"

text \<open>The addresses in use, and the steps that send no probe and begin no use of an address.\<close>

definition used :: "client \<Rightarrow> ipv4 set" where
  "used c = (case c_active c of None \<Rightarrow> {} | Some l \<Rightarrow> {lease_address l})
     \<union> (case c_link_local c of None \<Rightarrow> {} | Some f \<Rightarrow> {cf_address f})"

definition quiet :: "client \<Rightarrow> client \<Rightarrow> bool" where
  "quiet c c' \<longleftrightarrow> c_mac c' = c_mac c \<and> used c' \<subseteq> used c
     \<and> (\<forall>p. c_probe c' = Some p \<longrightarrow> c_probe c = Some p \<or> pr_sent p = 0)"

definition calm :: "client \<Rightarrow> client \<Rightarrow> bool" where
  "calm c c' \<longleftrightarrow> client_inv c' \<and> life\<^sup>*\<^sup>* (phase_of c) (phase_of c') \<and> quiet c c'"

abbreviation keeps :: "client \<Rightarrow> (io_error, 'a) outcome \<times> client \<times> rng \<Rightarrow> bool" where
  "keeps c z \<equiv> holds z (\<lambda>_ cr. calm c (fst cr)) (\<lambda>cr. calm c (fst cr))"

lemma calm_refl: "client_inv c \<Longrightarrow> calm c c"
  by (simp add: calm_def quiet_def)

lemma calm_inv: "calm c c' \<Longrightarrow> client_inv c'"
  by (simp add: calm_def)

lemma calm_trans: "calm c d \<Longrightarrow> calm d e \<Longrightarrow> calm c e"
  unfolding calm_def quiet_def by (metis (no_types, lifting) rtranclp_trans subset_trans)

lemma keeps_then_do:
  assumes "keeps c z" and "\<And>x d r. calm c d \<Longrightarrow> keeps d (f x (d, r))"
  shows "keeps c (then_do z f)"
proof (rule holds_then_do [OF assms(1)])
  fix x and s :: "client \<times> rng"
  assume s: "calm c (fst s)"
  have "keeps (fst s) (f x s)" using assms(2) [OF s, of x "snd s"] by simp
  then show "keeps c (f x s)" by (rule holds_mono) (auto intro: calm_trans [OF s])
qed

text \<open>A change of timers, identifiers and counters only.\<close>

definition same_leases :: "client \<Rightarrow> client \<Rightarrow> bool" where
  "same_leases c c' \<longleftrightarrow> c_mac c' = c_mac c \<and> c_state c' = c_state c \<and> c_offers c' = c_offers c \<and> c_selected c' = c_selected c
     \<and> c_active c' = c_active c \<and> c_probe c' = c_probe c \<and> c_link_local c' = c_link_local c"

lemma same_leases_simps:
  assumes "same_leases c c'"
  shows "tested c' = tested c" "phase_of c' = phase_of c" "used c' = used c" "state_ok c' = state_ok c"
proof -
  show t: "tested c' = tested c" using assms by (simp add: same_leases_def tested_def)
  show "phase_of c' = phase_of c" "used c' = used c" "state_ok c' = state_ok c"
    using assms t by (simp_all add: same_leases_def phase_of_def used_def state_ok_def)
qed

lemma calm_timers:
  "client_inv c \<Longrightarrow> same_leases c c' \<Longrightarrow> 4000 \<le> c_retry c' \<Longrightarrow> c_retry c' \<le> 64000 \<Longrightarrow> calm c c'"
  using same_leases_simps [of c c'] by (simp add: calm_def client_inv_def quiet_def same_leases_def)

lemma inv_retry: "client_inv c \<Longrightarrow> 4000 \<le> c_retry c" "client_inv c \<Longrightarrow> c_retry c \<le> 64000"
  by (simp_all add: client_inv_def)

subsection \<open>Random numbers\<close>

lemma sample_loop_no_panic: "fst (sample_loop span limit r) \<noteq> Panic"
  by (induction span limit r rule: sample_loop.induct) auto

lemma sample_no_panic: "fst (sample mx r) \<noteq> Panic"
  by (simp add: sample_def Let_def sample_loop_no_panic)

lemma fill4_no_panic: "fst (fill4 r) \<noteq> Panic"
  by (cases r rule: fill.cases) (simp_all add: fill4_def)

lemma holds_on_snd:
  assumes "fst (f r) \<noteq> Panic" and "\<And>x r'. f r = (Ok x, r') \<Longrightarrow> Q x (c, r')" and "\<And>r'. E (c, r')"
  shows "holds (on_snd f (c, r)) Q E"
proof -
  obtain x r' where "f r = (x, r')" by (cases "f r")
  with assms show ?thesis by (cases x) (auto simp: on_snd_def)
qed

lemma holds_sample:
  assumes "\<And>x r'. x \<le> mx \<Longrightarrow> Q x (c, r')" and "\<And>r'. E (c, r')"
  shows "holds (on_snd (sample mx) (c, r)) Q E"
  by (rule holds_on_snd [OF sample_no_panic]) (use assms sample_bound in blast)+

lemma holds_jitter:
  assumes "unat base + unat span < 2 ^ 64" and "\<And>x r'. base \<le> x \<Longrightarrow> Q x (c, r')" and "\<And>r'. E (c, r')"
  shows "holds (jitter base span (c, r)) Q E"
  unfolding jitter_def
proof (rule holds_then_do [where P = "\<lambda>x cr. x \<le> span \<and> fst cr = c"])
  show "holds (on_snd (sample span) (c, r)) (\<lambda>x cr. x \<le> span \<and> fst cr = c) E"
    by (rule holds_sample) (use assms(3) in auto)
  fix x :: u64 and cr :: "'a \<times> rng"
  assume x: "x \<le> span \<and> fst cr = c"
  then have "unat base + unat x < 2 ^ 64" using assms(1) by (simp add: word_le_nat_alt)
  then have "(add_chk base x :: (io_error, u64) outcome) = Ok (base + x)" "base \<le> base + x"
    by (simp_all add: add_chk_def word_le_nat_alt unat_word_ariths)
  then show "holds (inspect (add_chk base x) cr) Q E"
    using assms(2) [of "base + x" "snd cr"] x by (cases cr) (simp add: inspect_def)
qed

subsection \<open>Transactions\<close>

lemma transaction_keeps:
  assumes inv: "client_inv c"
  shows "keeps c (transaction now (c, r))"
proof -
  have "calm c (c\<lparr>c_xid := x, c_started := now, c_next := now, c_retry := 4000\<rparr>)" for x
    by (rule calm_timers [OF inv]) (simp_all add: same_leases_def)
  then show ?thesis
    unfolding transaction_def
    by (intro holds_then_do [OF holds_on_snd [OF fill4_no_panic, where Q = "\<lambda>_ cr. fst cr = c"]])
      (auto simp: inv calm_refl)
qed

definition cleared :: "client \<Rightarrow> client" where
  "cleared c = c\<lparr>c_active := None, c_selected := None, c_offers := [], c_probe := None, c_state := Selecting\<rparr>"

lemma phase_cleared: "phase_of (cleared c) = Searching"
  by (simp add: cleared_def phase_of_def)

lemma cleared_calm: "client_inv c \<Longrightarrow> calm c (cleared c)"
  unfolding calm_def phase_cleared
  by (auto simp: cleared_def client_inv_def state_ok_def tested_def quiet_def used_def intro: life.search)

definition fresh :: "u64 \<Rightarrow> u32 \<Rightarrow> client \<Rightarrow> client" where
  "fresh now xid c = (cleared c)\<lparr>c_xid := xid, c_started := now, c_next := now, c_retry := 4000\<rparr>"

lemma fresh_calm: "client_inv c \<Longrightarrow> calm c (fresh now xid c)"
  by (rule calm_trans [OF cleared_calm calm_timers]) (simp_all add: cleared_calm [THEN calm_inv] same_leases_def fresh_def)

lemma restart_ok: "holds (restart now (c, r)) (\<lambda>_ cr. \<exists>xid. fst cr = fresh now xid c) (\<lambda>cr. fst cr = cleared c)"
  unfolding restart_def transaction_def
  by (rule holds_then_do [OF holds_on_snd [OF fill4_no_panic, where Q = "\<lambda>_ cr. fst cr = cleared c"]])
    (auto simp: cleared_def fresh_def)

lemma restart_keeps: "client_inv c \<Longrightarrow> keeps c (restart now (c, r))"
  by (rule holds_mono [OF restart_ok]) (auto intro: fresh_calm cleared_calm)

lemma wait_random_keeps:
  assumes inv: "client_inv c"
  shows "keeps c (wait_random now (c, r))"
proof -
  have "calm c (c\<lparr>c_next := x\<rparr>)" for x
    by (rule calm_timers [OF inv]) (simp_all add: same_leases_def inv_retry [OF inv])
  then show ?thesis
    unfolding wait_random_def
    by (intro holds_then_do [OF holds_jitter [where Q = "\<lambda>_ cr. fst cr = c"]]) (auto simp: inv calm_refl)
qed

subsection \<open>Messages from servers\<close>

lemma calmI:
  assumes "client_inv c'" and "phase_of c = p" and "phase_of c' = q" and "life\<^sup>*\<^sup>* p q" and "quiet c c'"
  shows "calm c c'"
  using assms by (simp add: calm_def)

lemma reboot_calm:
  assumes inv: "client_inv c" and wf: "lease_wf lease"
  shows "calm c ((fresh now xid c)\<lparr>c_selected := Some lease, c_state := Reboot, c_next := now\<rparr>)"
proof -
  let ?d = "fresh now xid c" and ?e = "(fresh now xid c)\<lparr>c_selected := Some lease, c_state := Reboot, c_next := now\<rparr>"
  have "calm ?d ?e"
  proof (rule calmI)
    show "client_inv ?e" using inv wf by (simp add: fresh_def cleared_def client_inv_def state_ok_def tested_def)
    show "phase_of ?d = Searching" "phase_of ?e = Asking (lease_address lease)" by (simp_all add: phase_of_def fresh_def cleared_def)
    show "quiet ?d ?e" by (simp add: quiet_def used_def)
  qed (auto intro: life.ask)
  then show ?thesis by (rule calm_trans [OF fresh_calm [OF inv]])
qed

lemma restore_keeps:
  assumes inv: "client_inv c" and wf: "lease_wf lease"
  shows "keeps c (restore lease now (c, r))"
  unfolding restore_def
  by (rule holds_then_do [OF holds_mono [OF restart_ok, where F = "\<lambda>cr. calm c (fst cr)"]])
    (auto simp: cleared_calm [OF inv] fresh_calm [OF inv] reboot_calm [OF inv wf])

lemma receive_offer_keeps:
  assumes inv: "client_inv c" and m: "message_wf m" and s: "c_state c = Selecting"
  shows "holds (receive_offer m now c) (\<lambda>_. calm c) (calm c)"
proof (cases "message_lease m now None")
  case (Ok l)
  have l: "lease_wf l" "le_server l = dm_server m" using message_lease_ensures [OF m, of None now] Ok by auto
  have "calm c (c\<lparr>c_next := t, c_offers := c_offers c @ [l]\<rparr>)"
    if "\<not> list_ex (\<lambda>l. le_server l = dm_server m) (c_offers c)" "\<not> 8 \<le> length (c_offers c)" for t
  proof (rule calmI)
    show "client_inv (c\<lparr>c_next := t, c_offers := c_offers c @ [l]\<rparr>)"
      using inv l s that by (auto simp: client_inv_def state_ok_def tested_def list_ex_iff)
    show "phase_of c = Searching" "phase_of (c\<lparr>c_next := t, c_offers := c_offers c @ [l]\<rparr>) = Searching"
      using s by (simp_all add: phase_of_def)
  qed (simp_all add: quiet_def used_def)
  from this [of "c_next c"] this [of "saturating_add now 1000"] show ?thesis
    using Ok calm_refl [OF inv] by (auto simp: receive_offer_def Let_def)
next
  case Panic
  then show ?thesis using message_lease_ensures [OF m, of None now] by simp
qed (simp add: receive_offer_def calm_refl [OF inv])

lemma holds_start_probe:
  assumes "\<And>x r'. Q () (c\<lparr>c_probe := Some \<lparr>pr_address = a, pr_lease = l, pr_sent = 0, pr_next = x\<rparr>\<rparr>, r')" and "\<And>r'. E (c, r')"
  shows "holds (start_probe a l now (c, r)) Q E"
  unfolding start_probe_def
  by (rule holds_then_do [OF holds_sample [where Q = "\<lambda>_ cr. fst cr = c"]]) (use assms in auto)

abbreviation acquired :: "client \<Rightarrow> client" where
  "acquired c \<equiv> c\<lparr>c_selected := None, c_offers := [], c_state := Bound\<rparr>"

lemma renewed_calm:
  assumes inv: "client_inv c" and l: "lease_wf l" "same_address (c_active c) l"
    and s: "c_state c \<in> {Requesting, Reboot, Renewing, Rebinding}"
  shows "calm c (acquired (c\<lparr>c_active := Some l\<rparr>))"
proof -
  obtain l0 where l0: "c_active c = Some l0" "lease_address l0 = lease_address l"
    using l(2) by (auto simp: same_address_def lease_address_def split: option.splits)
  then have "c_state c \<in> {Renewing, Rebinding}" using inv s by (auto simp: client_inv_def state_ok_def)
  then have "phase_of c = holding (Some l) (tested c)" using l0 by (cases "tested c") (auto simp: phase_of_def)
  then show ?thesis
    by (rule calmI [rotated])
      (use inv l l0 in \<open>auto simp: phase_of_def tested_def client_inv_def state_ok_def quiet_def used_def\<close>)
qed

lemma testing_calm:
  assumes inv: "client_inv c" and l: "lease_wf l" "c_selected c \<noteq> None \<longrightarrow> same_address (c_selected c) l"
    and s: "c_state c \<in> {Requesting, Reboot, Renewing, Rebinding}"
  shows "calm c (acquired (c\<lparr>c_probe := Some \<lparr>pr_address = cf_address (le_config l), pr_lease = Some l, pr_sent = 0, pr_next = x\<rparr>\<rparr>))"
    (is "calm c ?d")
proof -
  have inv': "client_inv ?d" using inv l s by (auto simp: client_inv_def state_ok_def tested_def probe_ok_def lease_address_def)
  have q: "quiet c ?d" by (simp add: quiet_def used_def)
  have p: "phase_of ?d = holding (c_active c) (Some l)" by (simp add: phase_of_def tested_def)
  show ?thesis
  proof (cases "c_selected c")
    case (Some l0)
    then have "c_state c \<in> {Requesting, Reboot}" "c_active c = None" using inv s by (auto simp: client_inv_def state_ok_def)
    moreover have "lease_address l0 = lease_address l" using l(2) Some by (simp add: same_address_def lease_address_def)
    ultimately have "phase_of c = Asking (lease_address l)" "phase_of ?d = Testing (lease_address l)"
      using Some p by (auto simp: phase_of_def)
    then show ?thesis by (rule calmI [OF inv' _ _ _ q]) (auto intro: life.grant)
  next
    case None
    then have st: "c_state c \<in> {Renewing, Rebinding}" using inv s by (auto simp: client_inv_def state_ok_def)
    then obtain l0 where l0: "c_active c = Some l0" using inv by (auto simp: client_inv_def state_ok_def)
    have "phase_of c = holding (Some l0) (tested c)" using st l0 by (auto simp: phase_of_def)
    then show ?thesis
      by (rule calmI [OF inv' _ p _ q]) (cases "tested c"; use l0 in \<open>auto intro: life.move life.remove\<close>)
  qed
qed

lemma receive_ack_keeps:
  assumes inv: "client_inv c" and m: "message_wf m" and s: "c_state c \<in> {Requesting, Reboot, Renewing, Rebinding}"
    and prior: "pred_option lease_wf prior"
  shows "keeps c (receive_ack m prior now (c, r))"
proof (cases "message_lease m now prior")
  case (Ok l)
  have l: "lease_wf l" using message_lease_ensures [OF m prior, of now] Ok by simp
  note renewed = renewed_calm [OF inv l _ s] and testing = testing_calm [OF inv l _ s]
  show ?thesis
  proof (cases "c_selected c \<noteq> None \<and> \<not> same_address (c_selected c) l")
    case False
    then have f: "c_selected c \<noteq> None \<longrightarrow> same_address (c_selected c) l" by blast
    show ?thesis
    proof (cases "same_address (c_active c) l")
      case True
      then show ?thesis using Ok False renewed by (auto simp: receive_ack_def)
    next
      case new: False
      have "keeps c (then_do (start_probe (cf_address (le_config l)) (Some l) now (c, r)) (\<lambda>_ (c, r). (Ok (), acquired c, r)))"
        by (rule holds_then_do [OF holds_start_probe [where Q = "\<lambda>_ cr. calm c (acquired (fst cr))"]])
          (auto simp: testing [OF f] calm_refl [OF inv])
      then show ?thesis using Ok new calm_refl [OF inv] by (simp add: receive_ack_def)
    qed
  qed (use Ok calm_refl [OF inv] in \<open>auto simp: receive_ack_def\<close>)
next
  case Panic
  then show ?thesis using message_lease_ensures [OF m prior, of now] by simp
qed (simp add: receive_ack_def calm_refl [OF inv])

lemma dhcp4_receive_keeps:
  assumes inv: "client_inv c"
  shows "keeps c (dhcp4_receive packet now (c, r))"
proof (cases "dhcp4_parse packet")
  case (Ok m)
  have m: "message_wf m" using dhcp4_parse_ensures [of packet] Ok by simp
  let ?prior = "case c_selected c of Some l \<Rightarrow> Some l | None \<Rightarrow> c_active c"
  have prior: "pred_option lease_wf ?prior" using inv by (auto simp: client_inv_def split: option.splits)
  have offer: "keeps c (on_fst (receive_offer m now) (c, r))" if "c_state c = Selecting"
    by (rule holds_on_fst) (use receive_offer_keeps [OF inv m that, of now] in simp)
  have nak: "keeps c (then_do (restart now (c, r)) (\<lambda>_. wait_random now))"
    by (rule keeps_then_do [OF restart_keeps [OF inv] wait_random_keeps [OF calm_inv]])
  have ack: "keeps c (receive_ack m ?prior now (c, r))" if "List.member [Requesting, Reboot, Renewing, Rebinding] (c_state c)"
    by (rule receive_ack_keeps [OF inv m _ prior]) (use that in auto)
  show ?thesis using Ok offer nak ack calm_refl [OF inv] by (simp add: dhcp4_receive_def Let_def del: List.member_code)
next
  case Panic
  then show ?thesis using dhcp4_parse_ensures [of packet] by simp
qed (simp add: dhcp4_receive_def calm_refl [OF inv])

subsection \<open>Messages to servers\<close>

lemma length_message_body: "length (c_mac c) = 6 \<Longrightarrow> length (message_body c kind now d) = 300"
  by (simp add: message_body_def Let_def split: option.splits)

lemma client_message_ok:
  assumes mac: "length (c_mac c) = 6" and act: "kind = 7 \<or> kind = 3 \<and> c_state c = Renewing \<longrightarrow> c_active c \<noteq> None"
  shows "\<exists>m. client_message c kind now = Ok m"
proof -
  obtain d where "(if kind = 7 \<or> kind = 3 \<and> c_state c = Renewing then map_ok le_server (unwrap (c_active c)) else Ok 0xffffffff)
      = (Ok d :: (io_error, ipv4) outcome)"
    using act by (cases "kind = 7 \<or> kind = 3 \<and> c_state c = Renewing") auto
  then show ?thesis
    using length_message_body [OF mac, of kind now d] by (simp add: client_message_def Let_def encode4_eq)
qed

lemma inv_message: "client_inv c \<Longrightarrow> length (c_mac c) = 6" "client_inv c \<Longrightarrow> c_state c = Renewing \<Longrightarrow> c_active c \<noteq> None"
  by (simp_all add: client_inv_def state_ok_def)

subsection \<open>Timers\<close>

lemma poll_expire_keeps: "client_inv c \<Longrightarrow> keeps c (poll_expire now (c, r))"
  by (auto simp: poll_expire_def calm_refl restart_keeps split: option.splits)

lemma renewing_calm:
  assumes inv: "client_inv c" and a: "c_active c \<noteq> None" and s: "s \<in> {Renewing, Rebinding}"
  shows "calm c (c\<lparr>c_state := s\<rparr>)"
proof -
  obtain l where l: "c_active c = Some l" using a by blast
  then have st: "c_state c \<in> {Bound, Renewing, Rebinding}"
    using inv by (cases "c_state c") (auto simp: client_inv_def state_ok_def)
  then have "phase_of c = holding (c_active c) (tested c)" by (auto simp: phase_of_def)
  moreover have "tested (c\<lparr>c_state := s\<rparr>) = tested c" by (simp add: tested_def)
  moreover from this have "phase_of (c\<lparr>c_state := s\<rparr>) = holding (c_active c) (tested c)" using s by (auto simp: phase_of_def)
  moreover have "client_inv (c\<lparr>c_state := s\<rparr>)"
    using inv st s l by (auto simp: client_inv_def state_ok_def tested_def)
  ultimately show ?thesis by (intro calmI) (auto simp: quiet_def used_def)
qed

lemma poll_renew_keeps:
  assumes inv: "client_inv c"
  shows "keeps c (poll_renew now (c, r))"
proof (cases "c_active c")
  case (Some l)
  have t: "keeps c (transaction now (c\<lparr>c_state := s\<rparr>, r))" if "s \<in> {Renewing, Rebinding}" for s
  proof -
    have "calm c (c\<lparr>c_state := s\<rparr>)" by (rule renewing_calm [OF inv _ that]) (simp add: Some)
    then show ?thesis
      using transaction_keeps [OF calm_inv, of c "c\<lparr>c_state := s\<rparr>" now r]
      by (auto elim!: holds_mono intro: calm_trans)
  qed
  show ?thesis using Some t calm_refl [OF inv] by (auto simp: poll_renew_def)
qed (simp add: poll_renew_def calm_refl [OF inv])

lemma poll_probe_expire_keeps: "client_inv c \<Longrightarrow> keeps c (poll_probe_expire now (c, r))"
  by (auto simp: poll_probe_expire_def calm_refl restart_keeps split: option.splits)

lemma fallback_calm:
  assumes inv: "client_inv c" and p: "c_probe c = None" and s: "c_state c \<noteq> Stopped" and a: "fallback_range a"
  shows "calm c (c\<lparr>c_probe := Some \<lparr>pr_address = a, pr_lease = None, pr_sent = 0, pr_next = x\<rparr>\<rparr>)" (is "calm c ?d")
proof -
  have t: "tested ?d = tested c" using p by (simp add: tested_def)
  then have "phase_of ?d = phase_of c" by (simp add: phase_of_def)
  moreover have "client_inv ?d" using inv s a t by (auto simp: client_inv_def state_ok_def probe_ok_def)
  ultimately show ?thesis by (intro calmI) (auto simp: quiet_def used_def)
qed

lemma fallback_drawn:
  assumes "x \<le> (254 * 256 - 1 :: u64)"
  shows "\<exists>a. (add_chk 0xA9FE0100 (ucast x) :: (io_error, ipv4) outcome) = Ok a \<and> fallback_range a"
proof -
  have "unat x \<le> 65023" using assms by (simp add: word_le_nat_alt)
  moreover from this have "unat (ucast x :: u32) = unat x" by (simp add: unsigned_ucast_eq take_bit_nat_eq_self_iff)
  ultimately have "unat (ucast x :: u32) \<le> 65023" by simp
  then show ?thesis by (simp add: add_chk_def fallback_range_def word_le_nat_alt unat_word_ariths)
qed

lemma poll_fallback_keeps:
  assumes inv: "client_inv c" and s: "c_state c \<noteq> Stopped"
  shows "keeps c (poll_fallback now (c, r))"
proof (cases "c_probe c = None \<and> client_configuration c = None \<and> c_fallback_at c \<le> now")
  case True
  have probe: "keeps c (start_probe a None now (c, r))" if "fallback_range a" for a r
    by (rule holds_start_probe) (use True fallback_calm [OF inv _ s that] calm_refl [OF inv] in auto)
  have "keeps c (then_do (on_snd (sample (254 * 256 - 1)) (c, r)) (\<lambda>x cr.
      then_do (inspect (add_chk 0xA9FE0100 (ucast x)) cr) (\<lambda>address. start_probe address None now)))"
  proof (rule holds_then_do [OF holds_sample [where Q = "\<lambda>x cr. x \<le> 254 * 256 - 1 \<and> fst cr = c"]])
    fix x :: u64 and cr :: "client \<times> rng"
    assume x: "x \<le> 254 * 256 - 1 \<and> fst cr = c"
    then obtain a where "(add_chk 0xA9FE0100 (ucast x) :: (io_error, ipv4) outcome) = Ok a" "fallback_range a" using fallback_drawn by blast
    then show "keeps c (then_do (inspect (add_chk 0xA9FE0100 (ucast x)) cr) (\<lambda>address. start_probe address None now))"
      using x probe by (cases cr) (simp add: inspect_def)
  qed (simp_all add: calm_refl [OF inv])
  then show ?thesis using True by (simp add: poll_fallback_def)
qed (use calm_refl [OF inv] in \<open>auto simp: poll_fallback_def\<close>)

lemma chosen_lease:
  assumes "c_offers c \<noteq> []" and "list_all lease_wf (c_offers c)"
  obtains l where "max_by_key f (c_offers c) = Some l" and "lease_wf l"
proof -
  have "\<exists>l. max_by_key f xs = Some l" if "xs \<noteq> []" for xs :: "dhcp4_lease list"
    using that by (cases xs) (auto split: option.splits)
  then obtain l where "max_by_key f (c_offers c) = Some l" using assms(1) by blast
  then show ?thesis using assms(2) that max_by_key_Some [of f "c_offers c" l] by (auto simp: list_all_iff)
qed

lemma poll_select_keeps:
  assumes inv: "client_inv c"
  shows "keeps c (poll_select now (c, r))"
proof (cases "c_state c = Selecting \<and> c_offers c \<noteq> []")
  case True
  let ?f = "\<lambda>l. (le_expires l, NOT (le_server l))"
  obtain l where l: "max_by_key ?f (c_offers c) = Some l" "lease_wf l"
    using chosen_lease True inv unfolding client_inv_def by blast
  let ?d = "c\<lparr>c_selected := Some l, c_offers := [], c_state := Requesting, c_started := now, c_retry := 4000\<rparr>"
  have "calm c ?d"
  proof (rule calmI)
    show "client_inv ?d" using inv l(2) True by (auto simp: client_inv_def state_ok_def tested_def)
    show "phase_of c = Searching" "phase_of ?d = Asking (lease_address l)" using True by (simp_all add: phase_of_def)
  qed (auto simp: quiet_def used_def intro: life.ask)
  then show ?thesis using True l by (simp add: poll_select_def)
qed (use calm_refl [OF inv] restart_keeps [OF inv] in \<open>auto simp: poll_select_def\<close>)

lemma poll_delay_keeps:
  assumes inv: "client_inv c"
  shows "keeps c (poll_delay now (c, r))"
proof (cases "List.member [Renewing, Rebinding] (c_state c)")
  case True
  then obtain l where "c_active c = Some l" using inv by (auto simp: client_inv_def state_ok_def)
  then show ?thesis using True calm_refl [OF inv] by (simp add: poll_delay_def inspect_def Let_def)
next
  case False
  note r = inv_retry [OF inv]
  have b: "(word_sub_chk (c_retry c) 1000 :: (io_error, u64) outcome) = Ok (c_retry c - 1000)"
    using r by (simp add: word_sub_chk_def word_le_nat_alt)
  have m: "(mul_chk (c_retry c) 2 :: (io_error, u64) outcome) = Ok (c_retry c * 2)" "4000 \<le> min (c_retry c * 2) 64000" "min (c_retry c * 2) 64000 \<le> 64000"
    using r by (simp_all add: mul_chk_def word_le_nat_alt unat_word_ariths min_def)
  have j: "unat (c_retry c - 1000) + unat (2000 :: u64) < 2 ^ 64"
    using r by (simp add: unat_sub word_le_nat_alt)
  have "calm c (c\<lparr>c_retry := min (c_retry c * 2) 64000\<rparr>)"
    by (rule calm_timers [OF inv]) (use m in \<open>simp_all add: same_leases_def\<close>)
  then have "keeps c (then_do (jitter (c_retry c - 1000) 2000 (c, r)) (\<lambda>delay (c, r).
        then_do (inspect (mul_chk (c_retry c) 2) (c, r)) (\<lambda>twice (c, r). (Ok delay, c\<lparr>c_retry := min twice 64000\<rparr>, r))))"
    by (intro holds_then_do [OF holds_jitter [OF j, where Q = "\<lambda>_ cr. fst cr = c"]])
      (auto simp: inspect_def m calm_refl [OF inv])
  then show ?thesis using False b by (simp add: poll_delay_def inspect_def)
qed

lemma poll_send_keeps:
  assumes inv: "client_inv c"
  shows "keeps c (poll_send now out (c, r))"
proof (cases "now < c_next c \<or> List.member [Bound, Stopped] (c_state c)")
  case False
  have send: "keeps d (then_do (inspect (client_message (fst (d, r)) (if c_state (fst (d, r)) = Selecting then 1 else 3) now) (d, r)) (\<lambda>m cr.
        then_do (poll_delay now cr) (\<lambda>delay (c, r). (Ok (out @ [m]), c\<lparr>c_next := saturating_add now delay\<rparr>, r))))"
    if d: "client_inv d" for d r
  proof -
    obtain m where m: "client_message d (if c_state d = Selecting then 1 else 3) now = Ok m"
      using client_message_ok [of d "if c_state d = Selecting then 1 else 3" now] inv_message [OF d]
      by (cases "c_state d = Selecting") auto
    have "keeps d (then_do (poll_delay now (d, r)) (\<lambda>delay (c, r). (Ok (out @ [m]), c\<lparr>c_next := saturating_add now delay\<rparr>, r)))"
      by (rule keeps_then_do [OF poll_delay_keeps [OF d]])
        (auto intro!: calm_timers simp: same_leases_def calm_inv inv_retry)
    then show ?thesis using m by (simp add: inspect_def)
  qed
  have "keeps c (then_do (poll_select now (c, r)) (\<lambda>_ cr.
        then_do (inspect (client_message (fst cr) (if c_state (fst cr) = Selecting then 1 else 3) now) cr) (\<lambda>m cr.
        then_do (poll_delay now cr) (\<lambda>delay (c, r).
          (Ok (out @ [m]), c\<lparr>c_next := saturating_add now delay\<rparr>, r)))))"
    by (rule keeps_then_do [OF poll_select_keeps [OF inv] send [OF calm_inv]])
  then show ?thesis using False by (auto simp: poll_send_def)
qed (use calm_refl [OF inv] in \<open>auto simp: poll_send_def\<close>)

subsection \<open>Probing\<close>

text \<open>
  The log of a run is what was sent and when. \<open>probed\<close> says that \<open>k\<close> probes for an address are in
  it, a second apart, and that the time set for the next packet respects the last one; \<open>accepted\<close> that
  three probes and, two seconds later, the announcement are.
\<close>

type_synonym log = "(u64 \<times> dhcp4_output) list"

definition apart :: "u64 list \<Rightarrow> bool" where
  "apart ts = successively (\<lambda>t u. saturating_add t 1000 \<le> u) ts"

definition probed :: "bytes \<Rightarrow> ipv4 \<Rightarrow> nat \<Rightarrow> u64 \<Rightarrow> log \<Rightarrow> bool" where
  "probed mac a k soon log \<longleftrightarrow> (\<exists>ts. length ts = k \<and> apart ts \<and> subseq (map (\<lambda>t. (t, arp_announce mac 0 a)) ts) log
     \<and> (ts \<noteq> [] \<longrightarrow> saturating_add (last ts) (if k < 3 then 1000 else 2000) \<le> soon))"

definition accepted :: "bytes \<Rightarrow> ipv4 \<Rightarrow> log \<Rightarrow> bool" where
  "accepted mac a log \<longleftrightarrow> (\<exists>ts t. length ts = 3 \<and> apart ts \<and> saturating_add (last ts) 2000 \<le> t
     \<and> subseq (map (\<lambda>t. (t, arp_announce mac 0 a)) ts @ [(t, arp_announce mac a a)]) log)"

definition logged_ok :: "client \<Rightarrow> log \<Rightarrow> bool" where
  "logged_ok c log \<longleftrightarrow> (\<forall>a \<in> used c. accepted (c_mac c) a log)
     \<and> (\<forall>p. c_probe c = Some p \<longrightarrow> pr_sent p < 4 \<longrightarrow> probed (c_mac c) (pr_address p) (unat (pr_sent p)) (pr_next p) log)"

lemma probed_more: "probed mac a k soon log \<Longrightarrow> probed mac a k soon (log @ rest)"
  unfolding probed_def by (blast intro: subseq_rev_drop_many)

lemma accepted_more: "accepted mac a log \<Longrightarrow> accepted mac a (log @ rest)"
  unfolding accepted_def by (blast intro: subseq_rev_drop_many)

lemma probed_start: "probed mac a 0 soon log"
  by (simp add: probed_def apart_def)

lemma logged_quiet:
  assumes "logged_ok c log" and "quiet c c'"
  shows "logged_ok c' (log @ rest)"
proof -
  have "probed (c_mac c') (pr_address p) (unat (pr_sent p)) (pr_next p) (log @ rest)" if "c_probe c' = Some p" "pr_sent p < 4" for p
    using assms that probed_start unfolding quiet_def logged_ok_def by (metis probed_more unsigned_0)
  then show ?thesis using assms accepted_more unfolding quiet_def logged_ok_def by (metis subset_iff)
qed

lemma probed_next:
  assumes p: "probed mac a k soon log" and k: "k < 3" and now: "soon \<le> now"
    and soon: "saturating_add now (if k < 2 then 1000 else 2000) \<le> soon'"
  shows "probed mac a (Suc k) soon' (log @ [(now, arp_announce mac 0 a)])"
proof -
  obtain ts where ts: "length ts = k" "apart ts" "subseq (map (\<lambda>t. (t, arp_announce mac 0 a)) ts) log"
    "ts \<noteq> [] \<longrightarrow> saturating_add (last ts) 1000 \<le> soon" using p k unfolding probed_def by auto
  have "apart (ts @ [now])" using ts(2,4) now by (auto simp: apart_def successively_append_iff)
  moreover have "subseq (map (\<lambda>t. (t, arp_announce mac 0 a)) (ts @ [now])) (log @ [(now, arp_announce mac 0 a)])"
    using ts(3) by (simp add: list_emb_append_mono)
  ultimately show ?thesis unfolding probed_def using ts(1) soon k by (intro exI [of _ "ts @ [now]"]) (auto simp: less_Suc_eq)
qed

lemma probed_accepted:
  assumes p: "probed mac a 3 soon log" and now: "soon \<le> now"
  shows "accepted mac a (log @ [(now, arp_announce mac a a)])"
proof -
  obtain ts where ts: "length ts = 3" "apart ts" "subseq (map (\<lambda>t. (t, arp_announce mac 0 a)) ts) log"
    "saturating_add (last ts) 2000 \<le> soon" using p unfolding probed_def by auto
  moreover have "subseq (map (\<lambda>t. (t, arp_announce mac 0 a)) ts @ [(now, arp_announce mac a a)]) (log @ [(now, arp_announce mac a a)])"
    using ts(3) by (simp add: list_emb_append_mono)
  ultimately show ?thesis unfolding accepted_def using now by (intro exI [of _ ts] exI [of _ now]) auto
qed

lemma fallback_wf:
  assumes "fallback_range a"
  shows "config_wf \<lparr>cf_address = a, cf_length = 16, cf_routes = [], cf_dns = [], cf_search = []\<rparr>"
proof -
  have a: "0xA9FE0100 \<le> unat a" "unat a \<le> 0xA9FEFEFF" using assms by (simp_all add: fallback_range_def word_le_nat_alt)
  have "unat (drop_bit 24 a) = 169" using a by (simp add: drop_bit_eq_div unat_div)
  then have "drop_bit 24 a = 169" by (simp add: word_unat_eq_iff)
  then have o: "octet0 a = 169" by (simp add: octet0_def)
  have m: "shr_mask 16 = mask 16" "(mask 16 :: u32) = 65535" "unat (16 :: u8) = 16" by code_simp+
  have r: "unat (a AND shr_mask 16) = unat a mod 65536"
    unfolding m(1) take_bit_eq_mask [symmetric] by (simp add: take_bit_eq_mod unat_mod_distrib)
  have "unat a div 65536 = 43518" by (rule div_nat_eqI) (use a in simp_all)
  then have "unat a mod 65536 = unat a - 0xA9FE0000" by (simp add: modulo_nat_def)
  then have "unat (a AND shr_mask 16) \<noteq> 0" "unat (a AND shr_mask 16) \<noteq> 65535" using a unfolding r by simp_all
  then have "a AND shr_mask 16 \<noteq> 0" "a AND shr_mask 16 \<noteq> shr_mask 16" by (auto simp: m(1,2))
  then have "host_address a 16" by (simp add: host_address_def m(3))
  moreover have "a \<noteq> 0" "a \<noteq> - 1" using a by (auto simp: unsigned_minus_1_eq_mask mask_eq_exp_minus_1)
  ultimately show ?thesis
    using o by (simp add: config_wf_def unicast_def unspecified4_def broadcast4_def multicast4_def loopback4_def)
qed

definition steps :: "u64 \<Rightarrow> client \<Rightarrow> dhcp4_output list \<Rightarrow> client \<Rightarrow> bool" where
  "steps now c out c' \<longleftrightarrow> client_inv c' \<and> life\<^sup>*\<^sup>* (phase_of c) (phase_of c')
     \<and> (\<forall>log. logged_ok c log \<longrightarrow> logged_ok c' (log @ map (Pair now) out))"

lemma calm_steps: "calm c d \<Longrightarrow> steps now c out d"
  by (auto simp: calm_def steps_def logged_quiet)

lemma steps_trans: "steps now c out d \<Longrightarrow> steps now d out' e \<Longrightarrow> steps now c (out @ out') e"
  unfolding steps_def by (metis (no_types, lifting) append.assoc map_append rtranclp_trans)


lemma u8_cases5: "k \<le> 4 \<Longrightarrow> k = 0 \<or> k = 1 \<or> k = 2 \<or> k = 3 \<or> k = 4" for k :: u8
proof -
  assume "k \<le> 4"
  then have "unat k \<le> 4" by (simp add: word_le_nat_alt)
  then have "unat k = 0 \<or> unat k = 1 \<or> unat k = 2 \<or> unat k = 3 \<or> unat k = 4" by linarith
  then show ?thesis by (auto simp: word_unat_eq_iff)
qed

lemma logged_probe: "logged_ok c log \<Longrightarrow> c_probe c = Some p \<Longrightarrow> pr_sent p < 4 \<Longrightarrow>
    probed (c_mac c) (pr_address p) (unat (pr_sent p)) (pr_next p) log"
  by (simp add: logged_ok_def)

lemma logged_used: "logged_ok c log \<Longrightarrow> a \<in> used c \<Longrightarrow> accepted (c_mac c) a (log @ rest)"
  by (simp add: logged_ok_def accepted_more)

text \<open>One packet of the probe: a probe that is not the last, the announcement that begins the use of
  the address, and the second announcement.\<close>

lemma probing_steps:
  assumes inv: "client_inv c" and p: "c_probe c = Some p" "pr_sent p < 3" "pr_next p \<le> now"
    and later: "saturating_add now (if pr_sent p < 2 then 1000 else 2000) \<le> t"
  shows "steps now c [arp_announce (c_mac c) 0 (pr_address p)] (c\<lparr>c_probe := Some (p\<lparr>pr_sent := pr_sent p + 1, pr_next := t\<rparr>)\<rparr>)"
    (is "steps now c _ ?d")
proof -
  have k: "unat (pr_sent p) < 3" "unat (pr_sent p + 1) = Suc (unat (pr_sent p))"
    using p(2) by (auto simp: word_less_nat_alt unat_word_ariths)
  have t: "tested ?d = tested c" using p by (simp add: tested_def)
  have po: "probe_ok p" using inv p(1) by (simp add: client_inv_def)
  have "probe_ok (p\<lparr>pr_sent := pr_sent p + 1, pr_next := t\<rparr>)"
    using po k by (auto simp: probe_ok_def word_le_nat_alt word_less_nat_alt split: option.splits)
  then have "client_inv ?d" using inv p(1) t by (auto simp: client_inv_def state_ok_def)
  moreover have "phase_of ?d = phase_of c" using t by (simp add: phase_of_def)
  moreover have "logged_ok ?d (log @ [(now, arp_announce (c_mac c) 0 (pr_address p))])" if "logged_ok c log" for log
  proof -
    have "used ?d = used c" by (simp add: used_def)
    moreover have "probed (c_mac c) (pr_address p) (unat (pr_sent p)) (pr_next p) log"
      by (rule logged_probe [OF that p(1)]) (use k in \<open>simp add: word_less_nat_alt\<close>)
    from probed_next [OF this k(1) p(3)] have "probed (c_mac c) (pr_address p) (Suc (unat (pr_sent p))) t (log @ [(now, arp_announce (c_mac c) 0 (pr_address p))])"
      using later by (simp add: word_less_nat_alt)
    ultimately show ?thesis using logged_used [OF that] k(2) by (simp add: logged_ok_def)
  qed
  ultimately show ?thesis by (simp add: steps_def)
qed

lemma adopt_steps:
  assumes inv: "client_inv c" and p: "c_probe c = Some p" "pr_sent p = 3" "pr_next p \<le> now"
  shows "steps now c [arp_announce (c_mac c) (pr_address p) (pr_address p)] (probe_sent (p\<lparr>pr_sent := 4, pr_next := t\<rparr>) c)"
proof -
  have po: "probe_ok p" using inv p(1) by (simp add: client_inv_def)
  have log: "accepted (c_mac c) (pr_address p) (log @ [(now, arp_announce (c_mac c) (pr_address p) (pr_address p))])" if "logged_ok c log" for log
    using probed_accepted [OF _ p(3)] logged_probe [OF that p(1)] p(2) by simp
  show ?thesis
  proof (cases "pr_lease p")
    case (Some l)
    have l: "lease_wf l" "lease_address l = pr_address p" using po Some by (simp_all add: probe_ok_def)
    let ?d = "c\<lparr>c_probe := Some (p\<lparr>pr_sent := 4, pr_next := t, pr_lease := None\<rparr>), c_active := Some l, c_link_local := None, c_defended_at := None\<rparr>"
    have d: "probe_sent (p\<lparr>pr_sent := 4, pr_next := t\<rparr>) c = ?d" using Some by (simp add: probe_sent_def)
    have t: "tested c = Some l" "tested ?d = None" using p Some by (simp_all add: tested_def)
    then have st: "c_state c \<in> {Bound, Renewing, Rebinding}" using inv by (cases "c_state c") (auto simp: client_inv_def state_ok_def)
    then have "client_inv ?d" using inv l t by (auto simp: client_inv_def state_ok_def probe_ok_def)
    moreover have "phase_of c = holding (c_active c) (Some l)" "phase_of ?d = Using (lease_address l)"
      using st t by (auto simp: phase_of_def)
    then have "life\<^sup>*\<^sup>* (phase_of c) (phase_of ?d)" by (cases "c_active c") (auto intro: life.adopt life.moved)
    moreover have "used ?d = {pr_address p}" using l by (simp add: used_def)
    ultimately show ?thesis using log by (simp add: d steps_def logged_ok_def)
  next
    case None
    let ?f = "\<lparr>cf_address = pr_address p, cf_length = 16, cf_routes = [], cf_dns = [], cf_search = []\<rparr>"
    let ?d = "c\<lparr>c_probe := Some (p\<lparr>pr_sent := 4, pr_next := t\<rparr>), c_link_local := Some ?f, c_defended_at := None\<rparr>"
    have d: "probe_sent (p\<lparr>pr_sent := 4, pr_next := t\<rparr>) c = ?d" using None by (simp add: probe_sent_def)
    have t: "tested c = None" "tested ?d = None" using p None by (simp_all add: tested_def)
    have r: "fallback_range (pr_address p)" using po None p(2) by (simp add: probe_ok_def)
    have "client_inv ?d" using inv t p(1) fallback_wf [OF r] r None by (auto simp: client_inv_def state_ok_def probe_ok_def)
    moreover have "phase_of ?d = phase_of c" using t by (simp add: phase_of_def)
    moreover have "used ?d \<subseteq> insert (pr_address p) (used c)" by (auto simp: used_def)
    ultimately show ?thesis using log logged_used [of c] by (auto simp: d steps_def logged_ok_def [of ?d])
  qed
qed

lemma announced_steps:
  assumes inv: "client_inv c" and p: "c_probe c = Some p" "pr_sent p = 4"
  shows "steps now c out (probe_sent (p\<lparr>pr_sent := 5, pr_next := t\<rparr>) c)"
proof -
  have t: "tested c = None" using inv p by (auto simp: client_inv_def probe_ok_def tested_def split: option.splits)
  have d: "probe_sent (p\<lparr>pr_sent := 5, pr_next := t\<rparr>) c = c\<lparr>c_probe := None\<rparr>" by (simp add: probe_sent_def)
  have e: "tested (c\<lparr>c_probe := None\<rparr>) = None" by (simp add: tested_def)
  have "calm c (c\<lparr>c_probe := None\<rparr>)"
  proof (rule calmI)
    show "client_inv (c\<lparr>c_probe := None\<rparr>)" using inv t e by (auto simp: client_inv_def state_ok_def)
    show "phase_of (c\<lparr>c_probe := None\<rparr>) = phase_of c" using t e by (simp add: phase_of_def)
  qed (auto simp: quiet_def used_def)
  then show ?thesis unfolding d by (rule calm_steps)
qed

definition evolves :: "client \<Rightarrow> client \<Rightarrow> bool" where
  "evolves c c' \<longleftrightarrow> client_inv c' \<and> life\<^sup>*\<^sup>* (phase_of c) (phase_of c')"

lemma calm_evolves: "calm c d \<Longrightarrow> evolves c d"
  by (simp add: calm_def evolves_def)

lemma steps_evolves: "steps now c out d \<Longrightarrow> evolves c d"
  by (simp add: steps_def evolves_def)

lemma evolves_trans: "evolves c d \<Longrightarrow> evolves d e \<Longrightarrow> evolves c e"
  unfolding evolves_def by (metis rtranclp_trans)

lemma counted_evolves:
  assumes inv: "client_inv c" and p: "c_probe c = Some p" "pr_sent p < 3"
  shows "evolves c (c\<lparr>c_probe := Some (p\<lparr>pr_sent := pr_sent p + 1\<rparr>)\<rparr>)"
proof -
  have "steps (max (pr_next p) (pr_next p)) c [arp_announce (c_mac c) 0 (pr_address p)]
      (c\<lparr>c_probe := Some (p\<lparr>pr_sent := pr_sent p + 1, pr_next := - 1\<rparr>)\<rparr>)"
    by (rule probing_steps [OF inv p]) auto
  then have "evolves c (c\<lparr>c_probe := Some (p\<lparr>pr_sent := pr_sent p + 1, pr_next := - 1\<rparr>)\<rparr>)" by (rule steps_evolves)
  then show ?thesis
    by (auto simp: evolves_def client_inv_def state_ok_def probe_ok_def tested_def phase_of_def split: option.splits)
qed

lemma probe_sent_override: "probe_sent q (c\<lparr>c_probe := x\<rparr>) = probe_sent q c"
  by (simp add: probe_sent_def Let_def split: option.splits)

lemma poll_probe_ok:
  assumes inv: "client_inv c"
  shows "holds (poll_probe now (c, r)) (\<lambda>out cr. steps now c out (fst cr)) (\<lambda>cr. evolves c (fst cr))"
proof (cases "\<exists>p. c_probe c = Some p \<and> pr_next p \<le> now")
  case False
  then show ?thesis using calm_steps [OF calm_refl [OF inv], of now "[]"] by (auto simp: poll_probe_def split: option.splits)
next
  case True
  then obtain p where p: "c_probe c = Some p" "pr_next p \<le> now" by blast
  then have le: "pr_sent p \<le> 4" using inv by (auto simp: client_inv_def probe_ok_def)
  then have k: "(add_chk (pr_sent p) 1 :: (io_error, u8) outcome) = Ok (pr_sent p + 1)"
    by (simp add: add_chk_def word_le_nat_alt)
  have send: "steps now c [arp_announce (c_mac c) (if pr_sent p < 3 then 0 else pr_address p) (pr_address p)]
      (probe_sent (p\<lparr>pr_sent := pr_sent p + 1, pr_next := saturating_add now delay\<rparr>) c)"
    if "(if pr_sent p < 2 then 1000 else 2000) \<le> delay" for delay
  proof -
    have "saturating_add now (if pr_sent p < 2 then 1000 else 2000) \<le> saturating_add now delay"
      using that by (simp add: word_le_nat_alt unat_saturating_add)
    note probing = probing_steps [OF inv p(1) _ p(2) this]
    consider (early) "pr_sent p < 3" | (adopt) "pr_sent p = 3" | (final) "pr_sent p = 4" using u8_cases5 [OF le] by auto
    then show ?thesis
    proof cases
      case early
      then have "pr_sent p + 1 \<noteq> 4" "pr_sent p + 1 \<noteq> 5" by (auto simp: word_less_nat_alt word_unat_eq_iff unat_word_ariths)
      then show ?thesis using probing early by (simp add: probe_sent_def Let_def)
    next
      case adopt
      then show ?thesis using adopt_steps [OF inv p(1) _ p(2)] by simp
    next
      case final
      then show ?thesis using announced_steps [OF inv p(1)] by simp
    qed
  qed
  let ?c = "c\<lparr>c_probe := Some (p\<lparr>pr_sent := pr_sent p + 1\<rparr>)\<rparr>"
  have "holds (then_do (if pr_sent p + 1 < 3 then jitter 1000 1000 (?c, r) else (Ok 2000, ?c, r)) (\<lambda>delay (c, r).
      (Ok [arp_announce (c_mac ?c) (if pr_sent p < 3 then 0 else pr_address p) (pr_address p)],
       probe_sent (p\<lparr>pr_sent := pr_sent p + 1, pr_next := saturating_add now delay\<rparr>) c, r)))
      (\<lambda>out cr. steps now c out (fst cr)) (\<lambda>cr. evolves c (fst cr))"
  proof (cases "pr_sent p < 2")
    case early: True
    then have "pr_sent p + 1 < 3" by (simp add: word_less_nat_alt unat_word_ariths)
    moreover have "pr_sent p < 3" using early by (simp add: word_less_nat_alt)
    ultimately show ?thesis
      using early send probe_sent_override counted_evolves [OF inv p(1)]
      by (auto intro!: holds_then_do [OF holds_jitter [where Q = "\<lambda>x cr. 1000 \<le> x \<and> fst cr = ?c"]])
  next
    case late: False
    then have "\<not> pr_sent p + 1 < 3" using le by (simp add: word_less_nat_alt word_le_nat_alt unat_word_ariths)
    then show ?thesis using late send [of 2000] by (simp add: probe_sent_override)
  qed
  moreover have "\<not> now < pr_next p" using p(2) by simp
  ultimately show ?thesis using p(1) k by (simp add: poll_probe_def inspect_def Let_def)
qed

lemma transaction_state: "c_state c \<noteq> Stopped \<Longrightarrow> holds (transaction now (c, r)) (\<lambda>_ cr. c_state (fst cr) \<noteq> Stopped) (\<lambda>_. True)"
  unfolding transaction_def
  by (rule holds_then_do [OF holds_on_snd [OF fill4_no_panic, where Q = "\<lambda>_ cr. fst cr = c"]]) auto

lemma restart_state: "holds (restart now (c, r)) (\<lambda>_ cr. c_state (fst cr) \<noteq> Stopped) (\<lambda>_. True)"
  unfolding restart_def by (simp add: transaction_state)

lemma poll_states:
  assumes "c_state c \<noteq> Stopped"
  shows "holds (poll_expire now (c, r)) (\<lambda>_ cr. c_state (fst cr) \<noteq> Stopped) (\<lambda>_. True)"
    "holds (poll_renew now (c, r)) (\<lambda>_ cr. c_state (fst cr) \<noteq> Stopped) (\<lambda>_. True)"
    "holds (poll_probe_expire now (c, r)) (\<lambda>_ cr. c_state (fst cr) \<noteq> Stopped) (\<lambda>_. True)"
  using assms restart_state [of now c r] transaction_state [of _ now r]
  by (auto simp: poll_expire_def poll_renew_def poll_probe_expire_def split: option.splits)

lemma poll_send_extends: "fst (poll_send now out cr) = Ok sent \<Longrightarrow> \<exists>rest. sent = out @ rest"
  by (auto simp: poll_send_def then_do_Ok_iff split: if_splits prod.splits)

lemma poll_tail:
  assumes inv: "client_inv c"
  shows "holds (then_do (poll_probe now (c, r)) (poll_send now)) (\<lambda>out cr. steps now c out (fst cr)) (\<lambda>cr. evolves c (fst cr))"
proof (rule holds_then_do [OF poll_probe_ok [OF inv]])
  fix out and cr :: "client \<times> rng"
  assume s: "steps now c out (fst cr)"
  then have i: "client_inv (fst cr)" by (simp add: steps_def)
  have "keeps (fst cr) (poll_send now out cr)" using poll_send_keeps [OF i, of now out "snd cr"] by simp
  then show "holds (poll_send now out cr) (\<lambda>out cr. steps now c out (fst cr)) (\<lambda>cr. evolves c (fst cr))"
  proof (rule holds_Ok)
    fix sent t
    assume "poll_send now out cr = (Ok sent, t)" and t: "calm (fst cr) (fst t)"
    then obtain rest where "sent = out @ rest" using poll_send_extends [of now out cr sent] by auto
    then show "steps now c sent (fst t)" using steps_trans [OF s calm_steps [OF t]] by simp
  qed (use s in \<open>blast intro: evolves_trans steps_evolves calm_evolves\<close>)
qed

lemma dhcp4_poll_ok:
  assumes inv: "client_inv c"
  shows "holds (dhcp4_poll now (c, r)) (\<lambda>out cr. steps now c out (fst cr)) (\<lambda>cr. evolves c (fst cr))"
proof (cases "c_state c = Stopped")
  case True
  then show ?thesis using calm_steps [OF calm_refl [OF inv], of now "[]"] by (simp add: dhcp4_poll_def)
next
  case False
  let ?Q = "\<lambda>_ cr. calm c (fst cr) \<and> c_state (fst cr) \<noteq> Stopped" and ?E = "\<lambda>cr. evolves c (fst cr)"
  have go: "holds z (\<lambda>_ cr. calm c (fst cr) \<and> c_state (fst cr) \<noteq> Stopped) ?E"
    if "calm c d" "keeps d z" "holds z (\<lambda>_ cr. c_state (fst cr) \<noteq> Stopped) (\<lambda>_. True)" for d and z :: "(io_error, unit) outcome \<times> client \<times> rng"
    using holds_conj [OF that(2,3)] by (rule holds_mono) (use calm_trans [OF that(1)] calm_evolves in auto)
  have a: "holds (poll_expire now (c, r)) ?Q ?E"
    by (rule go [OF calm_refl [OF inv] poll_expire_keeps [OF inv] poll_states(1) [OF False]])
  have b: "holds (poll_renew now cr) ?Q ?E" if "calm c (fst cr) \<and> c_state (fst cr) \<noteq> Stopped" for cr
    using go [OF _ poll_renew_keeps poll_states(2)] that by (cases cr) (simp add: calm_inv)
  have d: "holds (poll_probe_expire now cr) ?Q ?E" if "calm c (fst cr) \<and> c_state (fst cr) \<noteq> Stopped" for cr
    using go [OF _ poll_probe_expire_keeps poll_states(3)] that by (cases cr) (simp add: calm_inv)
  have e: "holds (poll_fallback now cr) (\<lambda>_ cr. calm c (fst cr)) ?E" if "calm c (fst cr) \<and> c_state (fst cr) \<noteq> Stopped" for cr
    using poll_fallback_keeps [of "fst cr" now "snd cr"] that calm_inv [of c "fst cr"] calm_trans [of c "fst cr"] calm_evolves [of c]
    by (auto elim!: holds_mono)
  have f: "holds (then_do (poll_probe now cr) (poll_send now)) (\<lambda>out cr. steps now c out (fst cr)) ?E" if "calm c (fst cr)" for cr
  proof -
    have "steps now c out d" if "steps now (fst cr) out d" for out d
      using steps_trans [OF calm_steps [OF \<open>calm c (fst cr)\<close>, of now "[]"] that] by simp
    then show ?thesis
      using poll_tail [OF calm_inv [OF that], of now "snd cr"] evolves_trans [OF calm_evolves [OF that]]
      by (auto elim!: holds_mono)
  qed
  have "holds (then_do (poll_expire now (c, r)) (\<lambda>_ cr. then_do (poll_renew now cr) (\<lambda>_ cr. then_do (poll_probe_expire now cr) (\<lambda>_ cr.
        then_do (poll_fallback now cr) (\<lambda>_ cr. then_do (poll_probe now cr) (poll_send now))))))
      (\<lambda>out cr. steps now c out (fst cr)) ?E"
    by (rule holds_then_do [OF a holds_then_do [OF b holds_then_do [OF d holds_then_do [OF e f]]]])
  then show ?thesis using False by (simp add: dhcp4_poll_def)
qed


subsection \<open>Start, stop and conflicts\<close>

lemma off_calm:
  assumes inv: "client_inv c" and "same_leases (c\<lparr>c_state := Stopped, c_active := None, c_link_local := None, c_selected := None,
      c_probe := None, c_offers := []\<rparr>) d" and "c_retry d = c_retry c"
  shows "calm c d"
proof -
  let ?d = "c\<lparr>c_state := Stopped, c_active := None, c_link_local := None, c_selected := None, c_probe := None, c_offers := []\<rparr>"
  have "calm c ?d"
  proof (rule calmI [OF _ refl])
    show "client_inv ?d" using inv by (simp add: client_inv_def state_ok_def tested_def)
    show "phase_of ?d = Off" by (simp add: phase_of_def)
  qed (auto simp: quiet_def used_def intro: life.off)
  moreover from this have "calm ?d d"
    by (intro calm_timers assms(2)) (use assms(3) inv_retry [OF inv] in \<open>simp_all add: calm_inv\<close>)
  ultimately show ?thesis by (rule calm_trans)
qed

lemma dhcp4_stop_ok:
  assumes inv: "client_inv c"
  shows "holds (dhcp4_stop now c) (\<lambda>_. calm c) (\<lambda>_. False)"
proof -
  obtain out where "(if c_active c \<noteq> None then map_ok (\<lambda>x. [x]) (client_message c 7 now) else Ok []) = Ok out"
    using client_message_ok [of c 7 now] inv_message(1) [OF inv] by (cases "c_active c") auto
  then show ?thesis
    using off_calm [OF inv] by (simp add: dhcp4_stop_def inspect_def same_leases_def)
qed

lemma set_link_keeps:
  assumes inv: "client_inv c"
  shows "keeps c (set_link up now (c, r))"
proof -
  have "keeps d (then_do (wait_random now (d, r)) (\<lambda>_ (c, r). (Ok (), c\<lparr>c_fallback_at := t\<rparr>, r)))" if "client_inv d" for d r t
    by (rule keeps_then_do [OF wait_random_keeps [OF that]])
      (auto intro!: calm_timers simp: same_leases_def calm_inv inv_retry)
  then have up: "keeps c (then_do (restart now (c, r)) (\<lambda>_ cr.
        then_do (wait_random now cr) (\<lambda>_ (c, r). (Ok (), c\<lparr>c_fallback_at := saturating_add now 60000\<rparr>, r))))"
    by (intro keeps_then_do [OF restart_keeps [OF inv]]) (simp add: calm_inv)
  have down: "calm c (c\<lparr>c_state := Stopped, c_active := None, c_link_local := None, c_probe := None,
      c_selected := None, c_offers := [], c_defended_at := None\<rparr>)"
    by (rule off_calm [OF inv]) (simp_all add: same_leases_def)
  show ?thesis using up down calm_refl [OF inv] by (simp add: set_link_def)
qed

text \<open>A lease in conflict is declined and the client starts over.\<close>

lemma decline_keeps:
  assumes inv: "client_inv c" and d: "c_mac d = c_mac c" "c_link_local d = c_link_local c" "c_retry d = c_retry c"
  shows "keeps c (then_do (inspect (client_message d 4 now) (d, r)) (\<lambda>m cr.
      then_do (restart now cr) (\<lambda>_ (c, r). (Ok [m], c\<lparr>c_next := saturating_add now 10000\<rparr>, r))))"
proof -
  obtain m where m: "client_message d 4 now = Ok m"
    using client_message_ok [of d 4 now] d(1) inv_message(1) [OF inv] by auto
  have cleared: "calm c (cleared d)"
  proof (rule calmI [OF _ refl phase_cleared])
    show "client_inv (cleared d)" using inv d by (simp add: cleared_def client_inv_def state_ok_def tested_def)
    show "quiet c (cleared d)" using d by (auto simp: cleared_def quiet_def used_def)
  qed (auto intro: life.search)
  have fresh: "calm c ((fresh now x d)\<lparr>c_next := t\<rparr>)" for x t
    by (rule calm_trans [OF cleared calm_timers [OF calm_inv [OF cleared]]]) (simp_all add: same_leases_def fresh_def)
  have "keeps c (then_do (restart now (d, r)) (\<lambda>_ (c, r). (Ok [m], c\<lparr>c_next := saturating_add now 10000\<rparr>, r)))"
    by (rule holds_then_do [OF holds_mono [OF restart_ok, where F = "\<lambda>cr. calm c (fst cr)"]]) (auto simp: cleared fresh)
  then show ?thesis using m by (simp add: inspect_def)
qed

lemma give_up_keeps:
  assumes inv: "client_inv c" and s: "c_state c \<noteq> Stopped" and cand: "candidate \<longrightarrow> c_probe c \<noteq> None"
  shows "keeps c (give_up candidate now (c, r))"
proof (cases "if candidate then tested c else c_active c")
  case (Some l)
  then show ?thesis
    using decline_keeps [OF inv]
    by (cases candidate) (auto simp: give_up_def Let_def tested_def split: option.splits)
next
  case None
  let ?d = "c\<lparr>c_probe := None, c_link_local := None\<rparr>"
  have "c_active c = None \<or> candidate \<and> tested c = None" using None by (auto split: if_splits)
  have t: "tested ?d = None" by (simp add: tested_def)
  have inv': "client_inv ?d" using inv s t by (auto simp: client_inv_def state_ok_def)
  have life: "life\<^sup>*\<^sup>* (phase_of c) (phase_of ?d)"
  proof (cases "tested c")
    case (Some l)
    then have "c_active c = None" using None by (auto split: if_splits)
    moreover have "c_state c = Bound" using inv s Some calculation by (cases "c_state c") (auto simp: client_inv_def state_ok_def)
    ultimately show ?thesis using Some t by (auto simp: phase_of_def intro: life.lose)
  qed (simp add: phase_of_def t)
  have calm: "calm c ?d" by (rule calmI [OF inv' refl refl life]) (auto simp: quiet_def used_def)
  have "calm c d" if "same_leases ?d d" "c_retry d = c_retry c" for d
    by (rule calm_trans [OF calm calm_timers [OF inv' that(1)]]) (use that(2) inv_retry [OF inv] in simp_all)
  then show ?thesis
    using None by (cases candidate) (auto simp: give_up_def Let_def tested_def same_leases_def split: option.splits)
qed

lemma dhcp4_receive_arp_keeps:
  assumes inv: "client_inv c"
  shows "keeps c (dhcp4_receive_arp frame now (c, r))"
proof (cases "arp_parse frame")
  case (Ok a)
  have defend: "calm c (c\<lparr>c_defended_at := Some now\<rparr>)"
    by (rule calm_timers [OF inv]) (simp_all add: same_leases_def inv_retry [OF inv])
  have "keeps c (give_up (arp_candidate a c) now (c, r))" if "c_state c \<noteq> Stopped"
    by (rule give_up_keeps [OF inv that]) (auto simp: arp_candidate_def split: option.splits)
  then show ?thesis using Ok defend calm_refl [OF inv]
    by (cases "arp_candidate a c") (auto simp: dhcp4_receive_arp_def Let_def)
next
  case Panic
  then show ?thesis using arp_parse_ensures [of frame] by simp
qed (simp add: dhcp4_receive_arp_def calm_refl [OF inv])

end
