(* ===== verification/Dhcp4_Client_Props.thy ===== *)
theory Dhcp4_Client_Props
  imports Dhcp4_Client_Steps
begin

text \<open>
  Runs of the DHCPv4 client: the refinement of the life of an address, the probing of every address
  before it is used, expiry, and a run after which the client never asks for an address again.
\<close>

section \<open>Runs of the client\<close>

text \<open>Every call, with its time and what it returns; calls that return nothing send nothing.\<close>

inductive client_step :: "client \<Rightarrow> u64 \<Rightarrow> (io_error, dhcp4_output list) outcome \<Rightarrow> client \<Rightarrow> bool" where
  receive: "dhcp4_receive packet now (c, r) = (x, d, r') \<Longrightarrow> client_step c now (map_ok (\<lambda>_. []) x) d"
| poll: "dhcp4_poll now (c, r) = (x, d, r') \<Longrightarrow> client_step c now x d"
| arp: "dhcp4_receive_arp frame now (c, r) = (x, d, r') \<Longrightarrow> client_step c now x d"
| link: "set_link up now (c, r) = (x, d, r') \<Longrightarrow> client_step c now (map_ok (\<lambda>_. []) x) d"
| stop: "dhcp4_stop now c = (x, d) \<Longrightarrow> client_step c now x d"
| restore: "lease_wf lease \<Longrightarrow> restore lease now (c, r) = (x, d, r') \<Longrightarrow> client_step c now (map_ok (\<lambda>_. []) x) d"

definition client_call :: "client \<Rightarrow> client \<Rightarrow> bool" where
  "client_call c d \<longleftrightarrow> (\<exists>now x. client_step c now x d)"

text \<open>A run without failures of the random source, with the log of what it sent.\<close>

inductive client_run :: "client \<Rightarrow> log \<Rightarrow> client \<Rightarrow> bool" where
  start: "client_run c [] c"
| more: "client_run c0 log c \<Longrightarrow> client_step c now (Ok out) d \<Longrightarrow> client_run c0 (log @ map (Pair now) out) d"

definition client_start :: "client \<Rightarrow> bool" where
  "client_start c \<longleftrightarrow> (\<exists>mac now r r'. length mac = 6 \<and> client_new mac now r = (Ok c, r'))"

lemma client_start_fields:
  assumes "client_start c"
  shows "client_inv c" and "phase_of c = Searching" and "logged_ok c []"
proof -
  obtain mac now r r' where mac: "length mac = 6" and new: "client_new mac now r = (Ok c, r')"
    using assms by (auto simp: client_start_def)
  then obtain xid t where "c = \<lparr>c_mac = mac, c_xid = xid, c_state = Selecting, c_offers = [], c_selected = None, c_active = None,
            c_probe = None, c_next = t, c_started = now, c_retry = 4000, c_link_local = None,
            c_fallback_at = saturating_add now 60000, c_conflicts = 0, c_defended_at = None\<rparr>"
    by (auto simp: client_new_def prod.case_eq_if then_do_Ok_iff)
  then show "client_inv c" "phase_of c = Searching" "logged_ok c []"
    using mac by (simp_all add: client_inv_def state_ok_def tested_def phase_of_def logged_ok_def used_def)
qed

lemma keeps_snd: "keeps c z \<Longrightarrow> z = (x, d, r') \<Longrightarrow> x \<noteq> Panic \<and> calm c d"
  by (cases x) auto

lemma client_step_ok:
  assumes inv: "client_inv c" and step: "client_step c now x d"
  shows "x \<noteq> Panic \<and> evolves c d \<and> (\<forall>out. x = Ok out \<longrightarrow> steps now c out d)"
  using step inv
proof (induction rule: client_step.induct)
  case (poll now c r x d r')
  then show ?case using dhcp4_poll_ok [OF poll(2), of now r] by (cases x) (auto intro: steps_evolves)
next
  case (stop now c x d)
  then show ?case using dhcp4_stop_ok [OF stop(2), of now] by (cases x) (auto intro: calm_evolves calm_steps)
next
  case (receive packet now c r x d r')
  then show ?case using keeps_snd [OF dhcp4_receive_keeps [OF receive(2)] receive(1)] by (auto intro: calm_evolves calm_steps)
next
  case (arp frame now c r x d r')
  then show ?case using keeps_snd [OF dhcp4_receive_arp_keeps [OF arp(2)] arp(1)] by (auto intro: calm_evolves calm_steps)
next
  case (link up now c r x d r')
  then show ?case using keeps_snd [OF set_link_keeps [OF link(2)] link(1)] by (auto intro: calm_evolves calm_steps)
next
  case (restore lease now c r x d r')
  then show ?case using keeps_snd [OF restore_keeps [OF restore(3,1)] restore(2)] by (auto intro: calm_evolves calm_steps)
qed

interpretation client: call_refinement client_start client_call client_inv phase_of life
proof unfold_locales
  show "client_inv c" if "client_start c" for c using client_start_fields [OF that] by simp
  show "client_inv d" if "client_call c d" "client_inv c" for c d
    using that client_step_ok by (auto simp: client_call_def evolves_def)
  show "life\<^sup>*\<^sup>* (phase_of c) (phase_of d)" if "client_inv c" "client_call c d" for c d
    using that client_step_ok by (auto simp: client_call_def evolves_def)
qed

lemma client_run_logged:
  "client_run c0 log c \<Longrightarrow> client_start c0 \<Longrightarrow> client_inv c \<and> logged_ok c log"
proof (induction rule: client_run.induct)
  case (more c0 log c now out d)
  then show ?case using client_step_ok [OF _ more(2)] by (auto simp: steps_def)
qed (simp add: client_start_fields)

subsection \<open>Expiry\<close>

definition unexpired :: "u64 \<Rightarrow> dhcp4_lease option \<Rightarrow> bool" where
  "unexpired now l \<longleftrightarrow> pred_option (\<lambda>l. now < le_expires l) l"

lemma unexpired_simps [simp]: "unexpired now None" "unexpired now (Some l) \<longleftrightarrow> now < le_expires l"
  by (simp_all add: unexpired_def)

lemma on_snd_fst: "on_snd f (c, r) = (x, d, r') \<Longrightarrow> d = c"
  by (auto simp: on_snd_def split: prod.splits)

lemma jitter_fst: "jitter b s (c, r) = (Ok x, d, r') \<Longrightarrow> d = c"
  by (auto simp: jitter_def then_do_eq_Ok inspect_def dest: on_snd_fst)

lemma transaction_leases: "transaction now (c, r) = (Ok u, d, r') \<Longrightarrow> c_active d = c_active c \<and> tested d = tested c"
  by (auto simp: transaction_def then_do_eq_Ok tested_def dest!: on_snd_fst)

lemma restart_leases: "restart now (c, r) = (Ok u, d, r') \<Longrightarrow> c_active d = None \<and> tested d = None"
  by (auto simp: restart_def tested_def dest!: transaction_leases)

lemma start_probe_leases: "start_probe a l now (c, r) = (Ok u, d, r') \<Longrightarrow> c_active d = c_active c \<and> tested d = l"
  by (auto simp: start_probe_def then_do_eq_Ok tested_def dest!: on_snd_fst)

lemma poll_probe_leases:
  "poll_probe now (c, r) = (Ok out, d, r') \<Longrightarrow> c_active d = c_active c \<or> c_active d = tested c"
  by (auto simp: poll_probe_def then_do_eq_Ok inspect_def probe_sent_def Let_def tested_def
      split: option.splits if_splits dest!: jitter_fst)

lemma poll_select_leases: "poll_select now (c, r) = (Ok u, d, r') \<Longrightarrow> c_active d = c_active c \<or> c_active d = None"
  by (auto simp: poll_select_def Let_def split: if_splits dest!: restart_leases)

lemma poll_delay_leases: "poll_delay now (c, r) = (Ok x, d, r') \<Longrightarrow> c_active d = c_active c"
  by (auto simp: poll_delay_def then_do_eq_Ok inspect_def Let_def split: if_splits dest!: jitter_fst)

lemma poll_send_leases: "poll_send now out (c, r) = (Ok sent, d, r') \<Longrightarrow> c_active d = c_active c \<or> c_active d = None"
  by (auto simp: poll_send_def then_do_eq_Ok inspect_def split: if_splits dest!: poll_select_leases poll_delay_leases)

lemma poll_unexpired:
  assumes "dhcp4_poll now (c, r) = (Ok out, d, r')" and "c_state c \<noteq> Stopped"
  shows "unexpired now (c_active d)"
proof -
  obtain c1 r1 c2 r2 c3 r3 c4 r4 c5 r5 o1 where
    s1: "poll_expire now (c, r) = (Ok (), c1, r1)" and s2: "poll_renew now (c1, r1) = (Ok (), c2, r2)"
    and s3: "poll_probe_expire now (c2, r2) = (Ok (), c3, r3)" and s4: "poll_fallback now (c3, r3) = (Ok (), c4, r4)"
    and s5: "poll_probe now (c4, r4) = (Ok o1, c5, r5)" and s6: "poll_send now o1 (c5, r5) = (Ok out, d, r')"
    using assms by (auto simp: dhcp4_poll_def then_do_eq_Ok)
  have a1: "unexpired now (c_active c1)" using s1 by (auto simp: poll_expire_def split: option.splits if_splits dest!: restart_leases)
  then have a2: "unexpired now (c_active c2)" using s2 by (auto simp: poll_renew_def split: option.splits if_splits dest!: transaction_leases)
  then have a3: "unexpired now (c_active c3) \<and> unexpired now (tested c3)"
    using s3 by (auto simp: poll_probe_expire_def tested_def split: option.splits if_splits dest!: restart_leases)
  then have "unexpired now (c_active c4) \<and> unexpired now (tested c4)"
    using s4 by (auto simp: poll_fallback_def then_do_eq_Ok inspect_def split: if_splits dest!: on_snd_fst start_probe_leases)
  then have "unexpired now (c_active c5)" using poll_probe_leases [OF s5] by auto
  then show ?thesis using poll_send_leases [OF s6] by auto
qed

subsection \<open>A client that is lost\<close>

lemma lost_fields: "client_inv c \<Longrightarrow> phase_of c = Lost \<longleftrightarrow> c_state c = Bound \<and> c_active c = None \<and> tested c = None"
  by (cases "c_state c"; cases "c_selected c"; cases "c_active c"; cases "tested c")
    (auto simp: phase_of_def client_inv_def state_ok_def)

abbreviation lost :: "client \<Rightarrow> bool" where
  "lost c \<equiv> c_state c = Bound \<and> c_active c = None \<and> tested c = None"

lemma lost_receive: "lost c \<Longrightarrow> dhcp4_parse packet \<noteq> Panic \<Longrightarrow> dhcp4_receive packet now (c, r) = (Ok (), c, r)"
  by (auto simp: dhcp4_receive_def Let_def split: outcome.splits)


lemma lost_fallback: "lost c \<Longrightarrow> holds (poll_fallback now (c, r)) (\<lambda>_ cr. lost (fst cr)) (\<lambda>cr. lost (fst cr))"
proof -
  assume l: "lost c"
  have probe: "holds (start_probe a None now (c, r)) (\<lambda>_ cr. lost (fst cr)) (\<lambda>cr. lost (fst cr))" for a r
    by (rule holds_start_probe) (use l in \<open>auto simp: tested_def\<close>)
  have "holds (then_do (on_snd (sample (254 * 256 - 1)) (c, r)) (\<lambda>x cr.
      then_do (inspect (add_chk 0xA9FE0100 (ucast x)) cr) (\<lambda>address. start_probe address None now))) (\<lambda>_ cr. lost (fst cr)) (\<lambda>cr. lost (fst cr))"
  proof (rule holds_then_do [OF holds_sample [where Q = "\<lambda>x cr. x \<le> 254 * 256 - 1 \<and> fst cr = c"]])
    fix x :: u64 and cr :: "client \<times> rng"
    assume x: "x \<le> 254 * 256 - 1 \<and> fst cr = c"
    then obtain a where "(add_chk 0xA9FE0100 (ucast x) :: (io_error, ipv4) outcome) = Ok a" using fallback_drawn by blast
    then show "holds (then_do (inspect (add_chk 0xA9FE0100 (ucast x)) cr) (\<lambda>address. start_probe address None now))
        (\<lambda>_ cr. lost (fst cr)) (\<lambda>cr. lost (fst cr))"
      using x probe by (cases cr) (simp add: inspect_def)
  qed (use l in auto)
  then show ?thesis using l by (simp add: poll_fallback_def)
qed

lemma probe_sent_lost: "lost c \<Longrightarrow> pr_lease p = None \<Longrightarrow> lost (probe_sent p c)"
  by (simp add: probe_sent_def Let_def tested_def)

lemma lost_probe:
  assumes l: "lost c" and inv: "client_inv c"
  shows "holds (poll_probe now (c, r)) (\<lambda>out cr. lost (fst cr) \<and> list_all (\<lambda>o1. ou_kind o1 = Arp) out) (\<lambda>cr. lost (fst cr))"
proof (cases "\<exists>p. c_probe c = Some p \<and> pr_next p \<le> now")
  case True
  then obtain p where p: "c_probe c = Some p" "pr_next p \<le> now" by blast
  then have "pr_sent p \<le> 4" using inv by (auto simp: client_inv_def probe_ok_def)
  then have k: "(add_chk (pr_sent p) 1 :: (io_error, u8) outcome) = Ok (pr_sent p + 1)" by (simp add: add_chk_def word_le_nat_alt)
  have n: "pr_lease p = None" using l p by (simp add: tested_def)
  let ?c = "c\<lparr>c_probe := Some (p\<lparr>pr_sent := pr_sent p + 1\<rparr>)\<rparr>"
  let ?a = "arp_announce (c_mac c) (if pr_sent p < 3 then 0 else pr_address p) (pr_address p)"
  have c: "lost ?c" using l n by (simp add: tested_def)
  have first: "holds (if pr_sent p + 1 < 3 then jitter 1000 1000 (?c, r) else (Ok 2000, ?c, r)) (\<lambda>_ cr. lost (fst cr)) (\<lambda>cr. lost (fst cr))"
    using c by (simp add: holds_jitter)
  have "holds (then_do (if pr_sent p + 1 < 3 then jitter 1000 1000 (?c, r) else (Ok 2000, ?c, r)) (\<lambda>delay (c, r).
      (Ok [?a], probe_sent (p\<lparr>pr_sent := pr_sent p + 1, pr_next := saturating_add now delay\<rparr>) c, r)))
      (\<lambda>out cr. lost (fst cr) \<and> list_all (\<lambda>o1. ou_kind o1 = Arp) out) (\<lambda>cr. lost (fst cr))"
    by (rule holds_then_do [OF first]) (use n probe_sent_lost in \<open>auto simp: arp_announce_def\<close>)
  moreover have "\<not> now < pr_next p" using p(2) by simp
  ultimately show ?thesis using p(1) k by (simp add: poll_probe_def inspect_def Let_def)
qed (use l in \<open>auto simp: poll_probe_def split: option.splits\<close>)

lemma lost_poll:
  assumes l: "lost c" and inv: "client_inv c"
  shows "holds (dhcp4_poll now (c, r)) (\<lambda>out cr. lost (fst cr) \<and> list_all (\<lambda>o1. ou_kind o1 = Arp) out) (\<lambda>cr. lost (fst cr))"
proof -
  have e: "poll_expire now (c, r) = (Ok (), c, r)" "poll_renew now (c, r) = (Ok (), c, r)" "poll_probe_expire now (c, r) = (Ok (), c, r)"
    using l by (auto simp: poll_expire_def poll_renew_def poll_probe_expire_def tested_def split: option.splits)
  have s: "poll_send now out cr = (Ok out, cr)" if "lost (fst cr)" for out cr
    using that by (simp add: poll_send_def)
  have "holds (poll_fallback now (c, r)) (\<lambda>_ cr. lost (fst cr) \<and> client_inv (fst cr)) (\<lambda>cr. lost (fst cr))"
    by (rule holds_mono [OF holds_conj [OF lost_fallback [OF l] poll_fallback_keeps [OF inv]]]) (use l in \<open>auto simp: calm_def\<close>)
  then have "holds (then_do (poll_fallback now (c, r)) (\<lambda>_ cr. then_do (poll_probe now cr) (poll_send now)))
      (\<lambda>out cr. lost (fst cr) \<and> list_all (\<lambda>o1. ou_kind o1 = Arp) out) (\<lambda>cr. lost (fst cr))"
  proof (rule holds_then_do)
    fix x and cr :: "client \<times> rng"
    assume "lost (fst cr) \<and> client_inv (fst cr)"
    then have "holds (poll_probe now cr) (\<lambda>out cr. lost (fst cr) \<and> list_all (\<lambda>o1. ou_kind o1 = Arp) out) (\<lambda>cr. lost (fst cr))"
      using lost_probe [of "fst cr" now "snd cr"] by simp
    then show "holds (then_do (poll_probe now cr) (poll_send now)) (\<lambda>out cr. lost (fst cr) \<and> list_all (\<lambda>o1. ou_kind o1 = Arp) out) (\<lambda>cr. lost (fst cr))"
      by (rule holds_then_do) (simp add: s)
  qed
  then show ?thesis using l by (simp add: dhcp4_poll_def e)
qed

lemma lost_receive_arp:
  assumes l: "lost c" and n: "arp_parse frame \<noteq> Panic"
  shows "holds (dhcp4_receive_arp frame now (c, r)) (\<lambda>out cr. lost (fst cr) \<and> list_all (\<lambda>o1. ou_kind o1 = Arp) out) (\<lambda>cr. lost (fst cr))"
proof -
  have "holds (give_up candidate now (c, r)) (\<lambda>out cr. lost (fst cr) \<and> list_all (\<lambda>o1. ou_kind o1 = Arp) out) (\<lambda>cr. lost (fst cr))" for candidate
    using l by (cases candidate) (auto simp: give_up_def Let_def tested_def split: option.splits)
  moreover have "lost (c\<lparr>c_defended_at := Some now\<rparr>)" using l by (simp add: tested_def)
  ultimately show ?thesis using l n by (auto simp: dhcp4_receive_arp_def Let_def arp_announce_def split: outcome.splits)
qed

section \<open>A run that ends with the client lost\<close>

lemma no_fill [simp]: "on_snd fill4 (c, []) = (Ok [0, 0, 0, 0], c, [])"
proof -
  have "take 4 (rev (to_be 8 (0 :: u64))) = [0, 0, 0, 0]" by code_simp
  then show ?thesis by (simp add: on_snd_def fill4_def)
qed

lemma no_sample [simp]: "mx \<noteq> - 1 \<Longrightarrow> on_snd (sample mx) (c, []) = (Ok 0, c, [])"
  by (simp add: on_snd_def sample_def Let_def)

lemma no_jitter [simp]: "mx \<noteq> - 1 \<Longrightarrow> jitter base mx (c, []) = (Ok base, c, [])"
  using unsigned_less [of base] by (simp add: jitter_def inspect_def add_chk_def)

definition message_sent :: "client \<Rightarrow> u8 \<Rightarrow> u64 \<Rightarrow> dhcp4_output" where
  "message_sent c kind now = (case client_message c kind now of Ok m \<Rightarrow> m | _ \<Rightarrow> \<lparr>ou_kind = Arp, ou_packet = []\<rparr>)"

lemma client_message_sent:
  "length (c_mac c) = 6 \<Longrightarrow> kind \<noteq> 7 \<Longrightarrow> c_state c \<noteq> Renewing \<Longrightarrow> client_message c kind now = Ok (message_sent c kind now)"
  using client_message_ok [of c kind now] by (auto simp: message_sent_def)

definition boot :: client where
  "boot = \<lparr>c_mac = client_mac, c_xid = 0, c_state = Selecting, c_offers = [], c_selected = None, c_active = None, c_probe = None,
     c_next = 1000, c_started = 0, c_retry = 4000, c_link_local = None, c_fallback_at = 60000, c_conflicts = 0, c_defended_at = None\<rparr>"

lemma boot_new: "client_new client_mac 0 [] = (Ok boot, [])"
  by (simp add: client_new_def boot_def from_be_def saturating_add_def)

definition fallback_probe :: "u8 \<Rightarrow> u64 \<Rightarrow> acd_probe" where
  "fallback_probe k soon = \<lparr>pr_address = 0xA9FE0100, pr_lease = None, pr_sent = k, pr_next = soon\<rparr>"

definition fallback :: configuration where
  "fallback = \<lparr>cf_address = 0xA9FE0100, cf_length = 16, cf_routes = [], cf_dns = [], cf_search = []\<rparr>"

lemmas poll_defs = dhcp4_poll_def poll_expire_def poll_renew_def poll_probe_expire_def poll_fallback_def poll_probe_def poll_send_def
  poll_select_def poll_delay_def start_probe_def probe_sent_def client_message_sent client_configuration_def inspect_def

lemma boot_mac [simp]: "c_mac boot = client_mac" "length client_mac = 6" by (simp_all add: boot_def client_mac_def)

lemmas timing_defs = fallback_probe_def fallback_def Let_def saturating_add_def add_chk_def word_sub_chk_def mul_chk_def

text \<open>The search goes unanswered for a minute, and the client takes a link-local address.\<close>

abbreviation "boot1 \<equiv> boot\<lparr>c_probe := Some (fallback_probe 1 61000), c_next := 63000, c_retry := 8000\<rparr>"
abbreviation "boot2 \<equiv> boot\<lparr>c_probe := Some (fallback_probe 2 62000), c_next := 63000, c_retry := 8000\<rparr>"
abbreviation "boot3 \<equiv> boot\<lparr>c_probe := Some (fallback_probe 3 64000), c_next := 63000, c_retry := 8000\<rparr>"
abbreviation "boot4 \<equiv> boot\<lparr>c_probe := Some (fallback_probe 4 66000), c_link_local := Some fallback, c_next := 71000, c_retry := 16000\<rparr>"

lemma poll_boot:
  "\<exists>x. dhcp4_poll 60000 (boot, []) = (Ok x, boot1, [])" "\<exists>x. dhcp4_poll 61000 (boot1, []) = (Ok x, boot2, [])"
  "\<exists>x. dhcp4_poll 62000 (boot2, []) = (Ok x, boot3, [])" "\<exists>x. dhcp4_poll 64000 (boot3, []) = (Ok x, boot4, [])"
  by (simp_all add: boot_def poll_defs timing_defs)

text \<open>Then a server offers an address, which the client asks for and is granted.\<close>

definition offered :: client where
  "offered = boot\<lparr>c_probe := Some (fallback_probe 4 66000), c_link_local := Some fallback, c_next := 65500, c_retry := 16000, c_offers := [lease0 64500]\<rparr>"

definition requested :: client where
  "requested = boot\<lparr>c_link_local := Some fallback, c_state := Requesting, c_selected := Some (lease0 64500), c_started := 66000,
     c_next := 69000, c_retry := 8000\<rparr>"

definition granted :: client where
  "granted = boot\<lparr>c_link_local := Some fallback, c_state := Bound, c_started := 66000, c_next := 69000, c_retry := 8000,
     c_probe := Some \<lparr>pr_address = 0xC0A80132, pr_lease = Some (lease0 66500), pr_sent = 0, pr_next = 66500\<rparr>\<rparr>"

lemma receive_offered: "dhcp4_receive (reply0 2) 64500 (boot4, []) = (Ok (), offered, [])"
proof -
  obtain m where m: "dhcp4_parse (reply0 2) = Ok m" "dm_kind m = 2" "dm_xid m = 0" "dm_mac m = client_mac" "dm_address m = 0xC0A80132"
    "dm_server m = 0xC0A80101" "\<And>c. bt_get (dm_options m) c = map_of (options0 2) c"
    using reply0_parsed [of 2] by auto
  then show ?thesis
    using lease0_read [OF m(5-7), of 64500]
    by (simp add: dhcp4_receive_def receive_offer_def on_fst_def offered_def boot_def saturating_add_def)
qed

lemma poll_requested: "\<exists>x. dhcp4_poll 66000 (offered, []) = (Ok x, requested, [])"
  by (simp add: offered_def requested_def boot_def poll_defs timing_defs)


lemma lease0_renewed:
  assumes "dm_address m = 0xC0A80132" "dm_server m = 0xC0A80101" "\<And>c. bt_get (dm_options m) c = map_of (options0 kind) c"
  shows "message_lease m now (Some (lease0 t)) = Ok (lease0 now)"
proof -
  have "bt_get (dm_options m) 1 = Some [255, 255, 255, 0]" by (simp add: assms options0_def)
  then have l: "lease_length m (Some (lease0 t)) = lease_length m None" by (simp add: lease_length_def)
  have r: "lease_routes m (Some (lease0 t)) = lease_routes m None" "lease_dns m (Some (lease0 t)) = lease_dns m None"
    "lease_search m (Some (lease0 t)) = lease_search m None"
    by (simp_all add: lease_routes_def lease_dns_def lease_search_def lease0_def split: option.split)
  show ?thesis using lease0_read [OF assms, of now] unfolding message_lease_def l r .
qed

lemma receive_granted: "dhcp4_receive (reply0 5) 66500 (requested, []) = (Ok (), granted, [])"
proof -
  obtain m where m: "dhcp4_parse (reply0 5) = Ok m" "dm_kind m = 5" "dm_xid m = 0" "dm_mac m = client_mac" "dm_address m = 0xC0A80132"
    "dm_server m = 0xC0A80101" "\<And>c. bt_get (dm_options m) c = map_of (options0 5) c"
    using reply0_parsed [of 5] by auto
  have "le_server (lease0 t) = 0xC0A80101" "cf_address (le_config (lease0 t)) = 0xC0A80132" for t by (simp_all add: lease0_def)
  then show ?thesis
    using m(1-4,6) lease0_renewed [OF m(5-7), of 66500 64500]
    by (simp add: dhcp4_receive_def receive_ack_def same_address_def start_probe_def requested_def granted_def boot_def saturating_add_def)
qed

text \<open>Another host claims the link-local address, and claims it again after the client has defended it.\<close>

definition rival :: bytes where
  "rival = arp_encode \<lparr>a_operation = 2, a_sender_mac = [2, 0, 0, 0, 0, 9], a_sender = 0xA9FE0100, a_target_mac = client_mac, a_target = 0xA9FE0100\<rparr> client_mac"

lemma rival_parsed: "arp_parse rival = Ok \<lparr>a_operation = 2, a_sender_mac = [2, 0, 0, 0, 0, 9], a_sender = 0xA9FE0100, a_target_mac = client_mac, a_target = 0xA9FE0100\<rparr>"
  unfolding rival_def by (rule arp_encode_parse) code_simp

definition forgotten :: client where
  "forgotten = boot\<lparr>c_state := Bound, c_started := 66000, c_next := 69000, c_retry := 8000, c_conflicts := 1, c_fallback_at := 67000\<rparr>"

lemma arp_forgotten:
  "\<exists>x. dhcp4_receive_arp rival 66600 (granted, []) = (Ok x, granted\<lparr>c_defended_at := Some 66600\<rparr>, [])"
  "\<exists>x. dhcp4_receive_arp rival 67000 (granted\<lparr>c_defended_at := Some 66600\<rparr>, []) = (Ok x, forgotten, [])"
  by (simp_all add: dhcp4_receive_arp_def rival_parsed Let_def arp_candidate_def arp_active_def client_configuration_def may_defend_def
      give_up_def granted_def forgotten_def boot_def fallback_def client_mac_def saturating_add_def unspecified4_def
      word_le_nat_alt)

lemma boot_start: "client_start boot"
  unfolding client_start_def using boot_new boot_mac(2) by blast

lemma run_poll: "\<exists>log. client_run c0 log c \<Longrightarrow> \<exists>x. dhcp4_poll now (c, r) = (Ok x, d, r') \<Longrightarrow> \<exists>log. client_run c0 log d"
  by (blast intro: client_run.more client_step.poll)

lemma reach_fallback: "\<exists>log. client_run boot log boot4"
proof -
  have "\<exists>log. client_run boot log boot" using client_run.start by blast
  from run_poll [OF run_poll [OF run_poll [OF run_poll [OF this poll_boot(1)] poll_boot(2)] poll_boot(3)] poll_boot(4)]
  show ?thesis .
qed

lemma client_run_calls: "client_run c log d \<Longrightarrow> client_call\<^sup>*\<^sup>* c d"
  by (induction rule: client_run.induct) (auto simp: client_call_def intro: rtranclp.rtrancl_into_rtrancl)

lemma client_callI: "client_step c now x d \<Longrightarrow> client_call c d"
  by (auto simp: client_call_def)

lemma reach_granted: "client_call\<^sup>*\<^sup>* boot granted"
proof -
  have "client_call\<^sup>*\<^sup>* boot boot4" using reach_fallback client_run_calls by blast
  moreover have "client_call boot4 offered" using client_callI client_step.receive [OF receive_offered] by blast
  moreover have "client_call offered requested" using poll_requested client_callI client_step.poll by blast
  moreover have "client_call requested granted" using client_callI client_step.receive [OF receive_granted] by blast
  ultimately show ?thesis by (meson rtranclp.rtrancl_into_rtrancl)
qed

lemma reach_forgotten: "client_call\<^sup>*\<^sup>* granted forgotten"
proof -
  have "client_call granted (granted\<lparr>c_defended_at := Some 66600\<rparr>)" "client_call (granted\<lparr>c_defended_at := Some 66600\<rparr>) forgotten"
    using arp_forgotten client_callI client_step.arp by blast+
  then show ?thesis by (meson r_into_rtranclp rtranclp.rtrancl_into_rtrancl)
qed

lemma scenario_phases: "phase_of granted = Testing 0xC0A80132" "phase_of forgotten = Lost"
  by (simp_all add: phase_of_def granted_def forgotten_def boot_def tested_def lease_address_def lease0_def)

text \<open>The calls that leave the link alone: a packet, a tick of the clock, an ARP frame.\<close>

inductive client_heard :: "client \<Rightarrow> (io_error, dhcp4_output list) outcome \<Rightarrow> client \<Rightarrow> bool" where
  packet: "dhcp4_receive packet now (c, r) = (x, d, r') \<Longrightarrow> client_heard c (map_ok (\<lambda>_. []) x) d"
| tick: "dhcp4_poll now (c, r) = (x, d, r') \<Longrightarrow> client_heard c x d"
| frame: "dhcp4_receive_arp frame now (c, r) = (x, d, r') \<Longrightarrow> client_heard c x d"

lemma heard_call: "client_heard c x d \<Longrightarrow> client_call c d"
  by (auto simp: client_call_def elim!: client_heard.cases intro: client_step.intros)

lemma heard_lost:
  assumes "client_heard c x d" and "client_inv c" and "lost c"
  shows "lost d \<and> (\<forall>out. x = Ok out \<longrightarrow> list_all (\<lambda>o1. ou_kind o1 = Arp) out)"
  using assms
proof (induction rule: client_heard.induct)
  case (packet packet now c r x d r')
  then show ?case using lost_receive [OF packet(3), of packet now r] dhcp4_parse_ensures [of packet]
    by (cases "dhcp4_parse packet") auto
next
  case (tick now c r x d r')
  then show ?case using lost_poll [OF tick(3,2), of now r] by (cases x) auto
next
  case (frame frame now c r x d r')
  then show ?case using lost_receive_arp [OF frame(3), of frame now r] arp_parse_ensures [of frame]
    by (cases x; cases "arp_parse frame") auto
qed

lemma heard_run_lost: "(\<lambda>c d. \<exists>x. client_heard c x d)\<^sup>*\<^sup>* c d \<Longrightarrow> client_inv c \<Longrightarrow> lost c \<Longrightarrow> client_inv d \<and> lost d"
proof (induction rule: rtranclp_induct)
  case (step d e)
  then show ?case using heard_lost client.call_inv heard_call by blast
qed simp

section \<open>Properties\<close>



text \<open>
  C6: No address is used that was not probed. When a client reports an address, leased or link-local,
  the packets it sent contain three ARP probes for that address, each at least a second after the
  one before, and at least two seconds after the last of them the announcement.
\<close>

theorem dhcp4_address_probed:
  assumes "client_start c0" and "client_run c0 log c" and "client_configuration c = Some f"
  shows "accepted (c_mac c) (cf_address f) log"
proof -
  have "cf_address f \<in> used c"
    using assms(3) by (auto simp: client_configuration_def used_def lease_address_def split: option.splits)
  then show ?thesis using client_run_logged [OF assms(2,1)] by (simp add: logged_ok_def)
qed

theorem dhcp4_address_probed_witness:
  "\<exists>log. client_run boot log boot4 \<and> client_configuration boot4 = Some fallback \<and> accepted client_mac 0xA9FE0100 log"
proof -
  obtain log where log: "client_run boot log boot4" using reach_fallback ..
  have f: "client_configuration boot4 = Some fallback" by (simp add: client_configuration_def boot_def)
  from dhcp4_address_probed [OF boot_start log f] show ?thesis using log f by (auto simp: fallback_def)
qed

text \<open>
  C7: No call of a client that was reached by any calls panics, whatever it is given; the client
  keeps at most eight offers, one for each server, and the configuration it reports is well formed:
  a unicast host address of its own network and gateways on the link.
\<close>

theorem dhcp4_client_never_panics:
  assumes "client_start c0" and "client_call\<^sup>*\<^sup>* c0 c" and "client_step c now x d"
  shows "x \<noteq> Panic \<and> length (c_offers d) \<le> 8 \<and> distinct (map le_server (c_offers d)) \<and> pred_option config_wf (client_configuration d)"
proof -
  have "x \<noteq> Panic" "client_inv d" using client_step_ok [OF client.reachable_inv [OF assms(1,2)] assms(3)] by (auto simp: evolves_def)
  then show ?thesis by (auto simp: client_inv_def client_configuration_def lease_wf_def option.pred_set split: option.splits)
qed

theorem dhcp4_client_never_panics_witness:
  "client_step boot4 64500 (Ok []) offered \<and> length (c_offers offered) = 1 \<and> pred_option config_wf (client_configuration offered)"
proof -
  have s: "client_step boot4 64500 (Ok []) offered" using client_step.receive [OF receive_offered] by simp
  have r: "client_call\<^sup>*\<^sup>* boot boot4" using reach_fallback client_run_calls by blast
  from dhcp4_client_never_panics [OF boot_start r s] s show ?thesis by (simp add: offered_def)
qed

text \<open>
  C8: A lease is not used after it has expired. When a poll of a running client returns, the lease in
  use, if there is one, expires later than the time of the poll.
\<close>

theorem dhcp4_no_use_after_expiry:
  assumes "dhcp4_poll now (c, r) = (Ok out, d, r')" and "c_state c \<noteq> Stopped"
  shows "pred_option (\<lambda>l. now < le_expires l) (c_active d)"
  using poll_unexpired [OF assms] by (simp add: unexpired_def)

definition expiring :: client where
  "expiring = boot\<lparr>c_state := Rebinding, c_active := Some (lease0 0), c_next := 3600000\<rparr>"

theorem dhcp4_no_use_after_expiry_witness:
  "\<exists>out d. dhcp4_poll 3600000 (expiring, []) = (Ok out, d, []) \<and> c_active expiring = Some (lease0 0) \<and> c_active d = None
     \<and> pred_option (\<lambda>l. 3600000 < le_expires l) (c_active d)"
proof -
  have e: "le_expires (lease0 0) = 3600000" by (simp add: lease0_def lease_deadline_def saturating_add_def)
  have "\<exists>out d. dhcp4_poll 3600000 (expiring, []) = (Ok out, d, []) \<and> c_active d = None"
    by (simp add: expiring_def boot_def poll_defs timing_defs restart_def transaction_def e)
  then obtain out d where d: "dhcp4_poll 3600000 (expiring, []) = (Ok out, d, [])" "c_active d = None" by blast
  have "c_state expiring \<noteq> Stopped" "c_active expiring = Some (lease0 0)" by (simp_all add: expiring_def boot_def)
  with dhcp4_no_use_after_expiry [OF d(1)] d show ?thesis by blast
qed

text \<open>
  C9: A client that is lost stays lost. A client that was granted a lease and had to give up its
  link-local address before the lease was tested forgets the lease but stays in the bound state; from
  there no packet from a server, no ARP frame and no passage of time makes it ask for an address again,
  and all it sends is ARP.
\<close>

theorem dhcp4_lost_forever:
  assumes "client_start c0" and "client_call\<^sup>*\<^sup>* c0 c" and "phase_of c = Lost" and "(\<lambda>c d. \<exists>x. client_heard c x d)\<^sup>*\<^sup>* c d"
    and "client_heard d (Ok out) e"
  shows "phase_of e = Lost \<and> list_all (\<lambda>o1. ou_kind o1 = Arp) out"
proof -
  have c: "client_inv c" by (rule client.reachable_inv [OF assms(1,2)])
  then have d: "client_inv d" "lost d" using heard_run_lost [OF assms(4)] assms(3) lost_fields by blast+
  then have "client_inv e" using client.call_inv heard_call [OF assms(5)] by blast
  with heard_lost [OF assms(5) d] show ?thesis using lost_fields by blast
qed

theorem dhcp4_lost_forever_witness:
  "client_start boot \<and> client_call\<^sup>*\<^sup>* boot forgotten
     \<and> (\<exists>out e. client_heard forgotten (Ok out) e \<and> phase_of e = Lost \<and> list_all (\<lambda>o1. ou_kind o1 = Arp) out)"
proof -
  have r: "client_call\<^sup>*\<^sup>* boot forgotten" using reach_granted reach_forgotten by (rule rtranclp_trans)
  have "\<exists>out e. dhcp4_poll 70000 (forgotten, []) = (Ok out, e, [])"
    by (simp add: forgotten_def boot_def poll_defs timing_defs)
  then obtain out e where "client_heard forgotten (Ok out) e" using client_heard.tick by blast
  with dhcp4_lost_forever [OF boot_start r scenario_phases(2) rtranclp.rtrancl_refl] show ?thesis using boot_start r by blast
qed

end
