(* ===== verification/Dns_Wire.thy ===== *)
theory Dns_Wire
  imports BTree_Map "HOL-Library.List_Lexorder"
begin

text \<open>
  The DNS wire format (\<open>dns/wire.rs\<close>): names, questions and records, the message parser with its
  limits on records and work, and the encoder with the compression dictionary of multicast DNS.
\<close>

section \<open>Definitions\<close>

abbreviation "MAX_WIRE \<equiv> 65535 :: nat"
abbreviation "MAX_RECORDS \<equiv> 4096 :: nat"
abbreviation "MAX_WORK \<equiv> 262144 :: nat"

subsection \<open>Names\<close>

text \<open>The labels as they were written, and the octets that equality, order and hashing look at.\<close>

record name =
  n_labels :: "bytes list"
  n_canonical :: bytes

definition ascii_lower :: "u8 \<Rightarrow> u8" where
  "ascii_lower c = (if 65 \<le> c \<and> c \<le> 90 then c + 32 else c)"

definition from_labels :: "bytes list \<Rightarrow> (io_error, name) outcome" where
  "from_labels labels =
     (if list_ex (\<lambda>l. l = [] \<or> 63 < length l) labels \<or> 255 < 1 + sum_list (map (\<lambda>l. length l + 1) labels) then Err InvalidData
      else Ok \<lparr>n_labels = labels,
               n_canonical = concat (map (\<lambda>l. of_nat (length l) # map ascii_lower l) labels) @ [0]\<rparr>)"

definition name_root :: name where
  "name_root = \<lparr>n_labels = [], n_canonical = [0]\<rparr>"

definition name_write :: "name \<Rightarrow> bytes" where
  "name_write n = concat (map (\<lambda>l. of_nat (length l) # l) (n_labels n)) @ [0]"

definition name_eq :: "name \<Rightarrow> name \<Rightarrow> bool" where
  "name_eq a b \<longleftrightarrow> n_canonical a = n_canonical b"

definition name_less_eq :: "name \<Rightarrow> name \<Rightarrow> bool" where
  "name_less_eq a b \<longleftrightarrow> n_canonical a \<le> n_canonical b"

text \<open>\<open>s.trim_end_matches('.')\<close> on the octets of a string.\<close>

definition trim_end_dots :: "bytes \<Rightarrow> bytes" where
  "trim_end_dots s = rev (dropWhile (\<lambda>c. c = 46) (rev s))"

definition name_from_str :: "bytes \<Rightarrow> (io_error, name) outcome" where
  "name_from_str s = (if s = [46] then Ok name_root else from_labels (split_dots (trim_end_dots s)))"

subsection \<open>Messages\<close>

datatype dns_context = UnicastDns | Mdns

record question =
  q_name :: name
  q_kind :: u16
  q_class :: u16

datatype rdata =
    REmpty
  | RA bytes
  | RAaaa bytes
  | RName name
  | RSrv u16 u16 u16 name
  | RTxt "bytes list"
  | RPreference u16 name
  | RTwoNames name name
  | RPx u16 name name
  | RSoa name name u32 u32 u32 u32 u32
  | RKey u16 u8 u8 bytes
  | RSig u16 u8 u8 u32 u32 u32 u16 name bytes
  | ROpt "(u16 \<times> bytes) list"
  | RNsec name bytes
  | RSvcb u16 name "(u16 \<times> bytes) list"
  | RBytes bytes
  | ROpaque bytes

record dns_record =
  rr_name :: name
  rr_kind :: u16
  rr_class :: u16
  rr_ttl :: u32
  rr_data :: rdata

record record_span =
  sp_wire :: "nat \<times> nat"
  sp_ttl :: nat
  sp_rdata :: "nat \<times> nat"

record dns_message =
  m_id :: u16
  m_flags :: u16
  m_questions :: "question list"
  m_answers :: "dns_record list"
  m_authority :: "dns_record list"
  m_additional :: "dns_record list"
  m_original :: bytes
  m_spans :: "record_span list"

definition message_new :: "u16 \<Rightarrow> u16 \<Rightarrow> dns_message" where
  "message_new i flags = \<lparr>m_id = i, m_flags = flags, m_questions = [], m_answers = [], m_authority = [],
     m_additional = [], m_original = [], m_spans = []\<rparr>"

subsection \<open>The parser\<close>

text \<open>The parser's state with the cursor \<open>at\<close>; the message and the end of the field are arguments.\<close>

record parser =
  ps_known :: "bool list"
  ps_work :: nat
  ps_at :: nat

type_synonym 'a reader = "parser \<Rightarrow> (io_error, 'a \<times> parser) outcome"

definition p_return :: "'a \<Rightarrow> 'a reader" where
  "p_return x s = Ok (x, s)"

definition p_then :: "'a reader \<Rightarrow> ('a \<Rightarrow> 'b reader) \<Rightarrow> 'b reader" where
  "p_then m f s = and_then (m s) (\<lambda>(x, s). f x s)"

definition p_lift :: "(io_error, 'a) outcome \<Rightarrow> 'a reader" where
  "p_lift r s = map_ok (\<lambda>x. (x, s)) r"

definition get_range :: "bytes \<Rightarrow> nat \<Rightarrow> nat \<Rightarrow> bytes option" where
  "get_range b i j = (if i \<le> j \<and> j \<le> length b then Some (take (j - i) (drop i b)) else None)"

definition get_octet :: "bytes \<Rightarrow> nat \<Rightarrow> (io_error, u8) outcome" where
  "get_octet b at = ok_or InvalidData (if at < length b then Some (b ! at) else None)"

definition be_array :: "nat \<Rightarrow> bytes \<Rightarrow> (io_error, 'a::len word) outcome" where
  "be_array n l = (if length l = n then Ok (from_be l) else Panic)"

definition u16at :: "bytes \<Rightarrow> nat \<Rightarrow> (io_error, u16) outcome" where
  "u16at b at = and_then (ok_or InvalidData (get_range b at (at + 2))) (be_array 2)"

definition take_at :: "bytes \<Rightarrow> nat \<Rightarrow> nat \<Rightarrow> nat \<Rightarrow> (io_error, bytes \<times> nat) outcome" where
  "take_at b at fin n =
     (if fin < at + n then Err InvalidData
      else map_ok (\<lambda>l. (l, at + n)) (ok_or InvalidData (get_range b at (at + n))))"

definition p_take :: "bytes \<Rightarrow> nat \<Rightarrow> nat \<Rightarrow> bytes reader" where
  "p_take b fin n s = map_ok (\<lambda>(l, at). (l, s\<lparr>ps_at := at\<rparr>)) (take_at b (ps_at s) fin n)"

definition p_u8 :: "bytes \<Rightarrow> nat \<Rightarrow> u8 reader" where
  "p_u8 b fin = p_then (p_take b fin 1) (\<lambda>l. p_lift (idx l 0))"

definition p_u16 :: "bytes \<Rightarrow> nat \<Rightarrow> u16 reader" where
  "p_u16 b fin = p_then (p_take b fin 2) (\<lambda>l. p_lift (be_array 2 l))"

definition p_u32 :: "bytes \<Rightarrow> nat \<Rightarrow> u32 reader" where
  "p_u32 b fin = p_then (p_take b fin 4) (\<lambda>l. p_lift (be_array 4 l))"

text \<open>\<open>self.take(at, end, end - *at)\<close>.\<close>

definition p_rest :: "bytes \<Rightarrow> nat \<Rightarrow> bytes reader" where
  "p_rest b fin s = and_then (sub_chk fin (ps_at s)) (\<lambda>n. p_take b fin n s)"

text \<open>The loop of \<open>Parser::name\<close>; the count of work ends it.\<close>

record name_walk =
  w_pos :: nat
  w_limit :: nat
  w_consumed :: "nat option"
  w_labels :: "bytes list"
  w_positions :: "nat list"
  w_length :: nat
  w_hops :: nat

function walk_name :: "bytes \<Rightarrow> bool \<Rightarrow> bool list \<Rightarrow> nat \<Rightarrow> name_walk \<Rightarrow> (io_error, nat \<times> name_walk) outcome" where
  "walk_name b compressed known work w =
     (let work = work + 1; offset = w_pos w in
      if MAX_WORK < work then Err InvalidData
      else and_then (take_at b offset (w_limit w) 1) (\<lambda>(l, pos). and_then (idx l 0) (\<lambda>c.
        if c = 0 then Ok (work, w\<lparr>w_pos := pos, w_positions := w_positions w @ [offset]\<rparr>)
        else if c \<le> 63 then
          and_then (take_at b pos (w_limit w) (unat c)) (\<lambda>(l, pos).
          let n = w_length w + 1 + length l in
          if 255 < n then Err InvalidData
          else walk_name b compressed known work (w\<lparr>w_pos := pos, w_labels := w_labels w @ [l],
                 w_positions := w_positions w @ [offset], w_length := n\<rparr>))
        else if 192 \<le> c \<and> compressed then
          and_then (take_at b pos (w_limit w) 1) (\<lambda>(l, pos). and_then (idx l 0) (\<lambda>low.
          let target = unat (c AND 63) * 256 + unat low; hops = w_hops w + 1 in
          if 64 < hops \<or> offset \<le> target \<or> \<not> (target < length known \<and> known ! target) then Err InvalidData
          else walk_name b compressed known work (w\<lparr>w_pos := target, w_limit := length b,
                 w_consumed := (case w_consumed w of None \<Rightarrow> Some pos | Some x \<Rightarrow> Some x),
                 w_positions := w_positions w @ [offset], w_hops := hops\<rparr>)))
        else Err InvalidData)))"
  by pat_completeness auto
termination
  by (relation "measure (\<lambda>(b, compressed, known, work, w). MAX_WORK - work)") auto

declare walk_name.simps [simp del]

fun mark_known :: "nat list \<Rightarrow> bool list \<Rightarrow> (io_error, bool list) outcome" where
  "mark_known [] known = Ok known"
| "mark_known (p # ps) known = (if p < length known then mark_known ps (known[p := True]) else Panic)"

definition p_name :: "bytes \<Rightarrow> nat \<Rightarrow> bool \<Rightarrow> name reader" where
  "p_name b fin compressed s =
     and_then (walk_name b compressed (ps_known s) (ps_work s)
       \<lparr>w_pos = ps_at s, w_limit = fin, w_consumed = None, w_labels = [], w_positions = [], w_length = 1, w_hops = 0\<rparr>) (\<lambda>(work, w).
     and_then (mark_known (w_positions w) (ps_known s)) (\<lambda>known.
     map_ok (\<lambda>n. (n, \<lparr>ps_known = known, ps_work = work, ps_at = (case w_consumed w of None \<Rightarrow> w_pos w | Some x \<Rightarrow> x)\<rparr>))
       (from_labels (w_labels w))))"

text \<open>The strings of a text record, and option lists.\<close>

function p_strings :: "bytes \<Rightarrow> nat \<Rightarrow> bytes list \<Rightarrow> bytes list reader" where
  "p_strings b fin v s =
     (if fin \<le> ps_at s then Ok (v, s)
      else and_then (p_u8 b fin s) (\<lambda>(n, t). and_then (p_take b fin (unat n) t) (\<lambda>(l, u). p_strings b fin (v @ [l]) u)))"
  by pat_completeness auto
termination
  by (relation "measure (\<lambda>(b, fin, v, s). fin - ps_at s)")
    (auto simp: p_u8_def p_take_def p_then_def p_lift_def take_at_def and_then_Ok_iff split: if_splits)

declare p_strings.simps [simp del]

function p_options :: "bytes \<Rightarrow> nat \<Rightarrow> bool \<Rightarrow> u16 option \<Rightarrow> (u16 \<times> bytes) list \<Rightarrow> (u16 \<times> bytes) list reader" where
  "p_options b fin ordered prev v s =
     (if fin \<le> ps_at s then Ok (v, s)
      else and_then (p_u16 b fin s) (\<lambda>(key, t). and_then (p_u16 b fin t) (\<lambda>(n, u).
        if ordered \<and> (case prev of None \<Rightarrow> False | Some p \<Rightarrow> key \<le> p) then Err InvalidData
        else and_then (p_take b fin (unat n) u) (\<lambda>(l, x). p_options b fin ordered (Some key) (v @ [(key, l)]) x))))"
  by pat_completeness auto
termination
  by (relation "measure (\<lambda>(b, fin, ordered, prev, v, s). fin - ps_at s)")
    (auto simp: p_u16_def p_take_def p_then_def p_lift_def take_at_def and_then_Ok_iff split: if_splits)

declare p_options.simps [simp del]

function bitmap_loop :: "bytes \<Rightarrow> nat \<Rightarrow> u8 option \<Rightarrow> (io_error, unit) outcome" where
  "bitmap_loop b at prev =
     (if length b \<le> at then Ok ()
      else and_then (get_octet b at) (\<lambda>w. and_then (get_octet b (at + 1)) (\<lambda>len.
        let n = unat len in
        if n = 0 \<or> 32 < n \<or> (case prev of None \<Rightarrow> False | Some p \<Rightarrow> w \<le> p) then Err InvalidData
        else and_then (ok_or InvalidData (get_range b (at + 2) (at + 2 + n))) (\<lambda>bits.
          if bits \<noteq> [] \<and> last bits = 0 then Err InvalidData
          else bitmap_loop b (at + 2 + n) (Some w)))))"
  by pat_completeness auto
termination
  by (relation "measure (\<lambda>(b, at, prev). length b - at)") auto

declare bitmap_loop.simps [simp del]

definition bitmap_valid :: "bytes \<Rightarrow> (io_error, unit) outcome" where
  "bitmap_valid b = bitmap_loop b 0 None"

subsection \<open>Service parameters\<close>

text \<open>The mandatory keys: ascending and present; the protocol identifiers: length-prefixed.\<close>

fun mandatory_ok :: "u16 \<Rightarrow> bytes list \<Rightarrow> (u16 \<times> bytes) list \<Rightarrow> bool" where
  "mandatory_ok prev [] params = True"
| "mandatory_ok prev (c # cs) params =
     (prev < from_be c \<and> list_ex (\<lambda>(x, _). x = from_be c) params \<and> mandatory_ok (from_be c) cs params)"

function alpn_ok :: "bytes \<Rightarrow> nat \<Rightarrow> bool" where
  "alpn_ok b at =
     (if length b \<le> at then True
      else let n = unat (b ! at); at' = at + 1 + n in if n = 0 \<or> length b < at' then False else alpn_ok b at')"
  by pat_completeness auto
termination
  by (relation "measure (\<lambda>(b, at). length b - at)") auto

declare alpn_ok.simps [simp del]

definition param_ok :: "(u16 \<times> bytes) list \<Rightarrow> u16 \<Rightarrow> bytes \<Rightarrow> bool" where
  "param_ok params key b =
     (if key = 0 then b \<noteq> [] \<and> length b mod 2 = 0 \<and> mandatory_ok 0 (chunks 2 b) params
      else if key = 1 then b \<noteq> [] \<and> alpn_ok b 0
      else if key = 2 then b = [] \<and> list_ex (\<lambda>(k, _). k = 1) params
      else if key = 3 then length b = 2
      else if key = 4 then b \<noteq> [] \<and> length b mod 4 = 0
      else if key = 6 then b \<noteq> [] \<and> length b mod 16 = 0
      else True)"

definition svcb_valid :: "(u16 \<times> bytes) list \<Rightarrow> (io_error, unit) outcome" where
  "svcb_valid params = (if list_all (\<lambda>(key, b). param_ok params key b) params then Ok () else Err InvalidData)"

subsection \<open>Record data\<close>

definition p_preference :: "bytes \<Rightarrow> nat \<Rightarrow> bool \<Rightarrow> rdata reader" where
  "p_preference b fin compressed =
     p_then (p_u16 b fin) (\<lambda>preference. p_then (p_name b fin compressed) (\<lambda>n. p_return (RPreference preference n)))"

definition p_srv :: "bytes \<Rightarrow> nat \<Rightarrow> bool \<Rightarrow> rdata reader" where
  "p_srv b fin compressed =
     p_then (p_u16 b fin) (\<lambda>priority. p_then (p_u16 b fin) (\<lambda>weight. p_then (p_u16 b fin) (\<lambda>port.
     p_then (p_name b fin compressed) (\<lambda>target. p_return (RSrv priority weight port target)))))"

definition p_txt :: "bytes \<Rightarrow> nat \<Rightarrow> rdata reader" where
  "p_txt b fin = p_then (p_strings b fin []) (\<lambda>v. p_lift (if v = [] then Err InvalidData else Ok (RTxt v)))"

definition p_soa :: "bytes \<Rightarrow> nat \<Rightarrow> rdata reader" where
  "p_soa b fin =
     p_then (p_name b fin True) (\<lambda>mname. p_then (p_name b fin True) (\<lambda>rname.
     p_then (p_u32 b fin) (\<lambda>serial. p_then (p_u32 b fin) (\<lambda>refresh. p_then (p_u32 b fin) (\<lambda>retry.
     p_then (p_u32 b fin) (\<lambda>expire. p_then (p_u32 b fin) (\<lambda>minimum.
     p_return (RSoa mname rname serial refresh retry expire minimum))))))))"

definition p_two_names :: "bytes \<Rightarrow> nat \<Rightarrow> rdata reader" where
  "p_two_names b fin =
     p_then (p_name b fin True) (\<lambda>x. p_then (p_name b fin True) (\<lambda>y. p_return (RTwoNames x y)))"

definition p_px :: "bytes \<Rightarrow> nat \<Rightarrow> rdata reader" where
  "p_px b fin =
     p_then (p_u16 b fin) (\<lambda>preference. p_then (p_name b fin True) (\<lambda>x. p_then (p_name b fin True) (\<lambda>y.
     p_return (RPx preference x y))))"

definition p_key :: "bytes \<Rightarrow> nat \<Rightarrow> rdata reader" where
  "p_key b fin =
     p_then (p_u16 b fin) (\<lambda>flags. p_then (p_u8 b fin) (\<lambda>protocol. p_then (p_u8 b fin) (\<lambda>algorithm.
     p_then (p_rest b fin) (\<lambda>key. p_return (RKey flags protocol algorithm key)))))"

definition p_sig :: "bytes \<Rightarrow> nat \<Rightarrow> rdata reader" where
  "p_sig b fin =
     p_then (p_u16 b fin) (\<lambda>covered. p_then (p_u8 b fin) (\<lambda>algorithm. p_then (p_u8 b fin) (\<lambda>labels.
     p_then (p_u32 b fin) (\<lambda>original_ttl. p_then (p_u32 b fin) (\<lambda>expiration. p_then (p_u32 b fin) (\<lambda>inception.
     p_then (p_u16 b fin) (\<lambda>key_tag. p_then (p_name b fin False) (\<lambda>signer. p_then (p_rest b fin) (\<lambda>signature.
     p_lift (if signature = [] then Err InvalidData
             else Ok (RSig covered algorithm labels original_ttl expiration inception key_tag signer signature)))))))))))"

definition p_nsec :: "bytes \<Rightarrow> nat \<Rightarrow> bool \<Rightarrow> rdata reader" where
  "p_nsec b fin compressed =
     p_then (p_name b fin compressed) (\<lambda>n. p_then (p_rest b fin) (\<lambda>bitmap.
     p_then (p_lift (bitmap_valid bitmap)) (\<lambda>_. p_return (RNsec n bitmap))))"

definition p_svcb :: "bytes \<Rightarrow> nat \<Rightarrow> rdata reader" where
  "p_svcb b fin =
     p_then (p_u16 b fin) (\<lambda>priority. p_then (p_name b fin False) (\<lambda>target. p_then (p_options b fin True None []) (\<lambda>params.
     p_then (p_lift (if priority \<noteq> 0 then svcb_valid params else Ok ())) (\<lambda>_. p_return (RSvcb priority target params)))))"

definition digest_size :: "u8 \<Rightarrow> nat option" where
  "digest_size kind = (if kind = 1 then Some 20 else if kind = 2 then Some 32 else if kind = 4 then Some 48 else None)"

definition p_digest :: "bytes \<Rightarrow> nat \<Rightarrow> nat \<Rightarrow> rdata reader" where
  "p_digest b fin n =
     (if n < 4 then p_lift (Err InvalidData)
      else p_then (p_take b fin n) (\<lambda>bs. p_then (p_lift (idx bs 3)) (\<lambda>kind.
        p_lift (if (case digest_size kind of None \<Rightarrow> False | Some k \<Rightarrow> n \<noteq> k + 4) then Err InvalidData else Ok (RBytes bs)))))"

definition p_hashed :: "bytes \<Rightarrow> nat \<Rightarrow> bool \<Rightarrow> rdata reader" where
  "p_hashed b fin denial s =
     p_then (p_take b fin 4) (\<lambda>_. p_then (p_u8 b fin) (\<lambda>salt. p_then (p_take b fin (unat salt)) (\<lambda>_.
     p_then (if denial then
         p_then (p_u8 b fin) (\<lambda>hash. if hash = 0 then p_lift (Err InvalidData)
           else p_then (p_take b fin (unat hash)) (\<lambda>_. p_then (p_rest b fin) (\<lambda>bitmap. p_lift (bitmap_valid bitmap))))
       else p_return ()) (\<lambda>_ t. map_ok (\<lambda>bs. (RBytes bs, t)) (slice_r b (ps_at s) (ps_at t)))))) s"

definition p_rdata_of :: "bytes \<Rightarrow> u16 \<Rightarrow> nat \<Rightarrow> nat \<Rightarrow> bool \<Rightarrow> bool \<Rightarrow> rdata reader" where
  "p_rdata_of b kind fin n srv_compressed mdns =
     (if kind = 1 \<and> n = 4 then p_then (p_take b fin 4) (\<lambda>a. p_return (RA a))
      else if kind = 28 \<and> n = 16 then p_then (p_take b fin 16) (\<lambda>a. p_return (RAaaa a))
      else if kind = 1 \<or> kind = 28 then p_lift (Err InvalidData)
      else if List.member [2, 5, 12, 39] kind then p_then (p_name b fin (kind \<noteq> 39 \<or> mdns)) (\<lambda>x. p_return (RName x))
      else if kind = 33 then p_srv b fin srv_compressed
      else if kind = 16 then p_txt b fin
      else if kind = 6 then p_soa b fin
      else if List.member [15, 18, 21, 36] kind then p_preference b fin (kind \<noteq> 36 \<or> mdns)
      else if List.member [14, 17] kind then p_two_names b fin
      else if kind = 26 then p_px b fin
      else if List.member [25, 48, 60] kind then p_key b fin
      else if List.member [24, 46] kind then p_sig b fin
      else if kind = 41 then p_then (p_options b fin False None []) (\<lambda>v. p_return (ROpt v))
      else if kind = 47 then p_nsec b fin mdns
      else if List.member [64, 65] kind then p_svcb b fin
      else if List.member [43, 59] kind then p_digest b fin n
      else if List.member [50, 51] kind then p_hashed b fin (kind = 50)
      else p_then (p_take b fin n) (\<lambda>bs. p_return (ROpaque bs)))"

definition p_rdata :: "bytes \<Rightarrow> u16 \<Rightarrow> nat \<Rightarrow> bool \<Rightarrow> bool \<Rightarrow> rdata reader" where
  "p_rdata b kind fin srv_compressed mdns s =
     and_then (sub_chk fin (ps_at s)) (\<lambda>n. p_rdata_of b kind fin n srv_compressed mdns s)"

subsection \<open>Parsing a message\<close>

definition p_question :: "bytes \<Rightarrow> question reader" where
  "p_question b =
     p_then (p_name b (length b) True) (\<lambda>n. p_then (p_u16 b (length b)) (\<lambda>kind. p_then (p_u16 b (length b)) (\<lambda>class.
     p_return \<lparr>q_name = n, q_kind = kind, q_class = class\<rparr>)))"

fun p_questions :: "bytes \<Rightarrow> nat \<Rightarrow> question list \<Rightarrow> question list reader" where
  "p_questions b 0 qs = p_return qs"
| "p_questions b (Suc k) qs = p_then (p_question b) (\<lambda>q. p_questions b k (qs @ [q]))"

definition is_update :: "u16 \<Rightarrow> bool" where
  "is_update flags \<longleftrightarrow> drop_bit 11 flags AND 15 = 5"

text \<open>One record of a section, with its span and whether an OPT record has been seen.\<close>

definition p_record :: "bytes \<Rightarrow> dns_context \<Rightarrow> u16 \<Rightarrow> nat \<Rightarrow> bool \<Rightarrow> (dns_record \<times> record_span \<times> bool) reader" where
  "p_record b context flags sect opt_seen s =
     p_then (p_name b (length b) True) (\<lambda>n. p_then (p_u16 b (length b)) (\<lambda>kind. p_then (p_u16 b (length b)) (\<lambda>class t.
     p_then (p_u32 b (length b)) (\<lambda>ttl. p_then (p_u16 b (length b)) (\<lambda>len u.
       let fin = ps_at u + unat len in
       if length b < fin then Err InvalidData
       else if kind = 41 \<and> (sect \<noteq> 2 \<or> opt_seen \<or> n_labels n \<noteq> []) then Err InvalidData
       else and_then
         (if is_update flags \<and> len = 0 \<and> (class = 254 \<or> class = 255) then Ok (REmpty, u)
          else p_rdata b kind fin (context = Mdns \<or> is_update flags) (context = Mdns) u) (\<lambda>(data, v).
       if ps_at v \<noteq> fin then Err InvalidData
       else Ok ((\<lparr>rr_name = n, rr_kind = kind, rr_class = class, rr_ttl = ttl, rr_data = data\<rparr>,
                 \<lparr>sp_wire = (ps_at s, ps_at v), sp_ttl = ps_at t, sp_rdata = (ps_at u, fin)\<rparr>,
                 opt_seen \<or> kind = 41), v)))) t))) s"

definition add_record :: "nat \<Rightarrow> dns_record \<Rightarrow> record_span \<Rightarrow> dns_message \<Rightarrow> dns_message" where
  "add_record sect r span m =
     (let m = (if sect = 0 then m\<lparr>m_answers := m_answers m @ [r]\<rparr>
               else if sect = 1 then m\<lparr>m_authority := m_authority m @ [r]\<rparr>
               else m\<lparr>m_additional := m_additional m @ [r]\<rparr>)
      in m\<lparr>m_spans := m_spans m @ [span]\<rparr>)"

fun p_section :: "bytes \<Rightarrow> dns_context \<Rightarrow> nat \<Rightarrow> nat \<Rightarrow> dns_message \<times> bool \<Rightarrow> (dns_message \<times> bool) reader" where
  "p_section b context sect 0 mo = p_return mo"
| "p_section b context sect (Suc k) (m, opt_seen) =
     p_then (p_record b context (m_flags m) sect opt_seen) (\<lambda>(r, span, opt_seen).
       p_section b context sect k (add_record sect r span m, opt_seen))"

definition dns_parse :: "bytes \<Rightarrow> dns_context \<Rightarrow> (io_error, dns_message) outcome" where
  "dns_parse b context =
     (if length b < 12 \<or> MAX_WIRE < length b then Err InvalidData
      else and_then (u16at b 4) (\<lambda>qd. and_then (u16at b 6) (\<lambda>an. and_then (u16at b 8) (\<lambda>ns. and_then (u16at b 10) (\<lambda>ar.
        let count = unat qd + unat an + unat ns + unat ar in
        if MAX_RECORDS < count \<or> (length b - 12) div 5 < count then Err InvalidData
        else and_then (u16at b 0) (\<lambda>i. and_then (u16at b 2) (\<lambda>flags.
          let s = \<lparr>ps_known = replicate (length b) False, ps_work = 0, ps_at = 12\<rparr> in
          and_then (p_then (p_questions b (unat qd) []) (\<lambda>qs.
             p_then (p_section b context 0 (unat an) ((message_new i flags)\<lparr>m_questions := qs\<rparr>, False)) (\<lambda>mo.
             p_then (p_section b context 1 (unat ns) mo) (\<lambda>mo. p_section b context 2 (unat ar) mo))) s) (\<lambda>((m, _), s).
          if ps_at s \<noteq> length b then Err InvalidData else Ok (m\<lparr>m_original := b\<rparr>)))))))))"

subsection \<open>Encoding a message\<close>

record dictionary =
  d_entries :: "(bytes, u16) btree"
  d_bytes :: nat

definition dictionary0 :: dictionary where
  "dictionary0 = \<lparr>d_entries = bt_empty, d_bytes = 0\<rparr>"

type_synonym 's writer = "'s \<times> bytes \<Rightarrow> (io_error, 's \<times> bytes) outcome"

function write_suffixes :: "bytes \<Rightarrow> nat \<Rightarrow> dictionary writer" where
  "write_suffixes wire at (d, out) =
     and_then (idx wire at) (\<lambda>c.
       if c = 0 then (if length out = MAX_WIRE then Err InvalidData else Ok (d, out @ [0]))
       else and_then (slice_from wire at) (\<lambda>suffix. case bt_get (d_entries d) suffix of
           Some offset \<Rightarrow> if MAX_WIRE < length out + 2 then Err InvalidData else Ok (d, out @ to_be 2 (0xc000 OR offset))
         | None \<Rightarrow>
             let d = (if bt_len (d_entries d) < 1024 \<and> d_bytes d + length wire - at \<le> 65536 \<and> length out < 0x4000
                      then \<lparr>d_entries = bt_insert suffix (of_nat (length out)) (d_entries d), d_bytes = d_bytes d + length suffix\<rparr>
                      else d);
                 n = unat c + 1
             in if MAX_WIRE < length out + n then Err InvalidData
                else and_then (slice_r wire at (at + n)) (\<lambda>label. write_suffixes wire (at + n) (d, out @ label))))"
  by pat_completeness auto
termination
  by (relation "measure (\<lambda>(wire, at, d, out). length wire - at)") (auto simp: idx_Ok_iff)

declare write_suffixes.simps [simp del]

definition dict_write_name :: "name \<Rightarrow> dictionary writer" where
  "dict_write_name n = write_suffixes (name_write n) 0"

definition emit :: "bytes \<Rightarrow> 's writer" where
  "emit bs so = Ok (fst so, snd so @ bs)"

definition w_then :: "'s writer \<Rightarrow> 's writer \<Rightarrow> 's writer" where
  "w_then f g so = and_then (f so) g"

definition plain_write_name :: "name \<Rightarrow> 's writer" where
  "plain_write_name n = emit (name_write n)"

fun write_strings :: "bytes list \<Rightarrow> 's writer" where
  "write_strings [] so = Ok so"
| "write_strings (s # ss) so =
     (if 255 < length s then Err InvalidData else w_then (emit (of_nat (length s) # s)) (write_strings ss) so)"

fun write_options :: "(u16 \<times> bytes) list \<Rightarrow> 's writer" where
  "write_options [] so = Ok so"
| "write_options ((code, data) # v) so =
     (if MAX_WIRE < length data then Err InvalidData
      else w_then (emit (to_be 2 code @ to_be 2 (of_nat (length data) :: u16) @ data)) (write_options v) so)"

fun write_fields :: "(name \<Rightarrow> 's writer) \<Rightarrow> rdata \<Rightarrow> 's writer" where
  "write_fields wn REmpty so = Ok so"
| "write_fields wn (RA a) so = emit a so"
| "write_fields wn (RAaaa a) so = emit a so"
| "write_fields wn (RName n) so = wn n so"
| "write_fields wn (RSrv priority weight port target) so =
     w_then (emit (to_be 2 priority @ to_be 2 weight @ to_be 2 port)) (wn target) so"
| "write_fields wn (RPreference preference n) so = w_then (emit (to_be 2 preference)) (wn n) so"
| "write_fields wn (RTwoNames x y) so = w_then (wn x) (wn y) so"
| "write_fields wn (RPx preference x y) so = w_then (emit (to_be 2 preference)) (w_then (wn x) (wn y)) so"
| "write_fields wn (RTxt v) so = write_strings v so"
| "write_fields wn (RSoa mname rname serial refresh retry expire minimum) so =
     w_then (wn mname) (w_then (wn rname)
       (emit (to_be 4 serial @ to_be 4 refresh @ to_be 4 retry @ to_be 4 expire @ to_be 4 minimum))) so"
| "write_fields wn (RKey flags protocol algorithm key) so = emit (to_be 2 flags @ [protocol, algorithm] @ key) so"
| "write_fields wn (RSig covered algorithm labels original_ttl expiration inception key_tag signer signature) so =
     emit (to_be 2 covered @ [algorithm, labels] @ to_be 4 original_ttl @ to_be 4 expiration @ to_be 4 inception
           @ to_be 2 key_tag @ name_write signer @ signature) so"
| "write_fields wn (ROpt v) so = write_options v so"
| "write_fields wn (RNsec n bitmap) so = w_then (wn n) (emit bitmap) so"
| "write_fields wn (RSvcb priority target params) so =
     w_then (emit (to_be 2 priority @ name_write target)) (write_options params) so"
| "write_fields wn (RBytes v) so = emit v so"
| "write_fields wn (ROpaque v) so = Err InvalidData"

definition write_data_with :: "(name \<Rightarrow> 's writer) \<Rightarrow> rdata \<Rightarrow> 's writer" where
  "write_data_with wn d so = and_then (write_fields wn d so) (\<lambda>so. if MAX_WIRE < length (snd so) then Err InvalidData else Ok so)"

definition write_data :: "rdata \<Rightarrow> 's writer" where
  "write_data = write_data_with plain_write_name"

definition write_owner :: "dns_context \<Rightarrow> name \<Rightarrow> dictionary writer" where
  "write_owner context n = (if context = Mdns then dict_write_name n else plain_write_name n)"

definition write_question :: "dns_context \<Rightarrow> question \<Rightarrow> dictionary writer" where
  "write_question context q = w_then (write_owner context (q_name q)) (emit (to_be 2 (q_kind q) @ to_be 2 (q_class q)))"

definition compressible :: "u16 \<Rightarrow> bool" where
  "compressible kind \<longleftrightarrow> List.member [2, 5, 6, 12, 15, 17, 18, 21, 26, 33, 36, 39, 47] kind"

definition write_record :: "dns_context \<Rightarrow> dns_record \<Rightarrow> dictionary writer" where
  "write_record context r so =
     w_then (write_owner context (rr_name r)) (\<lambda>so.
     w_then (emit (to_be 2 (rr_kind r) @ to_be 2 (rr_class r) @ to_be 4 (rr_ttl r) @ [0, 0])) (\<lambda>(d, b).
     let start = length b; len = start - 2 in
     and_then (if context = Mdns \<and> compressible (rr_kind r) then write_data_with dict_write_name (rr_data r) (d, b)
               else write_data (rr_data r) (d, b)) (\<lambda>(d, b).
     if MAX_WIRE < length b then Err InvalidData
     else and_then (sub_chk (length b) start) (\<lambda>n.
       map_ok (\<lambda>b. (d, b)) (put_r b len (to_be 2 (of_nat n :: u16)))))) so) so"

fun write_all :: "('a \<Rightarrow> 's writer) \<Rightarrow> 'a list \<Rightarrow> 's writer" where
  "write_all w [] so = Ok so"
| "write_all w (x # xs) so = w_then (w x) (write_all w xs) so"

definition write_message :: "dns_context \<Rightarrow> dns_message \<Rightarrow> (io_error, bytes) outcome" where
  "write_message context m =
     (if MAX_RECORDS < length (m_questions m) + length (m_answers m) + length (m_authority m) + length (m_additional m)
      then Err InvalidData
      else
        map_ok snd (w_then (write_all (write_question context) (m_questions m))
          (write_all (write_record context) (m_answers m @ m_authority m @ m_additional m))
          (dictionary0, to_be 2 (m_id m) @ to_be 2 (m_flags m) @ to_be 2 (of_nat (length (m_questions m)) :: u16)
             @ to_be 2 (of_nat (length (m_answers m)) :: u16) @ to_be 2 (of_nat (length (m_authority m)) :: u16)
             @ to_be 2 (of_nat (length (m_additional m)) :: u16))))"

definition encode_context :: "dns_context \<Rightarrow> dns_message \<Rightarrow> (io_error, bytes) outcome" where
  "encode_context context m =
     and_then (write_message context m) (\<lambda>b. and_then (dns_parse b context) (\<lambda>_. Ok b))"

definition dns_encode :: "dns_message \<Rightarrow> (io_error, bytes) outcome" where
  "dns_encode = encode_context UnicastDns"

end
