(* ===== verification/Dns_Wire_Parse.thy ===== *)
theory Dns_Wire_Parse
  imports Dns_Wire
begin

text \<open>
  The DNS parser on arbitrary bytes: it never panics, its loops end, and what it returns is within the
  limits of the format.
\<close>

section \<open>Parsing arbitrary bytes\<close>

text \<open>
  \<open>reads_to b fin m Q\<close>: from a cursor not beyond \<open>fin\<close> the reader does not panic, leaves the cursor
  between where it was and \<open>fin\<close>, and its result satisfies \<open>Q\<close>.
\<close>

definition within :: "bytes \<Rightarrow> nat \<Rightarrow> parser \<Rightarrow> bool" where
  "within b fin s \<longleftrightarrow> length (ps_known s) = length b \<and> ps_at s \<le> fin \<and> fin \<le> length b"

definition reads_to :: "bytes \<Rightarrow> nat \<Rightarrow> 'a reader \<Rightarrow> ('a \<Rightarrow> bool) \<Rightarrow> bool" where
  "reads_to b fin m Q \<longleftrightarrow>
     (\<forall>s. within b fin s \<longrightarrow> ensures (m s) (\<lambda>(x, t). Q x \<and> within b fin t \<and> ps_at s \<le> ps_at t))"

lemma reads_toI:
  "(\<And>s. within b fin s \<Longrightarrow> ensures (m s) (\<lambda>(x, t). Q x \<and> within b fin t \<and> ps_at s \<le> ps_at t)) \<Longrightarrow> reads_to b fin m Q"
  by (simp add: reads_to_def)

lemma reads_toD: "reads_to b fin m Q \<Longrightarrow> within b fin s \<Longrightarrow> ensures (m s) (\<lambda>(x, t). Q x \<and> within b fin t \<and> ps_at s \<le> ps_at t)"
  by (simp add: reads_to_def)

lemma reads_to_mono: "reads_to b fin m P \<Longrightarrow> (\<And>x. P x \<Longrightarrow> Q x) \<Longrightarrow> reads_to b fin m Q"
  unfolding reads_to_def by (fastforce elim!: ensures_mono)

named_theorems reader \<open>rules for readers\<close>

lemma reads_to_return [reader]: "Q x \<Longrightarrow> reads_to b fin (p_return x) Q"
  by (simp add: reads_to_def p_return_def)

lemma reads_to_lift [reader]: "ensures r Q \<Longrightarrow> reads_to b fin (p_lift r) Q"
  by (cases r) (simp_all add: reads_to_def p_lift_def)

lemma reads_to_then:
  assumes "reads_to b fin m P" and "\<And>x. P x \<Longrightarrow> reads_to b fin (f x) Q"
  shows "reads_to b fin (p_then m f) Q"
proof (rule reads_toI)
  fix s assume s: "within b fin s"
  show "ensures (p_then m f s) (\<lambda>(x, t). Q x \<and> within b fin t \<and> ps_at s \<le> ps_at t)"
  proof (cases "m s")
    case (Ok xt)
    obtain x t where xt: "xt = (x, t)" by (cases xt)
    then have t: "P x" "within b fin t" "ps_at s \<le> ps_at t" using reads_toD [OF assms(1) s] Ok by auto
    have "ensures (f x t) (\<lambda>(y, u). Q y \<and> within b fin u \<and> ps_at s \<le> ps_at u)"
      by (rule ensures_mono [OF reads_toD [OF assms(2) [OF t(1)] t(2)]]) (use t(3) in auto)
    then show ?thesis using Ok xt by (simp add: p_then_def)
  qed (use reads_toD [OF assms(1) s] in \<open>simp_all add: p_then_def\<close>)
qed

lemma reads_to_if [reader]: "(P \<Longrightarrow> reads_to b fin m Q) \<Longrightarrow> (\<not> P \<Longrightarrow> reads_to b fin n Q) \<Longrightarrow> reads_to b fin (if P then m else n) Q"
  by simp

lemma take_at_cases:
  "take_at b at fin n = (if at + n \<le> fin \<and> at + n \<le> length b then Ok (take n (drop at b), at + n) else Err InvalidData)"
  by (simp add: take_at_def get_range_def)

lemma ensures_take_at [wp]:
  "ensures (take_at b at fin n) Q \<longleftrightarrow> (at + n \<le> fin \<and> at + n \<le> length b \<longrightarrow> Q (take n (drop at b), at + n))"
  by (auto simp: take_at_cases)

lemma reads_to_take: "reads_to b fin (p_take b fin n) (\<lambda>l. length l = n)"
  by (auto simp: reads_to_def p_take_def wp within_def)

lemma reads_to_u8: "reads_to b fin (p_u8 b fin) (\<lambda>_. True)"
  unfolding p_u8_def by (rule reads_to_then [OF reads_to_take], rule reader) simp

lemma reads_to_u16: "reads_to b fin (p_u16 b fin) (\<lambda>_. True)"
  unfolding p_u16_def by (rule reads_to_then [OF reads_to_take], rule reader) (simp add: be_array_def)

lemma reads_to_u32: "reads_to b fin (p_u32 b fin) (\<lambda>_. True)"
  unfolding p_u32_def by (rule reads_to_then [OF reads_to_take], rule reader) (simp add: be_array_def)

lemma reads_to_rest: "reads_to b fin (p_rest b fin) (\<lambda>_. True)"
proof (rule reads_toI)
  fix s assume s: "within b fin s"
  then show "ensures (p_rest b fin s) (\<lambda>(x, t). True \<and> within b fin t \<and> ps_at s \<le> ps_at t)"
    using reads_toD [OF reads_to_take s, of "fin - ps_at s"] by (auto simp: p_rest_def sub_chk_def within_def elim!: ensures_mono)
qed

subsection \<open>Names\<close>

definition labels_ok :: "bytes list \<Rightarrow> bool" where
  "labels_ok ls \<longleftrightarrow> list_all (\<lambda>l. l \<noteq> [] \<and> length l \<le> 63) ls \<and> 1 + sum_list (map (\<lambda>l. length l + 1) ls) \<le> 255"

definition canonical :: "bytes list \<Rightarrow> bytes" where
  "canonical ls = concat (map (\<lambda>l. of_nat (length l) # map ascii_lower l) ls) @ [0]"

definition name_ok :: "name \<Rightarrow> bool" where
  "name_ok n \<longleftrightarrow> labels_ok (n_labels n) \<and> n_canonical n = canonical (n_labels n)"

lemma from_labels_cases: "from_labels ls = (if labels_ok ls then Ok \<lparr>n_labels = ls, n_canonical = canonical ls\<rparr> else Err InvalidData)"
  by (auto simp: from_labels_def labels_ok_def canonical_def list_ex_iff list_all_iff not_le not_less)

lemma from_labels_ensures: "ensures (from_labels ls) (\<lambda>n. name_ok n \<and> n_labels n = ls)"
  by (simp add: from_labels_cases name_ok_def)

text \<open>The walk stays inside the message and what it consumes inside the field.\<close>

definition walk_ok :: "bytes \<Rightarrow> nat \<Rightarrow> nat \<Rightarrow> name_walk \<Rightarrow> bool" where
  "walk_ok b start fin w \<longleftrightarrow> w_limit w \<le> length b \<and> list_all (\<lambda>p. p < length b) (w_positions w) \<and> start \<le> fin
     \<and> (case w_consumed w of None \<Rightarrow> w_limit w = fin \<and> start \<le> w_pos w \<and> w_pos w \<le> fin | Some x \<Rightarrow> start \<le> x \<and> x \<le> fin)"

text \<open>One step of the walk, with the reads resolved.\<close>

lemma walk_step:
  "walk_name b compressed known work w =
     (if MAX_WORK \<le> work \<or> w_limit w \<le> w_pos w \<or> length b \<le> w_pos w then Err InvalidData
      else let at = w_pos w; c = b ! at in
        if c = 0 then Ok (work + 1, w\<lparr>w_pos := at + 1, w_positions := w_positions w @ [at]\<rparr>)
        else if c \<le> 63 then
          if at + 1 + unat c \<le> w_limit w \<and> at + 1 + unat c \<le> length b \<and> w_length w + 1 + unat c \<le> 255
          then walk_name b compressed known (work + 1) (w\<lparr>w_pos := at + 1 + unat c, w_labels := w_labels w @ [take (unat c) (drop (at + 1) b)],
                 w_positions := w_positions w @ [at], w_length := w_length w + 1 + unat c\<rparr>)
          else Err InvalidData
        else if 192 \<le> c \<and> compressed \<and> at + 2 \<le> w_limit w \<and> at + 2 \<le> length b then
          let target = unat (c AND 63) * 256 + unat (b ! (at + 1)) in
          if w_hops w < 64 \<and> target < at \<and> target < length known \<and> known ! target
          then walk_name b compressed known (work + 1) (w\<lparr>w_pos := target, w_limit := length b,
                 w_consumed := (case w_consumed w of None \<Rightarrow> Some (at + 2) | Some x \<Rightarrow> Some x),
                 w_positions := w_positions w @ [at], w_hops := w_hops w + 1\<rparr>)
          else Err InvalidData
        else Err InvalidData)"
proof -
  let ?at = "w_pos w" and ?c = "b ! w_pos w"
  have one: "take_at b at fin 1 = (if at < fin \<and> at < length b then Ok ([b ! at], at + 1) else Err InvalidData)" for at fin
    by (auto simp: take_at_cases take_Suc_conv_app_nth [of 0, simplified])
  note one = one one [unfolded One_nat_def]
  consider (out) "MAX_WORK \<le> work \<or> w_limit w \<le> ?at \<or> length b \<le> ?at" | (inner) "work < MAX_WORK" "?at < w_limit w" "?at < length b"
    by linarith
  then show ?thesis
  proof cases
    case out
    then show ?thesis by (subst walk_name.simps) (auto simp: one Let_def)
  next
    case inner
    consider (zero) "?c = 0" | (label) "?c \<noteq> 0" "?c \<le> 63" | (pointer) "\<not> ?c \<le> 63" "192 \<le> ?c \<and> compressed"
      | (other) "\<not> ?c \<le> 63" "\<not> (192 \<le> ?c \<and> compressed)"
      by linarith
    then show ?thesis
    proof cases
      case zero
      with inner show ?thesis by (subst walk_name.simps) (simp add: one Let_def)
    next
      case label
      show ?thesis
      proof (cases "?at + 1 + unat ?c \<le> w_limit w \<and> ?at + 1 + unat ?c \<le> length b")
        case True
        then have "take_at b (?at + 1) (w_limit w) (unat ?c) = Ok (take (unat ?c) (drop (?at + 1) b), ?at + 1 + unat ?c)"
          "length (take (unat ?c) (drop (?at + 1) b)) = unat ?c"
          by (auto simp: take_at_cases)
        with True label inner show ?thesis by (subst walk_name.simps) (simp add: one Let_def not_le del: length_take)
      next
        case False
        then have "take_at b (?at + 1) (w_limit w) (unat ?c) = Err InvalidData" by (auto simp: take_at_cases)
        with False label inner show ?thesis by (subst walk_name.simps) (auto simp: one Let_def)
      qed
    next
      case pointer
      then have c: "(?c = 0) = False" "(?c \<le> 63) = False" "(192 \<le> ?c \<and> compressed) = True" by auto
      show ?thesis
      proof (cases "?at + 2 \<le> w_limit w \<and> ?at + 2 \<le> length b")
        case True
        with inner c show ?thesis by (cases "w_consumed w"; subst walk_name.simps) (auto simp: one Let_def)
      next
        case False
        then have "\<not> (?at + 1 < w_limit w \<and> ?at + 1 < length b)" by auto
        with False inner c show ?thesis by (subst walk_name.simps) (auto simp: one Let_def)
      qed
    next
      case other
      then have "?c \<noteq> 0" by auto
      with other inner show ?thesis by (subst walk_name.simps) (auto simp add: one Let_def)
    qed
  qed
qed


lemma walk_induct [case_names step]:
  assumes "\<And>work w. (\<And>work' w'. work < work' \<Longrightarrow> work < MAX_WORK \<Longrightarrow> P work' w') \<Longrightarrow> P work w"
  shows "P work w"
proof (induction "MAX_WORK - work" arbitrary: work w rule: less_induct)
  case less
  show ?case by (rule assms) (use less in auto)
qed

lemma walk_no_panic: "walk_name b compressed known work w \<noteq> Panic"
proof (induction work w rule: walk_induct)
  case (step work w)
  then show ?case by (cases compressed; cases "work < MAX_WORK"; subst walk_step) (simp_all add: Let_def)
qed

abbreviation label_read :: "bytes \<Rightarrow> name_walk \<Rightarrow> name_walk" where
  "label_read b w \<equiv> w\<lparr>w_pos := w_pos w + 1 + unat (b ! w_pos w),
     w_labels := w_labels w @ [take (unat (b ! w_pos w)) (drop (w_pos w + 1) b)],
     w_positions := w_positions w @ [w_pos w], w_length := w_length w + 1 + unat (b ! w_pos w)\<rparr>"

abbreviation pointer_target :: "bytes \<Rightarrow> nat \<Rightarrow> nat" where
  "pointer_target b at \<equiv> unat (b ! at AND 63) * 256 + unat (b ! (at + 1))"

abbreviation pointer_read :: "bytes \<Rightarrow> name_walk \<Rightarrow> name_walk" where
  "pointer_read b w \<equiv> w\<lparr>w_pos := pointer_target b (w_pos w), w_limit := length b,
     w_consumed := (case w_consumed w of None \<Rightarrow> Some (w_pos w + 2) | Some x \<Rightarrow> Some x),
     w_positions := w_positions w @ [w_pos w], w_hops := w_hops w + 1\<rparr>"

lemma walk_Ok_induct [consumes 1, case_names zero label pointer]:
  assumes "walk_name b compressed known work w = Ok (work', w')"
    and zero: "\<And>work w. work < MAX_WORK \<Longrightarrow> w_pos w < w_limit w \<Longrightarrow> w_pos w < length b \<Longrightarrow> b ! w_pos w = 0 \<Longrightarrow>
      P work w (work + 1) (w\<lparr>w_pos := w_pos w + 1, w_positions := w_positions w @ [w_pos w]\<rparr>)"
    and label: "\<And>work w work' w'. w_pos w < length b \<Longrightarrow> b ! w_pos w \<noteq> 0 \<Longrightarrow> b ! w_pos w \<le> 63 \<Longrightarrow>
      w_pos w + 1 + unat (b ! w_pos w) \<le> w_limit w \<Longrightarrow> w_pos w + 1 + unat (b ! w_pos w) \<le> length b \<Longrightarrow>
      w_length w + 1 + unat (b ! w_pos w) \<le> 255 \<Longrightarrow> P (work + 1) (label_read b w) work' w' \<Longrightarrow> P work w work' w'"
    and pointer: "\<And>work w work' w'. 192 \<le> b ! w_pos w \<Longrightarrow> compressed \<Longrightarrow> w_pos w + 2 \<le> w_limit w \<Longrightarrow> w_pos w + 2 \<le> length b \<Longrightarrow>
      pointer_target b (w_pos w) < w_pos w \<Longrightarrow> pointer_target b (w_pos w) < length known \<Longrightarrow> known ! pointer_target b (w_pos w) \<Longrightarrow>
      P (work + 1) (pointer_read b w) work' w' \<Longrightarrow> P work w work' w'"
  shows "P work w work' w'"
  using assms(1)
proof (induction work w rule: walk_induct)
  case (step work w)
  let ?c = "b ! w_pos w"
  have ok: "work < MAX_WORK" "w_pos w < w_limit w" "w_pos w < length b"
    using step.prems by (subst (asm) walk_step; simp split: if_splits)+
  consider (zero) "?c = 0" | (label) "?c \<noteq> 0" "?c \<le> 63" | (pointer) "\<not> ?c \<le> 63" by linarith
  then show ?case
  proof cases
    case zero
    then show ?thesis using step.prems ok assms(2) by (subst (asm) walk_step) (auto simp: Let_def)
  next
    case label
    then show ?thesis
      using step.prems ok assms(3) step.IH by (subst (asm) walk_step) (simp add: Let_def split: if_splits)
  next
    case pointer
    then have "?c \<noteq> 0" by auto
    then show ?thesis
      using step.prems ok pointer assms(4) step.IH by (subst (asm) walk_step) (simp add: Let_def split: if_splits)
  qed
qed

lemma walk_name_ok:
  "walk_name b compressed known work w = Ok (work', w') \<Longrightarrow> walk_ok b start fin w \<Longrightarrow> walk_ok b start fin w'"
  by (induction rule: walk_Ok_induct) (auto simp: walk_ok_def split: option.splits)

lemma mark_known_ensures: "list_all (\<lambda>p. p < length known) ps \<Longrightarrow> ensures (mark_known ps known) (\<lambda>k. length k = length known)"
  by (induction ps arbitrary: known) (auto, metis length_list_update)

lemma reads_to_name: "reads_to b fin (p_name b fin compressed) name_ok"
proof (rule reads_toI)
  fix s assume s: "within b fin s"
  let ?w = "\<lparr>w_pos = ps_at s, w_limit = fin, w_consumed = None, w_labels = [], w_positions = [], w_length = 1, w_hops = 0\<rparr>"
  have w: "walk_ok b (ps_at s) fin ?w" using s by (simp add: walk_ok_def within_def)
  show "ensures (p_name b fin compressed s) (\<lambda>(x, t). name_ok x \<and> within b fin t \<and> ps_at s \<le> ps_at t)"
  proof (cases "walk_name b compressed (ps_known s) (ps_work s) ?w")
    case (Ok r)
    obtain work' w' where r: "r = (work', w')" by (cases r)
    have w': "walk_ok b (ps_at s) fin w'" using walk_name_ok [OF _ w] Ok r by blast
    then have m: "ensures (mark_known (w_positions w') (ps_known s)) (\<lambda>k. length k = length b)"
      using mark_known_ensures [of "ps_known s" "w_positions w'"] s by (simp add: walk_ok_def within_def)
    have "ensures (map_ok (\<lambda>n. (n, \<lparr>ps_known = k, ps_work = work', ps_at = (case w_consumed w' of None \<Rightarrow> w_pos w' | Some x \<Rightarrow> x)\<rparr>))
        (from_labels (w_labels w'))) (\<lambda>(x, t). name_ok x \<and> within b fin t \<and> ps_at s \<le> ps_at t)" if "length k = length b" for k
      using from_labels_ensures [of "w_labels w'"] w' s that
      by (auto simp: ensures_map_ok walk_ok_def within_def elim!: ensures_mono split: option.splits)
    then show ?thesis using Ok r m by (auto simp: p_name_def ensures_and_then elim!: ensures_mono)
  qed (simp_all add: p_name_def walk_no_panic)
qed

subsection \<open>Record data\<close>

definition strings_ok :: "bytes list \<Rightarrow> bool" where
  "strings_ok v \<longleftrightarrow> list_all (\<lambda>l. length l \<le> 255) v"

definition options_ok :: "(u16 \<times> bytes) list \<Rightarrow> bool" where
  "options_ok v \<longleftrightarrow> list_all (\<lambda>(k, l). length l \<le> MAX_WIRE) v"

lemma reads_to_cases:
  assumes "reads_to b fin m Q" and "within b fin s"
  obtains (ok) x t where "m s = Ok (x, t)" and "Q x" and "within b fin t" and "ps_at s \<le> ps_at t"
    | (err) e where "m s = Err e"
  using reads_toD [OF assms] that by (cases "m s") auto

lemma reads_to_strings:
  assumes "strings_ok v"
  shows "reads_to b fin (p_strings b fin v) strings_ok"
proof (rule reads_toI)
  fix s assume "within b fin s"
  with assms show "ensures (p_strings b fin v s) (\<lambda>(x, t). strings_ok x \<and> within b fin t \<and> ps_at s \<le> ps_at t)"
  proof (induction b fin v s rule: p_strings.induct)
    case (1 b fin v s)
    show ?case
    proof (cases "fin \<le> ps_at s")
      case more: False
      from reads_to_u8 1(3) show ?thesis
      proof (cases rule: reads_to_cases)
        case n: (ok n t)
        from reads_to_take [of b fin "unat n"] n(3) show ?thesis
        proof (cases rule: reads_to_cases)
          case l: (ok l u)
          have "length l \<le> 255" using l(2) u8_less [of n] by simp
          then have "strings_ok (v @ [l])" using 1(2) by (simp add: strings_ok_def)
          from 1(1) [OF more n(1) refl l(1) refl this l(3)] show ?thesis
            using more n l by (subst p_strings.simps) (auto elim!: ensures_mono)
        qed (use more n in \<open>subst p_strings.simps, simp\<close>)
      qed (use more in \<open>subst p_strings.simps, simp\<close>)
    qed (use 1 in \<open>simp add: p_strings.simps\<close>)
  qed
qed


lemma reads_to_options:
  assumes "options_ok v" and "ordered \<longrightarrow> sorted_wrt (<) (map fst v) \<and> prev = (if v = [] then None else Some (fst (last v)))"
  shows "reads_to b fin (p_options b fin ordered prev v) (\<lambda>v. options_ok v \<and> (ordered \<longrightarrow> sorted_wrt (<) (map fst v)))"
proof (rule reads_toI)
  fix s assume "within b fin s"
  with assms show "ensures (p_options b fin ordered prev v s)
      (\<lambda>(v, t). (options_ok v \<and> (ordered \<longrightarrow> sorted_wrt (<) (map fst v))) \<and> within b fin t \<and> ps_at s \<le> ps_at t)"
  proof (induction b fin ordered prev v s rule: p_options.induct)
    case (1 b fin ordered prev v s)
    show ?case
    proof (cases "fin \<le> ps_at s")
      case more: False
      from reads_to_u16 1(4) show ?thesis
      proof (cases rule: reads_to_cases)
        case k: (ok key t)
        from reads_to_u16 k(3) show ?thesis
        proof (cases rule: reads_to_cases)
          case n: (ok n u)
          show ?thesis
          proof (cases "ordered \<and> (case prev of None \<Rightarrow> False | Some p \<Rightarrow> key \<le> p)")
            case up: False
            from reads_to_take [of b fin "unat n"] n(3) show ?thesis
            proof (cases rule: reads_to_cases)
              case l: (ok l x)
              have "length l \<le> MAX_WIRE" using l(2) u16_less [of n] by simp
              then have o: "options_ok (v @ [(key, l)])" using 1(2) by (simp add: options_ok_def)
              have "\<forall>k \<in> set (map fst v). k < key" if ordered
                using 1(3) that up by (cases v rule: rev_cases) (auto simp: sorted_wrt_append)
              then have "ordered \<longrightarrow> sorted_wrt (<) (map fst (v @ [(key, l)])) \<and> Some key = (if v @ [(key, l)] = [] then None else Some (fst (last (v @ [(key, l)]))))"
                using 1(3) by (auto simp: sorted_wrt_append)
              from 1(1) [OF more k(1) refl n(1) refl up l(1) refl o this l(3)] show ?thesis
                using more k n l up by (subst p_options.simps) (auto elim!: ensures_mono)
            qed (use more k n up in \<open>subst p_options.simps, simp\<close>)
          qed (use more k n in \<open>subst p_options.simps, simp\<close>)
        qed (use more k in \<open>subst p_options.simps, simp\<close>)
      qed (use more in \<open>subst p_options.simps, simp\<close>)
    qed (use 1 in \<open>simp add: p_options.simps\<close>)
  qed
qed

lemma bitmap_no_panic: "ensures (bitmap_loop b at prev) (\<lambda>_. True)"
proof (induction b at prev rule: bitmap_loop.induct)
  case (1 b at prev)
  then show ?case by (subst bitmap_loop.simps) (auto simp: Let_def get_octet_def ensures_and_then ensures_ok_or)
qed

lemma bitmap_valid_ensures: "ensures (bitmap_valid b) (\<lambda>_. bitmap_valid b = Ok ())"
  using bitmap_no_panic [of b 0 None] by (cases "bitmap_valid b") (simp_all add: bitmap_valid_def)

lemma svcb_valid_ensures: "ensures (svcb_valid params) (\<lambda>_. svcb_valid params = Ok ())"
  by (simp add: svcb_valid_def)

text \<open>What data a record of each type holds.\<close>

fun rdata_ok :: "u16 \<Rightarrow> rdata \<Rightarrow> bool" where
  "rdata_ok kind REmpty \<longleftrightarrow> False"
| "rdata_ok kind (RA a) \<longleftrightarrow> kind = 1 \<and> length a = 4"
| "rdata_ok kind (RAaaa a) \<longleftrightarrow> kind = 28 \<and> length a = 16"
| "rdata_ok kind (RName n) \<longleftrightarrow> kind \<in> {2, 5, 12, 39} \<and> name_ok n"
| "rdata_ok kind (RSrv _ _ _ n) \<longleftrightarrow> kind = 33 \<and> name_ok n"
| "rdata_ok kind (RTxt v) \<longleftrightarrow> kind = 16 \<and> v \<noteq> [] \<and> strings_ok v"
| "rdata_ok kind (RPreference _ n) \<longleftrightarrow> kind \<in> {15, 18, 21, 36} \<and> name_ok n"
| "rdata_ok kind (RTwoNames x y) \<longleftrightarrow> kind \<in> {14, 17} \<and> name_ok x \<and> name_ok y"
| "rdata_ok kind (RPx _ x y) \<longleftrightarrow> kind = 26 \<and> name_ok x \<and> name_ok y"
| "rdata_ok kind (RSoa x y _ _ _ _ _) \<longleftrightarrow> kind = 6 \<and> name_ok x \<and> name_ok y"
| "rdata_ok kind (RKey _ _ _ _) \<longleftrightarrow> kind \<in> {25, 48, 60}"
| "rdata_ok kind (RSig _ _ _ _ _ _ _ n s) \<longleftrightarrow> kind \<in> {24, 46} \<and> name_ok n \<and> s \<noteq> []"
| "rdata_ok kind (ROpt v) \<longleftrightarrow> kind = 41 \<and> options_ok v"
| "rdata_ok kind (RNsec n m) \<longleftrightarrow> kind = 47 \<and> name_ok n \<and> bitmap_valid m = Ok ()"
| "rdata_ok kind (RSvcb p n v) \<longleftrightarrow> kind \<in> {64, 65} \<and> name_ok n \<and> options_ok v \<and> sorted_wrt (<) (map fst v)
     \<and> (p \<noteq> 0 \<longrightarrow> svcb_valid v = Ok ())"
| "rdata_ok kind (RBytes v) \<longleftrightarrow> kind \<in> {43, 59, 50, 51} \<and> 4 \<le> length v"
| "rdata_ok kind (ROpaque v) \<longleftrightarrow> kind \<notin> {1, 28, 2, 5, 12, 39, 33, 16, 6, 15, 18, 21, 36, 14, 17, 26, 25, 48, 60, 24, 46, 41, 47, 64, 65, 43, 59, 50, 51}"

lemma p_take_Ok: "p_take b fin n s = Ok (l, t) \<longleftrightarrow> ps_at s + n \<le> fin \<and> ps_at s + n \<le> length b \<and> l = take n (drop (ps_at s) b) \<and> t = s\<lparr>ps_at := ps_at s + n\<rparr>"
  by (auto simp: p_take_def take_at_cases)

lemma p_then_assoc: "p_then (p_then m f) g = p_then m (\<lambda>x. p_then (f x) g)"
proof
  fix s show "p_then (p_then m f) g s = p_then m (\<lambda>x. p_then (f x) g) s"
    by (cases "m s") (auto simp: p_then_def)
qed

text \<open>A read followed by what depends on it.\<close>

lemma reads_to_read_then [reader]:
  "(\<And>l. length l = n \<Longrightarrow> reads_to b fin (f1 l) Q) \<Longrightarrow> reads_to b fin (p_then (p_take b fin n) f1) Q"
  "(\<And>x. reads_to b fin (f2 x) Q) \<Longrightarrow> reads_to b fin (p_then (p_u8 b fin) f2) Q"
  "(\<And>x. reads_to b fin (f3 x) Q) \<Longrightarrow> reads_to b fin (p_then (p_u16 b fin) f3) Q"
  "(\<And>x. reads_to b fin (f4 x) Q) \<Longrightarrow> reads_to b fin (p_then (p_u32 b fin) f4) Q"
  "(\<And>l. reads_to b fin (f5 l) Q) \<Longrightarrow> reads_to b fin (p_then (p_rest b fin) f5) Q"
  "(\<And>x. name_ok x \<Longrightarrow> reads_to b fin (f6 x) Q) \<Longrightarrow> reads_to b fin (p_then (p_name b fin compressed) f6) Q"
  "(\<And>v. strings_ok v \<Longrightarrow> reads_to b fin (f7 v) Q) \<Longrightarrow> reads_to b fin (p_then (p_strings b fin []) f7) Q"
  "(\<And>v. options_ok v \<Longrightarrow> (ordered \<longrightarrow> sorted_wrt (<) (map fst v)) \<Longrightarrow> reads_to b fin (f8 v) Q) \<Longrightarrow>
     reads_to b fin (p_then (p_options b fin ordered None []) f8) Q"
  "(\<And>u. r = Ok u \<Longrightarrow> reads_to b fin (f9 u) Q) \<Longrightarrow> r \<noteq> Panic \<Longrightarrow> reads_to b fin (p_then (p_lift r) f9) Q"
proof -
  show "reads_to b fin (p_then (p_options b fin ordered None []) f8) Q"
    if "\<And>v. options_ok v \<Longrightarrow> (ordered \<longrightarrow> sorted_wrt (<) (map fst v)) \<Longrightarrow> reads_to b fin (f8 v) Q"
    by (rule reads_to_then [OF reads_to_options]) (use that in \<open>auto simp: options_ok_def\<close>)
  show "reads_to b fin (p_then (p_strings b fin []) f7) Q" if "\<And>v. strings_ok v \<Longrightarrow> reads_to b fin (f7 v) Q"
    by (rule reads_to_then [OF reads_to_strings that]) (simp add: strings_ok_def)
  show "reads_to b fin (p_then (p_lift r) f9) Q" if "\<And>u. r = Ok u \<Longrightarrow> reads_to b fin (f9 u) Q" "r \<noteq> Panic"
    by (rule reads_to_then [OF reads_to_lift [where Q = "\<lambda>u. r = Ok u"] that(1)]) (use that(2) in \<open>cases r; simp\<close>)
qed (blast intro: reads_to_then [OF reads_to_take] reads_to_then [OF reads_to_u8] reads_to_then [OF reads_to_u16]
    reads_to_then [OF reads_to_u32] reads_to_then [OF reads_to_rest] reads_to_then [OF reads_to_name])+

lemma valid_no_panic: "bitmap_valid v \<noteq> Panic" "svcb_valid params \<noteq> Panic"
  using bitmap_valid_ensures [of v] by (auto simp: svcb_valid_def)

lemma reads_to_hashed: "reads_to b fin (p_hashed b fin denial) (\<lambda>d. \<exists>v. d = RBytes v \<and> 4 \<le> length v)"
proof (rule reads_toI)
  fix s assume s: "within b fin s"
  let ?rest = "p_then (p_u8 b fin) (\<lambda>salt. p_then (p_take b fin (unat salt)) (\<lambda>_.
     if denial then p_then (p_u8 b fin) (\<lambda>hash. if hash = 0 then p_lift (Err InvalidData)
           else p_then (p_take b fin (unat hash)) (\<lambda>_. p_then (p_rest b fin) (\<lambda>bitmap. p_lift (bitmap_valid bitmap))))
     else p_return ()))"
  have r: "reads_to b fin ?rest (\<lambda>_. True)"
    by (intro reader ensures_mono [OF bitmap_valid_ensures] TrueI) simp_all
  have "p_hashed b fin denial s = p_then (p_take b fin 4) (\<lambda>_. p_then ?rest (\<lambda>_ t. map_ok (\<lambda>bs. (RBytes bs, t)) (slice_r b (ps_at s) (ps_at t)))) s"
    unfolding p_hashed_def p_then_assoc ..
  then have eq: "p_hashed b fin denial s = and_then (p_take b fin 4 s) (\<lambda>(_, t). and_then (?rest t) (\<lambda>(_, u). map_ok (\<lambda>bs. (RBytes bs, u)) (slice_r b (ps_at s) (ps_at u))))"
    by (simp only: p_then_def [of "p_take b fin 4"] p_then_def [of ?rest])
  from reads_to_take [of b fin 4] s show "ensures (p_hashed b fin denial s) (\<lambda>(d, t). (\<exists>v. d = RBytes v \<and> 4 \<le> length v) \<and> within b fin t \<and> ps_at s \<le> ps_at t)"
  proof (cases rule: reads_to_cases)
    case t: (ok l t)
    then have "ps_at t = ps_at s + 4" by (auto simp: p_take_Ok)
    from r t(3) show ?thesis
    proof (cases rule: reads_to_cases)
      case u: (ok x u)
      have "ps_at s + 4 \<le> ps_at u" "ps_at u \<le> length b" using u \<open>ps_at t = _\<close> by (auto simp: within_def)
      then show ?thesis unfolding eq t(1) using u by simp
    qed (simp add: eq t)
  qed (simp add: eq)
qed


lemma reads_to_rdata: "reads_to b fin (p_rdata b kind fin srv_compressed mdns) (rdata_ok kind)"
proof (rule reads_toI)
  fix s assume s: "within b fin s"
  then have n: "sub_chk fin (ps_at s) = (Ok (fin - ps_at s) :: (io_error, nat) outcome)" by (simp add: sub_chk_def within_def)
  have fields: "reads_to b fin (p_then (p_name b fin c) (\<lambda>x. p_return (RName x))) (rdata_ok kind)" if "kind \<in> {2, 5, 12, 39}" for c
    by (intro reader) (use that in simp)
  have srv: "reads_to b fin (p_srv b fin c) (rdata_ok kind)" if "kind = 33" for c
    unfolding p_srv_def by (intro reader) (use that in simp)
  have strs: "reads_to b fin (p_txt b fin) (rdata_ok kind)" if "kind = 16"
    unfolding p_txt_def by (intro reader) (use that in simp)
  have soa: "reads_to b fin (p_soa b fin) (rdata_ok kind)" if "kind = 6"
    unfolding p_soa_def by (intro reader) (use that in simp)
  have pref: "reads_to b fin (p_preference b fin c) (rdata_ok kind)" if "kind \<in> {15, 18, 21, 36}" for c
    unfolding p_preference_def by (intro reader) (use that in simp)
  have two: "reads_to b fin (p_two_names b fin) (rdata_ok kind)" if "kind \<in> {14, 17}"
    unfolding p_two_names_def by (intro reader) (use that in simp)
  have px: "reads_to b fin (p_px b fin) (rdata_ok kind)" if "kind = 26"
    unfolding p_px_def by (intro reader) (use that in simp)
  have key: "reads_to b fin (p_key b fin) (rdata_ok kind)" if "kind \<in> {25, 48, 60}"
    unfolding p_key_def by (intro reader) (use that in simp)
  have sig: "reads_to b fin (p_sig b fin) (rdata_ok kind)" if "kind \<in> {24, 46}"
    unfolding p_sig_def by (intro reader) (use that in simp)
  have opt: "reads_to b fin (p_then (p_options b fin False None []) (\<lambda>v. p_return (ROpt v))) (rdata_ok kind)" if "kind = 41"
    by (intro reader) (use that in simp)
  have nsec: "reads_to b fin (p_nsec b fin c) (rdata_ok kind)" if "kind = 47" for c
    unfolding p_nsec_def by (intro reader) (use that in \<open>auto simp: valid_no_panic\<close>)
  have svcb: "reads_to b fin (p_svcb b fin) (rdata_ok kind)" if "kind \<in> {64, 65}"
    unfolding p_svcb_def by (intro reader) (use that in \<open>auto simp: valid_no_panic\<close>)
  have digest: "reads_to b fin (p_digest b fin n) (rdata_ok kind)" if "kind \<in> {43, 59}" for n
    unfolding p_digest_def by (intro reader) (use that in \<open>auto split: option.splits\<close>)
  have hashed: "reads_to b fin (p_hashed b fin d) (rdata_ok kind)" if "kind \<in> {50, 51}" for d
    by (rule reads_to_mono [OF reads_to_hashed]) (use that in auto)
  have bytes: "reads_to b fin (p_then (p_take b fin n) (\<lambda>bs. p_return (f bs))) (rdata_ok kind)" if "\<And>bs. length bs = n \<Longrightarrow> rdata_ok kind (f bs)" for n f
    by (intro reader that)
  have "reads_to b fin (p_rdata_of b kind fin (fin - ps_at s) srv_compressed mdns) (rdata_ok kind)"
    unfolding p_rdata_of_def
    by (intro reads_to_if; (rule fields srv strs soa pref two px key sig opt nsec svcb digest hashed bytes reads_to_lift, simp; fail)?)
  from reads_toD [OF this s]
  show "ensures (p_rdata b kind fin srv_compressed mdns s) (\<lambda>(x, t). rdata_ok kind x \<and> within b fin t \<and> ps_at s \<le> ps_at t)"
    by (simp add: p_rdata_def n)
qed

subsection \<open>Records and messages\<close>

lemma p_u16_Ok: "p_u16 b fin s = Ok (w, t) \<longleftrightarrow> ps_at s + 2 \<le> fin \<and> ps_at s + 2 \<le> length b
    \<and> w = from_be (take 2 (drop (ps_at s) b)) \<and> t = s\<lparr>ps_at := ps_at s + 2\<rparr>"
  by (auto simp: p_u16_def p_then_def p_lift_def p_take_Ok and_then_Ok_iff be_array_def)

lemma p_u32_Ok: "p_u32 b fin s = Ok (w, t) \<longleftrightarrow> ps_at s + 4 \<le> fin \<and> ps_at s + 4 \<le> length b
    \<and> w = from_be (take 4 (drop (ps_at s) b)) \<and> t = s\<lparr>ps_at := ps_at s + 4\<rparr>"
  by (auto simp: p_u32_def p_then_def p_lift_def p_take_Ok and_then_Ok_iff be_array_def)

definition data_ok :: "u16 \<Rightarrow> dns_record \<Rightarrow> bool" where
  "data_ok flags r \<longleftrightarrow> (if rr_data r = REmpty then is_update flags \<and> rr_class r \<in> {254, 255} else rdata_ok (rr_kind r) (rr_data r))"

definition record_ok :: "u16 \<Rightarrow> dns_record \<Rightarrow> bool" where
  "record_ok flags r \<longleftrightarrow> name_ok (rr_name r) \<and> data_ok flags r"

text \<open>The span of a record: owner, fixed part with the time to live, and data, in the original bytes.\<close>

definition span_ok :: "bytes \<Rightarrow> dns_record \<Rightarrow> record_span \<Rightarrow> bool" where
  "span_ok b r sp \<longleftrightarrow> fst (sp_wire sp) < sp_ttl sp \<and> fst (sp_rdata sp) = sp_ttl sp + 6 \<and> fst (sp_rdata sp) \<le> snd (sp_rdata sp)
     \<and> snd (sp_rdata sp) = snd (sp_wire sp) \<and> snd (sp_wire sp) \<le> length b \<and> rr_ttl r = from_be (take 4 (drop (sp_ttl sp) b))"

lemma rdata_part:
  assumes u: "within b (length b) u" and fin: "ps_at u + n \<le> length b"
  shows "ensures (if is_update flags \<and> n = 0 \<and> (class = 254 \<or> class = 255) then Ok (REmpty, u)
          else p_rdata b kind (ps_at u + n) c m u) (\<lambda>(d, v). within b (length b) v
      \<and> data_ok flags \<lparr>rr_name = x, rr_kind = kind, rr_class = class, rr_ttl = ttl, rr_data = d\<rparr>)"
proof -
  have w: "within b (ps_at u + n) u" using u fin by (simp add: within_def)
  have "rdata_ok kind d \<Longrightarrow> d \<noteq> REmpty" for d by auto
  then show ?thesis
    using reads_toD [OF reads_to_rdata w, of kind c m] u fin
    by (auto simp: data_ok_def within_def elim!: ensures_mono)
qed

lemma p_record_ensures:
  assumes s: "within b (length b) s"
  shows "ensures (p_record b context flags sect opt_seen s) (\<lambda>((r, sp, o'), t). within b (length b) t \<and> record_ok flags r \<and> span_ok b r sp
     \<and> sp_wire sp = (ps_at s, ps_at t) \<and> (rr_kind r = 41 \<longrightarrow> sect = 2 \<and> \<not> opt_seen \<and> n_labels (rr_name r) = [])
     \<and> o' = (opt_seen \<or> rr_kind r = 41))"
proof -
  let ?z = "length b"
  from reads_to_name s show ?thesis
  proof (cases rule: reads_to_cases [where m = "p_name b ?z True"])
    case n: (ok n s1)
    from reads_to_u16 n(3) show ?thesis
    proof (cases rule: reads_to_cases)
      case k: (ok kind s2)
      from reads_to_u16 k(3) show ?thesis
      proof (cases rule: reads_to_cases)
        case c: (ok cls t)
        from reads_to_u32 c(3) show ?thesis
        proof (cases rule: reads_to_cases)
          case l: (ok ttl s3)
          from reads_to_u16 l(3) show ?thesis
          proof (cases rule: reads_to_cases)
            case u: (ok len u)
            have at: "ps_at s < ps_at t" "ps_at u = ps_at t + 6" "ttl = from_be (take 4 (drop (ps_at t) b))"
              using n(4) k(1) c(1) l(1) u(1) by (auto simp: p_u16_Ok p_u32_Ok)
            let ?fin = "ps_at u + unat len"
            let ?r = "\<lambda>d. \<lparr>rr_name = n, rr_kind = kind, rr_class = cls, rr_ttl = ttl, rr_data = d\<rparr>"
            have run: "p_record b context flags sect opt_seen s =
              (if length b < ?fin then Err InvalidData
               else if kind = 41 \<and> (sect \<noteq> 2 \<or> opt_seen \<or> n_labels n \<noteq> []) then Err InvalidData
               else and_then (if is_update flags \<and> len = 0 \<and> (cls = 254 \<or> cls = 255) then Ok (REmpty, u)
                  else p_rdata b kind ?fin (context = Mdns \<or> is_update flags) (context = Mdns) u) (\<lambda>(data, v).
               if ps_at v \<noteq> ?fin then Err InvalidData
               else Ok ((?r data, \<lparr>sp_wire = (ps_at s, ps_at v), sp_ttl = ps_at t, sp_rdata = (ps_at u, ?fin)\<rparr>, opt_seen \<or> kind = 41), v)))"
              using n k c l u by (simp add: p_record_def p_then_def Let_def)
            show ?thesis
            proof (cases "length b < ?fin \<or> kind = 41 \<and> (sect \<noteq> 2 \<or> opt_seen \<or> n_labels n \<noteq> [])")
              case False
              have zero: "(len = 0) = (unat len = 0)" by (simp add: unat_eq_0)
              have "ensures (if is_update flags \<and> len = 0 \<and> (cls = 254 \<or> cls = 255) then Ok (REmpty, u)
                  else p_rdata b kind ?fin (context = Mdns \<or> is_update flags) (context = Mdns) u)
                  (\<lambda>(d, v). within b (length b) v \<and> data_ok flags (?r d))"
                unfolding zero by (rule rdata_part [OF u(3)]) (use False in simp)
              then show ?thesis
                unfolding run using False at n(2)
                by (auto simp: ensures_and_then record_ok_def span_ok_def within_def elim!: ensures_mono)
            qed (use run in auto)
          qed (use n k c l in \<open>simp add: p_record_def p_then_def\<close>)
        qed (use n k c in \<open>simp add: p_record_def p_then_def\<close>)
      qed (use n k in \<open>simp add: p_record_def p_then_def\<close>)
    qed (use n in \<open>simp add: p_record_def p_then_def\<close>)
  qed (simp add: p_record_def p_then_def)
qed

definition all_records :: "dns_message \<Rightarrow> dns_record list" where
  "all_records m = m_answers m @ m_authority m @ m_additional m"

fun tiles :: "nat \<Rightarrow> record_span list \<Rightarrow> nat \<Rightarrow> bool" where
  "tiles a [] z \<longleftrightarrow> a = z"
| "tiles a (sp # sps) z \<longleftrightarrow> fst (sp_wire sp) = a \<and> tiles (snd (sp_wire sp)) sps z"

lemma tiles_snoc: "tiles a (sps @ [sp]) z \<longleftrightarrow> tiles a sps (fst (sp_wire sp)) \<and> snd (sp_wire sp) = z"
  by (induction sps arbitrary: a) auto

text \<open>The records read so far; the OPT record, of which there is at most one, is an additional record of the root.\<close>

definition opts :: "dns_record list \<Rightarrow> dns_record list" where
  "opts rs = filter (\<lambda>r. rr_kind r = 41) rs"

definition read_ok :: "bytes \<Rightarrow> nat \<Rightarrow> dns_message \<Rightarrow> bool \<Rightarrow> nat \<Rightarrow> bool" where
  "read_ok b a m seen at \<longleftrightarrow> list_all (record_ok (m_flags m)) (all_records m) \<and> list_all2 (span_ok b) (all_records m) (m_spans m)
     \<and> tiles a (m_spans m) at \<and> opts (m_answers m) = [] \<and> opts (m_authority m) = []
     \<and> length (opts (m_additional m)) = of_bool seen \<and> list_all (\<lambda>r. n_labels (rr_name r) = []) (opts (m_additional m))"

definition room :: "nat \<Rightarrow> dns_message \<Rightarrow> bool" where
  "room sect m \<longleftrightarrow> (sect < 2 \<longrightarrow> m_additional m = []) \<and> (sect < 1 \<longrightarrow> m_authority m = [])"

definition section_size :: "nat \<Rightarrow> dns_message \<Rightarrow> nat" where
  "section_size sect m = length (if sect = 0 then m_answers m else if sect = 1 then m_authority m else m_additional m)"

lemma add_record_sections:
  "room sect m \<Longrightarrow> all_records (add_record sect r sp m) = all_records m @ [r]"
  "room sect m \<Longrightarrow> room sect (add_record sect r sp m)"
  "m_flags (add_record sect r sp m) = m_flags m" "m_spans (add_record sect r sp m) = m_spans m @ [sp]"
  "m_questions (add_record sect r sp m) = m_questions m" "m_id (add_record sect r sp m) = m_id m"
  by (auto simp: add_record_def Let_def all_records_def room_def)

lemma read_ok_add:
  assumes ok: "read_ok b a m seen at" and room: "room sect m" and r: "record_ok (m_flags m) r" "span_ok b r sp"
    and sp: "sp_wire sp = (at, at')" and k: "rr_kind r = 41 \<longrightarrow> sect = 2 \<and> \<not> seen \<and> n_labels (rr_name r) = []"
  shows "read_ok b a (add_record sect r sp m) (seen \<or> rr_kind r = 41) at'"
proof -
  let ?m = "add_record sect r sp m"
  have "list_all (record_ok (m_flags ?m)) (all_records ?m)" "list_all2 (span_ok b) (all_records ?m) (m_spans ?m)" "tiles a (m_spans ?m) at'"
    using ok r sp by (simp_all add: add_record_sections(1) [OF room] add_record_sections(3-) read_ok_def tiles_snoc list_all2_appendI)
  moreover have "opts (m_answers ?m) = [] \<and> opts (m_authority ?m) = [] \<and> length (opts (m_additional ?m)) = of_bool (seen \<or> rr_kind r = 41)
      \<and> list_all (\<lambda>r. n_labels (rr_name r) = []) (opts (m_additional ?m))"
    using ok k by (cases "rr_kind r = 41") (auto simp: read_ok_def add_record_def Let_def opts_def)
  ultimately show ?thesis by (simp add: read_ok_def)
qed

lemma p_section_ensures:
  assumes "within b (length b) s" and "read_ok b a m seen (ps_at s)" and "room sect m" and "sect \<le> 2"
  shows "ensures (p_section b context sect k (m, seen) s) (\<lambda>((m', seen'), t). within b (length b) t \<and> read_ok b a m' seen' (ps_at t)
     \<and> room sect m' \<and> m_questions m' = m_questions m \<and> m_flags m' = m_flags m \<and> m_id m' = m_id m
     \<and> (\<forall>i \<le> 2. section_size i m' = section_size i m + (if i = sect then k else 0)))"
  using assms
proof (induction k arbitrary: m seen s)
  case (Suc k)
  show ?case
  proof (cases "p_record b context (m_flags m) sect seen s")
    case (Ok y)
    obtain r sp o' t where y: "y = ((r, sp, o'), t)" by (metis surj_pair)
    have t: "within b (length b) t" "record_ok (m_flags m) r" "span_ok b r sp" "sp_wire sp = (ps_at s, ps_at t)"
      "rr_kind r = 41 \<longrightarrow> sect = 2 \<and> \<not> seen \<and> n_labels (rr_name r) = []" "o' = (seen \<or> rr_kind r = 41)"
      using p_record_ensures [OF Suc.prems(1), of "context" "m_flags m" sect seen] Ok y by auto
    let ?m = "add_record sect r sp m"
    have sz: "section_size i ?m = section_size i m + (if i = sect then 1 else 0)" if "i \<le> 2" for i
      using that Suc.prems(4) by (auto simp: section_size_def add_record_def Let_def)
    have "read_ok b a ?m o' (ps_at t)" unfolding t(6) by (rule read_ok_add [OF Suc.prems(2,3) t(2-5)])
    from Suc.IH [OF t(1) this add_record_sections(2) [OF Suc.prems(3)] Suc.prems(4)]
    show ?thesis using Ok y sz by (auto simp: p_then_def add_record_sections elim!: ensures_mono)
  next
    case Panic
    then show ?thesis using p_record_ensures [OF Suc.prems(1), of "context" "m_flags m" sect seen] by simp
  qed (simp add: p_then_def)
qed (simp add: p_return_def)

lemma reads_to_questions:
  "list_all (\<lambda>q. name_ok (q_name q)) qs \<Longrightarrow> reads_to b (length b) (p_questions b k qs) (\<lambda>qs'. list_all (\<lambda>q. name_ok (q_name q)) qs' \<and> length qs' = length qs + k)"
proof (induction k arbitrary: qs)
  case (Suc k)
  have "reads_to b (length b) (p_question b) (\<lambda>q :: question. (\<lambda>q. name_ok (q_name q)) q)" unfolding p_question_def by (intro reader) simp
  then show ?case
    unfolding p_questions.simps
  proof (rule reads_to_then)
    fix q :: question assume "(\<lambda>q. name_ok (q_name q)) q"
    with Suc.prems Suc.IH [of "qs @ [q]"] show "reads_to b (length b) (p_questions b k (qs @ [q])) (\<lambda>qs'. list_all (\<lambda>q. name_ok (q_name q)) qs' \<and> length qs' = length qs + Suc k)"
      by simp
  qed
qed (simp add: reads_to_return)

text \<open>A parsed message: every name, record and count within its bounds, the spans tiling the bytes behind the questions.\<close>

definition message_ok :: "dns_message \<Rightarrow> bool" where
  "message_ok m \<longleftrightarrow> list_all (\<lambda>q. name_ok (q_name q)) (m_questions m) \<and> (\<exists>seen a. read_ok (m_original m) a m seen (length (m_original m)))
     \<and> length (m_questions m) + length (all_records m) \<le> MAX_RECORDS"

lemma ensures_p_then: "ensures (p_then m f s) Q \<longleftrightarrow> ensures (m s) (\<lambda>(x, t). ensures (f x t) Q)"
  by (cases "m s") (auto simp: p_then_def)

lemma sections_ensures:
  assumes s: "within b (length b) s" and ok: "read_ok b a m seen (ps_at s)" and m: "m_answers m = []" "m_authority m = []" "m_additional m = []"
  shows "ensures (p_then (p_section b context 0 an (m, seen)) (\<lambda>mo. p_then (p_section b context 1 ns mo) (\<lambda>mo. p_section b context 2 ar mo)) s)
     (\<lambda>((m', seen'), t). read_ok b a m' seen' (ps_at t) \<and> m_questions m' = m_questions m \<and> length (all_records m') = an + ns + ar)"
  unfolding ensures_p_then
proof (rule ensures_mono [OF p_section_ensures [OF s ok]], goal_cases)
  case (3 z)
  obtain m0 o0 t where z: "z = ((m0, o0), t)" by (metis surj_pair)
  have 0: "within b (length b) t" "read_ok b a m0 o0 (ps_at t)" "room 1 m0" "m_questions m0 = m_questions m"
    "\<forall>i \<le> 2. section_size i m0 = section_size i m + (if i = 0 then an else 0)"
    using 3 z by (auto simp: room_def)
  have "ensures (p_section b context 1 ns (m0, o0) t) (\<lambda>(mo, u). ensures (p_section b context 2 ar mo u)
     (\<lambda>((m', seen'), t). read_ok b a m' seen' (ps_at t) \<and> m_questions m' = m_questions m \<and> length (all_records m') = an + ns + ar))"
  proof (rule ensures_mono [OF p_section_ensures [OF 0(1-3)]], goal_cases)
    case (2 z)
    obtain m1 o1 u where z: "z = ((m1, o1), u)" by (metis surj_pair)
    have 1: "within b (length b) u" "read_ok b a m1 o1 (ps_at u)" "room 2 m1" "m_questions m1 = m_questions m"
      "\<forall>i \<le> 2. section_size i m1 = section_size i m0 + (if i = 1 then ns else 0)"
      using 2 z 0(4) by (auto simp: room_def)
    have "ensures (p_section b context 2 ar (m1, o1) u)
     (\<lambda>((m', seen'), t). read_ok b a m' seen' (ps_at t) \<and> m_questions m' = m_questions m \<and> length (all_records m') = an + ns + ar)"
    proof (rule ensures_mono [OF p_section_ensures [OF 1(1-3)]], goal_cases)
      case (2 z)
      obtain m2 o2 x where z: "z = ((m2, o2), x)" by (metis surj_pair)
      have "section_size i m2 = section_size i m1 + (if i = 2 then ar else 0)" if "i \<le> 2" for i using 2 z that by auto
      from this [of 0] this [of 1] this [of 2] have "length (all_records m2) = an + ns + ar"
        using 1(5) [rule_format, of 0] 1(5) [rule_format, of 1] 1(5) [rule_format, of 2]
          0(5) [rule_format, of 0] 0(5) [rule_format, of 1] 0(5) [rule_format, of 2] m
        by (simp add: section_size_def all_records_def)
      then show ?case using 2 z 1(4) by simp
    qed simp
    then show ?case using z by simp
  qed simp
  then show ?case using z by simp
qed (simp_all add: room_def m)

lemma u16at_cases: "u16at b at = (if at + 2 \<le> length b then Ok (from_be (take 2 (drop at b))) else Err InvalidData)"
  by (simp add: u16at_def get_range_def be_array_def)

lemma dns_parse_ensures: "ensures (dns_parse b context) (\<lambda>m. message_ok m \<and> m_original m = b)"
proof (cases "length b < 12 \<or> MAX_WIRE < length b")
  case False
  let ?u = "\<lambda>at. from_be (take 2 (drop at b)) :: u16"
  let ?s = "\<lparr>ps_known = replicate (length b) False, ps_work = 0, ps_at = 12\<rparr>"
  have s: "within b (length b) ?s" using False by (simp add: within_def)
  have u: "u16at b 0 = Ok (?u 0)" "u16at b 2 = Ok (?u 2)" "u16at b 4 = Ok (?u 4)" "u16at b 6 = Ok (?u 6)" "u16at b 8 = Ok (?u 8)" "u16at b 10 = Ok (?u 10)"
    using False by (simp_all add: u16at_cases)
  show ?thesis
  proof (cases "MAX_RECORDS < unat (?u 4) + unat (?u 6) + unat (?u 8) + unat (?u 10)")
    case small: False
    have run: "ensures (p_then (p_questions b (unat (?u 4)) []) (\<lambda>qs.
             p_then (p_section b context 0 (unat (?u 6)) ((message_new (?u 0) (?u 2))\<lparr>m_questions := qs\<rparr>, False)) (\<lambda>mo.
             p_then (p_section b context 1 (unat (?u 8)) mo) (\<lambda>mo. p_section b context 2 (unat (?u 10)) mo))) ?s)
       (\<lambda>((m, seen), t). ps_at t = length b \<longrightarrow> message_ok (m\<lparr>m_original := b\<rparr>))"
    proof -
      have "ensures (p_questions b (unat (?u 4)) [] ?s) (\<lambda>(qs, t). (list_all (\<lambda>q. name_ok (q_name q)) qs \<and> length qs = unat (?u 4)) \<and> within b (length b) t)"
        using reads_toD [OF reads_to_questions s, of "[]" "unat (?u 4)"] by (auto elim!: ensures_mono)
      then show ?thesis
        unfolding ensures_p_then [of "p_questions b (unat (?u 4)) []"]
      proof (rule ensures_mono, goal_cases)
        case (1 z)
        obtain qs t where z: "z = (qs, t)" by (cases z)
        let ?m = "(message_new (?u 0) (?u 2))\<lparr>m_questions := qs\<rparr>"
        have "read_ok b (ps_at t) ?m False (ps_at t)" by (simp add: read_ok_def message_new_def all_records_def opts_def)
        moreover have "message_ok (m\<lparr>m_original := b\<rparr>)" if "read_ok b (ps_at t) m o' (length b)" "m_questions m = qs"
          "length (all_records m) = unat (?u 6) + unat (?u 8) + unat (?u 10)" for m o'
        proof -
          have "all_records (m\<lparr>m_original := b\<rparr>) = all_records m" by (simp add: all_records_def)
          moreover from this have "read_ok b (ps_at t) (m\<lparr>m_original := b\<rparr>) o' (length b)" using that(1) by (simp add: read_ok_def)
          ultimately show ?thesis using 1 z that(2,3) small by (auto simp: message_ok_def)
        qed
        ultimately show ?case
          using sections_ensures [of b t "ps_at t" ?m False "context" "unat (?u 6)" "unat (?u 8)" "unat (?u 10)"] 1 z
          by (auto simp: message_new_def elim!: ensures_mono)
      qed
    qed
    show ?thesis using False small u run by (auto simp: dns_parse_def Let_def ensures_and_then elim!: ensures_mono)
  qed (use False u in \<open>simp add: dns_parse_def Let_def\<close>)
qed (simp add: dns_parse_def)

end
