(* ===== verification/Dns_Wire_Read.thy ===== *)
theory Dns_Wire_Read
  imports Dns_Wire_Parse
begin

text \<open>
  Reading back what an encoder has laid out: names with and without pointers, and the data of every
  record type.
\<close>

section \<open>Reading what was written\<close>

text \<open>
  \<open>name_at T b at ls fin\<close>: the bytes at \<open>at\<close> spell the labels \<open>ls\<close> and end before \<open>fin\<close>. Pointers are
  allowed unless \<open>T\<close>.
\<close>

inductive name_at :: "bool \<Rightarrow> bytes \<Rightarrow> nat \<Rightarrow> bytes list \<Rightarrow> nat \<Rightarrow> bool" for T b where
  stop: "at < length b \<Longrightarrow> b ! at = 0 \<Longrightarrow> name_at T b at [] (at + 1)"
| label: "at + 1 + length l \<le> length b \<Longrightarrow> l \<noteq> [] \<Longrightarrow> length l \<le> 63 \<Longrightarrow> b ! at = of_nat (length l) \<Longrightarrow>
    take (length l) (drop (at + 1) b) = l \<Longrightarrow> name_at T b (at + 1 + length l) ls fin \<Longrightarrow> name_at T b at (l # ls) fin"
| pointer: "\<not> T \<Longrightarrow> at + 2 \<le> length b \<Longrightarrow> 192 \<le> b ! at \<Longrightarrow> name_at T b (pointer_target b at) ls fin \<Longrightarrow> name_at T b at ls (at + 2)"

lemma label_octet:
  assumes "l \<noteq> []" "length l \<le> 63"
  shows "(of_nat (length l) :: u8) \<noteq> 0" "(of_nat (length l) :: u8) \<le> 63" "unat (of_nat (length l) :: u8) = length l"
proof -
  show u: "unat (of_nat (length l) :: u8) = length l" using assms by (intro unat_of_nat_u8) simp
  then show "(of_nat (length l) :: u8) \<noteq> 0" "(of_nat (length l) :: u8) \<le> 63"
    using assms by (auto simp: word_le_nat_alt)
qed

lemma name_at_append: "name_at T b at ls fin \<Longrightarrow> name_at T (b @ x) at ls fin"
proof (induction rule: name_at.induct)
  case (stop at)
  then show ?case using name_at.stop [of at "b @ x" T] by (simp add: nth_append)
next
  case (label at l ls fin)
  then show ?case by (intro name_at.label) (auto simp: nth_append)
next
  case (pointer at ls fin)
  then show ?case using name_at.pointer [of T at "b @ x" ls fin] by (simp add: nth_append)
qed

lemma name_at_end: "name_at T b at ls fin \<Longrightarrow> at < fin \<and> fin \<le> length b"
  by (induction rule: name_at.induct) auto

lemma name_at_zero: "name_at T b at ls fin \<Longrightarrow> b ! at = 0 \<Longrightarrow> ls = [] \<and> fin = at + 1"
proof (erule name_at.cases, goal_cases)
  case (2 at' l ls' fin')
  then show ?case using label_octet(1) [of l] by simp
qed auto

lemma name_at_label:
  assumes "name_at T b at ls fin" and "b ! at \<noteq> 0" and "b ! at \<le> 63"
  obtains l ls' where "ls = l # ls'" and "length l = unat (b ! at)" and "l = take (unat (b ! at)) (drop (at + 1) b)"
    and "name_at T b (at + 1 + unat (b ! at)) ls' fin"
  using assms(1)
proof (cases rule: name_at.cases)
  case (label l ls')
  then have "unat (b ! at) = length l" using label_octet(3) [of l] by simp
  then show ?thesis by (intro that [of l ls']) (use label in simp_all)
next
  case pointer
  then show ?thesis using assms(3) by (auto simp: word_le_nat_alt)
qed (use assms in simp)

lemma name_at_pointer:
  assumes "name_at T b at ls fin" and "192 \<le> b ! at"
  obtains fin' where "fin = at + 2" and "name_at T b (pointer_target b at) ls fin'"
  using assms(1)
proof (cases rule: name_at.cases)
  case (label l ls')
  then show ?thesis using assms(2) label_octet [of l] by (simp add: word_le_nat_alt)
qed (use assms that in auto)

lemma walk_name_at:
  assumes "walk_name b compressed known work w = Ok (work', w')" and "name_at T b (w_pos w) ls fin"
  shows "w_labels w' = w_labels w @ ls \<and> (case w_consumed w of None \<Rightarrow> (case w_consumed w' of None \<Rightarrow> w_pos w' | Some x \<Rightarrow> x) = fin
    | Some x \<Rightarrow> w_consumed w' = Some x)"
  using assms
proof (induction arbitrary: ls fin rule: walk_Ok_induct)
  case (zero work w)
  then show ?case by (auto dest: name_at_zero split: option.splits)
next
  case (label work w work' w')
  from label.prems label.hyps(2,3) obtain l ls' where "ls = l # ls'" "l = take (unat (b ! w_pos w)) (drop (w_pos w + 1) b)"
    "name_at T b (w_pos w + 1 + unat (b ! w_pos w)) ls' fin" by (rule name_at_label)
  then show ?case using label.IH [of ls' fin] by (simp split: option.splits)
next
  case (pointer work w work' w')
  from pointer.prems pointer.hyps(1) obtain fin' where "fin = w_pos w + 2" "name_at T b (pointer_target b (w_pos w)) ls fin'"
    by (rule name_at_pointer)
  then show ?case using pointer.IH [of ls fin'] by (simp split: option.splits)
qed

lemma walk_name_total:
  assumes "name_at True b at ls fin" and "w_pos w = at" and "fin \<le> w_limit w" and "work + (fin - at) \<le> MAX_WORK"
    and "w_length w + sum_list (map (\<lambda>l. length l + 1) ls) \<le> 255"
  shows "\<exists>work' w'. walk_name b compressed known work w = Ok (work', w') \<and> work' \<le> work + (fin - at)"
  using assms
proof (induction arbitrary: work w rule: name_at.induct)
  case (stop at)
  then show ?case by (subst walk_step) auto
next
  case (label at l ls fin)
  note o = label_octet [OF label.hyps(2,3)]
  have f: "at + 1 + length l < fin" using name_at_end [OF label.hyps(6)] by simp
  have "work < MAX_WORK" using f label.prems by linarith
  let ?w = "label_read b w"
  have p: "w_pos ?w = at + 1 + length l" "w_length ?w + sum_list (map (\<lambda>l. length l + 1) ls) \<le> 255" "fin \<le> w_limit ?w"
    using label.prems label.hyps(4) o by simp_all
  have "\<exists>work' w'. walk_name b compressed known (work + 1) ?w = Ok (work', w') \<and> work' \<le> work + 1 + (fin - (at + 1 + length l))"
    by (rule label.IH [OF p(1,3) _ p(2)]) (use f label.prems in simp)
  moreover have "walk_name b compressed known work w = walk_name b compressed known (work + 1) ?w"
    using label.prems label.hyps o f \<open>work < MAX_WORK\<close> by (subst walk_step) (simp add: Let_def)
  ultimately show ?case using f by fastforce
qed simp


text \<open>
  \<open>reads T b m at x fin\<close>: from the cursor \<open>at\<close>, the reader can only give \<open>x\<close> and leave the cursor at
  \<open>fin\<close>; if \<open>T\<close>, it does. In a message without pointers the work done is never more than the cursor.
\<close>

definition ready :: "bool \<Rightarrow> bytes \<Rightarrow> parser \<Rightarrow> bool" where
  "ready T b s \<longleftrightarrow> length (ps_known s) = length b \<and> (T \<longrightarrow> ps_work s \<le> ps_at s \<and> length b \<le> MAX_WIRE)"

definition reads :: "bool \<Rightarrow> bytes \<Rightarrow> 'a reader \<Rightarrow> nat \<Rightarrow> 'a \<Rightarrow> nat \<Rightarrow> bool" where
  "reads T b m at x fin \<longleftrightarrow> (\<forall>s. ps_at s = at \<longrightarrow> ready T b s \<longrightarrow>
     (\<forall>y t. m s = Ok (y, t) \<longrightarrow> y = x \<and> ps_at t = fin \<and> ready T b t) \<and> (T \<longrightarrow> (\<exists>y t. m s = Ok (y, t))))"

lemma readsD: "reads T b m at x fin \<Longrightarrow> m s = Ok (y, t) \<Longrightarrow> ps_at s = at \<Longrightarrow> ready T b s \<Longrightarrow> y = x \<and> ps_at t = fin \<and> ready T b t"
  unfolding reads_def by blast

lemma readsT: "reads True b m at x fin \<Longrightarrow> ps_at s = at \<Longrightarrow> ready True b s \<Longrightarrow> \<exists>t. m s = Ok (x, t) \<and> ps_at t = fin \<and> ready True b t"
  unfolding reads_def by blast

named_theorems written \<open>rules for reading back\<close>

lemma reads_return [written]: "x = y \<Longrightarrow> at = fin \<Longrightarrow> reads T b (p_return x) at y fin"
  by (simp add: reads_def p_return_def)

lemma reads_then:
  assumes "reads T b m at x mid" and "reads T b (f x) mid y fin"
  shows "reads T b (p_then m f) at y fin"
  unfolding reads_def
proof (intro allI impI conjI)
  fix s y' t
  assume s: "ps_at s = at" "ready T b s"
  { assume "p_then m f s = Ok (y', t)"
    then obtain x' u where u: "m s = Ok (x', u)" "f x' u = Ok (y', t)" by (auto simp: p_then_def and_then_Ok_iff)
    have "x' = x \<and> ps_at u = mid \<and> ready T b u" by (rule readsD [OF assms(1) u(1) s])
    then have "y' = y \<and> ps_at t = fin \<and> ready T b t" using readsD [OF assms(2), of u y' t] u(2) by simp }
  then show "p_then m f s = Ok (y', t) \<Longrightarrow> y' = y" "p_then m f s = Ok (y', t) \<Longrightarrow> ps_at t = fin" "p_then m f s = Ok (y', t) \<Longrightarrow> ready T b t"
    by simp_all
  assume T: T
  then obtain u where u: "m s = Ok (x, u)" "ps_at u = mid" "ready True b u" using readsT [of b m at x mid s] assms(1) s by auto
  then obtain v where "f x u = Ok (y, v)" using readsT [of b "f x" mid y fin u] assms(2) T by auto
  then show "\<exists>y t. p_then m f s = Ok (y, t)" using u by (simp add: p_then_def)
qed

lemma reads_lift:
  assumes "\<And>y. r = Ok y \<Longrightarrow> y = x" and "T \<Longrightarrow> r = Ok x" and "at = fin"
  shows "reads T b (p_lift r) at x fin"
  unfolding reads_def p_lift_def using assms by (cases r) auto

definition bytes_at :: "bytes \<Rightarrow> nat \<Rightarrow> bytes \<Rightarrow> bool" where
  "bytes_at b at v \<longleftrightarrow> at + length v \<le> length b \<and> take (length v) (drop at b) = v"

lemma bytes_at_append: "bytes_at b at (v @ w) \<longleftrightarrow> bytes_at b at v \<and> bytes_at b (at + length v) w"
  by (auto simp: bytes_at_def take_add add.commute)

lemma reads_take: "bytes_at b at v \<Longrightarrow> length v = n \<Longrightarrow> at + n \<le> fin \<Longrightarrow> reads T b (p_take b fin n) at v (at + n)"
  by (auto simp: reads_def p_take_Ok bytes_at_def ready_def)

lemma reads_u8: "bytes_at b at [w] \<Longrightarrow> at + 1 \<le> fin \<Longrightarrow> reads T b (p_u8 b fin) at w (at + 1)"
  unfolding p_u8_def by (rule reads_then [OF reads_take]) (auto intro: reads_lift)

lemma reads_u16: "bytes_at b at (to_be 2 w) \<Longrightarrow> at + 2 \<le> fin \<Longrightarrow> reads T b (p_u16 b fin) at w (at + 2)"
  unfolding p_u16_def by (rule reads_then [OF reads_take]) (auto intro: reads_lift simp: be_array_def)

lemma reads_u32: "bytes_at b at (to_be 4 w) \<Longrightarrow> at + 4 \<le> fin \<Longrightarrow> reads T b (p_u32 b fin) at w (at + 4)"
  unfolding p_u32_def by (rule reads_then [OF reads_take]) (auto intro: reads_lift simp: be_array_def)

lemma reads_rest: "bytes_at b at v \<Longrightarrow> fin = at + length v \<Longrightarrow> reads T b (p_rest b fin) at v fin"
  by (auto simp: reads_def p_rest_def sub_chk_def p_take_Ok bytes_at_def ready_def)

abbreviation walk0 :: "nat \<Rightarrow> nat \<Rightarrow> name_walk" where
  "walk0 at fin \<equiv> \<lparr>w_pos = at, w_limit = fin, w_consumed = None, w_labels = [], w_positions = [], w_length = 1, w_hops = 0\<rparr>"

lemma mark_known_length: "mark_known ps known = Ok known' \<Longrightarrow> length known' = length known"
  by (induction ps arbitrary: known) (auto split: if_splits)

lemma mark_known_no_err: "mark_known ps known \<noteq> Err e"
  by (induction ps arbitrary: known) auto

lemma reads_name:
  assumes n: "name_at T b at (n_labels n) fin'" and ok: "name_ok n" and fin: "fin' \<le> fin" "fin \<le> length b"
  shows "reads T b (p_name b fin compressed) at n fin'"
proof -
  have l: "from_labels (n_labels n) = Ok n" using ok by (simp add: from_labels_cases name_ok_def)
  have part: "y = n \<and> ps_at t = fin' \<and> length (ps_known t) = length (ps_known s)
      \<and> (\<exists>w'. walk_name b compressed (ps_known s) (ps_work s) (walk0 (ps_at s) fin) = Ok (ps_work t, w'))"
    if p: "p_name b fin compressed s = Ok (y, t)" "ps_at s = at" for s y t
  proof -
    obtain work' w' known where w: "walk_name b compressed (ps_known s) (ps_work s) (walk0 (ps_at s) fin) = Ok (work', w')"
      and k: "mark_known (w_positions w') (ps_known s) = Ok known" and f: "from_labels (w_labels w') = Ok y"
      and t: "t = \<lparr>ps_known = known, ps_work = work', ps_at = (case w_consumed w' of None \<Rightarrow> w_pos w' | Some x \<Rightarrow> x)\<rparr>"
      using p(1) by (auto simp: p_name_def and_then_Ok_iff)
    have "name_at T b (w_pos (walk0 (ps_at s) fin)) (n_labels n) fin'" using n p(2) by simp
    from walk_name_at [OF w this] have "w_labels w' = n_labels n" "(case w_consumed w' of None \<Rightarrow> w_pos w' | Some x \<Rightarrow> x) = fin'" by simp_all
    then show ?thesis using f l t w mark_known_length [OF k] by simp
  qed
  show ?thesis
    unfolding reads_def
  proof (intro allI impI)
    fix s assume s: "ps_at s = at" "ready T b s"
    have "\<exists>work' w'. walk_name b compressed (ps_known s) (ps_work s) (walk0 (ps_at s) fin) = Ok (work', w') \<and> work' \<le> ps_work s + (fin' - at)" if T
    proof (rule walk_name_total)
      show "name_at True b at (n_labels n) fin'" using n that by simp
      show "ps_work s + (fin' - at) \<le> MAX_WORK" using s that name_at_end [OF n] by (auto simp: ready_def)
    qed (use s fin ok in \<open>simp_all add: name_ok_def labels_ok_def\<close>)
    moreover have "\<exists>y t. p_name b fin compressed s = Ok (y, t)" if "walk_name b compressed (ps_known s) (ps_work s) (walk0 (ps_at s) fin) = Ok (work', w')" for work' w'
    proof -
      have "name_at T b (w_pos (walk0 (ps_at s) fin)) (n_labels n) fin'" using n s by simp
      from walk_name_at [OF that this] have ls: "w_labels w' = n_labels n" by simp
      have "within b fin s" using s fin name_at_end [OF n] by (simp add: within_def ready_def)
      then have "walk_ok b (ps_at s) fin (walk0 (ps_at s) fin)" by (simp add: walk_ok_def within_def)
      from walk_name_ok [OF that this] have "list_all (\<lambda>p. p < length (ps_known s)) (w_positions w')"
        using s(2) by (simp add: walk_ok_def ready_def)
      then obtain known where "mark_known (w_positions w') (ps_known s) = Ok known"
        using mark_known_ensures mark_known_no_err by (metis ensures.simps(3) outcome.exhaust)
      then show ?thesis using that ls l by (simp add: p_name_def)
    qed
    ultimately show "(\<forall>y t. p_name b fin compressed s = Ok (y, t) \<longrightarrow> y = n \<and> ps_at t = fin' \<and> ready T b t) \<and> (T \<longrightarrow> (\<exists>y t. p_name b fin compressed s = Ok (y, t)))"
      using part s name_at_end [OF n] unfolding ready_def by fastforce
  qed
qed

lemma reads_cong:
  assumes eq: "\<And>s. ps_at s = at \<Longrightarrow> m s = m' s" and r: "reads T b m' at x fin"
  shows "reads T b m at x fin"
  unfolding reads_def
proof (intro allI impI)
  fix s assume s: "ps_at s = at" "ready T b s"
  show "(\<forall>y t. m s = Ok (y, t) \<longrightarrow> y = x \<and> ps_at t = fin \<and> ready T b t) \<and> (T \<longrightarrow> (\<exists>y t. m s = Ok (y, t)))"
    unfolding eq [OF s(1)] using r s unfolding reads_def by blast
qed

subsection \<open>Strings and options\<close>

definition strings_bytes :: "bytes list \<Rightarrow> bytes" where
  "strings_bytes v = concat (map (\<lambda>l. of_nat (length l) # l) v)"

definition options_bytes :: "(u16 \<times> bytes) list \<Rightarrow> bytes" where
  "options_bytes v = concat (map (\<lambda>(k, l). to_be 2 k @ to_be 2 (of_nat (length l) :: u16) @ l) v)"

lemma reads_strings:
  "bytes_at b at (strings_bytes v) \<Longrightarrow> fin = at + length (strings_bytes v) \<Longrightarrow> strings_ok v \<Longrightarrow> reads T b (p_strings b fin acc) at (acc @ v) fin"
proof (induction v arbitrary: at acc)
  case Nil
  then show ?case by (intro reads_cong [OF _ reads_return]) (auto simp: strings_bytes_def p_strings.simps p_return_def)
next
  case (Cons l v)
  let ?n = "of_nat (length l) :: u8"
  have l: "length l \<le> 255" "strings_ok v" using Cons.prems(3) by (simp_all add: strings_ok_def)
  then have n: "unat ?n = length l" by (intro unat_of_nat_u8) simp
  have e: "strings_bytes (l # v) = [?n] @ l @ strings_bytes v" by (simp add: strings_bytes_def)
  have b: "bytes_at b at [?n]" "bytes_at b (at + 1) l" "bytes_at b (at + 1 + length l) (strings_bytes v)"
    and fin: "fin = at + 1 + length l + length (strings_bytes v)"
    using Cons.prems(1,2) unfolding e bytes_at_append by simp_all
  have IH: "reads T b (p_strings b fin (acc @ [l])) (at + 1 + length l) (acc @ l # v) fin"
    using Cons.IH [OF b(3) fin l(2), of "acc @ [l]"] by simp
  show ?case
  proof (rule reads_cong)
    show "p_strings b fin acc s = p_then (p_u8 b fin) (\<lambda>n. p_then (p_take b fin (unat n)) (\<lambda>l. p_strings b fin (acc @ [l]))) s" if "ps_at s = at" for s
      using that fin by (subst p_strings.simps) (simp add: p_then_def)
    have "reads T b (p_then (p_take b fin (unat ?n)) (\<lambda>l. p_strings b fin (acc @ [l]))) (at + 1) (acc @ l # v) fin"
      unfolding n by (rule reads_then [OF reads_take [OF b(2) refl]], use fin in simp, rule IH)
    then show "reads T b (p_then (p_u8 b fin) (\<lambda>n. p_then (p_take b fin (unat n)) (\<lambda>l. p_strings b fin (acc @ [l])))) at (acc @ l # v) fin"
      by (intro reads_then [OF reads_u8 [OF b(1)]]) (use fin in simp_all)
  qed
qed

lemma reads_options:
  "bytes_at b at (options_bytes v) \<Longrightarrow> fin = at + length (options_bytes v) \<Longrightarrow> options_ok v \<Longrightarrow>
   (ordered \<longrightarrow> sorted_wrt (<) (map fst v) \<and> (\<forall>p k. prev = Some p \<longrightarrow> k \<in> fst ` set v \<longrightarrow> p < k)) \<Longrightarrow>
   reads T b (p_options b fin ordered prev acc) at (acc @ v) fin"
proof (induction v arbitrary: at acc prev)
  case Nil
  then show ?case by (intro reads_cong [OF _ reads_return]) (auto simp: options_bytes_def p_options.simps p_return_def)
next
  case (Cons kl v)
  obtain k l where kl: "kl = (k, l)" by (cases kl)
  let ?n = "of_nat (length l) :: u16"
  have l: "length l \<le> MAX_WIRE" "options_ok v" using Cons.prems(3) kl by (simp_all add: options_ok_def)
  then have n: "unat ?n = length l" by (intro unat_of_nat_u16) simp
  have e: "options_bytes (kl # v) = to_be 2 k @ to_be 2 ?n @ l @ options_bytes v" by (simp add: options_bytes_def kl)
  have b: "bytes_at b at (to_be 2 k)" "bytes_at b (at + 2) (to_be 2 ?n)" "bytes_at b (at + 4) l" "bytes_at b (at + 4 + length l) (options_bytes v)"
    and fin: "fin = at + 4 + length l + length (options_bytes v)"
    using Cons.prems(1,2) unfolding e bytes_at_append by (simp_all add: eval_nat_numeral)
  have up: "\<not> (ordered \<and> (case prev of None \<Rightarrow> False | Some p \<Rightarrow> k \<le> p))" using Cons.prems(4) kl by (fastforce split: option.splits)
  have IH: "reads T b (p_options b fin ordered (Some k) (acc @ [(k, l)])) (at + 4 + length l) (acc @ kl # v) fin"
    using Cons.IH [OF b(4) fin l(2), of "Some k" "acc @ [(k, l)]"] Cons.prems(4) kl by auto
  let ?m = "\<lambda>key n. if ordered \<and> (case prev of None \<Rightarrow> False | Some p \<Rightarrow> key \<le> p) then p_lift (Err InvalidData)
     else p_then (p_take b fin (unat n)) (\<lambda>l. p_options b fin ordered (Some key) (acc @ [(key, l)]))"
  have "p_options b fin ordered prev acc s = p_then (p_u16 b fin) (\<lambda>key. p_then (p_u16 b fin) (\<lambda>n. ?m key n)) s" if "ps_at s = at" for s
    using that fin by (subst p_options.simps) (auto simp: p_then_def p_lift_def intro!: arg_cong2 [where f = and_then] ext)
  moreover have "reads T b (?m k ?n) (at + 4) (acc @ kl # v) fin"
    unfolding n if_not_P [OF up] by (rule reads_then [OF reads_take [OF b(3) refl]], use fin in simp, rule IH)
  then have "reads T b (p_then (p_u16 b fin) (\<lambda>n. ?m k n)) (at + 2) (acc @ kl # v) fin"
    by (intro reads_then [OF reads_u16 [OF b(2)]]) (use fin in \<open>simp_all add: eval_nat_numeral\<close>)
  then have "reads T b (p_then (p_u16 b fin) (\<lambda>key. p_then (p_u16 b fin) (\<lambda>n. ?m key n))) at (acc @ kl # v) fin"
    by (intro reads_then [OF reads_u16 [OF b(1)]]) (use fin in simp_all)
  ultimately show ?case by (rule reads_cong)
qed

subsection \<open>Writers\<close>

definition name_wire :: "bytes list \<Rightarrow> bytes" where
  "name_wire ls = concat (map (\<lambda>l. of_nat (length l) # l) ls) @ [0]"

lemma name_wire_simps [simp]: "name_wire [] = [0]" "name_wire (l # ls) = of_nat (length l) # l @ name_wire ls"
  by (simp_all add: name_wire_def)

lemma name_write_wire: "name_write n = name_wire (n_labels n)"
  by (simp add: name_write_def name_wire_def)

lemma name_at_wire:
  "list_all (\<lambda>l. l \<noteq> [] \<and> length l \<le> 63) ls \<Longrightarrow> name_at T (p @ name_wire ls @ q) (length p) ls (length p + length (name_wire ls))"
proof (induction ls arbitrary: p)
  case Nil
  then show ?case using name_at.stop [of "length p" "p @ name_wire [] @ q" T] by (simp add: nth_append)
next
  case (Cons l ls)
  let ?p = "p @ of_nat (length l) # l"
  have "name_at T (?p @ name_wire ls @ q) (length ?p) ls (length ?p + length (name_wire ls))" by (rule Cons.IH) (use Cons.prems in simp)
  then have IH: "name_at T (p @ name_wire (l # ls) @ q) (length p + 1 + length l) ls (length p + length (name_wire (l # ls)))"
    by (simp add: add.assoc)
  show ?case by (rule name_at.label [OF _ _ _ _ _ IH]) (use Cons.prems in \<open>simp_all add: nth_append\<close>)
qed

lemma bytes_at_name:
  assumes "bytes_at b at (name_wire ls)" and "list_all (\<lambda>l. l \<noteq> [] \<and> length l \<le> 63) ls"
  shows "name_at T b at ls (at + length (name_wire ls))"
proof -
  have "b = take at b @ name_wire ls @ drop (at + length (name_wire ls)) b"
    using assms(1) unfolding bytes_at_def by (metis add.commute append_take_drop_id drop_drop)
  moreover have "length (take at b) = at" using assms(1) by (simp add: bytes_at_def)
  ultimately show ?thesis using name_at_wire [OF assms(2), of T "take at b" "drop (at + length (name_wire ls)) b"] by simp
qed

lemma name_ok_labels: "name_ok n \<Longrightarrow> list_all (\<lambda>l. l \<noteq> [] \<and> length l \<le> 63) (n_labels n)"
  by (simp add: name_ok_def labels_ok_def)

text \<open>The layout of the data of each type.\<close>

fun laid_out :: "bool \<Rightarrow> bytes \<Rightarrow> nat \<Rightarrow> rdata \<Rightarrow> nat \<Rightarrow> bool" where
  "laid_out T b at REmpty fin \<longleftrightarrow> fin = at"
| "laid_out T b at (RA a) fin \<longleftrightarrow> bytes_at b at a \<and> fin = at + length a"
| "laid_out T b at (RAaaa a) fin \<longleftrightarrow> bytes_at b at a \<and> fin = at + length a"
| "laid_out T b at (RName n) fin \<longleftrightarrow> name_at T b at (n_labels n) fin"
| "laid_out T b at (RSrv p w q n) fin \<longleftrightarrow> bytes_at b at (to_be 2 p @ to_be 2 w @ to_be 2 q) \<and> name_at T b (at + 6) (n_labels n) fin"
| "laid_out T b at (RTxt v) fin \<longleftrightarrow> bytes_at b at (strings_bytes v) \<and> fin = at + length (strings_bytes v)"
| "laid_out T b at (RPreference p n) fin \<longleftrightarrow> bytes_at b at (to_be 2 p) \<and> name_at T b (at + 2) (n_labels n) fin"
| "laid_out T b at (RTwoNames x y) fin \<longleftrightarrow> (\<exists>mid. name_at T b at (n_labels x) mid \<and> name_at T b mid (n_labels y) fin)"
| "laid_out T b at (RPx p x y) fin \<longleftrightarrow> bytes_at b at (to_be 2 p) \<and> (\<exists>mid. name_at T b (at + 2) (n_labels x) mid \<and> name_at T b mid (n_labels y) fin)"
| "laid_out T b at (RSoa x y s r t e m) fin \<longleftrightarrow> (\<exists>mid mid'. name_at T b at (n_labels x) mid \<and> name_at T b mid (n_labels y) mid'
     \<and> bytes_at b mid' (to_be 4 s @ to_be 4 r @ to_be 4 t @ to_be 4 e @ to_be 4 m) \<and> fin = mid' + 20)"
| "laid_out T b at (RKey f p a k) fin \<longleftrightarrow> bytes_at b at (to_be 2 f @ [p] @ [a] @ k) \<and> fin = at + 4 + length k"
| "laid_out T b at (RSig c a l t e i k n s) fin \<longleftrightarrow> bytes_at b at (to_be 2 c @ [a] @ [l] @ to_be 4 t @ to_be 4 e @ to_be 4 i @ to_be 2 k
     @ name_wire (n_labels n) @ s) \<and> fin = at + 18 + length (name_wire (n_labels n)) + length s"
| "laid_out T b at (ROpt v) fin \<longleftrightarrow> bytes_at b at (options_bytes v) \<and> fin = at + length (options_bytes v)"
| "laid_out T b at (RNsec n m) fin \<longleftrightarrow> (\<exists>mid. name_at T b at (n_labels n) mid \<and> bytes_at b mid m \<and> fin = mid + length m)"
| "laid_out T b at (RSvcb p n v) fin \<longleftrightarrow> bytes_at b at (to_be 2 p @ name_wire (n_labels n) @ options_bytes v)
     \<and> fin = at + 2 + length (name_wire (n_labels n)) + length (options_bytes v)"
| "laid_out T b at (RBytes v) fin \<longleftrightarrow> bytes_at b at v \<and> fin = at + length v"
| "laid_out T b at (ROpaque v) fin \<longleftrightarrow> False"

text \<open>The structure of digests and hashed denials.\<close>

definition hashed_ok :: "bool \<Rightarrow> bytes \<Rightarrow> bool" where
  "hashed_ok denial v \<longleftrightarrow> 5 \<le> length v \<and> (let salt = unat (v ! 4) in
     if denial then 6 + salt \<le> length v \<and> (let hash = unat (v ! (5 + salt)) in hash \<noteq> 0 \<and> 6 + salt + hash \<le> length v
       \<and> bitmap_valid (drop (6 + salt + hash) v) = Ok ())
     else length v = 5 + salt)"

fun bytes_ok :: "u16 \<Rightarrow> rdata \<Rightarrow> bool" where
  "bytes_ok kind (RBytes v) \<longleftrightarrow> (if kind \<in> {50, 51} then hashed_ok (kind = 50) v
     else (case digest_size (v ! 3) of None \<Rightarrow> True | Some n \<Rightarrow> length v = n + 4))"
| "bytes_ok kind _ \<longleftrightarrow> True"

lemma laid_out_end: "laid_out T b at d fin \<Longrightarrow> d \<noteq> REmpty \<Longrightarrow> at \<le> fin \<and> fin \<le> length b"
  by (cases d) (auto simp: bytes_at_def dest!: name_at_end)

text \<open>A read of what is there, followed by the rest.\<close>

lemma reads_step:
  "bytes_at b at (to_be 2 w) \<Longrightarrow> at + 2 \<le> fin \<Longrightarrow> reads T b (f w) (at + 2) y z \<Longrightarrow> reads T b (p_then (p_u16 b fin) f) at y z"
  "bytes_at b at (to_be 4 v) \<Longrightarrow> at + 4 \<le> fin \<Longrightarrow> reads T b (g v) (at + 4) y z \<Longrightarrow> reads T b (p_then (p_u32 b fin) g) at y z"
  "bytes_at b at [c] \<Longrightarrow> at + 1 \<le> fin \<Longrightarrow> reads T b (h c) (at + 1) y z \<Longrightarrow> reads T b (p_then (p_u8 b fin) h) at y z"
  "name_at T b at (n_labels n) mid \<Longrightarrow> name_ok n \<Longrightarrow> mid \<le> fin \<Longrightarrow> fin \<le> length b \<Longrightarrow> reads T b (k n) mid y z \<Longrightarrow>
     reads T b (p_then (p_name b fin compressed) k) at y z"
  "bytes_at b at x \<Longrightarrow> fin = at + length x \<Longrightarrow> reads T b (l x) fin y z \<Longrightarrow> reads T b (p_then (p_rest b fin) l) at y z"
  by (blast intro: reads_then reads_u16 reads_u32 reads_u8 reads_name reads_rest)+

lemma bytes_at_Cons: "bytes_at b at (x # y # v) \<longleftrightarrow> bytes_at b at [x] \<and> bytes_at b (Suc at) (y # v)"
  using bytes_at_append [of b at "[x]" "y # v"] by simp

lemma bytes_at_Cons_append: "bytes_at b at (x # v @ w) \<longleftrightarrow> bytes_at b at [x] \<and> bytes_at b (Suc at) (v @ w)"
  using bytes_at_append [of b at "[x]" "v @ w"] by simp

lemma bytes_at_Cons': "bytes_at b at (x # v) \<longleftrightarrow> bytes_at b at [x] \<and> bytes_at b (Suc at) v"
  using bytes_at_append [of b at "[x]" "v"] by simp

lemma forward:
  "at + 4 = Suc (Suc (Suc (Suc at)))" "at + 6 = Suc (Suc (Suc (Suc (Suc (Suc at)))))" for at :: nat
  by simp_all

lemmas layout = bytes_at_append bytes_at_Cons bytes_at_Cons_append forward

lemma reads_fields:
  assumes fin: "fin \<le> length b"
  shows "laid_out T b at (RSrv p w q n) fin \<Longrightarrow> name_ok n \<Longrightarrow> reads T b (p_srv b fin c) at (RSrv p w q n) fin"
    and "laid_out T b at (RPreference p n) fin \<Longrightarrow> name_ok n \<Longrightarrow> reads T b (p_preference b fin c) at (RPreference p n) fin"
    and "laid_out T b at (RTwoNames n n') fin \<Longrightarrow> name_ok n \<Longrightarrow> name_ok n' \<Longrightarrow> reads T b (p_two_names b fin) at (RTwoNames n n') fin"
    and "laid_out T b at (RPx p n n') fin \<Longrightarrow> name_ok n \<Longrightarrow> name_ok n' \<Longrightarrow> reads T b (p_px b fin) at (RPx p n n') fin"
proof -
  assume l: "laid_out T b at (RSrv p w q n) fin" "name_ok n"
  then show "reads T b (p_srv b fin c) at (RSrv p w q n) fin"
    unfolding p_srv_def using fin name_at_end [of T b "at + 6" "n_labels n" fin]
    by (intro reads_step reads_return) (auto simp: layout)
next
  assume l: "laid_out T b at (RPreference p n) fin" "name_ok n"
  then show "reads T b (p_preference b fin c) at (RPreference p n) fin"
    unfolding p_preference_def using fin name_at_end [of T b "at + 2" "n_labels n" fin]
    by (intro reads_step reads_return) (auto simp: layout)
next
  assume l: "laid_out T b at (RTwoNames n n') fin" "name_ok n" "name_ok n'"
  then obtain mid where "name_at T b at (n_labels n) mid" "name_at T b mid (n_labels n') fin" by auto
  then show "reads T b (p_two_names b fin) at (RTwoNames n n') fin"
    unfolding p_two_names_def using fin l name_at_end [of T b mid "n_labels n'" fin]
    by (intro reads_step(4) reads_return) auto
next
  assume l: "laid_out T b at (RPx p n n') fin" "name_ok n" "name_ok n'"
  then obtain mid where "name_at T b (at + 2) (n_labels n) mid" "name_at T b mid (n_labels n') fin" by auto
  then show "reads T b (p_px b fin) at (RPx p n n') fin"
    unfolding p_px_def using fin l name_at_end [of T b mid "n_labels n'" fin] name_at_end [of T b "at + 2" "n_labels n" mid]
    by (intro reads_step(1,4) reads_return) (auto simp: layout)
qed

lemma reads_soa:
  assumes l: "laid_out T b at (RSoa x y s r t e m) fin" and ok: "name_ok x" "name_ok y" and fin: "fin \<le> length b"
  shows "reads T b (p_soa b fin) at (RSoa x y s r t e m) fin"
proof -
  obtain mid mid' where n: "name_at T b at (n_labels x) mid" "name_at T b mid (n_labels y) mid'"
    and d: "bytes_at b mid' (to_be 4 s @ to_be 4 r @ to_be 4 t @ to_be 4 e @ to_be 4 m)" and f: "fin = mid' + 20" using l by auto
  have z: "mid \<le> fin" "mid' \<le> fin" using name_at_end [OF n(2)] f by simp_all
  show ?thesis
    unfolding p_soa_def
    by (rule reads_step(4) [OF n(1) ok(1) z(1) fin], rule reads_step(4) [OF n(2) ok(2) z(2) fin], intro reads_step(2) reads_return)
      (use d f in \<open>simp_all add: bytes_at_append add.assoc\<close>)
qed

lemma reads_key:
  assumes "laid_out T b at (RKey f p a k) fin"
  shows "reads T b (p_key b fin) at (RKey f p a k) fin"
  unfolding p_key_def using assms by (intro reads_step reads_return) (auto simp: layout bytes_at_Cons' [of b _ a k])

lemma reads_sig:
  assumes l: "laid_out T b at (RSig c a l t e i k n s) fin" and ok: "name_ok n" "s \<noteq> []" and fin: "fin \<le> length b"
  shows "reads T b (p_sig b fin) at (RSig c a l t e i k n s) fin"
proof -
  let ?mid = "at + 18 + length (name_wire (n_labels n))"
  let ?head = "to_be 2 c @ [a] @ [l] @ to_be 4 t @ to_be 4 e @ to_be 4 i @ to_be 2 k"
  have "bytes_at b at (?head @ name_wire (n_labels n) @ s)" using l by simp
  then have head: "bytes_at b at ?head" and w: "bytes_at b (at + 18) (name_wire (n_labels n))" and s: "bytes_at b ?mid s"
    unfolding bytes_at_append [of b at ?head] bytes_at_append [of b _ "name_wire (n_labels n)"] by simp_all
  have f: "fin = ?mid + length s" using l by simp
  note n = bytes_at_name [OF w name_ok_labels [OF ok(1)], of T]
  have last: "reads T b (p_then (p_name b fin False) (\<lambda>signer. p_then (p_rest b fin) (\<lambda>signature. p_lift (if signature = [] then Err InvalidData
             else Ok (RSig c a l t e i k signer signature))))) (at + 18) (RSig c a l t e i k n s) fin"
    by (rule reads_step(4) [OF n ok(1) _ fin], use f in simp, rule reads_step(5) [OF s f], rule reads_lift) (use ok in auto)
  have z: "at + 2 + 1 + 1 + 4 + 4 + 4 + 2 = at + 18" by simp
  have h: "bytes_at b at (to_be 2 c)" "bytes_at b (at + 2) [a]" "bytes_at b (at + 2 + 1) [l]" "bytes_at b (at + 2 + 1 + 1) (to_be 4 t)"
    "bytes_at b (at + 2 + 1 + 1 + 4) (to_be 4 e)" "bytes_at b (at + 2 + 1 + 1 + 4 + 4) (to_be 4 i)" "bytes_at b (at + 2 + 1 + 1 + 4 + 4 + 4) (to_be 2 k)"
    using head by (simp_all add: layout)
  show ?thesis
    unfolding p_sig_def
    by (rule reads_step(1) [OF h(1)], use f in simp, rule reads_step(3) [OF h(2)], use f in simp, rule reads_step(3) [OF h(3)], use f in simp,
        rule reads_step(2) [OF h(4)], use f in simp, rule reads_step(2) [OF h(5)], use f in simp, rule reads_step(2) [OF h(6)], use f in simp,
        rule reads_step(1) [OF h(7)], use f in simp) (use last in \<open>simp only: z\<close>)
qed

lemma reads_nsec:
  assumes l: "laid_out T b at (RNsec n m) fin" and ok: "name_ok n" "bitmap_valid m = Ok ()" and fin: "fin \<le> length b"
  shows "reads T b (p_nsec b fin c) at (RNsec n m) fin"
proof -
  obtain mid where n: "name_at T b at (n_labels n) mid" "bytes_at b mid m" "fin = mid + length m" using l by auto
  show ?thesis
    unfolding p_nsec_def
    by (rule reads_step(4) [OF n(1) ok(1) _ fin], use n in simp, rule reads_step(5) [OF n(2,3)], rule reads_then [OF reads_lift [OF _ _ refl]])
      (use ok in \<open>auto intro: reads_return\<close>)
qed

lemma reads_svcb:
  assumes l: "laid_out T b at (RSvcb p n v) fin" and ok: "name_ok n" "options_ok v" "sorted_wrt (<) (map fst v)" "p \<noteq> 0 \<longrightarrow> svcb_valid v = Ok ()"
    and fin: "fin \<le> length b"
  shows "reads T b (p_svcb b fin) at (RSvcb p n v) fin"
proof -
  let ?mid = "at + 2 + length (name_wire (n_labels n))"
  have p: "bytes_at b at (to_be 2 p)" and w: "bytes_at b (at + 2) (name_wire (n_labels n))" and v: "bytes_at b ?mid (options_bytes v)"
    and f: "fin = ?mid + length (options_bytes v)"
    using l by (simp_all add: bytes_at_append)
  have o: "reads T b (p_options b fin True None []) ?mid ([] @ v) fin" by (rule reads_options [OF v f ok(2)]) (use ok in simp)
  have "reads T b (p_then (p_options b fin True None []) (\<lambda>params. p_then (p_lift (if p \<noteq> 0 then svcb_valid params else Ok ()))
      (\<lambda>_. p_return (RSvcb p n params)))) ?mid (RSvcb p n v) fin"
    by (rule reads_then [OF o], rule reads_then [OF reads_lift [OF _ _ refl]]) (use ok in \<open>auto intro: reads_return\<close>)
  then show ?thesis
    unfolding p_svcb_def using f
    by (intro reads_step(1) [OF p] reads_step(4) [OF bytes_at_name [OF w name_ok_labels [OF ok(1)]] ok(1) _ fin]) simp_all
qed

lemma reads_texts:
  assumes "laid_out T b at (RTxt v) fin" "v \<noteq> []" "strings_ok v"
  shows "reads T b (p_txt b fin) at (RTxt v) fin"
  unfolding p_txt_def
proof (rule reads_then)
  show "reads T b (p_strings b fin []) at ([] @ v) fin" by (rule reads_strings) (use assms in simp_all)
qed (use assms in \<open>auto intro!: reads_lift\<close>)

lemma reads_digest:
  assumes "bytes_at b at v" "fin = at + length v" "4 \<le> length v" "case digest_size (v ! 3) of None \<Rightarrow> True | Some n \<Rightarrow> length v = n + 4"
  shows "reads T b (p_digest b fin (length v)) at (RBytes v) fin"
proof -
  have i: "reads T b (p_lift (idx v 3)) fin (v ! 3) fin" using assms(3) by (intro reads_lift) auto
  have "reads T b (p_then (p_lift (idx v 3)) (\<lambda>kind. p_lift (if (case digest_size kind of None \<Rightarrow> False | Some k \<Rightarrow> length v \<noteq> k + 4)
      then Err InvalidData else Ok (RBytes v)))) fin (RBytes v) fin"
    by (rule reads_then [OF i], rule reads_lift) (use assms(4) in \<open>auto split: option.splits\<close>)
  then show ?thesis
    using assms(1-3) reads_take [OF assms(1) refl, of fin T] unfolding p_digest_def by (auto intro: reads_then)
qed

lemma reads_hashed:
  assumes v: "bytes_at b at v" "fin = at + length v" and ok: "hashed_ok denial v" and fin: "fin \<le> length b"
  shows "reads T b (p_hashed b fin denial) at (RBytes v) fin"
proof -
  let ?salt = "unat (v ! 4)"
  have len: "5 \<le> length v" "5 + ?salt \<le> length v" using ok by (auto simp: hashed_ok_def Let_def split: if_splits)
  have sub: "bytes_at b (at + i) (take n (drop i v))" if "i + n \<le> length v" for i n
  proof -
    have "v = take i v @ take n (drop i v) @ drop n (drop i v)" by (simp only: append_take_drop_id)
    then show ?thesis using v(1) that bytes_at_append [of b at "take i v"] bytes_at_append [of b "at + i" "take n (drop i v)"] by (metis length_take min.absorb2 add_leD1)
  qed
  have one: "bytes_at b (at + i) [v ! i]" if "i < length v" for i
    using sub [of i 1] that by (simp add: take_Suc_conv_app_nth [of 0, simplified])
  let ?D = "if denial then p_then (p_u8 b fin) (\<lambda>hash. if hash = 0 then p_lift (Err InvalidData)
           else p_then (p_take b fin (unat hash)) (\<lambda>_. p_then (p_rest b fin) (\<lambda>bitmap. p_lift (bitmap_valid bitmap)))) else p_return ()"
  let ?last = "\<lambda>t. map_ok (\<lambda>bs. (RBytes bs, t)) (slice_r b at (ps_at t))"
  have last: "reads T b ?last fin (RBytes v) fin"
    using v by (auto simp: reads_def bytes_at_def)
  have D: "reads T b ?D (at + 5 + ?salt) () fin"
  proof (cases denial)
    case True
    let ?hash = "unat (v ! (5 + ?salt))"
    have h: "?hash \<noteq> 0" "6 + ?salt + ?hash \<le> length v" "bitmap_valid (drop (6 + ?salt + ?hash) v) = Ok ()"
      using ok True by (auto simp: hashed_ok_def Let_def)
    let ?k = "6 + ?salt + ?hash"
    have rest: "bytes_at b (at + ?k) (drop ?k v)" using sub [of ?k "length v - ?k"] h by simp
    have "reads T b (p_then (p_rest b fin) (\<lambda>bitmap. p_lift (bitmap_valid bitmap))) (at + ?k) () fin"
      by (rule reads_then [OF reads_rest [OF rest]], use v h in simp, rule reads_lift) (use h in auto)
    then have "reads T b (p_then (p_take b fin ?hash) (\<lambda>_. p_then (p_rest b fin) (\<lambda>bitmap. p_lift (bitmap_valid bitmap)))) (at + (6 + ?salt)) () fin"
      by (intro reads_then [OF reads_take [OF sub]]) (use v h in \<open>auto simp: add.assoc\<close>)
    moreover have "v ! (5 + ?salt) \<noteq> 0" using h(1) by auto
    ultimately have "reads T b (p_then (p_u8 b fin) (\<lambda>hash. if hash = 0 then p_lift (Err InvalidData)
           else p_then (p_take b fin (unat hash)) (\<lambda>_. p_then (p_rest b fin) (\<lambda>bitmap. p_lift (bitmap_valid bitmap))))) (at + (5 + ?salt)) () fin"
      by (intro reads_step(3) [OF one]) (use v(2) h in \<open>simp_all add: ac_simps\<close>)
    then show ?thesis using True by (simp add: add.assoc)
  next
    case False
    then have "length v = 5 + ?salt" using ok by (simp add: hashed_ok_def Let_def)
    then show ?thesis using False v by (simp add: reads_return)
  qed
  have "reads T b (p_then ?D (\<lambda>_. ?last)) (at + 5 + ?salt) (RBytes v) fin" by (rule reads_then [OF D last])
  then have "reads T b (p_then (p_take b fin ?salt) (\<lambda>_. p_then ?D (\<lambda>_. ?last))) (at + 5) (RBytes v) fin"
    by (intro reads_then [OF reads_take [OF sub [of 5 ?salt]]]) (use v len in simp_all)
  note salted = this
  have four: "at + 5 = at + 4 + 1" by simp
  have "reads T b (p_then (p_u8 b fin) (\<lambda>salt. p_then (p_take b fin (unat salt)) (\<lambda>_. p_then ?D (\<lambda>_. ?last)))) (at + 4) (RBytes v) fin"
    by (rule reads_step(3) [OF one [of 4]], use len in simp, use v len in simp, rule salted [unfolded four])
  note head = this
  have "reads T b (p_then (p_take b fin 4) (\<lambda>_. p_then (p_u8 b fin) (\<lambda>salt. p_then (p_take b fin (unat salt)) (\<lambda>_. p_then ?D (\<lambda>_. ?last))))) at (RBytes v) fin"
    by (rule reads_then [OF reads_take [OF sub [of 0 4, simplified]]], use len in simp, use len in simp, use v len in simp, rule head)
  then show ?thesis by (rule reads_cong [rotated]) (simp add: p_hashed_def)
qed

lemma reads_rdata:
  assumes l: "laid_out T b at d fin" and ok: "rdata_ok kind d" "bytes_ok kind d"
  shows "reads T b (p_rdata b kind fin c m) at d fin"
proof -
  have d: "d \<noteq> REmpty" using ok by auto
  note fin = laid_out_end [OF l d]
  have n: "sub_chk fin at = (Ok (fin - at) :: (io_error, nat) outcome)" using fin by (simp add: sub_chk_def)
  have "reads T b (p_rdata_of b kind fin (fin - at) c m) at d fin"
  proof (cases d)
    case (RA a)
    with l ok fin have "p_rdata_of b kind fin (fin - at) c m = p_then (p_take b fin 4) (\<lambda>a. p_return (RA a))" by (simp add: p_rdata_of_def)
    then show ?thesis using RA l ok by (auto intro!: reads_then [OF reads_take] reads_return)
  next
    case (RAaaa a)
    with l ok fin have "p_rdata_of b kind fin (fin - at) c m = p_then (p_take b fin 16) (\<lambda>a. p_return (RAaaa a))" by (simp add: p_rdata_of_def)
    then show ?thesis using RAaaa l ok by (auto intro!: reads_then [OF reads_take] reads_return)
  next
    case (RName x)
    with ok have "p_rdata_of b kind fin (fin - at) c m = p_then (p_name b fin (kind \<noteq> 39 \<or> m)) (\<lambda>x. p_return (RName x))"
      by (auto simp: p_rdata_of_def)
    then show ?thesis using RName l ok fin by (auto intro!: reads_step(4) reads_return)
  next
    case (RTxt v)
    with ok have "p_rdata_of b kind fin (fin - at) c m = p_txt b fin" by (auto simp: p_rdata_of_def)
    then show ?thesis using RTxt l ok fin reads_texts by auto
  next
    case (RPreference p x)
    with ok have "p_rdata_of b kind fin (fin - at) c m = p_preference b fin (kind \<noteq> 36 \<or> m)" by (auto simp: p_rdata_of_def)
    then show ?thesis using RPreference l ok fin reads_fields(2) by auto
  next
    case (RTwoNames x y)
    with ok have "p_rdata_of b kind fin (fin - at) c m = p_two_names b fin" by (auto simp: p_rdata_of_def)
    then show ?thesis using RTwoNames l ok fin reads_fields(3) by auto
  next
    case (RKey f p a k)
    with ok have "p_rdata_of b kind fin (fin - at) c m = p_key b fin" by (auto simp: p_rdata_of_def)
    then show ?thesis using RKey l ok fin reads_key by auto
  next
    case (RSig c' a l' t e i k x s)
    with ok have "p_rdata_of b kind fin (fin - at) c m = p_sig b fin" by (auto simp: p_rdata_of_def)
    then show ?thesis using RSig l ok fin reads_sig by auto
  next
    case (ROpt v)
    with ok have "p_rdata_of b kind fin (fin - at) c m = p_then (p_options b fin False None []) (\<lambda>v. p_return (ROpt v))" by (auto simp: p_rdata_of_def)
    moreover have "reads T b (p_options b fin False None []) at ([] @ v) fin" by (rule reads_options) (use ROpt l ok in auto)
    ultimately show ?thesis using ROpt by (auto intro!: reads_then reads_return)
  next
    case (RSvcb p x v)
    with ok have "p_rdata_of b kind fin (fin - at) c m = p_svcb b fin" by (auto simp: p_rdata_of_def)
    then show ?thesis using RSvcb l ok fin reads_svcb by auto
  next
    case (RBytes v)
    show ?thesis
    proof (cases "kind \<in> {50, 51}")
      case True
      then have "p_rdata_of b kind fin (fin - at) c m = p_hashed b fin (kind = 50)" by (auto simp: p_rdata_of_def)
      then show ?thesis using RBytes l ok fin True reads_hashed by auto
    next
      case False
      then have "p_rdata_of b kind fin (fin - at) c m = p_digest b fin (fin - at)" using ok RBytes by (auto simp: p_rdata_of_def)
      then show ?thesis using RBytes l ok fin False reads_digest by auto
    qed
  qed (use l ok fin in \<open>simp_all add: p_rdata_of_def reads_fields reads_soa reads_nsec\<close>)
  then show ?thesis by (rule reads_cong [rotated]) (simp add: p_rdata_def n)
qed

end
