(* ===== verification/Dns_Wire_Write.thy ===== *)
theory Dns_Wire_Write
  imports Dns_Wire_Read
begin

text \<open>
  Writing names and record data: what the encoder appends reads back, with names in full and with
  pointers into the compression dictionary.
\<close>

section \<open>Writers\<close>

lemma emit_simp [simp]: "emit bs (s, out) = Ok (s, out @ bs)"
  by (simp add: emit_def)

lemma write_strings_cases: "write_strings v (s, out) = (if strings_ok v then Ok (s, out @ strings_bytes v) else Err InvalidData)"
  by (induction v arbitrary: out) (auto simp: strings_ok_def strings_bytes_def w_then_def)

lemma write_options_cases: "write_options v (s, out) = (if options_ok v then Ok (s, out @ options_bytes v) else Err InvalidData)"
  by (induction v arbitrary: out) (auto simp: options_ok_def options_bytes_def w_then_def)

lemma laid_out_append: "laid_out T b at d fin \<Longrightarrow> laid_out T (b @ x) at d fin"
proof -
  have b: "bytes_at b i v \<Longrightarrow> bytes_at (b @ x) i v" for i v by (auto simp: bytes_at_def)
  show "laid_out T b at d fin \<Longrightarrow> laid_out T (b @ x) at d fin"
    by (cases d) (auto simp del: append_assoc intro: b name_at_append)
qed

lemma bytes_at_end: "bytes_at (out @ v @ w) (length out) v"
  by (simp add: bytes_at_def)

text \<open>A writer appends, and what it appends depends only on the length of what is there.\<close>

definition appends :: "'s writer \<Rightarrow> bool" where
  "appends w \<longleftrightarrow> (\<forall>s out s' out'. w (s, out) = Ok (s', out') \<longrightarrow>
     (\<exists>x. out' = out @ x \<and> (\<forall>out2. length out2 = length out \<longrightarrow> w (s, out2) = Ok (s', out2 @ x))))"

lemma appendsD:
  assumes "appends w" and "w (s, out) = Ok (s', out')"
  obtains x where "out' = out @ x" and "\<And>out2. length out2 = length out \<Longrightarrow> w (s, out2) = Ok (s', out2 @ x)"
  using assms unfolding appends_def by blast

lemma appends_emit: "appends (emit bs)"
  by (simp add: appends_def)

lemma appends_then:
  assumes "appends f" and "appends g"
  shows "appends (w_then f g)"
  unfolding appends_def
proof (intro allI impI)
  fix s out s' out'
  assume "w_then f g (s, out) = Ok (s', out')"
  then obtain s1 out1 where f: "f (s, out) = Ok (s1, out1)" and g: "g (s1, out1) = Ok (s', out')" by (auto simp: w_then_def and_then_Ok_iff)
  obtain x where x: "out1 = out @ x" "\<And>out2. length out2 = length out \<Longrightarrow> f (s, out2) = Ok (s1, out2 @ x)" using appendsD [OF assms(1) f] by blast
  obtain y where y: "out' = out1 @ y" "\<And>out2. length out2 = length out1 \<Longrightarrow> g (s1, out2) = Ok (s', out2 @ y)" using appendsD [OF assms(2) g] by blast
  have "w_then f g (s, out2) = Ok (s', out2 @ x @ y)" if "length out2 = length out" for out2
    using x(2) [OF that] y(2) [of "out2 @ x"] that x(1) by (simp add: w_then_def)
  then show "\<exists>x. out' = out @ x \<and> (\<forall>out2. length out2 = length out \<longrightarrow> w_then f g (s, out2) = Ok (s', out2 @ x))"
    using x(1) y(1) by auto
qed

lemma appends_cong: "(\<And>so. w so = w' so) \<Longrightarrow> appends w' \<Longrightarrow> appends w"
  by (simp add: appends_def)

lemma appends_strings: "appends (write_strings v)" and appends_options: "appends (write_options os)"
  by (auto simp: appends_def write_strings_cases write_options_cases)

lemma appends_fields:
  assumes wn: "\<And>n. appends (wn n)"
  shows "appends (write_fields wn d)"
proof -
  have c: "appends (write_fields wn d)" if "\<And>so. write_fields wn d so = w so" "appends w" for w
    using that by (rule appends_cong)
  show ?thesis
  proof (cases d)
    case (RSrv p w q n)
    show ?thesis by (rule c [OF _ appends_then [OF appends_emit wn]]) (simp add: RSrv)
  next
    case (RPreference p n)
    show ?thesis by (rule c [OF _ appends_then [OF appends_emit wn]]) (simp add: RPreference)
  next
    case (RTwoNames x y)
    show ?thesis by (rule c [OF _ appends_then [OF wn wn]]) (simp add: RTwoNames)
  next
    case (RPx p x y)
    show ?thesis by (rule c [OF _ appends_then [OF appends_emit appends_then [OF wn wn]]]) (simp add: RPx)
  next
    case (RSoa x y a b c' d' e)
    show ?thesis by (rule c [OF _ appends_then [OF wn appends_then [OF wn appends_emit]]]) (simp add: RSoa)
  next
    case (RNsec n m)
    show ?thesis by (rule c [OF _ appends_then [OF wn appends_emit]]) (simp add: RNsec)
  next
    case (RSvcb p n v)
    show ?thesis by (rule c [OF _ appends_then [OF appends_emit appends_options]]) (simp add: RSvcb)
  next
    case (RName n)
    show ?thesis by (rule c [OF _ wn]) (simp add: RName)
  qed (simp_all add: appends_def write_strings_cases write_options_cases)
qed

lemma appends_data:
  assumes "\<And>n. appends (wn n)"
  shows "appends (write_data_with wn d)"
  unfolding appends_def
proof (intro allI impI)
  fix s out s' out'
  assume "write_data_with wn d (s, out) = Ok (s', out')"
  then have f: "write_fields wn d (s, out) = Ok (s', out')" and z: "\<not> MAX_WIRE < length out'"
    by (auto simp: write_data_with_def and_then_Ok_iff split: if_splits)
  obtain x where x: "out' = out @ x" "\<And>out2. length out2 = length out \<Longrightarrow> write_fields wn d (s, out2) = Ok (s', out2 @ x)"
    using appendsD [OF appends_fields f] assms by blast
  then show "\<exists>x. out' = out @ x \<and> (\<forall>out2. length out2 = length out \<longrightarrow> write_data_with wn d (s, out2) = Ok (s', out2 @ x))"
    using z by (auto simp: write_data_with_def)
qed

text \<open>
  What the encoder relies on when it writes a name: it is appended, it reads back, and what the writer
  remembers stays usable when more is appended.
\<close>

locale name_writer =
  fixes wn :: "name \<Rightarrow> 's \<times> bytes \<Rightarrow> (io_error, 's \<times> bytes) outcome"
    and T :: bool
    and good :: "'s \<Rightarrow> bytes \<Rightarrow> bool"
  assumes writes: "wn n (s, out) = Ok (s', out') \<Longrightarrow> good s out \<Longrightarrow> name_ok n \<Longrightarrow>
      good s' out' \<and> name_at T out' (length out) (n_labels n) (length out')"
    and good_append: "good s out \<Longrightarrow> good s (out @ x)"
    and blind: "appends (wn n)"
begin

lemma written:
  assumes "wn n (s, out) = Ok (s', out')" and "good s out" and "name_ok n"
  obtains x where "out' = out @ x" and "good s' (out @ x)" and "name_at T (out @ x) (length out) (n_labels n) (length out')"
  using writes [OF assms] appendsD [OF blind assms(1)] that by metis

lemma two_written:
  assumes "wn n (s, out) = Ok (s1, out1)" and "wn m (s1, out1) = Ok (s', out')" and "good s out" and "name_ok n" and "name_ok m"
  obtains x where "out' = out @ x" and "good s' (out @ x)" and "name_at T (out @ x) (length out) (n_labels n) (length out1)"
    and "name_at T (out @ x) (length out1) (n_labels m) (length out')"
proof -
  obtain x where x: "out1 = out @ x" "good s1 (out @ x)" "name_at T (out @ x) (length out) (n_labels n) (length out1)"
    by (rule written [OF assms(1,3,4)])
  obtain y where "out' = out1 @ y" "good s' (out1 @ y)" "name_at T (out1 @ y) (length out1) (n_labels m) (length out')"
    using written [OF assms(2) _ assms(5)] x by blast
  then show thesis using that [of "x @ y"] x name_at_append [OF x(3), of y] by simp
qed

lemma fields_laid_out:
  assumes w: "write_fields wn d (s, out) = Ok (s', out')" and g: "good s out" and ok: "rdata_ok kind d"
  shows "good s' out' \<and> laid_out T out' (length out) d (length out')"
proof (cases d)
  case (RName n)
  then show ?thesis using writes [of n s out s' out'] w g ok by simp
next
  case (RSrv p u q n)
  let ?h = "to_be 2 p @ to_be 2 u @ to_be 2 q"
  have "wn n (s, out @ ?h) = Ok (s', out')" using w RSrv by (simp add: w_then_def)
  from written [OF this good_append [OF g]] ok RSrv obtain x where
    "out' = (out @ ?h) @ x" "good s' ((out @ ?h) @ x)" "name_at T ((out @ ?h) @ x) (length (out @ ?h)) (n_labels n) (length out')" by auto
  then show ?thesis using RSrv bytes_at_end [of out ?h x] by simp
next
  case (RPreference p n)
  have "wn n (s, out @ to_be 2 p) = Ok (s', out')" using w RPreference by (simp add: w_then_def)
  from written [OF this good_append [OF g]] ok RPreference obtain x where
    "out' = (out @ to_be 2 p) @ x" "good s' ((out @ to_be 2 p) @ x)"
    "name_at T ((out @ to_be 2 p) @ x) (length (out @ to_be 2 p)) (n_labels n) (length out')" by auto
  then show ?thesis using RPreference bytes_at_end [of out "to_be 2 p" x] by simp
next
  case (RTwoNames n m)
  then obtain s1 out1 where "wn n (s, out) = Ok (s1, out1)" "wn m (s1, out1) = Ok (s', out')"
    using w by (auto simp: w_then_def and_then_Ok_iff)
  from two_written [OF this g] ok RTwoNames obtain x where
    "out' = out @ x" "good s' (out @ x)" "name_at T (out @ x) (length out) (n_labels n) (length out1)" "name_at T (out @ x) (length out1) (n_labels m) (length out')" by auto
  then show ?thesis using RTwoNames by auto
next
  case (RPx p n m)
  then obtain s1 out1 where "wn n (s, out @ to_be 2 p) = Ok (s1, out1)" "wn m (s1, out1) = Ok (s', out')"
    using w by (auto simp: w_then_def and_then_Ok_iff)
  from two_written [OF this good_append [OF g]] ok RPx obtain x where
    "out' = (out @ to_be 2 p) @ x" "good s' ((out @ to_be 2 p) @ x)"
    "name_at T ((out @ to_be 2 p) @ x) (length (out @ to_be 2 p)) (n_labels n) (length out1)"
    "name_at T ((out @ to_be 2 p) @ x) (length out1) (n_labels m) (length out')" by auto
  then show ?thesis using RPx bytes_at_end [of out "to_be 2 p" x] by auto
next
  case (RSoa n m a b c d' e)
  let ?v = "to_be 4 a @ to_be 4 b @ to_be 4 c @ to_be 4 d' @ to_be 4 e"
  obtain s1 out1 out2 where "wn n (s, out) = Ok (s1, out1)" "wn m (s1, out1) = Ok (s', out2)" and o: "out' = out2 @ ?v"
    using w RSoa by (auto simp: w_then_def and_then_Ok_iff)
  from two_written [OF this(1,2) g] ok RSoa obtain x where x: "out2 = out @ x" "good s' (out @ x)"
    "name_at T (out @ x) (length out) (n_labels n) (length out1)" "name_at T (out @ x) (length out1) (n_labels m) (length out2)" by auto
  have "name_at T out' (length out) (n_labels n) (length out1)" "name_at T out' (length out1) (n_labels m) (length out2)" "bytes_at out' (length out2) ?v"
    using name_at_append [OF x(3), of ?v] name_at_append [OF x(4), of ?v] bytes_at_end [of out2 ?v "[]"] o x(1) by simp_all
  then show ?thesis using RSoa o x(1) good_append [OF x(2), of ?v] by auto
next
  case (RNsec n m)
  obtain out1 where n: "wn n (s, out) = Ok (s', out1)" and o: "out' = out1 @ m" using w RNsec by (auto simp: w_then_def and_then_Ok_iff)
  from written [OF n g] ok RNsec obtain x where x: "out1 = out @ x" "good s' (out @ x)" "name_at T (out @ x) (length out) (n_labels n) (length out1)" by auto
  have "name_at T out' (length out) (n_labels n) (length out1)" "bytes_at out' (length out1) m"
    using name_at_append [OF x(3), of m] bytes_at_end [of out1 m "[]"] o x(1) by simp_all
  then show ?thesis using RNsec o x(1) good_append [OF x(2), of m] by auto
next
  case (RTxt v)
  then show ?thesis using w ok good_append [OF g] bytes_at_end [of out "strings_bytes v" "[]"] by (auto simp: write_strings_cases split: if_splits)
next
  case (ROpt v)
  then show ?thesis using w ok good_append [OF g] bytes_at_end [of out "options_bytes v" "[]"] by (auto simp: write_options_cases split: if_splits)
next
  case (RSvcb p n v)
  let ?x = "to_be 2 p @ name_wire (n_labels n) @ options_bytes v"
  have "s' = s" "out' = out @ ?x" using w RSvcb by (auto simp: w_then_def write_options_cases name_write_wire split: if_splits)
  then show ?thesis using RSvcb good_append [OF g] bytes_at_end [of out ?x "[]"] by simp
next
  case (RSig c a l t e i k n v)
  let ?x = "to_be 2 c @ [a] @ [l] @ to_be 4 t @ to_be 4 e @ to_be 4 i @ to_be 2 k @ name_wire (n_labels n) @ v"
  have "s' = s" "out' = out @ ?x" using w RSig by (auto simp: name_write_wire)
  then show ?thesis using RSig good_append [OF g] bytes_at_end [of out ?x "[]"] by simp
qed (use w g good_append [OF g] ok bytes_at_end [of out _ "[]"] in auto)

end

subsection \<open>Names written in full\<close>

lemma plain_name_writer:
  assumes "\<And>s out x. good s out \<Longrightarrow> good s (out @ x)"
  shows "name_writer plain_write_name T good"
proof unfold_locales
  show "appends (plain_write_name n)" for n unfolding plain_write_name_def by (rule appends_emit)
  show "good s (out @ x)" if "good s out" for s out x by (rule assms [OF that])
  show "good s' out' \<and> name_at T out' (length out) (n_labels n) (length out')"
    if "plain_write_name n (s, out) = Ok (s', out')" "good s out" "name_ok n" for n s out s' out'
    using that assms name_at_wire [OF name_ok_labels [OF that(3)], of T out "[]"]
    by (auto simp: plain_write_name_def name_write_wire)
qed

interpretation plain: name_writer "plain_write_name :: name \<Rightarrow> dictionary \<times> bytes \<Rightarrow> _" True "\<lambda>_ _. True"
  by (rule plain_name_writer) simp

subsection \<open>The dictionary\<close>

lemma pointer_octets:
  fixes off :: u16
  assumes "unat off < 0x4000"
  shows "192 \<le> (ucast (drop_bit 8 (0xc000 OR off)) :: u8)"
    and "unat ((ucast (drop_bit 8 (0xc000 OR off)) :: u8) AND 63) * 256 + unat (ucast (0xc000 OR off) :: u8) = unat off"
proof -
  let ?k = "unat off" and ?hi = "ucast (drop_bit 8 (0xc000 OR off)) :: u8"
  have e: "(49152 :: nat) = push_bit 14 3" "?k = take_bit 14 ?k" using assms by (simp_all add: push_bit_eq_mult take_bit_nat_eq_self)
  have "push_bit n a AND take_bit n k = 0" for n a and k :: nat by (rule bit_eqI) (auto simp: bit_simps)
  from this [of 14 3 ?k] have "(49152 :: nat) AND ?k = 0" using e by metis
  then have s: "unat (0xc000 OR off) = 49152 + ?k"
    by (simp add: unsigned_or_eq disjunctive_add_eq_or)
  have d: "(49152 + ?k) div 256 = 192 + ?k div 256" "(49152 + ?k) mod 256 = ?k mod 256" "?k div 256 < 64"
    using assms by (simp_all add: div_add1_eq mod_add_eq [symmetric])
  have hi: "unat ?hi = 192 + ?k div 256"
    using d by (simp add: unsigned_ucast_eq unat_div s drop_bit_eq_div take_bit_eq_mod)
  then show "192 \<le> ?hi" by (simp add: word_le_nat_alt)
  have m: "(63 :: u8) = mask 6" by (simp add: mask_eq_exp_minus_1)
  have m64: "(192 + x) mod 64 = x" if "x < 64" for x :: nat using that mod_mult_self1 [of x 3 64] by (simp add: add.commute)
  have "unat (?hi AND 63) = unat ?hi mod 64"
    unfolding m take_bit_eq_mask [symmetric] by (simp add: take_bit_eq_mod unat_mod_distrib)
  then have h: "unat (?hi AND 63) = ?k div 256" using hi d(3) m64 by simp
  have l: "unat (ucast (0xc000 OR off) :: u8) = ?k mod 256"
    using d by (simp add: unsigned_ucast_eq s take_bit_eq_mod)
  show "unat (?hi AND 63) * 256 + unat (ucast (0xc000 OR off) :: u8) = unat off" unfolding h l by simp
qed

lemma name_wire_inject:
  "list_all (\<lambda>l. l \<noteq> [] \<and> length l \<le> 63) ls \<Longrightarrow> list_all (\<lambda>l. l \<noteq> [] \<and> length l \<le> 63) ms \<Longrightarrow> name_wire ls = name_wire ms \<Longrightarrow> ls = ms"
proof (induction ls arbitrary: ms)
  case Nil
  then show ?case using label_octet(1) by (cases ms) auto
next
  case (Cons l ls)
  then obtain m ms' where ms: "ms = m # ms'" using label_octet(1) [of l] by (cases ms) auto
  have "unat (of_nat (length l) :: u8) = unat (of_nat (length m) :: u8)" using Cons.prems(3) ms by simp
  moreover have "unat (of_nat (length l) :: u8) = length l" "unat (of_nat (length m) :: u8) = length m"
    using Cons.prems(1,2) ms by (simp_all add: label_octet(3))
  ultimately have "length l = length m" by (simp only:)
  moreover have "l @ name_wire ls = m @ name_wire ms'" using Cons.prems(3) ms by simp
  ultimately have "l = m" "name_wire ls = name_wire ms'" by simp_all
  then show ?case using Cons.IH [of ms'] Cons.prems(1,2) ms by simp
qed

definition entry_ok :: "bytes \<Rightarrow> bytes \<Rightarrow> u16 \<Rightarrow> bool" where
  "entry_ok out suffix off \<longleftrightarrow> unat off < 0x4000 \<and> (\<exists>ls fin. list_all (\<lambda>l. l \<noteq> [] \<and> length l \<le> 63) ls \<and> suffix = name_wire ls
     \<and> name_at False out (unat off) ls fin)"

definition dict_ok :: "dictionary \<Rightarrow> bytes \<Rightarrow> bool" where
  "dict_ok d out \<longleftrightarrow> (\<forall>suffix off. bt_get (d_entries d) suffix = Some off \<longrightarrow> entry_ok out suffix off)"

lemma entry_ok_append: "entry_ok out suffix off \<Longrightarrow> entry_ok (out @ x) suffix off"
  unfolding entry_ok_def by (blast intro: name_at_append)

lemma pointer_written:
  assumes "entry_ok out (name_wire ls) off" and ls: "list_all (\<lambda>l. l \<noteq> [] \<and> length l \<le> 63) ls"
  shows "name_at False (out @ to_be 2 (0xc000 OR off)) (length out) ls (length out + 2)"
proof -
  obtain fin where off: "unat off < 0x4000" and n: "name_at False out (unat off) ls fin"
    using assms(1) name_wire_inject [OF ls] unfolding entry_ok_def by blast
  let ?w = "0xc000 OR off" and ?out = "out @ to_be 2 (0xc000 OR off)"
  have b: "?out ! length out = ucast (drop_bit 8 ?w)" "?out ! (length out + 1) = ucast ?w"
    by (simp_all add: nth_append numeral_2_eq_2)
  show ?thesis
  proof (rule name_at.pointer)
    show "192 \<le> ?out ! length out" unfolding b by (rule pointer_octets(1) [OF off])
    show "name_at False ?out (pointer_target ?out (length out)) ls fin"
      unfolding b pointer_octets(2) [OF off] by (rule name_at_append [OF n])
  qed simp_all
qed


lemma appends_suffixes: "appends (write_suffixes wire at)"
proof -
  have "\<exists>x. out' = out @ x \<and> (\<forall>out2. length out2 = length out \<longrightarrow> write_suffixes wire at (d, out2) = Ok (d', out2 @ x))"
    if "write_suffixes wire at (d, out) = Ok (d', out')" for d out d' out'
    using that
  proof (induction wire at "(d, out)" arbitrary: d out rule: write_suffixes.induct)
    case (1 wire at d out)
    show ?case
    proof (cases "at < length wire \<and> wire ! at \<noteq> 0")
      case False
      then have "d' = d" "out' = out @ [0]" "at < length wire" "wire ! at = 0" "length out \<noteq> MAX_WIRE"
        using 1(2) by (auto simp: write_suffixes.simps [of wire at d out] idx_def split: if_splits)
      then show ?thesis by (auto simp: write_suffixes.simps [of wire at d])
    next
      case True
      then have c: "idx wire at = (Ok (wire ! at) :: (io_error, u8) outcome)" "slice_from wire at = (Ok (drop at wire) :: (io_error, bytes) outcome)" by simp_all
      note step = write_suffixes.simps [of wire at, unfolded c and_then.simps if_not_P [OF conjunct2 [OF True]]]
      show ?thesis
      proof (cases "bt_get (d_entries d) (drop at wire)")
        case (Some off)
        then show ?thesis using 1(2) unfolding step by (auto split: if_splits)
      next
        case None
        let ?n = "unat (wire ! at) + 1"
        let ?d = "\<lambda>out :: bytes. if bt_len (d_entries d) < 1024 \<and> d_bytes d + length wire - at \<le> 65536 \<and> length out < 0x4000
          then \<lparr>d_entries = bt_insert (drop at wire) (of_nat (length out)) (d_entries d), d_bytes = d_bytes d + length (drop at wire)\<rparr> else d"
        have eq: "write_suffixes wire at (d, o2) = (if MAX_WIRE < length o2 + ?n then Err InvalidData
            else and_then (slice_r wire at (at + ?n)) (\<lambda>label. write_suffixes wire (at + ?n) (?d o2, o2 @ label)))" for o2
          unfolding step None Let_def by simp
        then obtain label where lab: "slice_r wire at (at + ?n) = (Ok label :: (io_error, bytes) outcome)" and len: "\<not> MAX_WIRE < length out + ?n"
          and run: "write_suffixes wire (at + ?n) (?d out, out @ label) = Ok (d', out')"
          using 1(2) by (auto simp: and_then_Ok_iff split: if_splits)
        have "\<exists>x. out' = (out @ label) @ x \<and> (\<forall>out2. length out2 = length (out @ label) \<longrightarrow> write_suffixes wire (at + ?n) (?d out, out2) = Ok (d', out2 @ x))"
          by (rule 1(1) [OF c(1) _ c(2) None refl refl len lab run]) (use True in simp)
        then obtain x where x: "out' = (out @ label) @ x"
          "\<And>o2. length o2 = length (out @ label) \<Longrightarrow> write_suffixes wire (at + ?n) (?d out, o2) = Ok (d', o2 @ x)" by blast
        have "write_suffixes wire at (d, o2) = Ok (d', o2 @ label @ x)" if "length o2 = length out" for o2
          unfolding eq lab and_then.simps that using len x(2) [of "o2 @ label"] that by simp
        then show ?thesis using x(1) by auto
      qed
    qed
  qed
  then show ?thesis unfolding appends_def by blast
qed

lemma write_suffixes_ok:
  assumes "write_suffixes (pre @ name_wire ls) (length pre) (d, out) = Ok (d', out')" and "list_all (\<lambda>l. l \<noteq> [] \<and> length l \<le> 63) ls"
    and "\<And>suffix off. bt_get (d_entries d) suffix = Some off \<Longrightarrow> length suffix \<le> length (name_wire ls) \<Longrightarrow> entry_ok out suffix off"
  shows "(\<exists>x. out' = out @ x) \<and> name_at False out' (length out) ls (length out')
    \<and> (\<forall>suffix off. bt_get (d_entries d') suffix = Some off \<longrightarrow> bt_get (d_entries d) suffix = Some off \<or> entry_ok out' suffix off)"
  using assms
proof (induction ls arbitrary: pre d out)
  case Nil
  then have "d' = d" "out' = out @ [0]"
    by (auto simp: write_suffixes.simps split: if_splits)
  then show ?case using name_at.stop [of "length out" "out @ [0]" False] by (simp add: nth_append)
next
  case (Cons l ls)
  let ?wire = "pre @ name_wire (l # ls)" and ?suffix = "name_wire (l # ls)"
  have o: "(of_nat (length l) :: u8) \<noteq> 0" "unat (of_nat (length l) :: u8) = length l" using Cons.prems(2) by (simp_all add: label_octet)
  have c: "idx ?wire (length pre) = (Ok (of_nat (length l)) :: (io_error, u8) outcome)" "slice_from ?wire (length pre) = (Ok ?suffix :: (io_error, bytes) outcome)"
    by (simp_all add: nth_append)
  note step = write_suffixes.simps [of ?wire "length pre" d out, unfolded c and_then.simps if_not_P [OF o(1)]]
  show ?case
  proof (cases "bt_get (d_entries d) ?suffix")
    case (Some off)
    then have r: "d' = d" "out' = out @ to_be 2 (0xc000 OR off)"
      using Cons.prems(1) unfolding step Some by (auto split: if_splits)
    have "name_at False (out @ to_be 2 (0xc000 OR off)) (length out) (l # ls) (length out + 2)"
      by (rule pointer_written [OF Cons.prems(3) [OF Some] Cons.prems(2)]) simp
    then show ?thesis using r by simp
  next
    case None
    let ?d = "if bt_len (d_entries d) < 1024 \<and> d_bytes d + length ?wire - length pre \<le> 65536 \<and> length out < 0x4000
       then \<lparr>d_entries = bt_insert ?suffix (of_nat (length out)) (d_entries d), d_bytes = d_bytes d + length ?suffix\<rparr> else d"
    let ?label = "of_nat (length l) # l"
    have e: "pre @ name_wire (l # ls) = (pre @ ?label) @ name_wire ls" by simp
    have s: "slice_r ?wire (length pre) (length pre + (length l + 1)) = (Ok ?label :: (io_error, bytes) outcome)"
      by (simp add: slice_r_def)
    have run: "write_suffixes ((pre @ ?label) @ name_wire ls) (length (pre @ ?label)) (?d, out @ ?label) = Ok (d', out')"
      using Cons.prems(1) unfolding step None Let_def o(2) option.case s and_then.simps by (auto split: if_splits)
    have g: "bt_get (d_entries ?d) suffix = Some off \<Longrightarrow> bt_get (d_entries d) suffix = Some off \<or> suffix = ?suffix \<and> off = of_nat (length out) \<and> length out < 0x4000"
      for suffix off by (auto simp: bt.get_ins split: if_splits)
    have "(\<exists>x. out' = (out @ ?label) @ x) \<and> name_at False out' (length (out @ ?label)) ls (length out')
      \<and> (\<forall>suffix off. bt_get (d_entries d') suffix = Some off \<longrightarrow> bt_get (d_entries ?d) suffix = Some off \<or> entry_ok out' suffix off)"
    proof (rule Cons.IH [OF run])
      show "entry_ok (out @ ?label) suffix off" if "bt_get (d_entries ?d) suffix = Some off" "length suffix \<le> length (name_wire ls)" for suffix off
        using g [OF that(1)] that(2) Cons.prems(3) [of suffix off] entry_ok_append by fastforce
    qed (use Cons.prems(2) in simp)
    then obtain x where x: "out' = (out @ ?label) @ x" and n: "name_at False out' (length (out @ ?label)) ls (length out')"
      and en: "\<And>suffix off. bt_get (d_entries d') suffix = Some off \<Longrightarrow> bt_get (d_entries ?d) suffix = Some off \<or> entry_ok out' suffix off" by blast
    have full: "name_at False out' (length out) (l # ls) (length out')"
      by (rule name_at.label [of _ l]) (use x n Cons.prems(2) in \<open>simp_all add: nth_append\<close>)
    have "entry_ok out' ?suffix (of_nat (length out))" if "length out < 0x4000"
      unfolding entry_ok_def using that full Cons.prems(2) unat_of_nat_u16 [of "length out"] by (intro conjI exI [of _ "l # ls"]) auto
    then show ?thesis using x full en g by (metis append_assoc)
  qed
qed

interpretation dict: name_writer dict_write_name False dict_ok
proof unfold_locales
  show "dict_ok d (out @ x)" if "dict_ok d out" for d out x using that entry_ok_append unfolding dict_ok_def by blast
  show "dict_ok d' out' \<and> name_at False out' (length out) (n_labels n) (length out')"
    if "dict_write_name n (d, out) = Ok (d', out')" "dict_ok d out" "name_ok n" for n d out d' out'
  proof -
    have "write_suffixes ([] @ name_wire (n_labels n)) (length []) (d, out) = Ok (d', out')" using that(1) by (simp add: dict_write_name_def name_write_wire)
    from write_suffixes_ok [OF this name_ok_labels [OF that(3)]] that(2) show ?thesis
      unfolding dict_ok_def by (metis entry_ok_append)
  qed
  show "appends (dict_write_name n)" for n unfolding dict_write_name_def by (rule appends_suffixes)
qed

end
