(* ===== verification/Dns_Wire_Message.thy ===== *)
theory Dns_Wire_Message
  imports Dns_Wire_Write
begin

text \<open>
  Questions, records and whole messages: what the encoder writes is what the parser reads.
\<close>

section \<open>Questions and records\<close>

lemma reads_at: "reads T b (F at) at x fin \<Longrightarrow> reads T b (\<lambda>s. F (ps_at s) s) at x fin"
  by (rule reads_cong [rotated]) simp_all

definition question_at :: "bool \<Rightarrow> bytes \<Rightarrow> nat \<Rightarrow> question \<Rightarrow> nat \<Rightarrow> bool" where
  "question_at T b at q fin \<longleftrightarrow> (\<exists>mid. name_at T b at (n_labels (q_name q)) mid
     \<and> bytes_at b mid (to_be 2 (q_kind q) @ to_be 2 (q_class q)) \<and> fin = mid + 4)"

definition record_at :: "bool \<Rightarrow> bytes \<Rightarrow> nat \<Rightarrow> dns_record \<Rightarrow> nat \<Rightarrow> bool" where
  "record_at T b at r fin \<longleftrightarrow> (\<exists>mid n. name_at T b at (n_labels (rr_name r)) mid \<and> fin = mid + 10 + n \<and> n \<le> MAX_WIRE
     \<and> bytes_at b mid (to_be 2 (rr_kind r) @ to_be 2 (rr_class r) @ to_be 4 (rr_ttl r) @ to_be 2 (of_nat n :: u16))
     \<and> laid_out T b (mid + 10) (rr_data r) fin \<and> fin \<le> length b)"

lemma reads_question:
  assumes "question_at T b at q fin" and "name_ok (q_name q)"
  shows "reads T b (p_question b) at q fin"
proof -
  obtain mid where n: "name_at T b at (n_labels (q_name q)) mid" and h: "bytes_at b mid (to_be 2 (q_kind q) @ to_be 2 (q_class q))" and fin: "fin = mid + 4"
    using assms(1) unfolding question_at_def by blast
  have b: "bytes_at b mid (to_be 2 (q_kind q))" "bytes_at b (mid + 2) (to_be 2 (q_class q))" "mid + 2 + 2 = fin" "fin \<le> length b"
    using h fin by (simp_all add: bytes_at_append) (simp add: bytes_at_def)
  show ?thesis
    unfolding p_question_def
    by (rule reads_step(4) [OF n assms(2) _ order_refl], use b fin in simp, rule reads_step(1) [OF b(1)], use b fin in simp,
        rule reads_step(1) [OF b(2)], use b fin in simp, unfold b(3), rule reads_return) simp_all
qed

text \<open>Data that is written for a record of type \<open>kind\<close>: well-typed, and not taken for the empty data of an update.\<close>

definition record_valid :: "u16 \<Rightarrow> dns_record \<Rightarrow> bool" where
  "record_valid flags r \<longleftrightarrow> record_ok flags r \<and> bytes_ok (rr_kind r) (rr_data r)
     \<and> (rr_data r = ROpt [] \<longrightarrow> \<not> (is_update flags \<and> rr_class r \<in> {254, 255}))"

lemma laid_out_size: "laid_out T b at d at \<Longrightarrow> rdata_ok kind d \<Longrightarrow> d = ROpt []"
proof (cases d)
  case (ROpt v)
  assume "laid_out T b at d at"
  then show ?thesis using ROpt by (cases v) (auto simp: options_bytes_def split: prod.splits)
next
  case (RTxt v)
  assume "laid_out T b at d at" "rdata_ok kind d"
  then show ?thesis using RTxt by (cases v) (auto simp: strings_bytes_def)
qed (auto dest!: name_at_end)

lemma reads_data:
  assumes r: "record_at T b at r fin" "record_valid flags r" and u: "fin = mid + n" "laid_out T b mid (rr_data r) fin" "n \<le> MAX_WIRE"
  shows "reads T b (\<lambda>u. if is_update flags \<and> (of_nat n :: u16) = 0 \<and> (rr_class r = 254 \<or> rr_class r = 255) then Ok (REmpty, u)
          else p_rdata b (rr_kind r) fin c m u) mid (rr_data r) fin"
proof (cases "rr_data r = REmpty")
  case True
  then have "is_update flags" "rr_class r = 254 \<or> rr_class r = 255" "n = 0"
    using r(2) u by (auto simp: record_valid_def record_ok_def data_ok_def)
  then show ?thesis using True u(1) by (simp add: reads_def)
next
  case False
  then have ok: "rdata_ok (rr_kind r) (rr_data r)" "bytes_ok (rr_kind r) (rr_data r)" using r(2) by (auto simp: record_valid_def record_ok_def data_ok_def)
  have z: "(of_nat n :: u16) = 0 \<longleftrightarrow> n = 0"
    using unat_of_nat_u16 [of n] u(3) by (simp add: unat_eq_0 [symmetric])
  have "\<not> (is_update flags \<and> (of_nat n :: u16) = 0 \<and> (rr_class r = 254 \<or> rr_class r = 255))"
    using laid_out_size [of T b mid "rr_data r" "rr_kind r"] u ok z r(2) by (auto simp: record_valid_def)
  then show ?thesis using reads_rdata [OF u(2) ok] by (intro reads_cong [OF _ reads_rdata [OF u(2) ok]]) auto
qed

text \<open>The part of a record behind the header: the data, and the span from \<open>at\<close>.\<close>

definition record_tail :: "bytes \<Rightarrow> dns_context \<Rightarrow> u16 \<Rightarrow> nat \<Rightarrow> bool \<Rightarrow> nat \<Rightarrow> nat \<Rightarrow> name \<Rightarrow> u16 \<Rightarrow> u16 \<Rightarrow> u32 \<Rightarrow> u16 \<Rightarrow> (dns_record \<times> record_span \<times> bool) reader" where
  "record_tail b context flags sect seen at at_ttl n kind class ttl len u =
     (let fin = ps_at u + unat len in
       if length b < fin then Err InvalidData
       else if kind = 41 \<and> (sect \<noteq> 2 \<or> seen \<or> n_labels n \<noteq> []) then Err InvalidData
       else and_then
         (if is_update flags \<and> len = 0 \<and> (class = 254 \<or> class = 255) then Ok (REmpty, u)
          else p_rdata b kind fin (context = Mdns \<or> is_update flags) (context = Mdns) u) (\<lambda>(data, v).
       if ps_at v \<noteq> fin then Err InvalidData
       else Ok ((\<lparr>rr_name = n, rr_kind = kind, rr_class = class, rr_ttl = ttl, rr_data = data\<rparr>,
                 \<lparr>sp_wire = (at, ps_at v), sp_ttl = at_ttl, sp_rdata = (ps_at u, fin)\<rparr>, seen \<or> kind = 41), v)))"

lemma p_record_tail:
  "p_record b context flags sect seen = (\<lambda>s. p_then (p_name b (length b) True) (\<lambda>n. p_then (p_u16 b (length b)) (\<lambda>kind. p_then (p_u16 b (length b)) (\<lambda>class t.
     p_then (p_u32 b (length b)) (\<lambda>ttl. p_then (p_u16 b (length b)) (record_tail b context flags sect seen (ps_at s) (ps_at t) n kind class ttl)) t))) s)"
  by (intro ext) (simp add: p_record_def record_tail_def [abs_def])

lemma reads_tail:
  assumes d: "reads T b (\<lambda>u. if is_update flags \<and> (of_nat n :: u16) = 0 \<and> (rr_class r = 254 \<or> rr_class r = 255) then Ok (REmpty, u)
          else p_rdata b (rr_kind r) fin (context = Mdns \<or> is_update flags) (context = Mdns) u) mid (rr_data r) fin"
    and fin: "fin = mid + n" "n \<le> MAX_WIRE" "fin \<le> length b" and k: "rr_kind r = 41 \<longrightarrow> sect = 2 \<and> \<not> seen \<and> n_labels (rr_name r) = []"
  shows "reads T b (record_tail b context flags sect seen at at_ttl (rr_name r) (rr_kind r) (rr_class r) (rr_ttl r) (of_nat n)) mid
     (r, \<lparr>sp_wire = (at, fin), sp_ttl = at_ttl, sp_rdata = (mid, fin)\<rparr>, seen \<or> rr_kind r = 41) fin"
proof (rule reads_cong)
  let ?D = "\<lambda>u. if is_update flags \<and> (of_nat n :: u16) = 0 \<and> (rr_class r = 254 \<or> rr_class r = 255) then Ok (REmpty, u)
          else p_rdata b (rr_kind r) fin (context = Mdns \<or> is_update flags) (context = Mdns) u"
  let ?R = "\<lambda>data at'. (\<lparr>rr_name = rr_name r, rr_kind = rr_kind r, rr_class = rr_class r, rr_ttl = rr_ttl r, rr_data = data\<rparr>,
      \<lparr>sp_wire = (at, at'), sp_ttl = at_ttl, sp_rdata = (mid, fin)\<rparr>, seen \<or> rr_kind r = 41)"
  let ?L = "\<lambda>data v. if ps_at v \<noteq> fin then Err InvalidData else Ok (?R data (ps_at v), v)"
  have u: "unat (of_nat n :: u16) = n" using fin(2) by (intro unat_of_nat_u16) simp
  show "record_tail b context flags sect seen at at_ttl (rr_name r) (rr_kind r) (rr_class r) (rr_ttl r) (of_nat n) s = p_then ?D ?L s"
    if "ps_at s = mid" for s
    unfolding record_tail_def Let_def that u p_then_def fin(1) [symmetric] using fin(3) k by auto
  have "reads T b (?L (rr_data r)) fin (r, \<lparr>sp_wire = (at, fin), sp_ttl = at_ttl, sp_rdata = (mid, fin)\<rparr>, seen \<or> rr_kind r = 41) fin"
    by (auto simp: reads_def)
  then show "reads T b (p_then ?D ?L) mid (r, \<lparr>sp_wire = (at, fin), sp_ttl = at_ttl, sp_rdata = (mid, fin)\<rparr>, seen \<or> rr_kind r = 41) fin"
    by (rule reads_then [OF d])
qed

lemma reads_record:
  assumes r: "record_at T b at r fin" "record_valid flags r" and k: "rr_kind r = 41 \<longrightarrow> sect = 2 \<and> \<not> seen \<and> n_labels (rr_name r) = []"
  shows "\<exists>sp. reads T b (p_record b context flags sect seen) at (r, sp, seen \<or> rr_kind r = 41) fin"
proof -
  obtain mid n where n: "name_at T b at (n_labels (rr_name r)) mid" and fin: "fin = mid + 10 + n" "n \<le> MAX_WIRE" "fin \<le> length b"
    and h: "bytes_at b mid (to_be 2 (rr_kind r) @ to_be 2 (rr_class r) @ to_be 4 (rr_ttl r) @ to_be 2 (of_nat n :: u16))"
    and d: "laid_out T b (mid + 10) (rr_data r) fin"
    using r(1) unfolding record_at_def by blast
  let ?x = "(r, \<lparr>sp_wire = (at, fin), sp_ttl = mid + 2 + 2, sp_rdata = (mid + 2 + 2 + 4 + 2, fin)\<rparr>, seen \<or> rr_kind r = 41)"
  have z: "mid + 2 + 2 + 4 + 2 = mid + 10" by simp
  have o: "name_ok (rr_name r)" using r(2) by (simp add: record_valid_def record_ok_def)
  have b: "bytes_at b mid (to_be 2 (rr_kind r))" "bytes_at b (mid + 2) (to_be 2 (rr_class r))" "bytes_at b (mid + 2 + 2) (to_be 4 (rr_ttl r))"
    "bytes_at b (mid + 2 + 2 + 4) (to_be 2 (of_nat n :: u16))" using h by (simp_all add: bytes_at_append)
  have tail: "reads T b (record_tail b context flags sect seen at at_ttl (rr_name r) (rr_kind r) (rr_class r) (rr_ttl r) (of_nat n))
      (mid + 2 + 2 + 4 + 2) (r, \<lparr>sp_wire = (at, fin), sp_ttl = at_ttl, sp_rdata = (mid + 2 + 2 + 4 + 2, fin)\<rparr>, seen \<or> rr_kind r = 41) fin" for at_ttl
    unfolding z by (rule reads_tail [OF reads_data [OF r fin(1) d fin(2)] fin k])
  let ?F = "\<lambda>a a' kind class. p_then (p_u32 b (length b)) (\<lambda>ttl. p_then (p_u16 b (length b)) (record_tail b context flags sect seen a a' (rr_name r) kind class ttl))"
  have F: "reads T b (?F at (mid + 2 + 2) (rr_kind r) (rr_class r)) (mid + 2 + 2) ?x fin"
    by (rule reads_step(2) [OF b(3)], use fin in simp, rule reads_step(1) [OF b(4)], use fin in simp, rule tail)
  have "reads T b (\<lambda>t. ?F at (ps_at t) (rr_kind r) (rr_class r) t) (mid + 2 + 2) ?x fin"
    by (rule reads_at [of T b "\<lambda>a. ?F at a (rr_kind r) (rr_class r)"], rule F)
  note G = this
  have "reads T b (p_then (p_name b (length b) True) (\<lambda>n. p_then (p_u16 b (length b)) (\<lambda>kind. p_then (p_u16 b (length b)) (\<lambda>class t.
     p_then (p_u32 b (length b)) (\<lambda>ttl. p_then (p_u16 b (length b)) (record_tail b context flags sect seen at (ps_at t) n kind class ttl)) t)))) at ?x fin"
    by (rule reads_step(4) [OF n o _ order_refl], use fin in simp, rule reads_step(1) [OF b(1)], use fin in simp,
        rule reads_step(1) [OF b(2)], use fin in simp, rule G)
  note H = this
  show ?thesis
    unfolding p_record_tail
    by (intro exI, rule reads_at [of T b "\<lambda>a. p_then (p_name b (length b) True) (\<lambda>n. p_then (p_u16 b (length b)) (\<lambda>kind. p_then (p_u16 b (length b)) (\<lambda>class t.
     p_then (p_u32 b (length b)) (\<lambda>ttl. p_then (p_u16 b (length b)) (record_tail b context flags sect seen a (ps_at t) n kind class ttl)) t)))"], rule H)
qed

section \<open>Writing questions and records\<close>

definition good_for :: "dns_context \<Rightarrow> dictionary \<Rightarrow> bytes \<Rightarrow> bool" where
  "good_for context d out \<longleftrightarrow> (context = Mdns \<longrightarrow> dict_ok d out)"

lemma good_for_append: "good_for context d out \<Longrightarrow> good_for context d (out @ x)"
  by (simp add: good_for_def dict.good_append)

lemma context_writer:
  assumes "wn = plain_write_name \<or> context = Mdns \<and> wn = dict_write_name"
  shows "name_writer wn (context = UnicastDns) (good_for context)"
  using assms
proof
  assume "wn = plain_write_name"
  then show ?thesis using plain_name_writer [of "good_for context" "context = UnicastDns"] good_for_append by blast
next
  assume w: "context = Mdns \<and> wn = dict_write_name"
  then have "good_for context = dict_ok" by (auto simp: good_for_def fun_eq_iff)
  then show ?thesis using w dict.name_writer_axioms by simp
qed

lemma owner_writer: "name_writer (write_owner context) (context = UnicastDns) (good_for context)"
proof (cases "context")
  case UnicastDns
  then show ?thesis by (intro context_writer) (simp add: write_owner_def fun_eq_iff)
next
  case Mdns
  then show ?thesis by (intro context_writer) (simp add: write_owner_def fun_eq_iff)
qed

lemma question_written:
  assumes "write_question context q (d, out) = Ok (d', out')" and "good_for context d out" and "name_ok (q_name q)"
  shows "good_for context d' out' \<and> (\<exists>x. out' = out @ x) \<and> question_at (context = UnicastDns) out' (length out) q (length out')"
proof -
  let ?h = "to_be 2 (q_kind q) @ to_be 2 (q_class q)"
  obtain out1 where o: "write_owner context (q_name q) (d, out) = Ok (d', out1)" and out': "out' = out1 @ ?h"
    using assms(1) by (auto simp: write_question_def w_then_def and_then_Ok_iff)
  obtain x where x: "out1 = out @ x" "good_for context d' (out @ x)" "name_at (context = UnicastDns) (out @ x) (length out) (n_labels (q_name q)) (length out1)"
    by (rule name_writer.written [OF owner_writer o assms(2,3)])
  have "name_at (context = UnicastDns) out' (length out) (n_labels (q_name q)) (length out1)" using name_at_append [OF x(3), of ?h] x(1) out' by simp
  moreover have "bytes_at out' (length out1) ?h" using bytes_at_end [of out1 ?h "[]"] out' by simp
  ultimately show ?thesis using x good_for_append [OF x(2), of ?h] out' unfolding question_at_def by auto
qed

lemma put_between: "length v = length w \<Longrightarrow> put (a @ v @ x) (length a) w = a @ w @ x"
  by (simp add: put_def)

lemma data_written:
  assumes w: "write_data_with wn (rr_data r) (d, out) = Ok (d', out')" and wn: "name_writer wn T good"
    and g: "good d out" and ok: "record_valid flags r"
  shows "good d' out' \<and> laid_out T out' (length out) (rr_data r) (length out')"
proof (cases "rr_data r = REmpty")
  case True
  then show ?thesis using w g by (auto simp: write_data_with_def split: if_splits)
next
  case False
  then have "rdata_ok (rr_kind r) (rr_data r)" using ok by (simp add: record_valid_def record_ok_def data_ok_def)
  moreover have "write_fields wn (rr_data r) (d, out) = Ok (d', out')" using w by (auto simp: write_data_with_def and_then_Ok_iff split: if_splits)
  ultimately show ?thesis using name_writer.fields_laid_out [OF wn] g by blast
qed

lemma record_written:
  assumes w: "write_record context r (d, out) = Ok (d', out')" and g: "good_for context d out" and ok: "record_valid flags r"
  shows "good_for context d' out' \<and> (\<exists>x. out' = out @ x) \<and> record_at (context = UnicastDns) out' (length out) r (length out')"
proof -
  let ?T = "context = UnicastDns"
  define wn :: "name \<Rightarrow> dictionary writer" where "wn = (if context = Mdns \<and> compressible (rr_kind r) then dict_write_name else plain_write_name)"
  have wn: "name_writer wn ?T (good_for context)" by (rule context_writer) (simp add: wn_def)
  have wd: "(if context = Mdns \<and> compressible (rr_kind r) then write_data_with dict_write_name (rr_data r) so else write_data (rr_data r) so)
     = write_data_with wn (rr_data r) so" for so by (simp add: wn_def write_data_def)
  let ?h = "to_be 2 (rr_kind r) @ to_be 2 (rr_class r) @ to_be 4 (rr_ttl r)"
  obtain d1 out1 where o: "write_owner context (rr_name r) (d, out) = Ok (d1, out1)"
    using w by (auto simp: write_record_def w_then_def and_then_Ok_iff)
  let ?a = "out1 @ ?h"
  obtain b where run: "write_data_with wn (rr_data r) (d1, ?a @ [0, 0]) = Ok (d', b)" and len: "length b \<le> MAX_WIRE"
    and put: "out' = put b (length ?a) (to_be 2 (of_nat (length b - (length ?a + 2)) :: u16))"
    using w o by (auto simp: write_record_def w_then_def and_then_Ok_iff wd Let_def sub_chk_def put_r_def add.commute split: if_splits)
  obtain x where x: "b = (?a @ [0, 0]) @ x" "\<And>out2. length out2 = length (?a @ [0, 0]) \<Longrightarrow> write_data_with wn (rr_data r) (d1, out2) = Ok (d', out2 @ x)"
    using appendsD [OF appends_data run] name_writer.blind [OF wn] by blast
  let ?n = "to_be 2 (of_nat (length x) :: u16)"
  have out': "out' = ?a @ ?n @ x" unfolding put x(1) using put_between [of "[0, 0]" ?n ?a x] by simp
  have run': "write_data_with wn (rr_data r) (d1, ?a @ ?n) = Ok (d', out')" using x(2) [of "?a @ ?n"] out' by simp
  have o_ok: "name_ok (rr_name r)" using ok by (simp add: record_valid_def record_ok_def)
  obtain y where y: "out1 = out @ y" "good_for context d1 (out @ y)" "name_at ?T (out @ y) (length out) (n_labels (rr_name r)) (length out1)"
    by (rule name_writer.written [OF owner_writer o g o_ok])
  have "good_for context d1 (?a @ ?n)" using good_for_append [OF y(2), of "?h @ ?n"] y(1) by simp
  from data_written [OF run' wn this ok]
  have fin: "good_for context d' out'" "laid_out ?T out' (length out1 + 10) (rr_data r) (length out')" by simp_all
  have "name_at ?T out' (length out) (n_labels (rr_name r)) (length out1)" using name_at_append [OF y(3), of "?h @ ?n @ x"] y(1) out' by simp
  moreover have "bytes_at out' (length out1) (?h @ ?n)" using bytes_at_end [of out1 "?h @ ?n" x] out' by simp
  moreover have "length x \<le> MAX_WIRE" using len x(1) by simp
  ultimately have "record_at ?T out' (length out) r (length out')"
    unfolding record_at_def using fin(2) out' by (intro exI [of _ "length out1"] exI [of _ "length x"]) simp
  then show ?thesis using fin(1) out' y(1) by simp
qed

text \<open>Several items, one after the other.\<close>

fun all_at :: "(nat \<Rightarrow> 'a \<Rightarrow> nat \<Rightarrow> bool) \<Rightarrow> nat \<Rightarrow> 'a list \<Rightarrow> nat \<Rightarrow> bool" where
  "all_at P at [] fin \<longleftrightarrow> at = fin"
| "all_at P at (x # xs) fin \<longleftrightarrow> (\<exists>mid. P at x mid \<and> all_at P mid xs fin)"

lemma all_at_append: "all_at P at (xs @ ys) fin \<longleftrightarrow> (\<exists>mid. all_at P at xs mid \<and> all_at P mid ys fin)"
  by (induction xs arbitrary: at) auto

lemma all_at_mono: "all_at P at xs fin \<Longrightarrow> (\<And>at x fin. P at x fin \<Longrightarrow> Q at x fin) \<Longrightarrow> all_at Q at xs fin"
  by (induction xs arbitrary: at) (simp, metis all_at.simps(2))

lemma all_at_size: "all_at P at xs fin \<Longrightarrow> (\<And>at x fin. P at x fin \<Longrightarrow> at + 5 \<le> fin) \<Longrightarrow> at + 5 * length xs \<le> fin"
proof (induction xs arbitrary: at)
  case (Cons x xs)
  then obtain mid where "P at x mid" "all_at P mid xs fin" by auto
  moreover from this have "mid + 5 * length xs \<le> fin" by (intro Cons.IH Cons.prems(2))
  ultimately show ?case using Cons.prems(2) [of at x mid] by simp
qed simp

lemma all_written:
  assumes "write_all w xs (d, out) = Ok (d', out')" and "good d out" and "list_all valid xs"
    and step: "\<And>x d out d' out'. w x (d, out) = Ok (d', out') \<Longrightarrow> good d out \<Longrightarrow> valid x \<Longrightarrow> good d' out' \<and> (\<exists>y. out' = out @ y) \<and> P out' (length out) x (length out')"
    and mono: "\<And>b at x fin y. P b at x fin \<Longrightarrow> P (b @ y) at x fin"
  shows "good d' out' \<and> (\<exists>y. out' = out @ y) \<and> all_at (P out') (length out) xs (length out')"
  using assms(1-3)
proof (induction xs arbitrary: d out)
  case (Cons x xs)
  then obtain d1 out1 where x: "w x (d, out) = Ok (d1, out1)" "write_all w xs (d1, out1) = Ok (d', out')" by (auto simp: w_then_def and_then_Ok_iff)
  from step [OF x(1)] Cons.prems obtain y where y: "good d1 out1" "out1 = out @ y" "P out1 (length out) x (length out1)" by auto
  from Cons.IH [OF x(2) y(1)] Cons.prems obtain z where "good d' out'" "out' = out1 @ z" "all_at (P out') (length out1) xs (length out')" by auto
  then show ?case using y mono [OF y(3), of z] by auto
qed simp

lemma question_at_append: "question_at T b at q fin \<Longrightarrow> question_at T (b @ x) at q fin"
  unfolding question_at_def by (auto simp: bytes_at_def intro: name_at_append)

lemma record_at_append: "record_at T b at r fin \<Longrightarrow> record_at T (b @ x) at r fin"
  unfolding record_at_def by (fastforce simp: bytes_at_def intro: name_at_append laid_out_append)

lemma item_size: "question_at T b at q fin \<Longrightarrow> at + 5 \<le> fin" "record_at T b at r fin \<Longrightarrow> at + 5 \<le> fin"
  unfolding question_at_def record_at_def by (auto dest!: name_at_end)

section \<open>Reading a message back\<close>

lemma reads_questions:
  "all_at (question_at T b) at qs fin \<Longrightarrow> list_all (\<lambda>q. name_ok (q_name q)) qs \<Longrightarrow> reads T b (p_questions b (length qs) acc) at (acc @ qs) fin"
proof (induction qs arbitrary: at acc)
  case (Cons q qs)
  then obtain mid where q: "question_at T b at q mid" "all_at (question_at T b) mid qs fin" by auto
  have "reads T b (p_questions b (length qs) (acc @ [q])) mid (acc @ q # qs) fin" using Cons.IH [OF q(2), of "acc @ [q]"] Cons.prems(2) by simp
  then show ?case using reads_then [OF reads_question [OF q(1)]] Cons.prems(2) by simp
qed (simp add: reads_return)

text \<open>The message with the records of a section behind those it had.\<close>

definition extends :: "nat \<Rightarrow> dns_record list \<Rightarrow> dns_message \<Rightarrow> dns_message \<Rightarrow> bool" where
  "extends sect rs m m' \<longleftrightarrow> m_answers m' = m_answers m @ (if sect = 0 then rs else []) \<and> m_authority m' = m_authority m @ (if sect = 1 then rs else [])
     \<and> m_additional m' = m_additional m @ (if sect = 2 then rs else []) \<and> m_id m' = m_id m \<and> m_flags m' = m_flags m \<and> m_questions m' = m_questions m"

lemma extends_add: "sect \<le> 2 \<Longrightarrow> extends sect rs (add_record sect r sp m) m' \<Longrightarrow> extends sect (r # rs) m m'"
  by (auto simp: extends_def add_record_def Let_def)

definition opt_fits :: "nat \<Rightarrow> bool \<Rightarrow> dns_record list \<Rightarrow> bool" where
  "opt_fits sect seen rs \<longleftrightarrow> opts rs = [] \<or> sect = 2 \<and> \<not> seen \<and> length (opts rs) \<le> 1 \<and> list_all (\<lambda>r. n_labels (rr_name r) = []) (opts rs)"

lemma opt_fits_Cons:
  "opt_fits sect seen (r # rs) \<Longrightarrow> (rr_kind r = 41 \<longrightarrow> sect = 2 \<and> \<not> seen \<and> n_labels (rr_name r) = []) \<and> opt_fits sect (seen \<or> rr_kind r = 41) rs"
  by (auto simp: opt_fits_def opts_def split: if_splits)

lemma reads_section:
  assumes "all_at (record_at T b) at rs fin" and "list_all (record_valid (m_flags m)) rs" and "opt_fits sect seen rs" and "sect \<le> 2"
  shows "\<exists>m'. extends sect rs m m' \<and> reads T b (p_section b context sect (length rs) (m, seen)) at (m', seen \<or> opts rs \<noteq> []) fin"
  using assms
proof (induction rs arbitrary: at m seen)
  case Nil
  then show ?case by (intro exI [of _ m]) (simp add: reads_return extends_def opts_def)
next
  case (Cons r rs)
  then obtain mid where r: "record_at T b at r mid" "all_at (record_at T b) mid rs fin" by auto
  note fits = opt_fits_Cons [OF Cons.prems(3)]
  obtain sp where sp: "reads T b (p_record b context (m_flags m) sect seen) at (r, sp, seen \<or> rr_kind r = 41) mid"
    using reads_record [OF r(1), of "m_flags m" sect seen "context"] fits Cons.prems(2) by auto
  have v: "list_all (record_valid (m_flags (add_record sect r sp m))) rs" using Cons.prems(2) by (simp add: add_record_sections)
  obtain m' where m': "extends sect rs (add_record sect r sp m) m'"
    "reads T b (p_section b context sect (length rs) (add_record sect r sp m, seen \<or> rr_kind r = 41)) mid (m', (seen \<or> rr_kind r = 41) \<or> opts rs \<noteq> []) fin"
    using Cons.IH [OF r(2) v conjunct2 [OF fits] Cons.prems(4)] by blast
  have "reads T b (p_section b context sect (length (r # rs)) (m, seen)) at (m', (seen \<or> rr_kind r = 41) \<or> opts rs \<noteq> []) fin"
    unfolding list.size(4) add_Suc_right add_0_right p_section.simps by (rule reads_then [OF sp]) (use m' in simp)
  moreover have "((seen \<or> rr_kind r = 41) \<or> opts rs \<noteq> []) = (seen \<or> opts (r # rs) \<noteq> [])" by (auto simp: opts_def)
  ultimately show ?case using extends_add [OF Cons.prems(4) m'(1)] by auto
qed

text \<open>Messages that can be written: typed data, and at most one OPT record, at the root and among the additional records.\<close>

definition message_valid :: "dns_message \<Rightarrow> bool" where
  "message_valid m \<longleftrightarrow> list_all (\<lambda>q. name_ok (q_name q)) (m_questions m) \<and> list_all (record_valid (m_flags m)) (all_records m)
     \<and> opt_fits 0 False (m_answers m) \<and> opt_fits 1 False (m_authority m) \<and> opt_fits 2 False (m_additional m)"

definition header_bytes :: "dns_message \<Rightarrow> bytes" where
  "header_bytes m = to_be 2 (m_id m) @ to_be 2 (m_flags m) @ to_be 2 (of_nat (length (m_questions m)) :: u16)
     @ to_be 2 (of_nat (length (m_answers m)) :: u16) @ to_be 2 (of_nat (length (m_authority m)) :: u16)
     @ to_be 2 (of_nat (length (m_additional m)) :: u16)"

definition message_size :: "dns_message \<Rightarrow> nat" where
  "message_size m = length (m_questions m) + length (m_answers m) + length (m_authority m) + length (m_additional m)"

lemma message_written:
  assumes w: "write_message context m = Ok b" and ok: "message_valid m"
  shows "message_size m \<le> MAX_RECORDS \<and> (\<exists>x. b = header_bytes m @ x) \<and> (\<exists>i j k. all_at (question_at (context = UnicastDns) b) 12 (m_questions m) i
     \<and> all_at (record_at (context = UnicastDns) b) i (m_answers m) j \<and> all_at (record_at (context = UnicastDns) b) j (m_authority m) k
     \<and> all_at (record_at (context = UnicastDns) b) k (m_additional m) (length b))"
proof -
  let ?T = "context = UnicastDns"
  have n: "message_size m \<le> MAX_RECORDS" and
    run: "map_ok snd (w_then (write_all (write_question context) (m_questions m)) (write_all (write_record context) (all_records m)) (dictionary0, header_bytes m)) = Ok b"
    using w unfolding write_message_def message_size_def header_bytes_def all_records_def by (auto split: if_splits)
  then obtain d out d' where q: "write_all (write_question context) (m_questions m) (dictionary0, header_bytes m) = Ok (d, out)"
    and r: "write_all (write_record context) (all_records m) (d, out) = Ok (d', b)" by (auto simp: w_then_def and_then_Ok_iff map_ok_Ok_iff)
  have l: "length (header_bytes m) = 12" by (simp add: header_bytes_def)
  have g: "good_for context dictionary0 (header_bytes m)" by (simp add: good_for_def dict_ok_def dictionary0_def)
  have "good_for context d out \<and> (\<exists>y. out = header_bytes m @ y) \<and> all_at (question_at ?T out) (length (header_bytes m)) (m_questions m) (length out)"
    by (rule all_written [where good = "good_for context" and valid = "\<lambda>q. name_ok (q_name q)" and P = "question_at ?T", OF q g])
      (use ok question_written question_at_append in \<open>auto simp: message_valid_def\<close>)
  then obtain y where y: "good_for context d out" "out = header_bytes m @ y" "all_at (question_at ?T out) 12 (m_questions m) (length out)"
    unfolding l by blast
  have "good_for context d' b \<and> (\<exists>z. b = out @ z) \<and> all_at (record_at ?T b) (length out) (all_records m) (length b)"
    by (rule all_written [where good = "good_for context" and valid = "record_valid (m_flags m)" and P = "record_at ?T", OF r y(1)])
      (use ok record_written record_at_append in \<open>auto simp: message_valid_def\<close>)
  then obtain z where z: "b = out @ z" "all_at (record_at ?T b) (length out) (all_records m) (length b)" by blast
  have "all_at (question_at ?T b) 12 (m_questions m) (length out)" unfolding z(1) by (rule all_at_mono [OF y(3) question_at_append])
  then show ?thesis using n y(2) z unfolding all_records_def all_at_append by auto
qed

lemma all_at_sizes:
  "all_at (question_at T b) at qs fin \<Longrightarrow> at + 5 * length qs \<le> fin" "all_at (record_at T b) at rs fin \<Longrightarrow> at + 5 * length rs \<le> fin"
  by (rule all_at_size, assumption, erule item_size)+

abbreviation start_of :: "bytes \<Rightarrow> parser" where
  "start_of b \<equiv> \<lparr>ps_known = replicate (length b) False, ps_work = 0, ps_at = 12\<rparr>"

abbreviation p_body :: "bytes \<Rightarrow> dns_context \<Rightarrow> dns_message \<Rightarrow> (dns_message \<times> bool) reader" where
  "p_body b context m \<equiv> p_then (p_questions b (length (m_questions m)) []) (\<lambda>qs.
     p_then (p_section b context 0 (length (m_answers m)) ((message_new (m_id m) (m_flags m))\<lparr>m_questions := qs\<rparr>, False)) (\<lambda>mo.
     p_then (p_section b context 1 (length (m_authority m)) mo) (\<lambda>mo. p_section b context 2 (length (m_additional m)) mo)))"

lemma reads_body:
  assumes q: "all_at (question_at T b) 12 (m_questions m) i" and r: "all_at (record_at T b) i (m_answers m) j"
    "all_at (record_at T b) j (m_authority m) k" "all_at (record_at T b) k (m_additional m) fin" and ok: "message_valid m"
  shows "\<exists>m' seen. m'\<lparr>m_original := m_original m, m_spans := m_spans m\<rparr> = m \<and> reads T b (p_body b context m) 12 (m', seen) fin"
proof -
  let ?m = "(message_new (m_id m) (m_flags m))\<lparr>m_questions := m_questions m\<rparr>"
  have v: "list_all (record_valid (m_flags m)) (m_answers m)" "list_all (record_valid (m_flags m)) (m_authority m)" "list_all (record_valid (m_flags m)) (m_additional m)"
    and o: "opts (m_answers m) = []" "opts (m_authority m) = []"
    and f: "opt_fits 0 False (m_answers m)" "opt_fits 1 False (m_authority m)" "opt_fits 2 False (m_additional m)"
    using ok by (auto simp: message_valid_def all_records_def opt_fits_def)
  obtain m0 where m0: "extends 0 (m_answers m) ?m m0" "reads T b (p_section b context 0 (length (m_answers m)) (?m, False)) i (m0, False) j"
    using reads_section [OF r(1) _ f(1), of ?m "context"] v(1) o(1) by (auto simp: message_new_def)
  obtain m1 where m1: "extends 1 (m_authority m) m0 m1" "reads T b (p_section b context 1 (length (m_authority m)) (m0, False)) j (m1, False) k"
    using reads_section [OF r(2) _ f(2), of m0 "context"] v(2) o(2) m0(1) by (auto simp: message_new_def extends_def)
  obtain m2 seen where m2: "extends 2 (m_additional m) m1 m2" "reads T b (p_section b context 2 (length (m_additional m)) (m1, False)) k (m2, seen) fin"
    using reads_section [OF r(3) _ f(3), of m1 "context"] v(3) m0(1) m1(1) by (auto simp: message_new_def extends_def)
  have qs: "reads T b (p_questions b (length (m_questions m)) []) 12 (m_questions m) i"
    using reads_questions [OF q, of "[]"] ok by (simp add: message_valid_def)
  have "reads T b (p_body b context m) 12 (m2, seen) fin"
    by (rule reads_then [OF qs], rule reads_then [OF m0(2)], rule reads_then [OF m1(2)], rule m2(2))
  moreover have "m2\<lparr>m_original := m_original m, m_spans := m_spans m\<rparr> = m"
    using m0(1) m1(1) m2(1) by (simp add: extends_def message_new_def)
  ultimately show ?thesis by blast
qed

lemma parse_body:
  assumes b: "b = header_bytes m @ x" "length b \<le> MAX_WIRE" and n: "message_size m \<le> MAX_RECORDS" "12 + 5 * message_size m \<le> length b"
  shows "dns_parse b context = and_then (p_body b context m (start_of b)) (\<lambda>((m, _), s).
     if ps_at s \<noteq> length b then Err InvalidData else Ok (m\<lparr>m_original := b\<rparr>))"
proof -
  have h: "length b = 12 + length x" by (simp add: b(1) header_bytes_def)
  have u: "u16at b 0 = Ok (m_id m)" "u16at b 2 = Ok (m_flags m)" "u16at b 4 = Ok (of_nat (length (m_questions m)))"
    "u16at b 6 = Ok (of_nat (length (m_answers m)))" "u16at b 8 = Ok (of_nat (length (m_authority m)))" "u16at b 10 = Ok (of_nat (length (m_additional m)))"
    unfolding u16at_cases using h by (simp_all add: b(1) header_bytes_def)
  have c: "unat (of_nat (length (m_questions m)) :: u16) = length (m_questions m)" "unat (of_nat (length (m_answers m)) :: u16) = length (m_answers m)"
    "unat (of_nat (length (m_authority m)) :: u16) = length (m_authority m)" "unat (of_nat (length (m_additional m)) :: u16) = length (m_additional m)"
    using n(1) unfolding message_size_def by (auto intro!: unat_of_nat_u16)
  have k: "\<not> (MAX_RECORDS < message_size m \<or> (length b - 12) div 5 < message_size m)" using n by (auto simp: less_mult_imp_div_less)
  have "\<not> (length b < 12 \<or> MAX_WIRE < length b)" using h b(2) by simp
  then show ?thesis
    unfolding dns_parse_def u and_then.simps c Let_def message_size_def [symmetric] if_not_P [OF k] by simp
qed

lemma parse_written:
  assumes w: "write_message context m = Ok b" and ok: "message_valid m" and len: "length b \<le> MAX_WIRE"
  shows "dns_parse b context = Ok m' \<Longrightarrow> m'\<lparr>m_original := m_original m, m_spans := m_spans m\<rparr> = m"
    and "context = UnicastDns \<Longrightarrow> \<exists>m'. dns_parse b context = Ok m'"
proof -
  let ?T = "context = UnicastDns"
  from message_written [OF w ok] obtain x i j k where n: "message_size m \<le> MAX_RECORDS" and b: "b = header_bytes m @ x"
    and q: "all_at (question_at ?T b) 12 (m_questions m) i" and r: "all_at (record_at ?T b) i (m_answers m) j"
    "all_at (record_at ?T b) j (m_authority m) k" "all_at (record_at ?T b) k (m_additional m) (length b)" by blast
  have "12 + 5 * message_size m \<le> length b"
    using all_at_sizes(1) [OF q] r [THEN all_at_sizes(2)]
    by (simp add: message_size_def)
  note parse = parse_body [OF b len n this, of "context"]
  obtain m1 seen where m1: "m1\<lparr>m_original := m_original m, m_spans := m_spans m\<rparr> = m" "reads ?T b (p_body b context m) 12 (m1, seen) (length b)"
    using reads_body [OF q r ok, of "context"] by blast
  have s: "ps_at (start_of b) = 12" "ready ?T b (start_of b)" using len by (simp_all add: ready_def)
  { assume "dns_parse b context = Ok m'"
    then obtain m2 o2 t where "p_body b context m (start_of b) = Ok ((m2, o2), t)" "m' = m2\<lparr>m_original := b\<rparr>"
      unfolding parse by (auto simp: and_then_Ok_iff split: if_splits)
    then show "m'\<lparr>m_original := m_original m, m_spans := m_spans m\<rparr> = m" using readsD [OF m1(2) _ s] m1(1) by auto }
  assume ?T
  then obtain t where "p_body b context m (start_of b) = Ok ((m1, seen), t)" "ps_at t = length b"
    using readsT [of b "p_body b context m" 12 "(m1, seen)" "length b" "start_of b"] m1(2) s by auto
  then show "\<exists>m'. dns_parse b context = Ok m'" unfolding parse by simp
qed

end
