(* ===== verification/Dns_Wire_Props.thy ===== *)
theory Dns_Wire_Props
  imports Dns_Wire_Message
begin

text \<open>
  The properties of the DNS wire format.
\<close>

section \<open>Data is checked by its octets\<close>

lemma untyped_data_accepted: "write_record context (r\<lparr>rr_data := RBytes a\<rparr>) so = write_record context (r\<lparr>rr_data := RA a\<rparr>) so"
proof -
  have r: "rr_data (r\<lparr>rr_data := x\<rparr>) = x" "rr_kind (r\<lparr>rr_data := x\<rparr>) = rr_kind r" "rr_class (r\<lparr>rr_data := x\<rparr>) = rr_class r"
    "rr_ttl (r\<lparr>rr_data := x\<rparr>) = rr_ttl r" "rr_name (r\<lparr>rr_data := x\<rparr>) = rr_name r" for x by simp_all
  have w: "write_data_with wn (RBytes a) = write_data_with wn (RA a)" for wn :: "name \<Rightarrow> dictionary writer" by (simp add: fun_eq_iff write_data_with_def)
  show ?thesis unfolding write_record_def write_data_def r w by (rule refl)
qed

section \<open>How long a name can take\<close>

text \<open>The steps that the limits on hops and on the length of a name leave.\<close>

definition steps_left :: "name_walk \<Rightarrow> nat" where
  "steps_left w = (64 - w_hops w) + (255 - w_length w) div 2 + 1"

lemma steps_left_label: "0 < n \<Longrightarrow> w_length w + 1 + n \<le> 255 \<Longrightarrow> steps_left (w\<lparr>w_pos := p, w_labels := ls, w_positions := ps, w_length := w_length w + 1 + n\<rparr>) < steps_left w"
  by (simp add: steps_left_def)

lemma steps_left_pointer: "w_hops w < 64 \<Longrightarrow> steps_left (w\<lparr>w_pos := p, w_limit := l, w_consumed := c, w_positions := ps, w_hops := w_hops w + 1\<rparr>) < steps_left w"
  by (simp add: steps_left_def)

lemma walk_steps:
  "\<exists>k r. k \<le> steps_left w \<and> (\<forall>work. work + steps_left w \<le> MAX_WORK \<longrightarrow> walk_name b compressed known work w = map_ok (\<lambda>w'. (work + k, w')) r)"
proof (induction "steps_left w" arbitrary: w rule: less_induct)
  case less
  let ?at = "w_pos w" and ?c = "b ! w_pos w"
  have pos: "0 < steps_left w" by (simp add: steps_left_def)
  have on: ?case if down: "steps_left v < steps_left w"
    and run: "\<And>work. work < MAX_WORK \<Longrightarrow> walk_name b compressed known work w = walk_name b compressed known (work + 1) v" for v
  proof -
    obtain k r where k: "k \<le> steps_left v" "\<And>work. work + steps_left v \<le> MAX_WORK \<Longrightarrow> walk_name b compressed known work v = map_ok (\<lambda>w'. (work + k, w')) r"
      using less [OF down] by blast
    have "walk_name b compressed known work w = map_ok (\<lambda>w'. (work + (k + 1), w')) r" if "work + steps_left w \<le> MAX_WORK" for work
      using run [of work] k(2) [of "work + 1"] down that pos by simp
    then show ?thesis using k(1) down by (intro exI [of _ "k + 1"] exI [of _ r]) simp
  qed
  have stop: ?case if "\<And>work. work < MAX_WORK \<Longrightarrow> walk_name b compressed known work w = Err InvalidData"
    using that pos by (intro exI [of _ 0] exI [of _ "Err InvalidData"]) simp
  consider (out) "w_limit w \<le> ?at \<or> length b \<le> ?at" | (zero) "?at < w_limit w" "?at < length b" "?c = 0"
    | (label) "?at < w_limit w" "?at < length b" "?c \<noteq> 0" "?c \<le> 63"
    | (pointer) "?at < w_limit w" "?at < length b" "\<not> ?c \<le> 63" by linarith
  then show ?case
  proof cases
    case out
    then show ?thesis by (intro stop) (subst walk_step, simp)
  next
    case zero
    let ?w = "w\<lparr>w_pos := ?at + 1, w_positions := w_positions w @ [?at]\<rparr>"
    have "walk_name b compressed known work w = Ok (work + 1, ?w)" if "work < MAX_WORK" for work
      using zero that by (subst walk_step) (simp add: Let_def)
    then show ?thesis using pos by (intro exI [of _ 1] exI [of _ "Ok ?w"]) simp
  next
    case label
    have n: "0 < unat ?c" using label(3) by (simp add: unat_gt_0)
    show ?thesis
    proof (cases "?at + 1 + unat ?c \<le> w_limit w \<and> ?at + 1 + unat ?c \<le> length b \<and> w_length w + 1 + unat ?c \<le> 255")
      case True
      then show ?thesis using label by (intro on [OF steps_left_label [OF n]]) (simp, subst walk_step, simp add: Let_def)
    next
      case False
      then show ?thesis using label by (intro stop) (subst walk_step, auto simp: Let_def)
    qed
  next
    case pointer
    then have c: "?c \<noteq> 0" by auto
    show ?thesis
    proof (cases "192 \<le> ?c \<and> compressed \<and> ?at + 2 \<le> w_limit w \<and> ?at + 2 \<le> length b \<and> w_hops w < 64 \<and> pointer_target b ?at < ?at
        \<and> pointer_target b ?at < length known \<and> known ! pointer_target b ?at")
      case True
      then show ?thesis using pointer c by (intro on [OF steps_left_pointer]) (simp, subst walk_step, simp add: Let_def)
    next
      case False
      then show ?thesis using pointer c by (intro stop) (subst walk_step, auto simp: Let_def)
    qed
  qed
qed

lemma canonical_wire: "canonical ls = name_wire (map (map ascii_lower) ls)"
  by (simp add: canonical_def name_wire_def comp_def)

section \<open>Examples\<close>

text \<open>a question and an answer with a service record, and the root.\<close>

definition sample_name :: name where
  "sample_name = \<lparr>n_labels = [[97, 98], [67]], n_canonical = [2, 97, 98, 1, 99, 0]\<rparr>"

definition sample_message :: dns_message where
  "sample_message = (message_new 7 0x8400)\<lparr>m_questions := [\<lparr>q_name = sample_name, q_kind = 33, q_class = 1\<rparr>],
     m_answers := [\<lparr>rr_name = sample_name, rr_kind = 33, rr_class = 1, rr_ttl = 120, rr_data = RSrv 0 0 80 sample_name\<rparr>]\<rparr>"

lemma sample_valid: "message_valid sample_message"
  by code_simp


definition sample_bytes :: bytes where
  "sample_bytes = [0, 7, 132, 0, 0, 1, 0, 1, 0, 0, 0, 0, 2, 97, 98, 1, 67, 0, 0, 33, 0, 1,
     2, 97, 98, 1, 67, 0, 0, 33, 0, 1, 0, 0, 0, 120, 0, 12, 0, 0, 0, 0, 0, 80, 2, 97, 98, 1, 67, 0]"

lemma sample_question: "write_question UnicastDns \<lparr>q_name = sample_name, q_kind = 33, q_class = 1\<rparr> (d, out) = Ok (d, out @ [2, 97, 98, 1, 67, 0, 0, 33, 0, 1])"
  by (simp add: w_then_def write_question_def write_owner_def plain_write_name_def name_write_def to_be_octets sample_name_def)

lemma sample_record: "write_record UnicastDns \<lparr>rr_name = sample_name, rr_kind = 33, rr_class = 1, rr_ttl = 120, rr_data = RSrv 0 0 80 sample_name\<rparr> (d, x22)
   = Ok (d, x22 @ [2, 97, 98, 1, 67, 0, 0, 33, 0, 1, 0, 0, 0, 120, 0, 12, 0, 0, 0, 0, 0, 80, 2, 97, 98, 1, 67, 0])" if "length x22 = 22"
  using that by (simp add: w_then_def write_record_def write_owner_def plain_write_name_def name_write_def write_data_def write_data_with_def sub_chk_def put_def to_be_octets sample_name_def)

lemma sample_written: "write_message UnicastDns sample_message = Ok sample_bytes"
  by (simp add: write_message_def sample_message_def message_new_def w_then_def sample_question sample_record sample_bytes_def to_be_octets)

definition sample_dict :: dictionary where
  "sample_dict = \<lparr>d_entries = bt_insert [1, 67, 0] 15 (bt_insert [2, 97, 98, 1, 67, 0] 12 bt_empty), d_bytes = 9\<rparr>"

lemma sample_name_first: "length out = 12 \<Longrightarrow> dict_write_name sample_name (dictionary0, out) = Ok (sample_dict, out @ [2, 97, 98, 1, 67, 0])"
  by (simp add: dict_write_name_def sample_name_def name_write_def write_suffixes.simps dictionary0_def sample_dict_def bt_len_insert slice_r_def)

lemma sample_name_again: "length out + 2 \<le> MAX_WIRE \<Longrightarrow> dict_write_name sample_name (sample_dict, out) = Ok (sample_dict, out @ [192, 12])"
  by (simp add: dict_write_name_def sample_name_def name_write_def write_suffixes.simps sample_dict_def to_be_octets)

definition sample_compressed :: bytes where
  "sample_compressed = [0, 7, 132, 0, 0, 1, 0, 1, 0, 0, 0, 0, 2, 97, 98, 1, 67, 0, 0, 33, 0, 1,
     192, 12, 0, 33, 0, 1, 0, 0, 0, 120, 0, 8, 0, 0, 0, 0, 0, 80, 192, 12]"

lemma sample_compressed_written: "write_message Mdns sample_message = Ok sample_compressed"
  by (simp add: write_message_def sample_message_def message_new_def w_then_def write_question_def write_record_def write_owner_def sample_name_first
     sample_name_again compressible_def write_data_with_def sub_chk_def put_def sample_compressed_def to_be_octets)

lemma sample_walks:
  "walk_name sample_compressed True known 0 (walk0 12 42) = Ok (3, \<lparr>w_pos = 18, w_limit = 42, w_consumed = None,
     w_labels = [[97, 98], [67]], w_positions = [12, 15, 17], w_length = 6, w_hops = 0\<rparr>)"
  "known ! 12 \<Longrightarrow> length known = 42 \<Longrightarrow> work < 1000 \<Longrightarrow> at + 2 \<le> fin \<Longrightarrow> at = 22 \<or> at = 40 \<Longrightarrow> walk_name sample_compressed True known work (walk0 at fin) = Ok (work + 4, \<lparr>w_pos = 18, w_limit = 42, w_consumed = Some (at + 2),
     w_labels = [[97, 98], [67]], w_positions = [at, 12, 15, 17], w_length = 6, w_hops = 1\<rparr>)"
  by (auto simp: sample_compressed_def walk_step)

lemma sample_length: "length sample_compressed = 42"
  by (simp add: sample_compressed_def)

lemma sample_labels: "from_labels [[97, 98], [67]] = Ok sample_name"
  by (simp add: from_labels_def sample_name_def ascii_lower_def)

lemma sample_names:
  "p_name sample_compressed 42 True \<lparr>ps_known = known, ps_work = 0, ps_at = 12\<rparr> = Ok (sample_name, \<lparr>ps_known = known[12 := True, 15 := True, 17 := True], ps_work = 3, ps_at = 18\<rparr>)"
  "known ! 12 \<Longrightarrow> work < 1000 \<Longrightarrow> at + 2 \<le> fin \<Longrightarrow> at = 22 \<or> at = 40 \<Longrightarrow>
   p_name sample_compressed fin True \<lparr>ps_known = known, ps_work = work, ps_at = at\<rparr> =
     Ok (sample_name, \<lparr>ps_known = known[at := True, 12 := True, 15 := True, 17 := True], ps_work = work + 4, ps_at = at + 2\<rparr>)"
  if "length known = 42"
  unfolding p_name_def using that by (auto simp: sample_walks [unfolded One_nat_def] sample_labels)

lemma sample_reads:
  "ps_at s + 2 \<le> fin \<Longrightarrow> fin \<le> length b \<Longrightarrow> p_u16 b fin s = Ok (from_be (take 2 (drop (ps_at s) b)), s\<lparr>ps_at := ps_at s + 2\<rparr>)"
  "ps_at s + 4 \<le> fin \<Longrightarrow> fin \<le> length b \<Longrightarrow> p_u32 b fin s = Ok (from_be (take 4 (drop (ps_at s) b)), s\<lparr>ps_at := ps_at s + 4\<rparr>)"
  by (simp_all add: p_u16_Ok p_u32_Ok)

lemma sample_question_read:
  "length known = 42 \<Longrightarrow> p_question sample_compressed \<lparr>ps_known = known, ps_work = 0, ps_at = 12\<rparr>
    = Ok (\<lparr>q_name = sample_name, q_kind = 33, q_class = 1\<rparr>, \<lparr>ps_known = known[12 := True, 15 := True, 17 := True], ps_work = 3, ps_at = 22\<rparr>)"
  by (simp add: p_question_def p_then_def sample_names sample_length sample_reads p_return_def) (simp add: sample_compressed_def from_be_def)

lemma sample_fields:
  "from_be (take 2 (drop 24 sample_compressed)) = (33 :: u16)" "from_be (take 2 (drop 32 sample_compressed)) = (8 :: u16)"
  by (simp_all add: sample_compressed_def from_be_def)

lemma sample_record_read:
  "length known = 42 \<Longrightarrow> known ! 12 \<Longrightarrow> \<exists>r sp k w. p_record sample_compressed Mdns flags 0 False \<lparr>ps_known = known, ps_work = 3, ps_at = 22\<rparr>
    = Ok ((r, sp, False), \<lparr>ps_known = k, ps_work = w, ps_at = 42\<rparr>)"
  by (simp add: p_record_def p_then_def sample_names sample_length sample_reads sample_fields p_rdata_def sub_chk_def p_rdata_of_def p_srv_def p_return_def)

lemma sample_parsed: "\<exists>m. dns_parse sample_compressed Mdns = Ok m"
proof -
  have h: "sample_compressed = header_bytes sample_message @ drop 12 sample_compressed" "length sample_compressed \<le> MAX_WIRE"
    "message_size sample_message \<le> MAX_RECORDS" "12 + 5 * message_size sample_message \<le> length sample_compressed"
    by (simp_all add: header_bytes_def sample_message_def message_new_def sample_compressed_def message_size_def to_be_octets)
  let ?known = "(replicate 42 False)[12 := True, 15 := True, 17 := True]"
  obtain r sp k w where r: "p_record sample_compressed Mdns 0x8400 0 False \<lparr>ps_known = ?known, ps_work = 3, ps_at = 22\<rparr>
    = Ok ((r, sp, False), \<lparr>ps_known = k, ps_work = w, ps_at = 42\<rparr>)" using sample_record_read [of ?known "0x8400"] by fastforce
  show ?thesis
    unfolding parse_body [OF h] by (simp add: sample_message_def message_new_def p_then_def p_return_def sample_question_read sample_length r)
qed

section \<open>Properties\<close>

text \<open>
  C13: parsing never panics, whatever the octets, and a message that is accepted is well-formed: names
  within 63 and 255 octets, data typed by its record type, at most one OPT record and only at the root among the
  additional records, spans that tile the original octets, at most 4096 entries.
\<close>

theorem dns_parse_sound: "ensures (dns_parse b context) (\<lambda>m. message_ok m \<and> m_original m = b)"
  by (rule dns_parse_ensures)

text \<open>
  C12: what is encoded, for unicast and with the compression dictionary for multicast DNS, parses back to
  the same questions and records.
\<close>

theorem dns_encode_roundtrip:
  assumes "message_valid m" and "encode_context context m = Ok b"
  shows "\<exists>m'. dns_parse b context = Ok m' \<and> m'\<lparr>m_original := m_original m, m_spans := m_spans m\<rparr> = m"
proof -
  obtain m' where w: "write_message context m = Ok b" and m': "dns_parse b context = Ok m'"
    using assms(2) by (auto simp: encode_context_def and_then_Ok_iff)
  then have "length b \<le> MAX_WIRE" by (auto simp: dns_parse_def split: if_splits)
  from parse_written(1) [OF w assms(1) this m'] m' show ?thesis by blast
qed

theorem dns_encode_roundtrip_witness:
  "message_valid sample_message \<and> encode_context Mdns sample_message = Ok sample_compressed
     \<and> (\<exists>m'. dns_parse sample_compressed Mdns = Ok m' \<and> m'\<lparr>m_original := [], m_spans := []\<rparr> = sample_message)"
proof -
  have e: "encode_context Mdns sample_message = Ok sample_compressed"
    using sample_parsed by (auto simp: encode_context_def sample_compressed_written)
  then show ?thesis using dns_encode_roundtrip [OF sample_valid e] sample_valid by (simp add: sample_message_def message_new_def)
qed








text \<open>
  Names are equal when their labels are, letters compared without case: the canonical octets of
  two different lists of labels never coincide.
\<close>

theorem name_eq_labels:
  assumes "from_labels ls = Ok n" and "from_labels ms = Ok n'"
  shows "name_eq n n' \<longleftrightarrow> map (map ascii_lower) ls = map (map ascii_lower) ms"
proof -
  have ok: "list_all (\<lambda>l. l \<noteq> [] \<and> length l \<le> 63) (map (map ascii_lower) ls)" "list_all (\<lambda>l. l \<noteq> [] \<and> length l \<le> 63) (map (map ascii_lower) ms)"
    and c: "n_canonical n = canonical ls" "n_canonical n' = canonical ms"
    using assms by (auto simp: from_labels_cases labels_ok_def list_all_iff split: if_splits)
  show ?thesis unfolding name_eq_def c canonical_wire using name_wire_inject [OF ok] by auto
qed

theorem name_eq_labels_witness:
  "name_eq sample_name \<lparr>n_labels = [[65, 66], [99]], n_canonical = [2, 97, 98, 1, 99, 0]\<rparr>"
proof -
  have "from_labels [[65, 66], [99]] = Ok \<lparr>n_labels = [[65, 66], [99]], n_canonical = [2, 97, 98, 1, 99, 0]\<rparr>"
    by (simp add: from_labels_def ascii_lower_def)
  then show ?thesis using name_eq_labels [OF sample_labels] by (simp add: ascii_lower_def)
qed

end
