(* ===== verification/Dns_Tcp.thy ===== *)
theory Dns_Tcp
  imports Dns_Wire
begin

text \<open>
  DNS over TCP (\<open>TcpFrames\<close> of \<open>dns/wire.rs\<close>): frames with a length in front, collected from the pieces in which a
  connection delivers them, under limits on what is held and allocated.
\<close>

section \<open>Definitions\<close>

text \<open>
  A vector of octets with its capacity. \<open>alloc n\<close> is the capacity the allocator gives for a request of
  \<open>n\<close> octets, which the standard library documents as at least \<open>n\<close>.
\<close>

record vec =
  v_data :: bytes
  v_cap :: nat

definition vec_new :: vec where
  "vec_new = \<lparr>v_data = [], v_cap = 0\<rparr>"

definition vec_with_capacity :: "(nat \<Rightarrow> nat) \<Rightarrow> nat \<Rightarrow> vec" where
  "vec_with_capacity alloc n = \<lparr>v_data = [], v_cap = alloc n\<rparr>"

definition vec_reserve_exact :: "(nat \<Rightarrow> nat) \<Rightarrow> nat \<Rightarrow> vec \<Rightarrow> vec" where
  "vec_reserve_exact alloc n v =
     (if length (v_data v) + n \<le> v_cap v then v else v\<lparr>v_cap := alloc (length (v_data v) + n)\<rparr>)"

definition vec_extend :: "(nat \<Rightarrow> nat) \<Rightarrow> bytes \<Rightarrow> vec \<Rightarrow> vec" where
  "vec_extend alloc l v =
     (let n = length (v_data v) + length l in
      \<lparr>v_data = v_data v @ l, v_cap = (if n \<le> v_cap v then v_cap v else alloc (max 8 (max (2 * v_cap v) n)))\<rparr>)"

record tcp_frames =
  tf_max :: nat
  tf_partial :: vec
  tf_ready :: "vec list"
  tf_bytes :: nat

definition frames_new :: "nat \<Rightarrow> (io_error, tcp_frames) outcome" where
  "frames_new mx = (if \<not> (12 \<le> mx \<and> mx \<le> MAX_WIRE) then Err InvalidData
     else Ok \<lparr>tf_max = mx, tf_partial = vec_new, tf_ready = [], tf_bytes = 0\<rparr>)"

definition tcp_frame :: "bytes \<Rightarrow> (io_error, bytes) outcome" where
  "tcp_frame b = (if \<not> (12 \<le> length b \<and> length b \<le> MAX_WIRE) then Err InvalidData else Ok (to_be 2 (of_nat (length b) :: u16) @ b))"

text \<open>\<open>byte\<close>: the octets of the partial frame followed by the input.\<close>

definition frame_byte :: "bytes \<Rightarrow> bytes \<Rightarrow> nat \<Rightarrow> (io_error, u8) outcome" where
  "frame_byte partial b n =
     (if n < length partial then idx partial n else and_then (sub_chk n (length partial)) (idx b))"

function scan_frames :: "(nat \<Rightarrow> (io_error, u8) outcome) \<Rightarrow> nat \<Rightarrow> nat \<Rightarrow> nat \<Rightarrow> nat \<Rightarrow> nat \<Rightarrow> (io_error, nat \<times> nat) outcome" where
  "scan_frames byte mx len at count allocated =
     and_then (sub_chk len at) (\<lambda>left.
       if left < 2 then Ok (at, allocated)
       else and_then (byte at) (\<lambda>hi. and_then (byte (at + 1)) (\<lambda>lo.
         let n = unat (from_be [hi, lo] :: u16) in
         if n < 12 \<or> mx < n then Err InvalidData
         else let allocated = allocated + (n + 2) in
           if left < n + 2 then Ok (len, allocated)
           else if 32 < count + 1 then Err InvalidData
           else scan_frames byte mx len (at + (n + 2)) (count + 1) allocated)))"
  by pat_completeness auto
termination
  by (relation "measure (\<lambda>(byte, mx, len, at, count, allocated). len - at)") (auto simp: sub_chk_def split: if_splits)

declare scan_frames.simps [simp del]

text \<open>One round of the loop that copies the input: the vector to fill, the input left, and whether the header is there.\<close>

definition fill_header :: "(nat \<Rightarrow> nat) \<Rightarrow> bytes \<Rightarrow> vec \<Rightarrow> vec \<times> bytes" where
  "fill_header alloc b v =
     (let v = (if v_cap v = 0 then vec_with_capacity alloc 2 else v) in
      if length (v_data v) < 2 then
        let n = min (2 - length (v_data v)) (length b) in (vec_extend alloc (take n b) v, drop n b)
      else (v, b))"

definition fill_body :: "(nat \<Rightarrow> nat) \<Rightarrow> bytes \<Rightarrow> vec \<Rightarrow> (io_error, nat \<times> vec \<times> bytes) outcome" where
  "fill_body alloc b v =
     and_then (idx (v_data v) 0) (\<lambda>hi. and_then (idx (v_data v) 1) (\<lambda>lo.
       let sz = unat (from_be [hi, lo] :: u16) + 2 in
       and_then (sub_chk sz (length (v_data v))) (\<lambda>k.
       let v = vec_reserve_exact alloc k v; n = min k (length b) in
       Ok (sz, vec_extend alloc (take n b) v, drop n b))))"

text \<open>\<open>copy_within(2.., 0)\<close> and \<open>truncate(size - 2)\<close>: the body, in the allocation of the frame.\<close>

definition strip_header :: "nat \<Rightarrow> vec \<Rightarrow> vec" where
  "strip_header sz v = v\<lparr>v_data := take (sz - 2) (put (v_data v) 0 (drop 2 (v_data v)))\<rparr>"

lemma fill_header_data:
  assumes "fill_header alloc b v = (u, rest)" and "v_cap v = 0 \<longrightarrow> v_data v = []"
  shows "v_data u @ rest = v_data v @ b" and "length (v_data u) = (if length (v_data v) < 2 then min 2 (length (v_data v) + length b) else length (v_data v))"
  using assms by (auto simp: fill_header_def Let_def vec_extend_def vec_with_capacity_def min_def split: if_splits)

lemma fill_header_shorter:
  assumes "fill_header alloc b v = (u, rest)" and "b \<noteq> []"
  shows "length rest < length b \<or> rest = b \<and> u = v \<and> 2 \<le> length (v_data v)"
  using assms by (auto simp: fill_header_def Let_def vec_with_capacity_def split: if_splits)

lemma fill_body_cases:
  "fill_body alloc b v = (if length (v_data v) < 2 then Panic else
     let sz = unat (from_be (take 2 (v_data v)) :: u16) + 2; k = sz - length (v_data v) in
     if sz < length (v_data v) then Panic else Ok (sz, vec_extend alloc (take k b) (vec_reserve_exact alloc k v), drop k b))"
proof (cases "v_data v")
  case (Cons x xs)
  then show ?thesis
  proof (cases xs)
    case (Cons y ys)
    have "take (min k (length b)) b = take k b" "drop (min k (length b)) b = drop k b" for k by (auto simp: min_def)
    then show ?thesis using \<open>v_data v = x # xs\<close> Cons by (simp add: fill_body_def Let_def sub_chk_def numeral_2_eq_2)
  qed (simp add: fill_body_def idx_def)
qed (simp add: fill_body_def idx_def)

lemma vec_data [simp]: "v_data (vec_extend alloc l v) = v_data v @ l" "v_data (vec_reserve_exact alloc k v) = v_data v"
  by (simp_all add: vec_extend_def vec_reserve_exact_def Let_def)

lemma fill_body_data:
  assumes "fill_body alloc b v = Ok (sz, u, rest)"
  shows "length (v_data v) \<le> sz" and "v_data u = v_data v @ take (sz - length (v_data v)) b" and "rest = drop (sz - length (v_data v)) b"
    and "2 \<le> length (v_data v)" and "sz = unat (from_be (take 2 (v_data v)) :: u16) + 2"
  using assms by (auto simp: fill_body_cases Let_def split: if_splits)

lemma fill_body_shorter:
  assumes "fill_body alloc b v = Ok (sz, u, rest)"
  shows "length rest \<le> length b" and "length (v_data u) \<noteq> sz \<Longrightarrow> b \<noteq> [] \<Longrightarrow> length rest < length b"
  using fill_body_data [OF assms] by (auto simp: min_def split: if_splits)

function feed :: "(nat \<Rightarrow> nat) \<Rightarrow> bytes \<Rightarrow> tcp_frames \<Rightarrow> (io_error, tcp_frames) outcome" where
  "feed alloc b s =
     (if b = [] then Ok s
      else let (v, rest) = fill_header alloc b (tf_partial s) in
        if length (v_data v) < 2 then Ok (s\<lparr>tf_partial := v\<rparr>)
        else and_then (fill_body alloc rest v) (\<lambda>(sz, u, rest).
          if length (v_data u) = sz
          then feed alloc rest (s\<lparr>tf_partial := vec_new, tf_ready := tf_ready s @ [strip_header sz u]\<rparr>)
          else feed alloc rest (s\<lparr>tf_partial := u\<rparr>)))"
  by pat_completeness auto
termination
proof (relation "measure (\<lambda>(alloc, b, s). 2 * length b + (if 2 \<le> length (v_data (tf_partial s)) then 1 else 0))", goal_cases)
  case (2 alloc b s)
  then show ?case
    by (auto simp: vec_new_def dest!: fill_header_shorter [OF sym] dest: fill_body_shorter(1))
next
  case (3 alloc b s)
  then show ?case
    by (auto dest!: fill_header_shorter [OF sym] dest: fill_body_shorter)
qed simp

declare feed.simps [simp del]

definition input_with_limit :: "(nat \<Rightarrow> nat) \<Rightarrow> bytes \<Rightarrow> nat \<Rightarrow> tcp_frames \<Rightarrow> (io_error, tcp_frames) outcome" where
  "input_with_limit alloc b limit s =
     (let limit = min limit (MAX_WIRE + 2); partial = v_data (tf_partial s) in
      if (MAX_WIRE + 2) - tf_bytes s < length b then Err InvalidData
      else let len = length partial + length b in
        and_then (scan_frames (frame_byte partial b) (tf_max s) len 0 (length (tf_ready s)) (sum_list (map v_cap (tf_ready s)))) (\<lambda>(at, allocated).
        let allocated = (if at < len then allocated + 2 else allocated) in
        if limit < allocated then Err InvalidData
        else feed alloc b (s\<lparr>tf_bytes := tf_bytes s + length b\<rparr>)))"

definition frames_input :: "(nat \<Rightarrow> nat) \<Rightarrow> bytes \<Rightarrow> tcp_frames \<Rightarrow> (io_error, tcp_frames) outcome" where
  "frames_input alloc b = input_with_limit alloc b (MAX_WIRE + 2)"

definition frames_pop :: "tcp_frames \<Rightarrow> (io_error, bytes option \<times> tcp_frames) outcome" where
  "frames_pop s = (case tf_ready s of
       [] \<Rightarrow> Ok (None, s)
     | f # fs \<Rightarrow> map_ok (\<lambda>n. (Some (v_data f), s\<lparr>tf_ready := fs, tf_bytes := n\<rparr>)) (sub_chk (tf_bytes s) (length (v_data f) + 2)))"

definition frames_allocated :: "tcp_frames \<Rightarrow> nat" where
  "frames_allocated s = v_cap (tf_partial s) + sum_list (map v_cap (tf_ready s))"

section \<open>Streams\<close>

text \<open>The frames of a stream of octets and what is left of it; a header out of bounds makes it malformed.\<close>

definition header :: "bytes \<Rightarrow> nat" where
  "header d = unat (from_be (take 2 d) :: u16)"

function split_frames :: "nat \<Rightarrow> bytes \<Rightarrow> (bytes list \<times> bytes) option" where
  "split_frames mx d =
     (if length d < 2 then Some ([], d)
      else let n = header d in
        if n < 12 \<or> mx < n then None
        else if length d < n + 2 then Some ([], d)
        else map_option (\<lambda>(fs, rest). (take n (drop 2 d) # fs, rest)) (split_frames mx (drop (n + 2) d)))"
  by pat_completeness auto
termination
  by (relation "measure (\<lambda>(mx, d). length d)") auto

declare split_frames.simps [simp del]

definition frame_bytes :: "bytes \<Rightarrow> bytes" where
  "frame_bytes f = to_be 2 (of_nat (length f) :: u16) @ f"

lemma length_frame_bytes [simp]: "length (frame_bytes f) = length f + 2"
  by (simp add: frame_bytes_def)

definition frame_ok :: "nat \<Rightarrow> bytes \<Rightarrow> bool" where
  "frame_ok mx f \<longleftrightarrow> 12 \<le> length f \<and> length f \<le> mx"

text \<open>An incomplete frame: part of a header, or a valid header and part of its body.\<close>

definition incomplete :: "nat \<Rightarrow> bytes \<Rightarrow> bool" where
  "incomplete mx d \<longleftrightarrow> split_frames mx d = Some ([], d)"

lemma incomplete_iff: "incomplete mx d \<longleftrightarrow> length d < 2 \<or> 12 \<le> header d \<and> header d \<le> mx \<and> length d < header d + 2"
  unfolding incomplete_def by (subst split_frames.simps) (auto simp: Let_def split: prod.splits)

lemma header_append [simp]: "2 \<le> length d \<Longrightarrow> header (d @ e) = header d"
  by (simp add: header_def)

lemma header_frame:
  assumes "length f \<le> MAX_WIRE"
  shows "header (frame_bytes f @ d) = length f" "length (frame_bytes f @ d) = length f + 2 + length d"
  using unat_of_nat_u16 [of "length f"] assms by (simp_all add: header_def frame_bytes_def)

lemma split_frame:
  assumes "frame_ok mx f" and "mx \<le> MAX_WIRE"
  shows "split_frames mx (frame_bytes f @ d) = map_option (\<lambda>(fs, rest). (f # fs, rest)) (split_frames mx d)"
proof -
  have f: "12 \<le> length f" "length f \<le> mx" "length f \<le> MAX_WIRE" using assms by (auto simp: frame_ok_def)
  have "take (length f) (drop 2 (frame_bytes f @ d)) = f" "drop (length f + 2) (frame_bytes f @ d) = d" by (simp_all add: frame_bytes_def)
  then show ?thesis using f by (subst split_frames.simps) (simp add: header_frame [OF f(3), simplified] Let_def del: drop_append take_append)
qed

lemma split_frames_append:
  "split_frames mx d = Some (fs, rest) \<Longrightarrow> split_frames mx (d @ e) = map_option (\<lambda>(gs, z). (fs @ gs, z)) (split_frames mx (rest @ e))"
proof (induction mx d arbitrary: fs rule: split_frames.induct)
  case (1 mx d)
  show ?case
  proof (cases "length d < 2 \<or> length d < header d + 2")
    case True
    then have "fs = [] \<and> rest = d" using "1.prems" by (subst (asm) split_frames.simps) (auto simp: Let_def split: if_splits)
    then show ?thesis by (simp add: option.map_ident case_prod_eta)
  next
    case False
    then obtain gs where h: "\<not> (header d < 12 \<or> mx < header d)" and g: "split_frames mx (drop (header d + 2) d) = Some (gs, rest)"
      and fs: "fs = take (header d) (drop 2 d) # gs"
      using "1.prems" by (subst (asm) split_frames.simps) (auto simp: Let_def split: if_splits)
    have e: "split_frames mx (drop (header d + 2) d @ e) = map_option (\<lambda>(hs, z). (gs @ hs, z)) (split_frames mx (rest @ e))"
      using "1.IH" [of "header d" gs] False h g by simp
    have "split_frames mx (d @ e) = map_option (\<lambda>(fs, rest). (take (header d) (drop 2 d) # fs, rest)) (split_frames mx (drop (header d + 2) d @ e))"
      using False h by (subst split_frames.simps) (auto simp: Let_def)
    then show ?thesis unfolding e fs by (simp add: option.map_comp comp_def case_prod_unfold)
  qed
qed

lemma split_frames_bytes: "split_frames mx d = Some (fs, rest) \<Longrightarrow> mx \<le> MAX_WIRE \<Longrightarrow>
    d = concat (map frame_bytes fs) @ rest \<and> incomplete mx rest \<and> list_all (frame_ok mx) fs"
proof (induction mx d arbitrary: fs rule: split_frames.induct)
  case (1 mx d)
  show ?case
  proof (cases "length d < 2 \<or> length d < header d + 2")
    case True
    then have "fs = [] \<and> rest = d" using "1.prems" by (subst (asm) split_frames.simps) (auto simp: Let_def split: if_splits)
    then show ?thesis using "1.prems" by (simp add: incomplete_def)
  next
    case False
    then obtain gs where h: "\<not> (header d < 12 \<or> mx < header d)" and g: "split_frames mx (drop (header d + 2) d) = Some (gs, rest)"
      and fs: "fs = take (header d) (drop 2 d) # gs"
      using "1.prems" by (subst (asm) split_frames.simps) (auto simp: Let_def split: if_splits)
    have IH: "drop (header d + 2) d = concat (map frame_bytes gs) @ rest \<and> incomplete mx rest \<and> list_all (frame_ok mx) gs"
      using "1.IH" [of "header d" gs] False h g "1.prems" by simp
    have l: "length (take (header d) (drop 2 d)) = header d" using False by auto
    have "to_be 2 (of_nat (header d) :: u16) = take 2 d" unfolding header_def using False by (simp add: to_be_from_be)
    then have "frame_bytes (take (header d) (drop 2 d)) = take (header d + 2) d"
      unfolding frame_bytes_def l using take_add [of 2 "header d" d] by (simp add: add.commute)
    then have "d = frame_bytes (take (header d) (drop 2 d)) @ concat (map frame_bytes gs) @ rest" using IH by (metis append_take_drop_id)
    moreover have "frame_ok mx (take (header d) (drop 2 d))" using h l by (simp add: frame_ok_def)
    ultimately show ?thesis using IH fs by simp
  qed
qed

section \<open>Feeding\<close>

definition caps_exact :: "vec \<Rightarrow> bool" where
  "caps_exact v \<longleftrightarrow> v_cap v = (if v_data v = [] then 0 else if length (v_data v) < 2 then 2 else header (v_data v) + 2)"

definition part_ok :: "bool \<Rightarrow> vec \<Rightarrow> bool" where
  "part_ok exact v \<longleftrightarrow> (v_cap v = 0 \<longrightarrow> v_data v = []) \<and> (exact \<longrightarrow> caps_exact v)"

lemma part_ok_new: "part_ok exact vec_new"
  by (simp add: part_ok_def caps_exact_def vec_new_def)

lemma take_min_length: "take (min k (length b)) b = take k b" "drop (min k (length b)) b = drop k b"
  by (auto simp: min_def)

lemma fill_header_cases:
  "v_cap v = 0 \<Longrightarrow> fill_header alloc b v = (vec_extend alloc (take 2 b) (vec_with_capacity alloc 2), drop 2 b)"
  "v_cap v \<noteq> 0 \<Longrightarrow> length (v_data v) < 2 \<Longrightarrow> fill_header alloc b v = (vec_extend alloc (take (2 - length (v_data v)) b) v, drop (2 - length (v_data v)) b)"
  "v_cap v \<noteq> 0 \<Longrightarrow> \<not> length (v_data v) < 2 \<Longrightarrow> fill_header alloc b v = (v, b)"
  by (simp_all add: fill_header_def Let_def vec_with_capacity_def take_min_length)

lemma vec_extend_cap:
  assumes "\<And>n. n \<le> alloc n"
  shows "0 < v_cap v \<Longrightarrow> 0 < v_cap (vec_extend alloc l v)" "length (v_data v) + length l \<le> v_cap v \<Longrightarrow> v_cap (vec_extend alloc l v) = v_cap v"
  using assms [of "max 8 (max (2 * v_cap v) (length (v_data v) + length l))"] by (simp_all add: vec_extend_def Let_def)

lemma fill_header_part:
  assumes h: "fill_header alloc b v = (u, rest)" and v: "part_ok exact v" and a: "\<And>n. n \<le> alloc n" "exact \<longrightarrow> (\<forall>n. alloc n = n)"
  shows "0 < v_cap u" and "exact \<Longrightarrow> v_cap u = (if length (v_data v) < 2 then 2 else v_cap v)"
proof -
  have a2: "2 \<le> alloc 2" using a(1) .
  have w: "v_cap (vec_extend alloc (take 2 b) (vec_with_capacity alloc 2)) = alloc 2"
    using a2 by (subst vec_extend_cap(2) [OF a(1)]) (simp_all add: vec_with_capacity_def)
  consider "v_cap v = 0" "v_data v = []" | "v_cap v \<noteq> 0" "length (v_data v) < 2" | "v_cap v \<noteq> 0" "\<not> length (v_data v) < 2"
    using v by (auto simp: part_ok_def)
  then show "0 < v_cap u"
  proof cases
    case 1
    then show ?thesis using h w a2 by (auto simp: fill_header_cases)
  next
    case 2
    then show ?thesis using h vec_extend_cap(1) [OF a(1), of v] by (auto simp: fill_header_cases)
  next
    case 3
    then show ?thesis using h by (simp add: fill_header_cases)
  qed
  assume e: exact
  consider "v_cap v = 0" "v_data v = []" | "v_cap v = 2" "length (v_data v) < 2" | "v_cap v \<noteq> 0" "\<not> length (v_data v) < 2"
  proof -
    assume t: "v_cap v = 0 \<Longrightarrow> v_data v = [] \<Longrightarrow> thesis" "v_cap v = 2 \<Longrightarrow> length (v_data v) < 2 \<Longrightarrow> thesis"
      "v_cap v \<noteq> 0 \<Longrightarrow> \<not> length (v_data v) < 2 \<Longrightarrow> thesis"
    have c: "v_cap v = (if v_data v = [] then 0 else if length (v_data v) < 2 then 2 else header (v_data v) + 2)"
      using v e unfolding part_ok_def caps_exact_def by blast
    show thesis
    proof (cases "v_data v = []")
      case False
      then show ?thesis using c t(2,3) by (cases "length (v_data v) < 2") simp_all
    qed (use c t(1) in simp)
  qed
  then show "v_cap u = (if length (v_data v) < 2 then 2 else v_cap v)"
  proof cases
    case 1
    then show ?thesis using h w a(2) e by (auto simp: fill_header_cases)
  next
    case 2
    then show ?thesis using h vec_extend_cap(2) [OF a(1), of v "take (2 - length (v_data v)) b"] by (auto simp: fill_header_cases)
  next
    case 3
    then show ?thesis using h by (simp add: fill_header_cases)
  qed
qed

lemma fill_body_part:
  assumes h: "fill_body alloc b v = Ok (sz, u, rest)" and v: "0 < v_cap v" and a: "\<And>n. n \<le> alloc n"
  shows "0 < v_cap u" and "\<forall>n. alloc n = n \<Longrightarrow> v_cap v \<le> sz \<Longrightarrow> v_cap u = sz"
proof -
  let ?k = "sz - length (v_data v)"
  have u: "u = vec_extend alloc (take ?k b) (vec_reserve_exact alloc ?k v)" and len: "length (v_data v) \<le> sz"
    using h by (auto simp: fill_body_cases Let_def split: if_splits)
  have r: "0 < v_cap (vec_reserve_exact alloc ?k v)" using v a [of "length (v_data v) + ?k"] by (auto simp: vec_reserve_exact_def)
  then show "0 < v_cap u" unfolding u by (rule vec_extend_cap(1) [OF a])
  assume e: "\<forall>n. alloc n = n" "v_cap v \<le> sz"
  then have "v_cap (vec_reserve_exact alloc ?k v) = sz" using len by (auto simp: vec_reserve_exact_def)
  then show "v_cap u = sz" unfolding u using len by (subst vec_extend_cap(2) [OF a]) auto
qed

definition fed :: "bool \<Rightarrow> bytes list \<Rightarrow> bytes \<Rightarrow> tcp_frames \<Rightarrow> tcp_frames \<Rightarrow> bool" where
  "fed exact fs rest s s' \<longleftrightarrow> tf_max s' = tf_max s \<and> tf_bytes s' = tf_bytes s \<and> map v_data (tf_ready s') = map v_data (tf_ready s) @ fs
     \<and> v_data (tf_partial s') = rest \<and> part_ok exact (tf_partial s')
     \<and> (exact \<longrightarrow> map v_cap (tf_ready s') = map v_cap (tf_ready s) @ map (\<lambda>f. length f + 2) fs)"

lemma caps_exact_long: "caps_exact v \<Longrightarrow> 2 \<le> length (v_data v) \<Longrightarrow> v_cap v = header (v_data v) + 2"
  unfolding caps_exact_def by (cases "v_data v") (simp_all split: if_splits)

lemma strip_header_data:
  assumes "length (v_data u) = n + 2" and "v_data u = take (n + 2) d"
  shows "v_data (strip_header (n + 2) u) = take n (drop 2 d)"
proof -
  have "v_data (strip_header (n + 2) u) = drop 2 (v_data u)" using assms(1) by (simp add: strip_header_def put_def)
  then show ?thesis unfolding assms(2) by (simp add: drop_take)
qed

lemma split_Some:
  assumes "split_frames mx d = Some (fs, rest)"
  shows "length d < 2 \<Longrightarrow> fs = [] \<and> rest = d"
    and "2 \<le> length d \<Longrightarrow> 12 \<le> header d \<and> header d \<le> mx"
    and "2 \<le> length d \<Longrightarrow> length d < header d + 2 \<Longrightarrow> fs = [] \<and> rest = d"
    and "header d + 2 \<le> length d \<Longrightarrow> \<exists>gs. fs = take (header d) (drop 2 d) # gs \<and> split_frames mx (drop (header d + 2) d) = Some (gs, rest)"
  using assms by (subst (asm) split_frames.simps; auto simp: Let_def split: if_splits)+

lemma feed_frames:
  assumes "split_frames (tf_max s) (v_data (tf_partial s) @ b) = Some (fs, rest)" and "incomplete (tf_max s) (v_data (tf_partial s))"
    and "part_ok exact (tf_partial s)" and a: "\<And>n. n \<le> alloc n" "exact \<longrightarrow> (\<forall>n. alloc n = n)"
  shows "\<exists>s'. feed alloc b s = Ok s' \<and> fed exact fs rest s s'"
  using assms
proof (induction alloc b s arbitrary: fs rule: feed.induct)
  case (1 alloc b s)
  let ?p = "v_data (tf_partial s)" and ?d = "v_data (tf_partial s) @ b"
  show ?case
  proof (cases "b = []")
    case True
    then show ?thesis using "1.prems" by (simp add: feed.simps incomplete_def fed_def)
  next
    case b: False
    obtain v r1 where h: "fill_header alloc b (tf_partial s) = (v, r1)" by (metis surj_pair)
    have p0: "v_cap (tf_partial s) = 0 \<longrightarrow> ?p = []" using "1.prems"(3) by (simp add: part_ok_def)
    note hd = fill_header_data [OF h p0]
    note a = "1.prems"(4,5)
    note hp = fill_header_part [OF h "1.prems"(3) a]
    show ?thesis
    proof (cases "length (v_data v) < 2")
      case short: True
      then have "length ?d < 2" using hd(2) by (auto simp: min_def split: if_splits)
      then have z: "fs = []" "rest = ?d" using split_Some(1) [OF "1.prems"(1)] by simp_all
      have "length (v_data v @ r1) < 2" using hd(1) \<open>length ?d < 2\<close> by simp
      have len: "length (v_data v) = length ?d" using hd(2) short \<open>length ?d < 2\<close> by (auto simp: min_def split: if_splits)
      then have "v_data v = ?d" using arg_cong [OF hd(1), of "take (length ?d)"] by simp
      moreover have "feed alloc b s = Ok (s\<lparr>tf_partial := v\<rparr>)" using b h short by (subst feed.simps) simp
      moreover have "part_ok exact v" unfolding part_ok_def caps_exact_def using hp short \<open>v_data v = ?d\<close> b \<open>length ?d < 2\<close> by auto
      ultimately show ?thesis using z by (simp add: fed_def)
    next
      case long: False
      let ?sz = "header ?d + 2"
      have d2: "2 \<le> length ?d" using long hd(1) by (metis le_add1 length_append not_less order_trans)
      have hv: "header (v_data v) = header ?d" using long header_append [of "v_data v" r1] hd(1) by simp
      have szv: "length (v_data v) \<le> ?sz"
      proof (cases "length ?p < 2")
        case True
        then show ?thesis using hd(2) by simp
      next
        case False
        then show ?thesis using hd(2) "1.prems"(2) by (simp add: incomplete_iff)
      qed
      obtain u r2 where body: "fill_body alloc r1 v = Ok (?sz, u, r2)"
        using long szv hv by (auto simp: fill_body_cases Let_def header_def)
      note fb = fill_body_data [OF body] and fp = fill_body_part [OF body hp(1) a(1)]
      have "take ?sz (v_data v @ r1) = v_data v @ take (?sz - length (v_data v)) r1" "drop ?sz (v_data v @ r1) = drop (?sz - length (v_data v)) r1"
        using szv by simp_all
      then have u: "v_data u = take ?sz ?d" "r2 = drop ?sz ?d" unfolding hd(1) using fb(2,3) by simp_all
      have cap: "v_cap u = ?sz" if exact
      proof -
        have "caps_exact (tf_partial s)" using "1.prems"(3) that unfolding part_ok_def by blast
        then have "v_cap v \<le> ?sz" using hp(2) [OF that] caps_exact_long [of "tf_partial s"] by (cases "length ?p < 2") simp_all
        then show ?thesis using fp(2) a(2) that by blast
      qed
      show ?thesis
      proof (cases "?sz \<le> length ?d")
        case full: True
        let ?f = "strip_header ?sz u" and ?s = "s\<lparr>tf_partial := vec_new, tf_ready := tf_ready s @ [strip_header ?sz u]\<rparr>"
        obtain gs where gs: "fs = take (header ?d) (drop 2 ?d) # gs" "split_frames (tf_max s) (drop ?sz ?d) = Some (gs, rest)"
          using split_Some(4) [OF "1.prems"(1) full] by blast
        have len: "length (v_data u) = ?sz" using u full by simp
        have f: "v_data ?f = take (header ?d) (drop 2 ?d)" by (rule strip_header_data [OF len u(1)])
        have "\<exists>s'. feed alloc r2 ?s = Ok s' \<and> fed exact gs rest ?s s'"
        proof (rule "1.IH" (1) [OF b h [symmetric] refl long body refl refl len])
          show "split_frames (tf_max ?s) (v_data (tf_partial ?s) @ r2) = Some (gs, rest)" using gs(2) u(2) by (simp add: vec_new_def)
          show "incomplete (tf_max ?s) (v_data (tf_partial ?s))" by (simp add: incomplete_iff vec_new_def)
        qed (use a part_ok_new in auto)
        then obtain s' where s': "feed alloc r2 ?s = Ok s'" "fed exact gs rest ?s s'" by blast
        have "feed alloc b s = Ok s'" using b h long body len s'(1) by (subst feed.simps) simp
        moreover have lf: "length (v_data ?f) + 2 = v_cap ?f" if exact using f full cap [OF that] by (auto simp: strip_header_def)
        have fs': "fs = v_data ?f # gs" unfolding f by (rule gs(1))
        have "fed exact fs rest s s'" unfolding fs' using s'(2) lf by (simp add: fed_def)
        ultimately show ?thesis by blast
      next
        case part: False
        have z: "fs = []" "rest = ?d" using split_Some(3) [OF "1.prems"(1) d2] part by simp_all
        have "v_data u = ?d" "r2 = []" using u part by simp_all
        moreover from this have "feed alloc b s = Ok (s\<lparr>tf_partial := u\<rparr>)"
          using b h long body part by (subst feed.simps) (simp add: feed.simps [of _ "[]"])
        moreover have "part_ok exact u" unfolding part_ok_def caps_exact_def using fp(1) cap \<open>v_data u = ?d\<close> d2 by auto
        ultimately show ?thesis using z by (auto simp: fed_def)
      qed
    qed
  qed
qed

section \<open>Checking the headers\<close>

definition charge :: "bytes \<Rightarrow> nat" where
  "charge rest = (if rest = [] then 0 else if length rest < 2 then 2 else header rest + 2)"

lemma frame_byte_at: "n < length p + length b \<Longrightarrow> frame_byte p b n = Ok ((p @ b) ! n)"
  by (auto simp: frame_byte_def nth_append sub_chk_def)

lemma header_at: "at + 2 \<le> length d \<Longrightarrow> unat (from_be [d ! at, d ! (at + 1)] :: u16) = header (drop at d)"
proof -
  assume "at + 2 \<le> length d"
  then have "drop at d = d ! at # d ! (at + 1) # drop (at + 2) d" by (simp add: Cons_nth_drop_Suc)
  then show ?thesis by (simp add: header_def numeral_2_eq_2)
qed

lemma length_take_drop: "\<not> length d < n + 2 \<Longrightarrow> length (take n (drop 2 d)) = n"
  by auto

definition scanned :: "nat \<Rightarrow> nat \<Rightarrow> nat \<Rightarrow> (bytes list \<times> bytes) option \<Rightarrow> (io_error, nat \<times> nat) outcome \<Rightarrow> bool" where
  "scanned len count allocated r z \<longleftrightarrow> (case r of None \<Rightarrow> z = Err InvalidData
     | Some (fs, rest) \<Rightarrow> if 32 < count + length fs then z = Err InvalidData
         else \<exists>at' a. z = Ok (at', a) \<and> (if at' < len then a + 2 else a) = allocated + sum_list (map (\<lambda>f. length f + 2) fs) + charge rest)"

lemma scanned_Cons:
  assumes "scanned len (count + 1) (allocated + (length f + 2)) r z"
  shows "scanned len count allocated (map_option (\<lambda>(fs, rest). (f # fs, rest)) r) z"
proof (cases r)
  case (Some x)
  obtain fs rest where x: "x = (fs, rest)" by (cases x)
  have "sum_list (map (\<lambda>f. length f + 2) (f # fs)) = (length f + 2) + sum_list (map (\<lambda>f. length f + 2) fs)" "count + length (f # fs) = count + 1 + length fs" by simp_all
  then show ?thesis using assms unfolding scanned_def Some x option.map option.case prod.case by (simp only: add.assoc)
qed (use assms in \<open>simp add: scanned_def\<close>)

lemma scan_frames_split:
  assumes "at \<le> length p + length b" and "count \<le> 32"
  shows "scanned (length p + length b) count allocated (split_frames mx (drop at (p @ b)))
     (scan_frames (frame_byte p b) mx (length p + length b) at count allocated)"
  using assms
proof (induction "length p + length b - at" arbitrary: at count allocated rule: less_induct)
  case less
  let ?len = "length p + length b" and ?d = "drop at (p @ b)"
  let ?run = "scan_frames (frame_byte p b) mx ?len at count allocated"
  have left: "sub_chk ?len at = (Ok (length ?d) :: (io_error, nat) outcome)" using less.prems by (simp add: sub_chk_def)
  show ?case
  proof (cases "length ?d < 2")
    case True
    then have "?run = Ok (at, allocated)" unfolding scan_frames.simps [of _ _ _ at] left by simp
    moreover have "split_frames mx ?d = Some ([], ?d)" using True by (subst split_frames.simps) simp
    moreover have "at < ?len \<longleftrightarrow> ?d \<noteq> []" by auto
    ultimately show ?thesis using True less.prems(2) by (simp add: scanned_def charge_def)
  next
    case False
    let ?n = "header ?d"
    have h: "unat (from_be [(p @ b) ! at, (p @ b) ! (at + 1)] :: u16) = ?n" by (rule header_at) (use False in simp)
    have i: "frame_byte p b at = Ok ((p @ b) ! at)" "frame_byte p b (at + 1) = Ok ((p @ b) ! (at + 1))"
      by (rule frame_byte_at, use False in simp)+
    have run: "?run = (if ?n < 12 \<or> mx < ?n then Err InvalidData else if length ?d < ?n + 2 then Ok (?len, allocated + (?n + 2))
       else if 32 < count + 1 then Err InvalidData else scan_frames (frame_byte p b) mx ?len (at + (?n + 2)) (count + 1) (allocated + (?n + 2)))"
      unfolding scan_frames.simps [of _ _ _ at] left and_then.simps if_not_P [OF False] i h Let_def by (rule refl)
    have split: "split_frames mx ?d = (if ?n < 12 \<or> mx < ?n then None else if length ?d < ?n + 2 then Some ([], ?d)
       else map_option (\<lambda>(fs, rest). (take ?n (drop 2 ?d) # fs, rest)) (split_frames mx (drop (?n + 2) ?d)))"
      by (subst split_frames.simps) (simp only: if_not_P [OF False] Let_def)
    consider (bad) "?n < 12 \<or> mx < ?n" | (part) "\<not> (?n < 12 \<or> mx < ?n)" "length ?d < ?n + 2" | (full) "\<not> (?n < 12 \<or> mx < ?n)" "\<not> length ?d < ?n + 2" by blast
    then show ?thesis
    proof cases
      case bad
      then show ?thesis unfolding run split by (simp add: scanned_def)
    next
      case part
      have "charge ?d = ?n + 2" using False by (auto simp: charge_def)
      then show ?thesis using less.prems(2) unfolding run split if_not_P [OF part(1)] if_P [OF part(2)] by (simp add: scanned_def)
    next
      case full
      let ?f = "take ?n (drop 2 ?d)"
      have lf: "length ?f = ?n" by (rule length_take_drop [OF full(2)])
      have dd: "drop (?n + 2) ?d = drop (at + (?n + 2)) (p @ b)" by (simp only: drop_drop add.commute)
      show ?thesis
      proof (cases "32 < count + 1")
        case True
        then show ?thesis unfolding run split if_not_P [OF full(1)] if_not_P [OF full(2)] if_P [OF True]
          by (cases "split_frames mx (drop (?n + 2) ?d)") (auto simp: scanned_def)
      next
        case room: False
        have "scanned ?len (count + 1) (allocated + (?n + 2)) (split_frames mx (drop (at + (?n + 2)) (p @ b)))
          (scan_frames (frame_byte p b) mx ?len (at + (?n + 2)) (count + 1) (allocated + (?n + 2)))"
          by (rule less.hyps) (use full(2) room False in \<open>auto simp del: drop_append\<close>)
        then show ?thesis unfolding run split if_not_P [OF full(1)] if_not_P [OF full(2)] if_not_P [OF room] dd
          by (rule scanned_Cons [where f = ?f, unfolded lf])
      qed
    qed
  qed
qed

section \<open>The connection as a stream\<close>

text \<open>The stream that the buffered octets stand for: the complete frames with their headers, then the rest.\<close>

definition stream :: "tcp_frames \<Rightarrow> bytes" where
  "stream s = concat (map frame_bytes (map v_data (tf_ready s))) @ v_data (tf_partial s)"

definition frames_ok :: "tcp_frames \<Rightarrow> bool" where
  "frames_ok s \<longleftrightarrow> 12 \<le> tf_max s \<and> tf_max s \<le> MAX_WIRE \<and> list_all (frame_ok (tf_max s)) (map v_data (tf_ready s)) \<and> length (tf_ready s) \<le> 32
     \<and> incomplete (tf_max s) (v_data (tf_partial s)) \<and> (v_cap (tf_partial s) = 0 \<longrightarrow> v_data (tf_partial s) = [])
     \<and> tf_bytes s = length (stream s) \<and> tf_bytes s \<le> MAX_WIRE + 2"

definition caps_fit :: "bool \<Rightarrow> tcp_frames \<Rightarrow> bool" where
  "caps_fit exact s \<longleftrightarrow> part_ok exact (tf_partial s) \<and> (exact \<longrightarrow> map v_cap (tf_ready s) = map (\<lambda>f. length f + 2) (map v_data (tf_ready s)))"

lemma fed_ok:
  assumes s: "frames_ok s" "caps_fit exact s" and f: "fed exact fs rest (s\<lparr>tf_bytes := tf_bytes s + length b\<rparr>) s'"
    and d: "split_frames (tf_max s) (v_data (tf_partial s) @ b) = Some (fs, rest)"
    and n: "length (tf_ready s) + length fs \<le> 32" "tf_bytes s + length b \<le> MAX_WIRE + 2"
  shows "frames_ok s' \<and> caps_fit exact s' \<and> stream s' = stream s @ b \<and> tf_max s' = tf_max s"
proof -
  have mx: "tf_max s \<le> MAX_WIRE" using s by (simp add: frames_ok_def)
  note sp = split_frames_bytes [OF d mx]
  have m: "tf_max s' = tf_max s" "tf_bytes s' = tf_bytes s + length b" "map v_data (tf_ready s') = map v_data (tf_ready s) @ fs" "v_data (tf_partial s') = rest"
    "part_ok exact (tf_partial s')" "exact \<longrightarrow> map v_cap (tf_ready s') = map v_cap (tf_ready s) @ map (\<lambda>f. length f + 2) fs"
    using f by (simp_all add: fed_def)
  have st: "stream s' = stream s @ b" unfolding stream_def m(3,4) using sp by simp
  have "length (tf_ready s') = length (tf_ready s) + length fs" using arg_cong [OF m(3), of length] by simp
  moreover have "tf_bytes s' = length (stream s')" using st m(2) s by (simp add: frames_ok_def)
  moreover have "list_all (frame_ok (tf_max s')) (map v_data (tf_ready s'))" unfolding m(1,3) using s(1) sp by (simp add: frames_ok_def)
  ultimately have "frames_ok s'" using s sp n m(1,2,4,5) by (simp add: frames_ok_def part_ok_def)
  moreover have "caps_fit exact s'" using m(5,6) s(2) unfolding caps_fit_def m(3) by simp
  ultimately show ?thesis using st m(1) by simp
qed

lemma input_run:
  assumes s: "frames_ok s" "caps_fit exact s" and a: "\<And>n. n \<le> alloc n" "exact \<longrightarrow> (\<forall>n. alloc n = n)" and n: "tf_bytes s + length b \<le> MAX_WIRE + 2"
  shows "case split_frames (tf_max s) (v_data (tf_partial s) @ b) of None \<Rightarrow> input_with_limit alloc b limit s = Err InvalidData
     | Some (fs, rest) \<Rightarrow> if 32 < length (tf_ready s) + length fs
           \<or> min limit (MAX_WIRE + 2) < sum_list (map v_cap (tf_ready s)) + sum_list (map (\<lambda>f. length f + 2) fs) + charge rest
         then input_with_limit alloc b limit s = Err InvalidData
         else \<exists>s'. input_with_limit alloc b limit s = Ok s' \<and> frames_ok s' \<and> caps_fit exact s' \<and> stream s' = stream s @ b \<and> tf_max s' = tf_max s"
proof -
  let ?p = "v_data (tf_partial s)" and ?s = "s\<lparr>tf_bytes := tf_bytes s + length b\<rparr>"
  let ?len = "length ?p + length b"
  let ?scan = "scan_frames (frame_byte ?p b) (tf_max s) ?len 0 (length (tf_ready s)) (sum_list (map v_cap (tf_ready s)))"
  have "\<not> (MAX_WIRE + 2) - tf_bytes s < length b" using n s(1) by (auto simp: frames_ok_def)
  then have run: "input_with_limit alloc b limit s = and_then ?scan (\<lambda>(at, allocated).
      if min limit (MAX_WIRE + 2) < (if at < ?len then allocated + 2 else allocated) then Err InvalidData else feed alloc b ?s)"
    unfolding input_with_limit_def Let_def by simp
  have sc: "scanned ?len (length (tf_ready s)) (sum_list (map v_cap (tf_ready s))) (split_frames (tf_max s) (?p @ b)) ?scan"
    using scan_frames_split [of 0 ?p b "length (tf_ready s)"] s(1) by (simp add: frames_ok_def)
  show ?thesis
  proof (cases "split_frames (tf_max s) (?p @ b)")
    case None
    then show ?thesis using sc run by (simp add: scanned_def)
  next
    case (Some x)
    obtain fs rest where x: "x = (fs, rest)" by (cases x)
    show ?thesis
    proof (cases "32 < length (tf_ready s) + length fs")
      case True
      then show ?thesis using sc run Some x by (simp add: scanned_def)
    next
      case False
      then obtain at' al where z: "?scan = Ok (at', al)" and al: "(if at' < ?len then al + 2 else al)
          = sum_list (map v_cap (tf_ready s)) + sum_list (map (\<lambda>f. length f + 2) fs) + charge rest"
        using sc Some x unfolding scanned_def by auto
      have "\<exists>s'. feed alloc b ?s = Ok s' \<and> fed exact fs rest ?s s'"
        by (rule feed_frames) (use s a Some x in \<open>auto simp: frames_ok_def caps_fit_def\<close>)
      then obtain s' where s': "feed alloc b ?s = Ok s'" "fed exact fs rest ?s s'" by blast
      have "frames_ok s' \<and> caps_fit exact s' \<and> stream s' = stream s @ b \<and> tf_max s' = tf_max s"
        by (rule fed_ok [OF s s'(2) Some [unfolded x] _ n]) (use False in simp)
      then show ?thesis unfolding run z and_then.simps prod.case al Some x option.case using False s'(1) by auto
    qed
  qed
qed

lemma input_ensures:
  assumes s: "frames_ok s" and a: "\<And>n. n \<le> alloc n"
  shows "ensures (input_with_limit alloc b limit s) (\<lambda>s'. frames_ok s' \<and> stream s' = stream s @ b \<and> tf_max s' = tf_max s)"
proof (cases "tf_bytes s + length b \<le> MAX_WIRE + 2")
  case True
  have "caps_fit False s" using s by (simp add: caps_fit_def part_ok_def frames_ok_def)
  from input_run [OF s this a _ True, of limit] show ?thesis by (auto split: option.splits if_splits)
next
  case False
  then have "(MAX_WIRE + 2) - tf_bytes s < length b" using s by (auto simp: frames_ok_def)
  then show ?thesis by (simp add: input_with_limit_def Let_def)
qed

lemma pop_ensures:
  assumes s: "frames_ok s"
  shows "ensures (frames_pop s) (\<lambda>(r, s'). frames_ok s' \<and> (case r of None \<Rightarrow> tf_ready s = [] \<and> s' = s | Some f \<Rightarrow> stream s = frame_bytes f @ stream s'))"
proof (cases "tf_ready s")
  case (Cons f fs)
  have "tf_bytes s = length (v_data f) + 2 + length (concat (map frame_bytes (map v_data fs)) @ v_data (tf_partial s))"
    using s Cons by (simp add: frames_ok_def stream_def)
  then show ?thesis using s Cons by (auto simp: frames_pop_def frames_ok_def stream_def sub_chk_def)
qed (use s in \<open>simp add: frames_pop_def\<close>)

lemma new_ensures: "ensures (frames_new mx) (\<lambda>s. frames_ok s \<and> caps_fit True s \<and> stream s = [] \<and> tf_max s = mx)"
  by (auto simp: frames_new_def frames_ok_def stream_def vec_new_def incomplete_iff caps_fit_def part_ok_def caps_exact_def)

section \<open>Delivery\<close>

fun input_all :: "(nat \<Rightarrow> nat) \<Rightarrow> bytes list \<Rightarrow> tcp_frames \<Rightarrow> (io_error, tcp_frames) outcome" where
  "input_all alloc [] s = Ok s"
| "input_all alloc (b # bs) s = and_then (frames_input alloc b s) (input_all alloc bs)"

lemma split_concat:
  "list_all (frame_ok mx) fs \<Longrightarrow> mx \<le> MAX_WIRE \<Longrightarrow> split_frames mx (concat (map frame_bytes fs) @ d) = map_option (\<lambda>(gs, rest). (fs @ gs, rest)) (split_frames mx d)"
  by (induction fs) (simp_all add: split_frame option.map_comp comp_def case_prod_unfold option.map_ident)

lemma split_prefix:
  assumes "p @ q = concat (map frame_bytes ms)" and "list_all (frame_ok mx) ms" and "mx \<le> MAX_WIRE"
  shows "\<exists>fs rest. split_frames mx p = Some (fs, rest) \<and> length fs \<le> length ms \<and> sum_list (map (\<lambda>f. length f + 2) fs) + charge rest \<le> length (p @ q)"
  using assms
proof (induction ms arbitrary: p)
  case Nil
  then show ?case by (subst split_frames.simps) (simp add: charge_def)
next
  case (Cons m ms)
  have m: "12 \<le> length m" "length m \<le> mx" "length m \<le> MAX_WIRE" "frame_ok mx m" using Cons.prems(2,3) by (auto simp: frame_ok_def)
  have pq: "p @ q = frame_bytes m @ concat (map frame_bytes ms)" using Cons.prems(1) by simp
  then have len: "length (p @ q) = length m + 2 + length (concat (map frame_bytes ms))" by simp
  consider (short) "length p < 2" | (part) "2 \<le> length p" "length p < length m + 2" | (full) "length m + 2 \<le> length p" by linarith
  then show ?case
  proof cases
    case short
    then have "split_frames mx p = Some ([], p)" by (subst split_frames.simps) simp
    moreover have "charge p \<le> 2" using short by (simp add: charge_def)
    ultimately show ?thesis using len by simp
  next
    case part
    have h: "header p = length m" using header_append [OF part(1), of q] header_frame(1) [OF m(3), of "concat (map frame_bytes ms)"] pq by simp
    then have "split_frames mx p = Some ([], p)" using part m by (subst split_frames.simps) simp
    moreover have "charge p = length m + 2" using h part(1) by (auto simp: charge_def)
    ultimately show ?thesis using len by simp
  next
    case full
    have "take (length m + 2) p = frame_bytes m" using arg_cong [OF pq, of "take (length m + 2)"] full by simp
    then obtain p' where p': "p = frame_bytes m @ p'" by (metis append_take_drop_id)
    then have p'q: "p' @ q = concat (map frame_bytes ms)" using pq by simp
    note p' = p' p'q
    obtain fs rest where "split_frames mx p' = Some (fs, rest)" "length fs \<le> length ms" "sum_list (map (\<lambda>f. length f + 2) fs) + charge rest \<le> length (p' @ q)"
      using Cons.IH [OF p'(2)] Cons.prems by auto
    then show ?thesis unfolding p'(1) split_frame [OF m(4) Cons.prems(3)] using p' by (intro exI [of _ "m # fs"] exI [of _ rest]) simp
  qed
qed

lemma deliver_all:
  assumes "frames_ok s" and "caps_fit True s" and a: "\<forall>n. alloc n = n" and "stream s @ concat bs = concat (map frame_bytes ms)"
    and ms: "list_all (frame_ok (tf_max s)) ms" "length ms \<le> 32" "length (concat (map frame_bytes ms)) \<le> MAX_WIRE + 2"
  shows "\<exists>s'. input_all alloc bs s = Ok s' \<and> frames_ok s' \<and> tf_max s' = tf_max s \<and> stream s' = concat (map frame_bytes ms)"
  using assms
proof (induction bs arbitrary: s)
  case (Cons b bs)
  let ?S = "concat (map frame_bytes ms)" and ?p = "v_data (tf_partial s)" and ?r = "map v_data (tf_ready s)"
  have pre: "(stream s @ b) @ concat bs = ?S" using Cons.prems(4) by simp
  have mx: "tf_max s \<le> MAX_WIRE" and rd: "list_all (frame_ok (tf_max s)) ?r" and held: "tf_bytes s = length (stream s)" using Cons.prems(1) by (simp_all add: frames_ok_def)
  obtain fs' rest where sp: "split_frames (tf_max s) (stream s @ b) = Some (fs', rest)" "length fs' \<le> length ms"
    "sum_list (map (\<lambda>f. length f + 2) fs') + charge rest \<le> length ?S"
    using split_prefix [OF pre Cons.prems(5) mx] unfolding pre by blast
  have "split_frames (tf_max s) (stream s @ b) = map_option (\<lambda>(gs, rest). (?r @ gs, rest)) (split_frames (tf_max s) (?p @ b))"
    unfolding stream_def append_assoc by (rule split_concat [OF rd mx])
  then obtain fs where fs: "split_frames (tf_max s) (?p @ b) = Some (fs, rest)" "fs' = ?r @ fs"
    using sp(1) by (cases "split_frames (tf_max s) (?p @ b)") auto
  have caps: "sum_list (map v_cap (tf_ready s)) = sum_list (map (\<lambda>f. length f + 2) ?r)" using Cons.prems(2) unfolding caps_fit_def by metis
  have n: "tf_bytes s + length b \<le> MAX_WIRE + 2" using arg_cong [OF pre, of length] Cons.prems(7) by (simp add: held)
  have fit: "\<not> (32 < length (tf_ready s) + length fs \<or> min (MAX_WIRE + 2) (MAX_WIRE + 2) < sum_list (map v_cap (tf_ready s)) + sum_list (map (\<lambda>f. length f + 2) fs) + charge rest)"
    unfolding caps using sp(2,3) fs(2) Cons.prems(6,7) by simp
  from input_run [OF Cons.prems(1,2) _ _ n, of alloc "MAX_WIRE + 2", unfolded fs(1) option.case prod.case if_not_P [OF fit]] a
  obtain s1 where s1: "frames_input alloc b s = Ok s1" "frames_ok s1" "caps_fit True s1" "stream s1 = stream s @ b" "tf_max s1 = tf_max s"
    unfolding frames_input_def by auto
  have "\<exists>s'. input_all alloc bs s1 = Ok s' \<and> frames_ok s' \<and> tf_max s' = tf_max s1 \<and> stream s' = ?S"
    by (rule Cons.IH) (use s1 a pre Cons.prems(5-7) in simp_all)
  then show ?case using s1 by simp
qed simp

lemma stream_ready:
  assumes "frames_ok s" and "stream s = concat (map frame_bytes ms)" and "list_all (frame_ok (tf_max s)) ms"
  shows "map v_data (tf_ready s) = ms \<and> v_data (tf_partial s) = []"
proof -
  have mx: "tf_max s \<le> MAX_WIRE" and rd: "list_all (frame_ok (tf_max s)) (map v_data (tf_ready s))" and p: "incomplete (tf_max s) (v_data (tf_partial s))"
    using assms(1) by (simp_all add: frames_ok_def)
  have "split_frames (tf_max s) (stream s) = Some (map v_data (tf_ready s), v_data (tf_partial s))"
    unfolding stream_def split_concat [OF rd mx] using p by (simp add: incomplete_def)
  moreover have "split_frames (tf_max s) (concat (map frame_bytes ms) @ []) = Some (ms, [])"
    unfolding split_concat [OF assms(3) mx] by (subst split_frames.simps) simp
  ultimately show ?thesis using assms(2) by simp
qed

section \<open>Properties\<close>

text \<open>
  C16: the framing of a DNS connection refines a stream of octets: input appends its octets to the stream
  or is refused and changes nothing, a popped frame is the first of the stream, and no call panics. At
  most 32 frames and 65537 octets are held, and every frame has between 12 and the maximum of octets.
\<close>

theorem tcp_frames_refine_stream:
  assumes "\<forall>n. n \<le> alloc n" and "frames_ok s"
  shows "ensures (input_with_limit alloc b limit s) (\<lambda>s'. frames_ok s' \<and> stream s' = stream s @ b)
    \<and> ensures (frames_pop s) (\<lambda>(r, s'). frames_ok s' \<and> (case r of None \<Rightarrow> tf_ready s = [] \<and> s' = s | Some f \<Rightarrow> stream s = frame_bytes f @ stream s'))
    \<and> ensures (frames_new mx) (\<lambda>s'. frames_ok s' \<and> stream s' = [])"
proof -
  have "ensures (input_with_limit alloc b limit s) (\<lambda>s'. frames_ok s' \<and> stream s' = stream s @ b)"
    by (rule ensures_mono [OF input_ensures [OF assms(2)]]) (use assms(1) in auto)
  then show ?thesis using pop_ensures [OF assms(2)] new_ensures [of mx] by (auto elim: ensures_mono)
qed

theorem tcp_frames_refine_stream_witness:
  "ensures (input_with_limit (\<lambda>n. n) [0] 100 \<lparr>tf_max = 512, tf_partial = vec_new, tf_ready = [], tf_bytes = 0\<rparr>) (\<lambda>s'. stream s' = [0])"
proof -
  let ?s = "\<lparr>tf_max = 512, tf_partial = vec_new, tf_ready = [], tf_bytes = 0\<rparr>"
  have s: "frames_ok ?s" "stream ?s = []" using new_ensures [of 512] by (simp_all add: frames_new_def)
  from tcp_frames_refine_stream [OF _ s(1), of "\<lambda>n. n" "[0]" 100 512] show ?thesis unfolding s(2) by (auto elim: ensures_mono)
qed



end
