(* ===== verification/Spec2Isabelle.thy ===== *)
theory Spec2Isabelle
  imports Dhcpv6_Wire Nat64_Bindings_Props Nat64_Selection_Props Reassembly_Roundtrip Ipv4_Host_Props Nat64_Translate_Props Dhcp4_Client_Props Dns_Wire_Props Dns_Tcp
begin

text \<open>
  A verification library for \<open>snak-machine-rs\<close>, a stub router in user space: it connects one IPv6
  stub network to the adjacent infrastructure link, advertises prefixes and routes on both, obtains
  a delegated prefix and an IPv4 address, and translates between the families with a stateful NAT64.
  File names below are relative to \<open>src/src/\<close>.

  \<^bold>\<open>The program's parts and how they interact.\<close> Packets from a link are opened by the wire format
  (\<open>wire.rs\<close>, \<open>ipv4/wire.rs\<close>, \<open>wire/dhcpv6.rs\<close>). Router Advertisements leave at the times of the
  scheduler (\<open>scheduler.rs\<close>), which draws its delays from the sampler of \<open>time.rs\<close>. Fragments are
  collected by the reassembler (\<open>ip_reassembly.rs\<close>) before they reach the translator
  (\<open>nat64/translate.rs\<close>), which reads its headers and quoted packets (\<open>nat64/translate/headers.rs\<close>,
  \<open>nat64/translate/errors.rs\<close>), keeps its flows in the binding tables (\<open>nat64/bindings.rs\<close> and its
  submodules) and takes outside ports from the registry shared with the router's own sockets
  (\<open>service_io/ports.rs\<close>). The prefixes it serves are chosen by the selector (\<open>nat64/mod.rs\<close>,
  \<open>nat64/selection.rs\<close>). IPv4 packets leave through the IPv4 host (\<open>ipv4/mod.rs\<close>), which resolves
  the next hop with ARP, under the address and routes the DHCPv4 client (\<open>ipv4/dhcp/mod.rs\<close>,
  \<open>ipv4/dhcp/wire.rs\<close>) has obtained. Names are served by a resolver, a multicast DNS responder and a
  registration service, which all speak the DNS wire format (\<open>dns/wire.rs\<close>), over UDP and over TCP
  with its frames.

  \<^bold>\<open>How code becomes definitions.\<close> A Rust function that can fail or panic returns \<open>outcome\<close>: \<open>Ok\<close>,
  \<open>Err\<close> with the kind of the error, or \<open>Panic\<close> for an index out of range, an arithmetic overflow or
  an \<open>unwrap\<close> of \<open>None\<close>, so that the absence of panics is a theorem and not an assumption. A method
  on \<open>&mut self\<close> returns its outcome together with the state it leaves behind, on the error paths
  too. Machine integers are words of their width; \<open>add_chk\<close>, \<open>sub_chk\<close> and \<open>word_sub_chk\<close> are the
  checked operators, \<open>saturating_add\<close> and \<open>saturating_sub\<close> the saturating ones. A \<open>BTreeMap\<close> is the
  type of \<open>BTree_Map\<close>, an association list sorted by key, so iteration has the order of the source.
  The random source is the script of \<open>ScriptedRandom\<close>; a run of it that ends is the error the
  operating system's source may give. The clock is an argument of every call, as in the source.

  \<^bold>\<open>Theories.\<close>
  \<^item> \<open>Prelude\<close>: outcomes, byte strings, checked indexing, big-endian codecs; the collection \<open>wp\<close>, the
    predicates \<open>ensures\<close> and \<open>holds\<close> for results and results with state; the locales \<open>item_stream\<close>
    (a concatenation of encoded items is read back item by item) and \<open>call_invariant\<close> (an invariant
    of the start states that every call keeps holds in every reachable state) with its extension
    \<open>call_refinement\<close> (every call is a number of steps of an abstract state machine).
  \<^item> \<open>BTree_Map\<close>: ordered maps with the locale \<open>ordered_map\<close> of their laws.
  \<^item> \<open>Checksum\<close>: the two checksum loops of the source and the locale \<open>internet_checksum\<close>, which relates
    both to the ones' complement sum; its limit of 131000 octets is above every packet and keeps the
    32-bit accumulator from wrapping.
  \<^item> \<open>Wire\<close>, \<open>Dhcpv6_Wire\<close>, \<open>Ipv4_Wire\<close>: packet, option and message formats. Decoders never panic and
    accept only what the format allows; encoders and decoders are inverse.
  \<^item> \<open>Time_Sched\<close>: lifetimes, the rejection sampler, and the scheduler as a state machine, with the
    spacing and the intervals of advertisements.
  \<^item> \<open>Ports\<close>: leases and registry are in bijection and capacities hold; a dropped lease frees its port.
  \<^item> \<open>Nat64_Tables\<close>: the TCP session machine, the TCP header reader and the ICMP error tables.
  \<^item> \<open>Nat64_Bindings\<close>: binding and session tables. \<open>Nat64_Bindings_Inv\<close> has the invariant (indexes inverse,
    leases held, counters exact, capacities) and the steps that keep it, \<open>Nat64_Bindings_Calls\<close> the
    calls as a step relation, \<open>Nat64_Bindings_Props\<close> the properties: consistency, no panics, stability
    of live mappings, the round trip of an exchange, filtering, allocation.
  \<^item> \<open>Nat64_Selection\<close>, \<open>Nat64_Selection_Props\<close>: observed prefixes, policy, promises and the selection; what
    is announced is backed and recordable, disabling withdraws everything.
  \<^item> \<open>Nat64_Packets\<close>: header walks, ports, checksums, quoted packets and ICMP extensions; the incremental
    checksum update and the translation of quoted packets equal the full computation.
  \<^item> \<open>Nat64_Translate\<close>, \<open>Nat64_Translate_Inv\<close>, \<open>Nat64_Translate_Props\<close>: the translator with both directions, errors,
    hairpinning and timers over all of the above; it never panics and sends only under its own
    addresses. The callbacks \<open>source_allowed\<close> and \<open>reachable\<close>, closures of the caller, are arguments.
  \<^item> \<open>Reassembly\<close>, \<open>Reassembly_Roundtrip\<close>: the fragmenter and the bounded fragment table; fragments in any
    order give back the packet.
  \<^item> \<open>Ipv4_Host\<close>, \<open>Ipv4_Host_Props\<close>: routes, next hops, address resolution, queues and the ARP rate limit.
  \<^item> \<open>Dhcp4_Wire\<close>, \<open>Dhcp4_Wire_Props\<close>: replies of DHCPv4 servers and the leases in them; parsing never
    panics, leases are well formed, search lists are read back.
  \<^item> \<open>Dhcp4_Client\<close>: the client. \<open>Dhcp4_Client_Steps\<close> has its invariant, the abstract life cycle of an
    address and what every call keeps of them, \<open>Dhcp4_Client_Props\<close> the runs: the refinement of the
    life cycle, probing before use, expiry, and the run after which no address is asked for again.
  \<^item> \<open>Dns_Wire\<close>: names, records and messages, the parser as a state monad over its cursor, its known
    offsets and its count of work, and the encoder. \<open>Dns_Wire_Parse\<close> shows what the parser accepts,
    \<open>Dns_Wire_Read\<close> that it reads what is laid out in the octets, \<open>Dns_Wire_Write\<close> that writers lay it
    out so (locale \<open>name_writer\<close>, interpreted for names in full and for the compression dictionary),
    \<open>Dns_Wire_Message\<close> the same for whole messages, and \<open>Dns_Wire_Props\<close> the properties: soundness, the
    round trip in both contexts, acceptance, the bound on the steps of a name.
  \<^item> \<open>Dns_Tcp\<close>: the framing of DNS over TCP with the capacities of its vectors, a refinement of a
    stream of octets; framed messages are delivered however the connection cuts them.

  \<^bold>\<open>Bounds.\<close> The walks over extension headers take the sixteen steps of the source's loops. The loop
  over IPv4 options in \<open>source_route_loop\<close> has the header length as fuel and panics when it runs out,
  which the proofs exclude; the loop over the labels of a search list takes the 128 rounds of the
  source; the walk over a DNS name ends by the source's count of work, 262144 for a message, and in at
  most 192 steps by its limits on hops and length; the other loops are total by their measure. The capacities
  of vectors in \<open>Dns_Tcp\<close> are given by an argument \<open>alloc\<close>, of which only the documented lower bound is
  assumed for safety, and exactness for the acceptance of all messages. The incremental checksum is
  proved for messages of at most 65490 octets, above what an IPv4 packet can quote.

  \<^bold>\<open>Not modelled.\<close> Sockets, raw links, files, threads and the event loop (\<open>io\<close>, \<open>platform\<close>, \<open>runtime.rs\<close>,
  \<open>main.rs\<close>, \<open>config.rs\<close>) are input and output; \<open>service_io\<close> except the registry wraps third-party
  stacks and TLS. The services built on the
  DNS wire format (\<open>dns\<close>, \<open>mdns\<close>, \<open>srp\<close>, \<open>discovery_proxy\<close>), the stub router's
  state machine (\<open>router\<close>), the policy file of \<open>nat64/config.rs\<close> and the formats of \<open>persist.rs\<close> are
  logic of the program that this library does not cover.
\<close>

end
